(* ===== verification/Prelude.thy ===== *)
theory Prelude
  imports Main "HOL-Library.Word"
begin

text \<open>
  What the component theories share: the widths of the C integers the connector uses, the
  result type of its \<open>FUNC_GOTO_ERROR\<close> paths, the pieces of the C standard library that
  the sources call on strings (\<open>strchr\<close>, \<open>strrchr\<close>, \<open>strtok\<close>, \<open>atoi\<close>, \<open>%d\<close> and
  \<open>%llu\<close> conversions) and the lemmas on lists, options and decimal digits the proofs use.

  C strings are Isabelle strings without the terminating NUL; \<open>strlen\<close> is \<open>length\<close>.
\<close>

type_synonym u8 = "8 word"
type_synonym u32 = "32 word"
type_synonym u64 = "64 word"

text \<open>The collections the component theories extend.\<close>

named_theorems table_simps \<open>characteristic equations of the containers\<close>
named_theorems step_simps \<open>unfolding rules of state-machine steps\<close>
named_theorems codec_simps \<open>rewriting of encoders and decoders\<close>

section \<open>Characters and strings\<close>

definition is_digit_char :: "char \<Rightarrow> bool" where
  "is_digit_char c \<longleftrightarrow> c \<in> set ''0123456789''"

definition is_space_char :: "char \<Rightarrow> bool" where
  \<comment> \<open>\<open>isspace\<close> in the C locale: space, \<open>\t\<close>, \<open>\n\<close>, \<open>\v\<close>, \<open>\f\<close>, \<open>\r\<close>.\<close>
  "is_space_char c \<longleftrightarrow> of_char c = (32::nat) \<or> (9 \<le> (of_char c::nat) \<and> (of_char c::nat) \<le> 13)"

definition is_alnum_char :: "char \<Rightarrow> bool" where
  \<comment> \<open>\<open>isalnum\<close> in the C locale.\<close>
  "is_alnum_char c \<longleftrightarrow> (let n = (of_char c::nat) in
     (48 \<le> n \<and> n \<le> 57) \<or> (65 \<le> n \<and> n \<le> 90) \<or> (97 \<le> n \<and> n \<le> 122))"

text \<open>\<open>strrchr (s, c)\<close> as the part before and the part after the last occurrence.\<close>

fun split_last :: "char \<Rightarrow> string \<Rightarrow> (string \<times> string) option" where
  "split_last c [] = None"
| "split_last c (x # xs) =
     (case split_last c xs of
        Some (pre, post) \<Rightarrow> Some (x # pre, post)
      | None \<Rightarrow> if x = c then Some ([], xs) else None)"

lemma split_last_None_iff: "split_last c s = None \<longleftrightarrow> c \<notin> set s"
  by (induction s) (auto split: option.splits)

lemma split_last_Some:
  "split_last c s = Some (pre, post) \<Longrightarrow> s = pre @ c # post \<and> c \<notin> set post"
proof (induction s arbitrary: pre post)
  case Nil
  then show ?case by simp
next
  case (Cons x s)
  show ?case
  proof (cases "split_last c s")
    case None
    with Cons.prems show ?thesis
      by (auto simp: split_last_None_iff split: if_splits)
  next
    case (Some p)
    with Cons show ?thesis by (cases p) auto
  qed
qed

text \<open>
  The tokens a loop of \<open>strtok\<close> (or \<open>strtok_r\<close>) calls returns for one delimiter set: the
  maximal non-empty runs of characters outside the set.
\<close>

function strtok_all :: "string \<Rightarrow> string \<Rightarrow> string list" where
  "strtok_all delims s =
     (let t = dropWhile (\<lambda>c. c \<in> set delims) s in
      if t = [] then []
      else takeWhile (\<lambda>c. c \<notin> set delims) t
           # strtok_all delims (dropWhile (\<lambda>c. c \<notin> set delims) t))"
  by pat_completeness auto
termination
proof (relation "measure (\<lambda>(d, s). length s)", goal_cases)
  case 1
  then show ?case by simp
next
  case (2 delims s t)
  then obtain x xs where t: "t = x # xs" and x: "x \<notin> set delims"
    by (metis (no_types, lifting) dropWhile_eq_Cons_conv list.exhaust)
  have "length (dropWhile (\<lambda>c. c \<notin> set delims) t) < length t"
    using t x by (simp add: le_imp_less_Suc length_dropWhile_le)
  moreover have "length t \<le> length s"
    using 2 by (simp add: length_dropWhile_le)
  ultimately show ?case by simp
qed

declare strtok_all.simps [simp del]

lemma strtok_all_Nil [simp]: "strtok_all d [] = []"
  by (simp add: strtok_all.simps [of d "[]"])

lemma strtok_all_single:
  assumes "s \<noteq> []" and "\<And>c. c \<in> set s \<Longrightarrow> c \<notin> set d"
  shows "strtok_all d s = [s]"
proof -
  have "dropWhile (\<lambda>c. c \<in> set d) s = s"
    using assms by (cases s) auto
  moreover have "takeWhile (\<lambda>c. c \<notin> set d) s = s" "dropWhile (\<lambda>c. c \<notin> set d) s = []"
    using assms by auto
  ultimately show ?thesis
    using assms(1) by (subst strtok_all.simps) (simp only: Let_def strtok_all_Nil if_False)
qed

lemma strtok_all_Cons:
  assumes "s \<noteq> []" and "\<And>c. c \<in> set s \<Longrightarrow> c \<notin> set d" and "x \<in> set d"
  shows "strtok_all d (s @ x # rest) = s # strtok_all d rest"
proof -
  have 1: "dropWhile (\<lambda>c. c \<in> set d) (s @ x # rest) = s @ x # rest"
    using assms by (cases s) auto
  have 2: "takeWhile (\<lambda>c. c \<notin> set d) (s @ x # rest) = s"
    using assms by (simp add: takeWhile_append)
  have 3: "dropWhile (\<lambda>c. c \<notin> set d) (s @ x # rest) = x # rest"
    using assms by (simp add: dropWhile_append)
  have 4: "strtok_all d (x # rest) = strtok_all d rest"
    using assms(3) by (simp add: strtok_all.simps [of d "x # rest"] strtok_all.simps [of d rest])
  show ?thesis
    by (subst strtok_all.simps) (simp add: 1 2 3 4 Let_def)
qed

text \<open>The strings with a separator between them.\<close>

fun join :: "string \<Rightarrow> string list \<Rightarrow> string" where
  "join sep [] = []"
| "join sep [x] = x"
| "join sep (x # y # xs) = x @ sep @ join sep (y # xs)"

lemma join_Cons: "join sep (x # xs) = x @ concat (map ((@) sep) xs)"
  by (induction xs arbitrary: x) auto

lemma join_snoc: "xs \<noteq> [] \<Longrightarrow> join sep (xs @ [x]) = join sep xs @ sep @ x"
  by (cases xs) (simp_all add: join_Cons)

lemma not_in_join: "c \<notin> set sep \<Longrightarrow> (\<And>x. x \<in> set xs \<Longrightarrow> c \<notin> set x) \<Longrightarrow> c \<notin> set (join sep xs)"
  by (cases xs) (auto simp: join_Cons)

lemma join_indexed:
  "concat (map (\<lambda>i. (if i > 0 then sep else []) @ f (xs ! i)) [0..<length xs]) = join sep (map f xs)"
proof (induction xs rule: rev_induct)
  case (snoc x xs)
  have m: "map (\<lambda>i. (if i > 0 then sep else []) @ f ((xs @ [x]) ! i)) [0..<length xs]
      = map (\<lambda>i. (if i > 0 then sep else []) @ f (xs ! i)) [0..<length xs]"
    by (rule map_cong) (simp_all add: nth_append)
  have "concat (map (\<lambda>i. (if i > 0 then sep else []) @ f ((xs @ [x]) ! i)) [0..<length xs])
      = join sep (map f xs)"
    unfolding m by (rule snoc)
  then show ?case by (cases "xs = []") (simp_all add: join_snoc)
qed simp

lemma strtok_all_join:
  assumes "\<And>s. s \<in> set xs \<Longrightarrow> s \<noteq> [] \<and> d \<notin> set s"
  shows "strtok_all [d] (join [d] xs) = xs"
  using assms
proof (induction "[d]" xs rule: join.induct)
  case (2 x)
  then show ?case by (auto intro!: strtok_all_single)
next
  case (3 x y xs)
  have "strtok_all [d] (x @ d # join [d] (y # xs)) = x # strtok_all [d] (join [d] (y # xs))"
    by (rule strtok_all_Cons) (use 3 in auto)
  with 3 show ?case by auto
qed simp

lemma strtok_all_length: "sum_list (map (\<lambda>t. length t + 1) (strtok_all d s)) \<le> length s + 1"
proof (induction s rule: length_induct)
  case (1 s)
  define t where "t = dropWhile (\<lambda>c. c \<in> set d) s"
  define w where "w = takeWhile (\<lambda>c. c \<notin> set d) t"
  define r where "r = dropWhile (\<lambda>c. c \<notin> set d) t"
  have l: "length t \<le> length s" unfolding t_def by (rule length_dropWhile_le)
  have e: "length w + length r = length t"
    unfolding w_def r_def by (metis length_append takeWhile_dropWhile_id)
  have u: "strtok_all d s = (if t = [] then [] else w # strtok_all d r)"
    unfolding t_def w_def r_def by (subst strtok_all.simps) (simp only: Let_def)
  show ?case
  proof (cases r)
    case Nil
    with u e l show ?thesis by simp
  next
    case (Cons y ys)
    have y: "y \<in> set d" using hd_dropWhile [of "\<lambda>c. c \<notin> set d" t] Cons unfolding r_def by auto
    have "strtok_all d r = strtok_all d ys"
      using y Cons by (simp add: strtok_all.simps [of d "y # ys"] strtok_all.simps [of d ys])
    moreover have "sum_list (map (\<lambda>t. length t + 1) (strtok_all d ys)) \<le> length ys + 1"
      using 1 e l Cons by simp
    ultimately show ?thesis using u e l Cons by simp
  qed
qed

section \<open>Decimal conversion\<close>

definition digit_char :: "nat \<Rightarrow> char" where
  "digit_char n = char_of (48 + n)"

fun show_nat :: "nat \<Rightarrow> string" where
  "show_nat n = (if n < 10 then [digit_char n]
                 else show_nat (n div 10) @ [digit_char (n mod 10)])"

declare show_nat.simps [simp del]

definition show_int :: "int \<Rightarrow> string" where
  "show_int i = (if i < 0 then CHR ''-'' # show_nat (nat (- i)) else show_nat (nat i))"

definition digit_val :: "char \<Rightarrow> nat" where
  "digit_val c = of_char c - 48"

text \<open>The digits \<open>atoi\<close> reads: the longest prefix of decimal digits.\<close>

definition digits_val :: "string \<Rightarrow> nat" where
  "digits_val s = foldl (\<lambda>a c. 10 * a + digit_val c) 0 (takeWhile is_digit_char s)"

text \<open>
  \<open>atoi\<close> and \<open>strtol (s, NULL, 10)\<close>: skip white space, one optional sign, then digits.  The
  value is the mathematical one; the callers say where it is narrowed to \<open>int\<close>.
\<close>

definition atoi :: "string \<Rightarrow> int" where
  "atoi s = (case dropWhile is_space_char s of
       [] \<Rightarrow> 0
     | c # cs \<Rightarrow> if c = CHR ''-'' then - int (digits_val cs)
                 else if c = CHR ''+'' then int (digits_val cs)
                 else int (digits_val (c # cs)))"

lemma digit_char_cases:
  assumes "n < 10"
  shows "digit_char n \<in> set ''0123456789''" and "digit_val (digit_char n) = n"
proof -
  have "n \<in> {0, 1, 2, 3, 4, 5, 6, 7, 8, 9}" using assms by auto
  then have "digit_char n \<in> set ''0123456789'' \<and> digit_val (digit_char n) = n"
    by (elim insertE emptyE) (simp_all add: digit_char_def digit_val_def char_of_def bit_0)
  then show "digit_char n \<in> set ''0123456789''" "digit_val (digit_char n) = n" by simp_all
qed

lemma is_digit_digit_char [simp]: "n < 10 \<Longrightarrow> is_digit_char (digit_char n)"
  using digit_char_cases(1) by (simp only: is_digit_char_def)

lemma show_nat_digits: "c \<in> set (show_nat n) \<Longrightarrow> is_digit_char c"
proof (induction n rule: show_nat.induct)
  case (1 n)
  then show ?case
    by (cases "n < 10") (auto simp: show_nat.simps [of n])
qed

lemma show_nat_not_Nil [simp]: "show_nat n \<noteq> []"
  by (subst show_nat.simps) simp

lemma length_show_nat: "n < 10 ^ k \<Longrightarrow> 0 < k \<Longrightarrow> length (show_nat n) \<le> k"
proof (induction n arbitrary: k rule: show_nat.induct)
  case (1 n)
  show ?case
  proof (cases "n < 10")
    case True
    with 1(3) show ?thesis by (simp add: show_nat.simps [of n])
  next
    case False
    from 1(2,3) False obtain k' where k: "k = Suc k'" "0 < k'"
      by (cases k; cases "k - 1") auto
    have "n div 10 < 10 ^ k'" using 1(2) k(1) by (simp add: less_mult_imp_div_less mult.commute)
    from 1(1) [OF False this k(2)] False k(1) show ?thesis by (simp add: show_nat.simps [of n])
  qed
qed

lemma foldl_digits_show_nat: "foldl (\<lambda>a c. 10 * a + digit_val c) 0 (show_nat n) = n"
proof (induction n rule: show_nat.induct)
  case (1 n)
  then show ?case
    by (cases "n < 10") (auto simp: show_nat.simps [of n] digit_char_cases(2))
qed

lemma digits_val_show_nat:
  assumes "rest = [] \<or> \<not> is_digit_char (hd rest)"
  shows "digits_val (show_nat n @ rest) = n"
proof -
  have "takeWhile is_digit_char rest = []"
    using assms by (cases rest) auto
  then have "takeWhile is_digit_char (show_nat n @ rest) = show_nat n"
    using show_nat_digits by (simp add: takeWhile_append)
  then show ?thesis
    by (simp add: digits_val_def foldl_digits_show_nat)
qed

lemma digit_not_special:
  assumes "is_digit_char c"
  shows "\<not> is_space_char c" "c \<noteq> CHR ''-''" "c \<noteq> CHR ''+''" "c \<noteq> CHR '',''"
    "c \<noteq> CHR '':''" "c \<noteq> CHR ''['' " "c \<noteq> CHR '']''" "c \<noteq> CHR ''.''"
proof -
  have c: "c \<in> set ''0123456789''" using assms by (simp add: is_digit_char_def)
  show "\<not> is_space_char c" "c \<noteq> CHR ''-''" "c \<noteq> CHR ''+''" "c \<noteq> CHR '',''"
    "c \<noteq> CHR '':''" "c \<noteq> CHR ''['' " "c \<noteq> CHR '']''" "c \<noteq> CHR ''.''"
    using c by (auto simp: is_space_char_def)
qed

lemma show_int_neq_Nil [simp]: "show_int i \<noteq> []"
  by (simp add: show_int_def)

lemma show_int_chars: "c \<in> set (show_int i) \<Longrightarrow> is_digit_char c \<or> c = CHR ''-''"
  by (auto simp: show_int_def dest: show_nat_digits split: if_splits)

lemma atoi_show_int:
  assumes "rest = [] \<or> \<not> is_digit_char (hd rest)"
  shows "atoi (show_int i @ rest) = i"
proof (cases "i < 0")
  case True
  have "\<not> is_space_char (CHR ''-'')" by (simp add: is_space_char_def)
  with True show ?thesis
    using digits_val_show_nat [OF assms, of "nat (- i)"] by (simp add: atoi_def show_int_def)
next
  case False
  obtain c cs where cs: "show_nat (nat i) = c # cs"
    by (cases "show_nat (nat i)") auto
  then have "is_digit_char c" using show_nat_digits [of c "nat i"] by simp
  note digit_not_special [OF this]
  with False cs show ?thesis
    using digits_val_show_nat [OF assms, of "nat i"] by (simp add: atoi_def show_int_def)
qed

section \<open>Options and lists\<close>

lemma unat_of_nat_u64: "n < 2 ^ 64 \<Longrightarrow> unat (of_nat n :: u64) = n"
  by (simp add: unat_of_nat take_bit_nat_eq_self)

lemma unat_of_nat_u32: "n < 2 ^ 32 \<Longrightarrow> unat (of_nat n :: u32) = n"
  by (simp add: unat_of_nat take_bit_nat_eq_self)

lemma unat_u8_bound: "unat (w :: u8) < 256"
  by (rule order_less_le_trans [OF unsigned_less]) simp

lemma unat_u64_bound: "unat (w :: u64) < 2 ^ 64"
  by (rule order_less_le_trans [OF unsigned_less]) simp

lemma unat_inject_u64 [simp]: "unat (a :: u64) = unat b \<longleftrightarrow> a = b"
  using word_unat_eq_iff [of a b] by blast

lemma unat_eq_one_u64: "unat (a :: u64) = 1 \<longleftrightarrow> a = 1"
  using unat_inject_u64 [of a 1] by simp

lemma option_eqI: "(\<And>v. x = Some v \<longleftrightarrow> y = Some v) \<Longrightarrow> x = y"
  by (cases x; cases y) auto

lemma sum_list_map_update:
  fixes f :: "'a \<Rightarrow> 'b::comm_monoid_add"
  shows "i < length xs \<Longrightarrow> sum_list (map f (xs[i := v])) + f (xs ! i) = sum_list (map f xs) + f v"
  by (induction xs arbitrary: i) (auto split: nat.splits simp: ac_simps)

lemma take_Suc_nth_snoc: "i < length xs \<Longrightarrow> take (Suc i) xs = take i xs @ [xs ! i]"
  by (rule take_Suc_conv_app_nth)

lemma distinct_split_unique:
  assumes "distinct (xs @ a # ys)" and "xs @ a # ys = us @ a # vs"
  shows "us = xs \<and> vs = ys"
  using assms
  by (auto simp: append_eq_append_conv2 append_eq_Cons_conv Cons_eq_append_conv)

end
