(* ===== verification/Hash_Table.thy ===== *)
theory Hash_Table
  imports Prelude "HOL-Library.Multiset"
begin

text \<open>
  The chained hash table of \<open>src/vol-rest/src/util/rest_vol_hash_table.c\<close> with the string
  hash of \<open>rest_vol_hash_string.h\<close> and the key comparison of \<open>rest_vol.c\<close>.  The table of
  chain heads is a list of chains, a chain the list of its entries from the head on.  The sizes
  are 32-bit words as in the source.  The registered free functions are visible through the
  list of \<open>free_event\<close>s an operation returns, in the order of the calls.  Whether
  \<open>calloc\<close> and \<open>malloc\<close> succeed is an argument of the operations that allocate.
\<close>

section \<open>Data\<close>

datatype ('k, 'v) free_event = FreeKey 'k | FreeValue 'v | FreeEntry

record ('k, 'v) hash_table =
  table :: "('k \<times> 'v) list list"
  table_size :: u32
  hash_func :: "'k \<Rightarrow> u32"
  equal_func :: "'k \<Rightarrow> 'k \<Rightarrow> bool"
  key_free_func :: bool      \<comment> \<open>whether a key free function is registered\<close>
  value_free_func :: bool
  entries :: u32
  prime_index :: u32

definition hash_table_primes :: "u32 list" where
  "hash_table_primes =
    [193, 389, 769, 1543, 3079, 6151, 12289, 24593,
     49157, 98317, 196613, 393241, 786433, 1572869, 3145739, 6291469,
     12582917, 25165843, 50331653, 100663319, 201326611, 402653189, 805306457, 1610612741]"

definition hash_table_num_primes :: u32 where
  "hash_table_num_primes = 24"

section \<open>Operations\<close>

text \<open>\<open>ok\<close>: whether \<open>calloc\<close> returned memory.  On failure \<open>table\<close> is NULL, here no chain.\<close>

definition hash_table_allocate_table ::
  "bool \<Rightarrow> ('k, 'v) hash_table \<Rightarrow> bool \<times> ('k, 'v) hash_table" where
  "hash_table_allocate_table ok t =
     (let new_table_size =
            (if prime_index t < hash_table_num_primes
             then hash_table_primes ! unat (prime_index t)
             else entries t * 10)
      in (ok, t\<lparr>table_size := new_table_size,
               table := (if ok then replicate (unat new_table_size) [] else [])\<rparr>))"

definition hash_table_free_entry ::
  "('k, 'v) hash_table \<Rightarrow> 'k \<times> 'v \<Rightarrow> ('k, 'v) free_event list" where
  "hash_table_free_entry t e =
     (if key_free_func t then [FreeKey (fst e)] else [])
     @ (if value_free_func t then [FreeValue (snd e)] else [])
     @ [FreeEntry]"

text \<open>\<open>None\<close> is the NULL result.\<close>

definition rv_hash_table_new ::
  "bool \<Rightarrow> bool \<Rightarrow> ('k \<Rightarrow> u32) \<Rightarrow> ('k \<Rightarrow> 'k \<Rightarrow> bool) \<Rightarrow> ('k, 'v) hash_table option" where
  "rv_hash_table_new malloc_ok calloc_ok h eq =
     (if \<not> malloc_ok then None
      else
        (let t = \<lparr>table = [], table_size = 0, hash_func = h, equal_func = eq,
                  key_free_func = False, value_free_func = False, entries = 0, prime_index = 0\<rparr>;
             (ok, t') = hash_table_allocate_table calloc_ok t
         in if \<not> ok then None else Some t'))"

definition rv_hash_table_free :: "('k, 'v) hash_table \<Rightarrow> ('k, 'v) free_event list" where
  "rv_hash_table_free t = concat (map (\<lambda>c. concat (map (hash_table_free_entry t) c)) (table t))"

definition rv_hash_table_register_free_functions ::
  "('k, 'v) hash_table \<Rightarrow> bool \<Rightarrow> bool \<Rightarrow> ('k, 'v) hash_table" where
  "rv_hash_table_register_free_functions t kf vf = t\<lparr>key_free_func := kf, value_free_func := vf\<rparr>"

definition chain_index :: "('k, 'v) hash_table \<Rightarrow> 'k \<Rightarrow> nat" where
  "chain_index t k = unat (hash_func t k mod table_size t)"

text \<open>The body of the relinking loop of \<open>hash_table_enlarge\<close>: one entry to the head of its new chain.\<close>

definition relink :: "('k, 'v) hash_table \<Rightarrow> ('k \<times> 'v) list list \<Rightarrow> 'k \<times> 'v \<Rightarrow> ('k \<times> 'v) list list" where
  "relink t tab e = (let i = chain_index t (fst e) in tab[i := e # tab ! i])"

definition hash_table_enlarge ::
  "bool \<Rightarrow> ('k, 'v) hash_table \<Rightarrow> bool \<times> ('k, 'v) hash_table" where
  "hash_table_enlarge calloc_ok t =
     (let old_table = table t; old_table_size = table_size t; old_prime_index = prime_index t;
          (ok, t1) = hash_table_allocate_table calloc_ok (t\<lparr>prime_index := prime_index t + 1\<rparr>)
      in if \<not> ok
         then (False, t1\<lparr>table := old_table, table_size := old_table_size,
                         prime_index := old_prime_index\<rparr>)
         else (True, t1\<lparr>table := foldl (relink t1) (table t1) (concat old_table)\<rparr>))"

text \<open>The search of \<open>rv_hash_table_insert\<close>: the chain up to and after the first equal key.\<close>

fun chain_replace ::
  "('k \<Rightarrow> 'k \<Rightarrow> bool) \<Rightarrow> 'k \<times> 'v \<Rightarrow> ('k \<times> 'v) list \<Rightarrow> (('k \<times> 'v) \<times> ('k \<times> 'v) list) option" where
  "chain_replace eq e [] = None"
| "chain_replace eq e (r # rs) =
     (if eq (fst r) (fst e) then Some (r, e # rs)
      else map_option (\<lambda>(old, rs'). (old, r # rs')) (chain_replace eq e rs))"

definition rv_hash_table_insert ::
  "bool \<Rightarrow> bool \<Rightarrow> ('k, 'v) hash_table \<Rightarrow> 'k \<Rightarrow> 'v
     \<Rightarrow> bool \<times> ('k, 'v) hash_table \<times> ('k, 'v) free_event list" where
  "rv_hash_table_insert calloc_ok malloc_ok t key val =
     (let (grown, t1) = (if (entries t * 3) div table_size t > 0
                         then hash_table_enlarge calloc_ok t else (True, t))
      in if \<not> grown then (False, t1, [])
         else
           (let i = chain_index t1 key; chain = table t1 ! i
            in case chain_replace (equal_func t1) (key, val) chain of
                 Some (old, chain') \<Rightarrow>
                   (True, t1\<lparr>table := (table t1)[i := chain']\<rparr>,
                    (if value_free_func t1 then [FreeValue (snd old)] else [])
                    @ (if key_free_func t1 then [FreeKey (fst old)] else []))
               | None \<Rightarrow>
                   if \<not> malloc_ok then (False, t1, [])
                   else (True, t1\<lparr>table := (table t1)[i := (key, val) # chain],
                                  entries := entries t1 + 1\<rparr>, [])))"

fun chain_lookup :: "('k \<Rightarrow> 'k \<Rightarrow> bool) \<Rightarrow> 'k \<Rightarrow> ('k \<times> 'v) list \<Rightarrow> 'v option" where
  "chain_lookup eq k [] = None"
| "chain_lookup eq k (r # rs) = (if eq k (fst r) then Some (snd r) else chain_lookup eq k rs)"

definition rv_hash_table_lookup :: "('k, 'v) hash_table \<Rightarrow> 'k \<Rightarrow> 'v option" where
  "rv_hash_table_lookup t key = chain_lookup (equal_func t) key (table t ! chain_index t key)"

fun chain_remove ::
  "('k \<Rightarrow> 'k \<Rightarrow> bool) \<Rightarrow> 'k \<Rightarrow> ('k \<times> 'v) list \<Rightarrow> (('k \<times> 'v) \<times> ('k \<times> 'v) list) option" where
  "chain_remove eq k [] = None"
| "chain_remove eq k (r # rs) =
     (if eq k (fst r) then Some (r, rs)
      else map_option (\<lambda>(old, rs'). (old, r # rs')) (chain_remove eq k rs))"

definition rv_hash_table_remove ::
  "('k, 'v) hash_table \<Rightarrow> 'k \<Rightarrow> bool \<times> ('k, 'v) hash_table \<times> ('k, 'v) free_event list" where
  "rv_hash_table_remove t key =
     (let i = chain_index t key
      in case chain_remove (equal_func t) key (table t ! i) of
           None \<Rightarrow> (False, t, [])
         | Some (e, chain') \<Rightarrow>
             (True, t\<lparr>table := (table t)[i := chain'], entries := entries t - 1\<rparr>,
              hash_table_free_entry t e))"

definition rv_hash_table_num_entries :: "('k, 'v) hash_table \<Rightarrow> u32" where
  "rv_hash_table_num_entries t = entries t"

subsection \<open>Iteration\<close>

text \<open>
  \<open>next_entry\<close> points into a chain: it is the rest of that chain from the entry on, the empty
  list standing for NULL.
\<close>

record ('k, 'v) hash_table_iter =
  next_entry :: "('k \<times> 'v) list"
  next_chain :: nat

text \<open>The scan both iteration functions share: the first non-empty chain at or after \<open>chain\<close>.\<close>

function first_chain :: "('k \<times> 'v) list list \<Rightarrow> nat \<Rightarrow> nat \<times> ('k \<times> 'v) list" where
  "first_chain tab chain =
     (if chain < length tab
      then if tab ! chain \<noteq> [] then (chain, tab ! chain) else first_chain tab (Suc chain)
      else (chain, []))"
  by pat_completeness auto
termination by (relation "measure (\<lambda>(tab, chain). length tab - chain)") auto

declare first_chain.simps [simp del]

text \<open>
  \<open>rv_hash_table_iterate\<close> leaves \<open>next_chain\<close> of the caller's iterator as it was (\<open>garbage\<close>)
  when the table is empty.
\<close>

definition rv_hash_table_iterate ::
  "nat \<Rightarrow> ('k, 'v) hash_table \<Rightarrow> ('k, 'v) hash_table_iter" where
  "rv_hash_table_iterate garbage t =
     (case first_chain (table t) 0 of
        (c, []) \<Rightarrow> \<lparr>next_entry = [], next_chain = garbage\<rparr>
      | (c, es) \<Rightarrow> \<lparr>next_entry = es, next_chain = c\<rparr>)"

definition rv_hash_table_iter_has_more :: "('k, 'v) hash_table_iter \<Rightarrow> bool" where
  "rv_hash_table_iter_has_more it \<longleftrightarrow> next_entry it \<noteq> []"

definition rv_hash_table_iter_next ::
  "('k, 'v) hash_table \<Rightarrow> ('k, 'v) hash_table_iter \<Rightarrow> 'v option \<times> ('k, 'v) hash_table_iter" where
  "rv_hash_table_iter_next t it =
     (case next_entry it of
        [] \<Rightarrow> (None, it)
      | cur # rest \<Rightarrow>
          (Some (snd cur),
           if rest \<noteq> [] then it\<lparr>next_entry := rest\<rparr>
           else (let (c, es) = first_chain (table t) (next_chain it + 1)
                 in it\<lparr>next_entry := es, next_chain := c\<rparr>)))"

text \<open>A client's loop: collect values while \<open>has_more\<close>, at most \<open>n\<close> of them.\<close>

fun iter_collect :: "nat \<Rightarrow> ('k, 'v) hash_table \<Rightarrow> ('k, 'v) hash_table_iter \<Rightarrow> 'v list" where
  "iter_collect 0 t it = []"
| "iter_collect (Suc n) t it =
     (if rv_hash_table_iter_has_more it
      then (case rv_hash_table_iter_next t it of
              (Some v, it') \<Rightarrow> v # iter_collect n t it'
            | (None, it') \<Rightarrow> [])
      else [])"

subsection \<open>String keys\<close>

text \<open>\<open>rv_hash_string\<close> (djb2) over the bytes of the string, in 32-bit arithmetic.\<close>

definition rv_hash_string :: "string \<Rightarrow> u32" where
  "rv_hash_string s = foldl (\<lambda>r c. push_bit 5 r + r + of_nat (of_char c)) 5381 s"

definition H5_rest_compare_string_keys :: "string \<Rightarrow> string \<Rightarrow> bool" where
  "H5_rest_compare_string_keys v1 v2 \<longleftrightarrow> v1 = v2"


section \<open>The table invariant\<close>

text \<open>All entries, chain by chain.\<close>

abbreviation contents :: "('k, 'v) hash_table \<Rightarrow> ('k \<times> 'v) list" where
  "contents t \<equiv> concat (table t)"

text \<open>No two entries have equal keys.\<close>

definition keys_ok :: "('k \<Rightarrow> 'k \<Rightarrow> bool) \<Rightarrow> ('k \<times> 'v) list \<Rightarrow> bool" where
  "keys_ok eq es \<longleftrightarrow> distinct es \<and> (\<forall>a\<in>set es. \<forall>b\<in>set es. eq (fst a) (fst b) \<longrightarrow> a = b)"

definition placed :: "('k \<Rightarrow> u32) \<Rightarrow> u32 \<Rightarrow> ('k \<times> 'v) list list \<Rightarrow> bool" where
  "placed h sz tab \<longleftrightarrow> length tab = unat sz \<and>
     (\<forall>i < length tab. \<forall>e \<in> set (tab ! i). unat (h (fst e) mod sz) = i)"

definition ht_inv :: "('k \<Rightarrow> u32) \<Rightarrow> ('k \<Rightarrow> 'k \<Rightarrow> bool) \<Rightarrow> ('k, 'v) hash_table \<Rightarrow> bool" where
  "ht_inv h eq t \<longleftrightarrow> hash_func t = h \<and> equal_func t = eq \<and> table_size t \<noteq> 0 \<and>
     placed h (table_size t) (table t) \<and> keys_ok eq (contents t) \<and>
     unat (entries t) = length (contents t) \<and> prime_index t < hash_table_num_primes \<and>
     hash_table_primes ! unat (prime_index t) = table_size t"

text \<open>The keys a list of calls of the free functions released.\<close>

fun freed_keys :: "('k, 'v) free_event list \<Rightarrow> 'k list" where
  "freed_keys [] = []"
| "freed_keys (FreeKey k # fs) = k # freed_keys fs"
| "freed_keys (_ # fs) = freed_keys fs"

text \<open>
  The number of entries up to which the prime table is never exhausted: with fewer, an insertion
  finds the last prime at most a third full.  Beyond it \<open>hash_table_allocate_table\<close> computes
  \<open>entries * 10\<close>, which wraps around.
\<close>

definition ht_max_entries :: nat where
  "ht_max_entries = 536870913"

lemma mset_concat_update:
  assumes "i < length xs"
  shows "mset (concat (xs[i := c])) + mset (xs ! i) = mset (concat xs) + mset c"
proof -
  have "mset (concat xs) = mset (concat (take i xs)) + mset (xs ! i) + mset (concat (drop (Suc i) xs))"
    using arg_cong [OF id_take_nth_drop [OF assms], of "\<lambda>l. mset (concat l)"]
    by (simp add: union_assoc)
  moreover have "mset (concat (xs[i := c]))
      = mset (concat (take i xs)) + mset c + mset (concat (drop (Suc i) xs))"
    using assms by (simp add: upd_conv_take_nth_drop union_assoc)
  ultimately show ?thesis by (simp add: ac_simps)
qed

lemma in_concat_nth: "e \<in> set (concat tab) \<longleftrightarrow> (\<exists>i < length tab. e \<in> set (tab ! i))"
  by (metis UN_E UN_I in_set_conv_nth set_concat)

lemma keys_ok_mset: "mset es = mset es' \<Longrightarrow> keys_ok eq es = keys_ok eq es'"
  unfolding keys_ok_def by (metis mset_eq_imp_distinct_iff mset_eq_setD)

lemma placed_update:
  assumes "placed h sz tab" and "\<And>e. e \<in> set c \<Longrightarrow> unat (h (fst e) mod sz) = i"
  shows "placed h sz (tab[i := c])"
  unfolding placed_def
proof (intro conjI allI impI ballI)
  show "length (tab[i := c]) = unat sz" using assms(1) by (simp add: placed_def)
  fix j e assume j: "j < length (tab[i := c])" "e \<in> set (tab[i := c] ! j)"
  show "unat (h (fst e) mod sz) = j"
    using assms j by (cases "j = i") (auto simp: placed_def)
qed

lemma chain_index_bound:
  "table_size t \<noteq> 0 \<Longrightarrow> chain_index t k < unat (table_size t)"
  unfolding chain_index_def by (simp add: unat_mono word_mod_less_divisor word_neq_0_conv)

lemma chain_replace_None:
  "chain_replace eq e rs = None \<longleftrightarrow> (\<forall>r\<in>set rs. \<not> eq (fst r) (fst e))"
  by (induction rs) auto

lemma chain_replace_Some:
  "chain_replace eq e rs = Some (old, rs') \<Longrightarrow>
     \<exists>pre post. rs = pre @ old # post \<and> rs' = pre @ e # post \<and> eq (fst old) (fst e)"
proof (induction rs arbitrary: rs')
  case Nil
  then show ?case by simp
next
  case (Cons r rs)
  show ?case
  proof (cases "eq (fst r) (fst e)")
    case True
    with Cons.prems show ?thesis by force
  next
    case False
    with Cons.prems obtain rs'' where rs'': "chain_replace eq e rs = Some (old, rs'')" "rs' = r # rs''"
      by auto
    from Cons.IH [OF rs''(1)] obtain pre post
      where "rs = pre @ old # post" "rs'' = pre @ e # post" "eq (fst old) (fst e)" by blast
    with rs'' show ?thesis by (intro exI [of _ "r # pre"] exI [of _ post]) simp
  qed
qed

lemma chain_remove_None:
  "chain_remove eq k rs = None \<longleftrightarrow> (\<forall>r\<in>set rs. \<not> eq k (fst r))"
  by (induction rs) auto

lemma chain_remove_Some:
  "chain_remove eq k rs = Some (old, rs') \<Longrightarrow>
     \<exists>pre post. rs = pre @ old # post \<and> rs' = pre @ post \<and> eq k (fst old)"
proof (induction rs arbitrary: rs')
  case Nil
  then show ?case by simp
next
  case (Cons r rs)
  show ?case
  proof (cases "eq k (fst r)")
    case True
    with Cons.prems show ?thesis by force
  next
    case False
    with Cons.prems obtain rs'' where rs'': "chain_remove eq k rs = Some (old, rs'')" "rs' = r # rs''"
      by auto
    from Cons.IH [OF rs''(1)] obtain pre post
      where "rs = pre @ old # post" "rs'' = pre @ post" "eq k (fst old)" by blast
    with rs'' show ?thesis by (intro exI [of _ "r # pre"] exI [of _ post]) simp
  qed
qed

lemma chain_lookup_None: "chain_lookup eq k rs = None \<longleftrightarrow> (\<forall>r\<in>set rs. \<not> eq k (fst r))"
  by (induction rs) auto

lemma chain_lookup_SomeD: "chain_lookup eq k rs = Some v \<Longrightarrow> \<exists>k'. (k', v) \<in> set rs \<and> eq k k'"
  by (induction rs) (auto split: if_splits)


section \<open>Correctness for any hash function that respects key equality\<close>

text \<open>
  What the table asks of the two functions it is created with: the comparison is an equivalence,
  and equal keys have equal hashes.
\<close>

locale key_ops =
  fixes h :: "'k \<Rightarrow> u32"
    and eq :: "'k \<Rightarrow> 'k \<Rightarrow> bool"
  assumes eq_refl: "eq a a"
    and eq_sym: "eq a b \<Longrightarrow> eq b a"
    and eq_trans: "eq a b \<Longrightarrow> eq b c \<Longrightarrow> eq a c"
    and hash_eq: "eq a b \<Longrightarrow> h a = h b"
begin

lemma inv_chain_in:
  assumes "ht_inv h eq t"
  shows "chain_index t k < length (table t)"
proof -
  have "table_size t \<noteq> 0" "length (table t) = unat (table_size t)"
    using assms unfolding ht_inv_def placed_def by blast+
  then show ?thesis using chain_index_bound [of t k] by argo
qed

lemma entry_chain:
  assumes inv: "ht_inv h eq t" and e: "e \<in> set (contents t)" and k: "eq k (fst e)"
  shows "e \<in> set (table t ! chain_index t k)"
proof -
  from e obtain i where i: "i < length (table t)" "e \<in> set (table t ! i)"
    by (auto simp only: in_concat_nth)
  then have "unat (h (fst e) mod table_size t) = i"
    using inv by (auto simp: ht_inv_def placed_def)
  then have "chain_index t k = i"
    using inv hash_eq [OF k] by (simp add: chain_index_def ht_inv_def)
  with i show ?thesis by simp
qed

lemma lookup_Some_iff:
  assumes inv: "ht_inv h eq t"
  shows "rv_hash_table_lookup t k = Some v \<longleftrightarrow> (\<exists>k'. (k', v) \<in> set (contents t) \<and> eq k k')"
proof
  assume "rv_hash_table_lookup t k = Some v"
  then obtain k' where "(k', v) \<in> set (table t ! chain_index t k)" "eq k k'"
    using inv by (auto simp: rv_hash_table_lookup_def ht_inv_def dest: chain_lookup_SomeD)
  with inv_chain_in [OF inv, of k] show "\<exists>k'. (k', v) \<in> set (contents t) \<and> eq k k'"
    unfolding in_concat_nth by blast
next
  assume "\<exists>k'. (k', v) \<in> set (contents t) \<and> eq k k'"
  then obtain k' where k': "(k', v) \<in> set (contents t)" "eq k k'" by blast
  with entry_chain [OF inv, of "(k', v)" k] have "(k', v) \<in> set (table t ! chain_index t k)" by simp
  then have "chain_lookup eq k (table t ! chain_index t k) \<noteq> None"
    using k'(2) unfolding chain_lookup_None by fastforce
  then obtain w where w: "chain_lookup eq k (table t ! chain_index t k) = Some w" by blast
  then obtain k2 where k2: "(k2, w) \<in> set (contents t)" "eq k k2"
    using inv_chain_in [OF inv, of k] chain_lookup_SomeD [OF w] unfolding in_concat_nth by blast
  have "eq k' k2" using k' k2 eq_sym eq_trans by blast
  with k' k2 inv have "w = v" by (fastforce simp: ht_inv_def keys_ok_def)
  with w inv show "rv_hash_table_lookup t k = Some v"
    by (simp add: rv_hash_table_lookup_def ht_inv_def)
qed

lemma lookup_None_iff:
  assumes "ht_inv h eq t"
  shows "rv_hash_table_lookup t k = None \<longleftrightarrow> (\<forall>e\<in>set (contents t). \<not> eq k (fst e))"
  using lookup_Some_iff [OF assms, of k] by (cases "rv_hash_table_lookup t k") fastforce+

text \<open>Two tables with the same entries answer the same.\<close>

lemma lookup_cong:
  assumes "ht_inv h eq t" "ht_inv h eq t'" "set (contents t) = set (contents t')"
  shows "rv_hash_table_lookup t k = rv_hash_table_lookup t' k"
  by (rule option_eqI) (simp only: lookup_Some_iff [OF assms(1)] lookup_Some_iff [OF assms(2)] assms(3))

lemma new_inv:
  assumes "rv_hash_table_new m c h eq = Some t"
  shows "ht_inv h eq t" and "contents t = []"
proof -
  have e: "concat (replicate n []) = []" for n :: nat
    by (induction n) auto
  show "ht_inv h eq t" "contents t = []"
    using assms
    by (auto simp: rv_hash_table_new_def hash_table_allocate_table_def hash_table_num_primes_def
        hash_table_primes_def ht_inv_def placed_def keys_ok_def e split: if_splits)
qed

subsection \<open>Enlarging\<close>

lemma relink_fold:
  assumes "length tab = unat (table_size t)" and "table_size t \<noteq> 0" and "hash_func t = h"
    and "placed h (table_size t) tab"
  shows "placed h (table_size t) (foldl (relink t) tab es) \<and>
         mset (concat (foldl (relink t) tab es)) = mset (concat tab) + mset es"
  using assms
proof (induction es arbitrary: tab)
  case Nil
  then show ?case by simp
next
  case (Cons e es)
  let ?i = "chain_index t (fst e)" and ?tab = "relink t tab e"
  have i: "?i < length tab" using Cons.prems chain_index_bound [of t "fst e"] by simp
  have tab: "?tab = tab[?i := e # tab ! ?i]" by (simp add: relink_def Let_def)
  have len: "length ?tab = unat (table_size t)" using Cons.prems by (simp add: tab)
  have "placed h (table_size t) ?tab"
    using Cons.prems i by (auto simp: tab placed_def nth_list_update chain_index_def)
  moreover have "mset (concat ?tab) = mset (concat tab) + {#e#}"
    using mset_concat_update [OF i, of "e # tab ! ?i"] by (simp add: tab)
  ultimately show ?case
    using Cons.IH [of ?tab] Cons.prems len by simp
qed

lemma placed_empty: "placed h sz (replicate (unat sz) [])"
  by (simp add: placed_def)

lemma primes_nonzero: "i < 24 \<Longrightarrow> hash_table_primes ! i \<noteq> 0"
proof -
  assume "i < 24"
  moreover have "length hash_table_primes = 24" by (simp add: hash_table_primes_def)
  moreover have "\<forall>p\<in>set hash_table_primes. p \<noteq> 0" by (simp add: hash_table_primes_def)
  ultimately show ?thesis by simp
qed

lemma last_prime: "hash_table_primes ! 23 = 1610612741"
  by (simp add: hash_table_primes_def)

text \<open>The size the invariant does not mention: it is the prime of the index.\<close>

lemma enlarge_fail: "hash_table_enlarge False t = (False, t)"
  by (cases t) (simp add: hash_table_enlarge_def hash_table_allocate_table_def Let_def)

lemma enlarge_inv:
  assumes inv: "ht_inv h eq t" and room: "prime_index t < 23"
    and e: "hash_table_enlarge c t = (ok, t')"
  shows "ht_inv h eq t' \<and> mset (contents t') = mset (contents t) \<and> entries t' = entries t \<and>
    key_free_func t' = key_free_func t \<and> value_free_func t' = value_free_func t"
proof (cases c)
  case False
  with e inv show ?thesis by (auto simp: enlarge_fail)
next
  case True
  let ?p = "prime_index t + 1" and ?sz = "hash_table_primes ! unat (prime_index t + 1)"
  define t1 where "t1 = t\<lparr>prime_index := ?p, table_size := ?sz, table := replicate (unat ?sz) []\<rparr>"
  have p: "?p < 24" "unat ?p < 24"
    using room by unat_arith+
  have t': "t' = t1\<lparr>table := foldl (relink t1) (replicate (unat ?sz) []) (contents t)\<rparr>"
    using e True p
    by (auto simp: hash_table_enlarge_def hash_table_allocate_table_def hash_table_num_primes_def
        Let_def t1_def)
  have sz: "?sz \<noteq> 0" using primes_nonzero p by simp
  have e0: "concat (replicate n []) = []" for n :: nat by (induction n) auto
  have "placed h (table_size t1) (table t') \<and> mset (contents t') = mset (contents t)"
    using relink_fold [of "replicate (unat ?sz) []" t1 "contents t"] sz inv placed_empty [of ?sz]
    by (simp add: t' t1_def ht_inv_def e0)
  moreover have "keys_ok eq (contents t')"
    using calculation inv keys_ok_mset by (metis ht_inv_def)
  moreover have "length (contents t') = length (contents t)"
    using calculation(1) by (metis size_mset)
  ultimately show ?thesis
    using inv sz p by (simp add: t' t1_def ht_inv_def hash_table_num_primes_def)
qed

subsection \<open>Insertion, lookup and removal\<close>

lemma enlarge_room:
  assumes inv: "ht_inv h eq t" and room: "length (contents t) \<le> ht_max_entries"
    and full: "(entries t * 3) div table_size t > 0"
  shows "prime_index t < 23"
proof (rule ccontr)
  assume "\<not> prime_index t < 23"
  with inv have "prime_index t = 23"
    unfolding ht_inv_def hash_table_num_primes_def by unat_arith
  with inv have sz: "table_size t = 1610612741"
    unfolding ht_inv_def using last_prime by simp
  have n: "unat (entries t) \<le> 536870913"
    using inv room by (simp add: ht_inv_def ht_max_entries_def)
  then have "unat (entries t * 3) = unat (entries t) * 3"
    by (simp add: unat_word_ariths)
  with n have "unat ((entries t * 3) div table_size t) = 0"
    by (simp add: unat_div sz)
  with full show False by (simp add: word_neq_0_conv unat_eq_0)
qed

lemma grow_inv:
  assumes inv: "ht_inv h eq t" and room: "length (contents t) \<le> ht_max_entries"
    and g: "(if (entries t * 3) div table_size t > 0 then hash_table_enlarge c t else (True, t)) = (ok, t1)"
  shows "ht_inv h eq t1 \<and> mset (contents t1) = mset (contents t) \<and> entries t1 = entries t \<and>
    key_free_func t1 = key_free_func t \<and> value_free_func t1 = value_free_func t"
  using enlarge_inv [OF inv _, of c ok t1] enlarge_room [OF inv room] g inv by (auto split: if_splits)

lemma update_chain_inv:
  assumes inv: "ht_inv h eq t" and i: "i = chain_index t key"
    and chain: "\<forall>e\<in>set chain'. e \<in> set (table t ! i) \<or> eq key (fst e)"
    and n: "unat n = length (concat ((table t)[i := chain']))"
    and ok: "keys_ok eq (concat ((table t)[i := chain']))"
  shows "ht_inv h eq (t\<lparr>table := (table t)[i := chain'], entries := n\<rparr>)"
proof -
  have "unat (h (fst e) mod table_size t) = i" if "e \<in> set chain'" for e
  proof (cases "e \<in> set (table t ! i)")
    case True
    with inv inv_chain_in [OF inv, of key] i show ?thesis
      unfolding ht_inv_def placed_def by blast
  next
    case False
    with chain that have "eq key (fst e)" by blast
    with inv i hash_eq show ?thesis unfolding ht_inv_def chain_index_def by metis
  qed
  then have "placed h (table_size t) ((table t)[i := chain'])"
    using inv unfolding ht_inv_def by (intro placed_update) auto
  with inv n ok show ?thesis
    unfolding ht_inv_def by simp
qed

lemma keys_ok_Cons:
  "keys_ok eq (e # es) \<longleftrightarrow> keys_ok eq es \<and> (\<forall>b\<in>set es. \<not> eq (fst e) (fst b))"
proof
  assume l: "keys_ok eq (e # es)"
  have "\<not> eq (fst e) (fst b)" if "b \<in> set es" for b
  proof
    assume "eq (fst e) (fst b)"
    with l that have "e = b" unfolding keys_ok_def by simp
    with l that show False unfolding keys_ok_def by simp
  qed
  with l show "keys_ok eq es \<and> (\<forall>b\<in>set es. \<not> eq (fst e) (fst b))"
    unfolding keys_ok_def by simp
next
  assume r: "keys_ok eq es \<and> (\<forall>b\<in>set es. \<not> eq (fst e) (fst b))"
  then have "e \<notin> set es" using eq_refl by blast
  moreover have "\<not> eq (fst b) (fst e)" if "b \<in> set es" for b
    using r that eq_sym by blast
  ultimately show "keys_ok eq (e # es)"
    using r unfolding keys_ok_def by simp
qed

lemma keys_ok_replace:
  assumes "keys_ok eq (old # es)" and "eq (fst old) (fst e)"
  shows "keys_ok eq (e # es)"
  using assms eq_trans unfolding keys_ok_Cons by blast

lemma insert_entry_inv:
  assumes inv: "ht_inv h eq t" and i: "i = chain_index t key" and chain: "chain = table t ! i"
    and new: "chain_replace eq (key, v) chain = None"
    and room: "length (contents t) \<le> ht_max_entries"
  shows "ht_inv h eq (t\<lparr>table := (table t)[i := (key, v) # chain], entries := entries t + 1\<rparr>)"
    and "mset (concat ((table t)[i := (key, v) # chain])) = mset (contents t) + {#(key, v)#}"
proof -
  have il: "i < length (table t)" using inv_chain_in [OF inv] i by simp
  show ms: "mset (concat ((table t)[i := (key, v) # chain])) = mset (contents t) + {#(key, v)#}"
    using mset_concat_update [OF il, of "(key, v) # chain"] chain by simp
  have "\<not> eq key (fst b)" if b: "b \<in> set (contents t)" for b
  proof
    assume k: "eq key (fst b)"
    with entry_chain [OF inv b] have "b \<in> set chain" using i chain by simp
    with new eq_sym [OF k] show False by (auto simp: chain_replace_None)
  qed
  then have "keys_ok eq ((key, v) # contents t)"
    using inv by (simp add: keys_ok_Cons ht_inv_def)
  then have ok: "keys_ok eq (concat ((table t)[i := (key, v) # chain]))"
    using ms keys_ok_mset [of "concat ((table t)[i := (key, v) # chain])" "(key, v) # contents t"]
    by simp
  have n: "unat (entries t) = length (contents t)" using inv by (simp add: ht_inv_def)
  with room have "unat (entries t) \<le> 536870913" by (simp add: ht_max_entries_def)
  then have "unat (entries t + 1) = Suc (unat (entries t))"
    by (simp add: unat_word_ariths)
  then have "unat (entries t + 1) = length (concat ((table t)[i := (key, v) # chain]))"
    using ms n by (metis add_mset_add_single size_add_mset size_mset)
  then show "ht_inv h eq (t\<lparr>table := (table t)[i := (key, v) # chain], entries := entries t + 1\<rparr>)"
    using ok chain i eq_refl by (intro update_chain_inv [OF inv, where key = key]) auto
qed

lemma replace_entry_inv:
  assumes inv: "ht_inv h eq t" and i: "i = chain_index t key" and chain: "chain = table t ! i"
    and rep: "chain_replace eq (key, v) chain = Some (old, chain')"
  shows "ht_inv h eq (t\<lparr>table := (table t)[i := chain']\<rparr>)"
    and "\<exists>rest. mset (contents t) = mset (old # rest) \<and>
           mset (concat ((table t)[i := chain'])) = mset ((key, v) # rest)"
    and "eq (fst old) key"
proof -
  have il: "i < length (table t)" using inv_chain_in [OF inv] i by simp
  from chain_replace_Some [OF rep] obtain pre post
    where ch: "chain = pre @ old # post" "chain' = pre @ (key, v) # post" and k: "eq (fst old) key"
    by auto
  show "eq (fst old) key" by (rule k)
  have ms: "mset (concat ((table t)[i := chain'])) + {#old#} = mset (contents t) + {#(key, v)#}"
    using mset_concat_update [OF il, of chain'] ch chain by simp
  have "old \<in> set (table t ! i)" using ch chain by (metis in_set_conv_decomp)
  with il have "old \<in> set (contents t)" unfolding in_concat_nth by blast
  then obtain us vs where sp: "contents t = us @ old # vs" by (meson split_list)
  let ?rest = "us @ vs"
  have "keys_ok eq (old # ?rest)"
    using inv keys_ok_mset [of "contents t" "old # ?rest"] sp by (simp add: ht_inv_def)
  then have ok1: "keys_ok eq ((key, v) # ?rest)" by (rule keys_ok_replace) (simp add: k)
  have ms2: "mset (concat ((table t)[i := chain'])) = mset ((key, v) # ?rest)"
    using ms sp by simp
  then show "\<exists>rest. mset (contents t) = mset (old # rest) \<and>
      mset (concat ((table t)[i := chain'])) = mset ((key, v) # rest)"
    using sp by (intro exI [of _ ?rest]) simp
  from ok1 ms2 have ok: "keys_ok eq (concat ((table t)[i := chain']))"
    using keys_ok_mset by blast
  have "length (concat ((table t)[i := chain'])) = length (contents t)"
    using arg_cong [OF ms2, of size] sp by (simp del: length_concat mset_concat)
  then have "unat (entries t) = length (concat ((table t)[i := chain']))"
    using inv by (simp add: ht_inv_def)
  then have "ht_inv h eq (t\<lparr>table := (table t)[i := chain'], entries := entries t\<rparr>)"
    using ok ch chain i eq_refl by (intro update_chain_inv [OF inv, where key = key]) auto
  then show "ht_inv h eq (t\<lparr>table := (table t)[i := chain']\<rparr>)" by simp
qed

text \<open>
  One insertion.  Whatever the allocator does, the invariant is kept; a successful insertion is a
  map update, a failed one changes no answer.
\<close>

lemma insert_cases:
  assumes inv: "ht_inv h eq t" and room: "length (contents t) \<le> ht_max_entries"
    and ins: "rv_hash_table_insert c m t key v = (ok, t', fr)"
  obtains (fail) "\<not> ok" "ht_inv h eq t'" "mset (contents t') = mset (contents t)" "fr = []"
  | (added) "ok" "ht_inv h eq t'" "mset (contents t') = mset (contents t) + {#(key, v)#}" "fr = []"
  | (replaced) old rest where "ok" "ht_inv h eq t'" "eq (fst old) key"
      "mset (contents t) = mset (old # rest)" "mset (contents t') = mset ((key, v) # rest)"
      "fr = (if value_free_func t then [FreeValue (snd old)] else [])
            @ (if key_free_func t then [FreeKey (fst old)] else [])"
proof -
  obtain grown t1 where g: "(if (entries t * 3) div table_size t > 0
      then hash_table_enlarge c t else (True, t)) = (grown, t1)"
    by (metis surj_pair)
  note G = grow_inv [OF inv room g]
  then have inv1: "ht_inv h eq t1" by blast
  let ?i = "chain_index t1 key"
  show thesis
  proof (cases grown)
    case False
    with ins g G fail show ?thesis by (simp add: rv_hash_table_insert_def)
  next
    case True
    show ?thesis
    proof (cases "chain_replace eq (key, v) (table t1 ! ?i)")
      case (Some p)
      obtain old chain' where p: "p = (old, chain')" by (cases p)
      note R = replace_entry_inv [OF inv1 refl refl Some [unfolded p]]
      from R(2) obtain rest where rest: "mset (contents t1) = mset (old # rest)"
        "mset (concat ((table t1)[?i := chain'])) = mset ((key, v) # rest)" by blast
      have "equal_func t1 = eq" using inv1 by (simp add: ht_inv_def)
      with ins g True Some p have "ok" and t': "t' = t1\<lparr>table := (table t1)[?i := chain']\<rparr>"
        and fr: "fr = (if value_free_func t1 then [FreeValue (snd old)] else [])
            @ (if key_free_func t1 then [FreeKey (fst old)] else [])"
        by (auto simp: rv_hash_table_insert_def Let_def)
      with R(1,3) rest G show ?thesis by (intro replaced [of old rest]) auto
    next
      case None
      have "length (contents t1) \<le> ht_max_entries"
        using room G by (metis size_mset)
      note N = insert_entry_inv [OF inv1 refl refl None this]
      have eqf: "equal_func t1 = eq" using inv1 by (simp add: ht_inv_def)
      show ?thesis
      proof (cases m)
        case True
        with ins g \<open>grown\<close> None eqf N G show ?thesis
          by (intro added) (auto simp: rv_hash_table_insert_def Let_def)
      next
        case False
        with ins g \<open>grown\<close> None eqf inv1 G show ?thesis
          by (intro fail) (auto simp: rv_hash_table_insert_def Let_def)
      qed
    qed
  qed
qed

lemma lookup_update:
  assumes inv: "ht_inv h eq t" and inv': "ht_inv h eq t'"
    and new: "set (contents t') = insert (key, v) R"
    and old: "\<And>k' w. \<not> eq key k' \<Longrightarrow> (k', w) \<in> set (contents t) \<longleftrightarrow> (k', w) \<in> R"
  shows "rv_hash_table_lookup t' k = (if eq key k then Some v else rv_hash_table_lookup t k)"
proof (cases "eq key k")
  case True
  then have "(key, v) \<in> set (contents t') \<and> eq k key" using new eq_sym by blast
  then have "rv_hash_table_lookup t' k = Some v" using lookup_Some_iff [OF inv'] by blast
  with True show ?thesis by simp
next
  case False
  have "(k', w) \<in> set (contents t') \<longleftrightarrow> (k', w) \<in> set (contents t)" if "eq k k'" for k' w
  proof -
    have "\<not> eq key k'" using that False eq_sym eq_trans by blast
    moreover from this have "(k', w) \<noteq> (key, v)" using eq_refl by blast
    ultimately show ?thesis using new old by blast
  qed
  then have "rv_hash_table_lookup t' k = Some w \<longleftrightarrow> rv_hash_table_lookup t k = Some w" for w
    unfolding lookup_Some_iff [OF inv] lookup_Some_iff [OF inv'] by blast
  with False show ?thesis by (auto intro: option_eqI)
qed

lemma insert_lookup:
  assumes inv: "ht_inv h eq t" and room: "length (contents t) \<le> ht_max_entries"
    and ins: "rv_hash_table_insert c m t key v = (ok, t', fr)"
  shows "rv_hash_table_lookup t' k =
    (if ok \<and> eq key k then Some v else rv_hash_table_lookup t k)"
  using inv room ins
proof (cases rule: insert_cases)
  case fail
  then show ?thesis using lookup_cong [OF inv \<open>ht_inv h eq t'\<close>] by (metis mset_eq_setD)
next
  case added
  have "set (contents t') = insert (key, v) (set (contents t))"
    using arg_cong [OF added(3), of set_mset] by simp
  then show ?thesis using lookup_update [OF inv added(2)] added(1) by simp
next
  case (replaced old rest)
  have s: "set (contents t') = insert (key, v) (set rest)" "set (contents t) = insert old (set rest)"
    using mset_eq_setD [OF replaced(5)] mset_eq_setD [OF replaced(4)] by simp_all
  have "(k', w) \<in> set (contents t) \<longleftrightarrow> (k', w) \<in> set rest" if "\<not> eq key k'" for k' w
  proof -
    have "(k', w) \<noteq> old" using that replaced(3) eq_sym by fastforce
    then show ?thesis using s(2) by blast
  qed
  then show ?thesis using lookup_update [OF inv replaced(2) s(1)] replaced(1) by simp
qed

lemma insert_inv:
  assumes "ht_inv h eq t" and "length (contents t) \<le> ht_max_entries"
    and "rv_hash_table_insert c m t key v = (ok, t', fr)"
  shows "ht_inv h eq t'"
  using assms by (cases rule: insert_cases) simp_all

text \<open>Every key handed to the table is in it or was handed to the key free function, once.\<close>

lemma insert_keys:
  assumes "ht_inv h eq t" and "length (contents t) \<le> ht_max_entries"
    and "rv_hash_table_insert c m t key v = (ok, t', fr)" and "key_free_func t"
  shows "mset (map fst (contents t')) + mset (freed_keys fr)
       = mset (map fst (contents t)) + (if ok then {#key#} else {#})"
  using assms(1-3)
proof (cases rule: insert_cases)
  case fail
  then show ?thesis by (simp only: mset_map freed_keys.simps mset.simps if_False add_0_right)
next
  case added
  then show ?thesis by (simp only: mset_map) simp
next
  case (replaced old rest)
  then show ?thesis using assms(4) by (simp only: mset_map) simp
qed

subsection \<open>Removal\<close>

lemma remove_cases:
  assumes inv: "ht_inv h eq t" and rem: "rv_hash_table_remove t key = (ok, t', fr)"
  obtains (absent) "\<not> ok" "t' = t" "fr = []" "rv_hash_table_lookup t key = None"
  | (found) old rest where "ok" "ht_inv h eq t'" "eq key (fst old)" "fr = hash_table_free_entry t old"
      "mset (contents t) = mset (old # rest)" "mset (contents t') = mset rest"
proof -
  let ?i = "chain_index t key"
  have eqf: "equal_func t = eq" using inv by (simp add: ht_inv_def)
  have il: "?i < length (table t)" using inv_chain_in [OF inv] .
  show thesis
  proof (cases "chain_remove eq key (table t ! ?i)")
    case None
    then have "rv_hash_table_lookup t key = None"
      by (simp add: rv_hash_table_lookup_def eqf chain_remove_None chain_lookup_None)
    with None rem eqf absent show ?thesis by (auto simp: rv_hash_table_remove_def)
  next
    case (Some p)
    obtain old chain' where p: "p = (old, chain')" by (cases p)
    from chain_remove_Some [OF Some [unfolded p]] obtain pre post
      where ch: "table t ! ?i = pre @ old # post" "chain' = pre @ post" and k: "eq key (fst old)" by auto
    have ok: "ok" and t': "t' = t\<lparr>table := (table t)[?i := chain'], entries := entries t - 1\<rparr>"
      and fr: "fr = hash_table_free_entry t old"
      using rem Some p eqf by (auto simp: rv_hash_table_remove_def Let_def)
    have ms: "mset (concat ((table t)[?i := chain'])) + {#old#} = mset (contents t)"
      using mset_concat_update [OF il, of chain'] ch by simp
    have "old \<in> set (table t ! ?i)" using ch by simp
    with il have "old \<in> set (contents t)" unfolding in_concat_nth by blast
    then obtain us vs where sp: "contents t = us @ old # vs" by (meson split_list)
    have ms2: "mset (concat ((table t)[?i := chain'])) = mset (us @ vs)" using ms sp by simp
    have "keys_ok eq (old # us @ vs)"
      using inv keys_ok_mset [of "contents t" "old # us @ vs"] sp by (simp add: ht_inv_def)
    then have kok: "keys_ok eq (concat ((table t)[?i := chain']))"
      using keys_ok_mset [OF ms2] unfolding keys_ok_Cons by blast
    have l: "length (concat ((table t)[?i := chain'])) + 1 = length (contents t)"
      using arg_cong [OF ms2, of size] sp by (simp del: length_concat mset_concat)
    moreover have n: "unat (entries t) = length (contents t)" using inv unfolding ht_inv_def by blast
    ultimately have "unat (entries t) \<noteq> 0" by linarith
    then have "entries t \<noteq> 0" by fastforce
    then have "unat (entries t - 1) = length (concat ((table t)[?i := chain']))"
      using l n by (simp add: unat_minus_one)
    then have "ht_inv h eq t'"
      unfolding t' using kok ch by (intro update_chain_inv [OF inv refl]) auto
    with found [of old "us @ vs"] ok fr k sp ms2 t' show ?thesis by simp
  qed
qed

lemma remove_inv:
  assumes "ht_inv h eq t" and "rv_hash_table_remove t key = (ok, t', fr)"
  shows "ht_inv h eq t'"
  using assms by (cases rule: remove_cases) (simp_all add: assms(1))

lemma remove_lookup:
  assumes inv: "ht_inv h eq t" and rem: "rv_hash_table_remove t key = (ok, t', fr)"
  shows "rv_hash_table_lookup t' k = (if eq key k then None else rv_hash_table_lookup t k)"
    and "ok \<longleftrightarrow> rv_hash_table_lookup t key \<noteq> None"
proof -
  have both: "rv_hash_table_lookup t' k = (if eq key k then None else rv_hash_table_lookup t k) \<and>
    (ok \<longleftrightarrow> rv_hash_table_lookup t key \<noteq> None)"
    using inv rem
  proof (cases rule: remove_cases)
    case absent
    have "rv_hash_table_lookup t k = None" if "eq key k"
      using absent(4) that eq_trans unfolding lookup_None_iff [OF inv] by blast
    with absent show ?thesis by simp
  next
    case (found old rest)
    have s: "set (contents t') = set rest" "set (contents t) = insert old (set rest)"
      using mset_eq_setD [OF found(6)] mset_eq_setD [OF found(5)] by simp_all
    have "keys_ok eq (old # rest)"
      using keys_ok_mset [OF found(5)] inv unfolding ht_inv_def by blast
    then have no: "\<not> eq key (fst b)" if "b \<in> set rest" for b
      using that found(3) eq_sym eq_trans unfolding keys_ok_Cons by blast
    show ?thesis
    proof (intro conjI)
      show "rv_hash_table_lookup t' k = (if eq key k then None else rv_hash_table_lookup t k)"
      proof (cases "eq key k")
        case True
        then have "\<not> eq k (fst b)" if "b \<in> set rest" for b
          using no [OF that] eq_trans by blast
        then have "rv_hash_table_lookup t' k = None"
          unfolding lookup_None_iff [OF found(2)] s(1) by blast
        with True show ?thesis by simp
      next
        case False
        have "(k', w) \<noteq> old" if "eq k k'" for k' w
          using that False found(3) eq_sym eq_trans by (metis fst_conv)
        then have "rv_hash_table_lookup t' k = Some w \<longleftrightarrow> rv_hash_table_lookup t k = Some w" for w
          unfolding lookup_Some_iff [OF inv] lookup_Some_iff [OF found(2)] s by blast
        with False show ?thesis by (auto intro: option_eqI)
      qed
      have "rv_hash_table_lookup t key \<noteq> None"
        unfolding lookup_None_iff [OF inv] s(2) using found(3) by blast
      with found(1) show "ok \<longleftrightarrow> rv_hash_table_lookup t key \<noteq> None" by simp
    qed
  qed
  then show "rv_hash_table_lookup t' k = (if eq key k then None else rv_hash_table_lookup t k)"
    and "ok \<longleftrightarrow> rv_hash_table_lookup t key \<noteq> None" by blast+
qed

end

section \<open>Iteration and destruction\<close>

lemma first_chain_rest:
  assumes "first_chain tab c = (c', es)"
  shows "es @ concat (drop (Suc c') tab) = concat (drop c tab)"
    and "es = [] \<Longrightarrow> concat (drop c tab) = []"
proof -
  have "es @ concat (drop (Suc c') tab) = concat (drop c tab) \<and> (es = [] \<longrightarrow> concat (drop c tab) = [])"
    using assms
  proof (induction tab c arbitrary: c' es rule: first_chain.induct)
    case (1 tab c)
    show ?case
    proof (cases "c < length tab")
      case False
      with "1.prems" show ?thesis by (simp add: first_chain.simps [of tab c])
    next
      case True
      then have d: "drop c tab = tab ! c # drop (Suc c) tab" by (simp add: Cons_nth_drop_Suc)
      show ?thesis
      proof (cases "tab ! c = []")
        case True
        with \<open>c < length tab\<close> "1.prems" have "first_chain tab (Suc c) = (c', es)"
          by (simp add: first_chain.simps [of tab c])
        with "1.IH" \<open>c < length tab\<close> True d show ?thesis by auto
      next
        case False
        with \<open>c < length tab\<close> "1.prems" d show ?thesis by (auto simp: first_chain.simps [of tab c])
      qed
    qed
  qed
  then show "es @ concat (drop (Suc c') tab) = concat (drop c tab)"
    and "es = [] \<Longrightarrow> concat (drop c tab) = []" by blast+
qed

text \<open>What an iterator still has to return.\<close>

definition iter_rest :: "('k, 'v) hash_table \<Rightarrow> ('k, 'v) hash_table_iter \<Rightarrow> ('k \<times> 'v) list" where
  "iter_rest t it =
     (if next_entry it = [] then [] else next_entry it @ concat (drop (Suc (next_chain it)) (table t)))"

lemma iterate_rest: "iter_rest t (rv_hash_table_iterate g t) = contents t"
proof -
  obtain c es where f: "first_chain (table t) 0 = (c, es)" by (cases "first_chain (table t) 0")
  from first_chain_rest [OF f] show ?thesis
    by (cases es) (auto simp: rv_hash_table_iterate_def f iter_rest_def)
qed

lemma iter_next_rest:
  assumes "iter_rest t it = e # es"
  shows "\<exists>it'. rv_hash_table_iter_next t it = (Some (snd e), it') \<and> iter_rest t it' = es"
proof -
  from assms obtain cur rest where ne: "next_entry it = cur # rest"
    by (cases "next_entry it") (auto simp: iter_rest_def)
  show ?thesis
  proof (cases "rest = []")
    case False
    with assms ne show ?thesis by (simp add: rv_hash_table_iter_next_def iter_rest_def)
  next
    case True
    obtain c fs where f: "first_chain (table t) (Suc (next_chain it)) = (c, fs)"
      by (cases "first_chain (table t) (Suc (next_chain it))")
    from first_chain_rest [OF f] assms ne True show ?thesis
      by (cases fs) (auto simp: rv_hash_table_iter_next_def iter_rest_def f)
  qed
qed

lemma iter_has_more_rest: "rv_hash_table_iter_has_more it \<longleftrightarrow> iter_rest t it \<noteq> []"
  by (simp add: rv_hash_table_iter_has_more_def iter_rest_def)

lemma iter_collect_rest: "iter_collect n t it = take n (map snd (iter_rest t it))"
proof (induction n arbitrary: it)
  case 0
  then show ?case by simp
next
  case (Suc n)
  show ?case
  proof (cases "iter_rest t it")
    case Nil
    then show ?thesis by (simp add: iter_has_more_rest [of it t])
  next
    case (Cons e es)
    from iter_next_rest [OF this] obtain it'
      where "rv_hash_table_iter_next t it = (Some (snd e), it')" "iter_rest t it' = es" by blast
    with Suc.IH [of it'] Cons show ?thesis by (simp add: iter_has_more_rest [of it t])
  qed
qed

lemma freed_keys_append [simp]: "freed_keys (xs @ ys) = freed_keys xs @ freed_keys ys"
  by (induction xs rule: freed_keys.induct) auto

lemma freed_keys_entry: "key_free_func t \<Longrightarrow> freed_keys (hash_table_free_entry t e) = [fst e]"
  by (simp add: hash_table_free_entry_def)

lemma freed_keys_free:
  assumes "key_free_func t"
  shows "freed_keys (rv_hash_table_free t) = map fst (contents t)"
proof -
  have c: "freed_keys (concat (map (hash_table_free_entry t) c)) = map fst c" for c
    by (induction c) (simp_all add: freed_keys_entry assms)
  have "freed_keys (concat (map (\<lambda>c. concat (map (hash_table_free_entry t) c)) tab)) = map fst (concat tab)" for tab
    by (induction tab) (simp_all add: c)
  then show ?thesis by (simp add: rv_hash_table_free_def)
qed

section \<open>The connector's tables: string keys\<close>

text \<open>The functions every table of the connector is created with meet the contract.\<close>

interpretation string_keys: key_ops rv_hash_string H5_rest_compare_string_keys
  by unfold_locales (auto simp: H5_rest_compare_string_keys_def)

definition string_table_ok :: "(string, 'v) hash_table \<Rightarrow> bool" where
  "string_table_ok t \<longleftrightarrow> ht_inv rv_hash_string H5_rest_compare_string_keys t \<and>
     length (contents t) \<le> ht_max_entries"

text \<open>With memory available a table is created and an insertion succeeds.\<close>

lemma new_succeeds: "\<exists>t. rv_hash_table_new True True h eq = Some t"
  by (simp add: rv_hash_table_new_def hash_table_allocate_table_def Let_def)

lemma insert_succeeds:
  assumes "rv_hash_table_insert True True t key v = (ok, t', fr)"
  shows "ok"
  using assms
  by (auto simp: rv_hash_table_insert_def hash_table_enlarge_def hash_table_allocate_table_def Let_def
      split: if_splits option.splits prod.splits)

text \<open>A client's run: insertions (with what the allocator did) and removals.\<close>

datatype 'v table_op = Insert bool bool string 'v | Remove string

text \<open>The table after a run, the keys it took and the calls of the free functions.\<close>

fun run_table ::
  "(string, 'v) hash_table \<Rightarrow> 'v table_op list
     \<Rightarrow> (string, 'v) hash_table \<times> string list \<times> (string, 'v) free_event list" where
  "run_table t [] = (t, [], [])"
| "run_table t (Insert c m k v # ops) =
     (case rv_hash_table_insert c m t k v of
        (ok, t1, fr) \<Rightarrow>
          (case run_table t1 ops of
             (t2, ks, frs) \<Rightarrow> (t2, (if ok then k # ks else ks), fr @ frs)))"
| "run_table t (Remove k # ops) =
     (case rv_hash_table_remove t k of
        (ok, t1, fr) \<Rightarrow> (case run_table t1 ops of (t2, ks, frs) \<Rightarrow> (t2, ks, fr @ frs)))"

lemma remove_key_free: "rv_hash_table_remove t k = (ok, t', fr) \<Longrightarrow> key_free_func t' = key_free_func t"
  by (auto simp: rv_hash_table_remove_def Let_def split: option.splits)

lemma insert_key_free:
  "rv_hash_table_insert c m t k v = (ok, t', fr) \<Longrightarrow> key_free_func t' = key_free_func t"
  by (auto simp: rv_hash_table_insert_def hash_table_enlarge_def hash_table_allocate_table_def Let_def
      split: if_splits option.splits prod.splits)

lemma remove_keys:
  assumes "ht_inv rv_hash_string H5_rest_compare_string_keys t"
    and "rv_hash_table_remove t k = (ok, t', fr)" and "key_free_func t"
  shows "mset (map fst (contents t')) + mset (freed_keys fr) = mset (map fst (contents t))"
  using assms(1,2)
proof (cases rule: string_keys.remove_cases)
  case absent
  then show ?thesis by simp
next
  case (found old rest)
  then show ?thesis using freed_keys_entry [OF assms(3), of old] by (simp only: mset_map) simp
qed

lemma insert_length:
  assumes "ht_inv rv_hash_string H5_rest_compare_string_keys t" and "length (contents t) \<le> ht_max_entries"
    and "rv_hash_table_insert c m t k v = (ok, t', fr)"
  shows "length (contents t') \<le> Suc (length (contents t))"
  using assms
proof (cases rule: string_keys.insert_cases)
  case fail
  then show ?thesis by (metis le_SucI order_refl size_mset)
next
  case added
  then show ?thesis by (metis add_mset_add_single order_refl size_add_mset size_mset)
next
  case (replaced old rest)
  then show ?thesis by (metis le_SucI length_Cons order_refl size_mset)
qed

lemma remove_length:
  assumes "ht_inv rv_hash_string H5_rest_compare_string_keys t"
    and "rv_hash_table_remove t k = (ok, t', fr)"
  shows "length (contents t') \<le> length (contents t)"
  using assms
proof (cases rule: string_keys.remove_cases)
  case absent
  then show ?thesis by simp
next
  case (found old rest)
  then show ?thesis by (metis le_SucI length_Cons order_refl size_mset)
qed

lemma run_table_keys:
  assumes "ht_inv rv_hash_string H5_rest_compare_string_keys t" and "key_free_func t"
    and "length (contents t) + length ops \<le> ht_max_entries" and "run_table t ops = (t', ks, frs)"
  shows "ht_inv rv_hash_string H5_rest_compare_string_keys t' \<and> key_free_func t' \<and>
    mset (map fst (contents t')) + mset (freed_keys frs) = mset (map fst (contents t)) + mset ks"
  using assms
proof (induction t ops arbitrary: t' ks frs rule: run_table.induct)
  case (1 t)
  then show ?case by simp
next
  case (2 t c m k v ops)
  obtain ok t1 fr where i: "rv_hash_table_insert c m t k v = (ok, t1, fr)" by (metis prod_cases3)
  obtain t2 ks2 frs2 where r: "run_table t1 ops = (t2, ks2, frs2)" by (metis prod_cases3)
  have room: "length (contents t) \<le> ht_max_entries" using "2.prems"(3) by simp
  have l: "length (contents t1) + length ops \<le> ht_max_entries"
    using insert_length [OF "2.prems"(1) room i] "2.prems"(3) by simp
  note I = string_keys.insert_keys [OF "2.prems"(1) room i "2.prems"(2)]
  have kf: "key_free_func t1" using insert_key_free [OF i] "2.prems"(2) by simp
  note H = "2.IH" [OF i [symmetric] refl string_keys.insert_inv [OF "2.prems"(1) room i] kf l r]
  have eqs: "t' = t2" "ks = (if ok then k # ks2 else ks2)" "frs = fr @ frs2"
    using "2.prems"(4) by (simp_all add: i r)
  have "mset (map fst (contents t2)) + mset (freed_keys frs2) + mset (freed_keys fr)
      = mset (map fst (contents t)) + (if ok then {#k#} else {#}) + mset ks2"
    using arg_cong [OF H [THEN conjunct2, THEN conjunct2], of "\<lambda>m. m + mset (freed_keys fr)"] I
    by (simp add: ac_simps)
  with H show ?case unfolding eqs by (auto simp: ac_simps)
next
  case (3 t k ops)
  obtain ok t1 fr where i: "rv_hash_table_remove t k = (ok, t1, fr)" by (metis prod_cases3)
  obtain t2 ks2 frs2 where r: "run_table t1 ops = (t2, ks2, frs2)" by (metis prod_cases3)
  have l: "length (contents t1) + length ops \<le> ht_max_entries"
    using remove_length [OF "3.prems"(1) i] "3.prems"(3) by simp
  note I = remove_keys [OF "3.prems"(1) i "3.prems"(2)]
  have kf: "key_free_func t1" using remove_key_free [OF i] "3.prems"(2) by simp
  note H = "3.IH" [OF i [symmetric] refl string_keys.remove_inv [OF "3.prems"(1) i] kf l r]
  have eqs: "t' = t2" "ks = ks2" "frs = fr @ frs2"
    using "3.prems"(4) by (simp_all add: i r)
  have "mset (map fst (contents t2)) + mset (freed_keys frs2) + mset (freed_keys fr)
      = mset (map fst (contents t)) + mset ks2"
    using H I by (metis ab_semigroup_add_class.add_ac(1) add.commute)
  with H show ?case unfolding eqs by (simp add: ac_simps)
qed

section \<open>Properties\<close>

text \<open>
  C2: inserting into a table of string keys is a map update. Whatever the allocator returns the
  table stays well formed; a successful insertion makes the key answer the new value and changes
  no other answer, a failed one changes none, and insertion fails only when memory runs out.
\<close>

theorem hash_table_insert_map:
  assumes "string_table_ok t"
    and "rv_hash_table_insert calloc_ok malloc_ok t key v = (ok, t', fr)"
  shows "ht_inv rv_hash_string H5_rest_compare_string_keys t' \<and>
    rv_hash_table_lookup t' k = (if ok \<and> k = key then Some v else rv_hash_table_lookup t k) \<and>
    (calloc_ok \<and> malloc_ok \<longrightarrow> ok)"
proof -
  have inv: "ht_inv rv_hash_string H5_rest_compare_string_keys t" "length (contents t) \<le> ht_max_entries"
    using assms(1) by (simp_all add: string_table_ok_def)
  have "calloc_ok \<and> malloc_ok \<longrightarrow> ok"
    using insert_succeeds [of t key v ok t' fr] assms(2) by (cases "calloc_ok \<and> malloc_ok") auto
  with string_keys.insert_inv [OF inv assms(2)] string_keys.insert_lookup [OF inv assms(2), of k]
  show ?thesis by (simp add: H5_rest_compare_string_keys_def)
qed

theorem hash_table_insert_map_witness:
  "\<exists>t ok t' fr. rv_hash_table_new True True rv_hash_string H5_rest_compare_string_keys = Some t \<and>
     rv_hash_table_insert True True t ''g-1'' (7::nat) = (ok, t', fr) \<and> ok \<and>
     rv_hash_table_lookup t' ''g-1'' = Some 7 \<and> rv_hash_table_lookup t' ''g-2'' = None"
proof -
  obtain t :: "(string, nat) hash_table" where
    t: "rv_hash_table_new True True rv_hash_string H5_rest_compare_string_keys = Some t"
    using new_succeeds by blast
  note I = string_keys.new_inv [OF t]
  obtain ok t' fr where i: "rv_hash_table_insert True True t ''g-1'' (7::nat) = (ok, t', fr)"
    by (metis prod_cases3)
  have s: "string_table_ok t" unfolding string_table_ok_def I(2) by (simp add: I(1))
  have "rv_hash_table_lookup t ''g-2'' = None"
    unfolding string_keys.lookup_None_iff [OF I(1)] I(2) by simp
  with hash_table_insert_map [OF s i, of "''g-1''"] hash_table_insert_map [OF s i, of "''g-2''"] t i
  show ?thesis by auto
qed

text \<open>
  C32: removing a key makes exactly that key absent, reports whether it was present, and keeps
  the table well formed (the entry count included).
\<close>

theorem hash_table_remove_map:
  assumes "string_table_ok t" and "rv_hash_table_remove t key = (ok, t', fr)"
  shows "string_table_ok t' \<and>
    rv_hash_table_lookup t' k = (if k = key then None else rv_hash_table_lookup t k) \<and>
    (ok \<longleftrightarrow> rv_hash_table_lookup t key \<noteq> None) \<and>
    unat (rv_hash_table_num_entries t') = length (contents t')"
proof -
  have inv: "ht_inv rv_hash_string H5_rest_compare_string_keys t"
    using assms(1) by (simp add: string_table_ok_def)
  note R = string_keys.remove_inv [OF inv assms(2)] string_keys.remove_lookup [OF inv assms(2)]
  have "length (contents t') \<le> ht_max_entries"
    using remove_length [OF inv assms(2)] assms(1) by (simp add: string_table_ok_def)
  with R show ?thesis
    by (auto simp: string_table_ok_def H5_rest_compare_string_keys_def rv_hash_table_num_entries_def
        ht_inv_def)
qed

theorem hash_table_remove_map_witness:
  "\<exists>t ok t' fr. rv_hash_table_new True True rv_hash_string H5_rest_compare_string_keys
       = Some (t :: (string, nat) hash_table) \<and>
     rv_hash_table_remove t ''g-1'' = (ok, t', fr) \<and> \<not> ok \<and> rv_hash_table_lookup t' ''g-1'' = None"
proof -
  obtain t :: "(string, nat) hash_table" where
    t: "rv_hash_table_new True True rv_hash_string H5_rest_compare_string_keys = Some t"
    using new_succeeds by blast
  note I = string_keys.new_inv [OF t]
  obtain ok t' fr where r: "rv_hash_table_remove t ''g-1'' = (ok, t', fr)"
    by (metis prod_cases3)
  have s: "string_table_ok t" unfolding string_table_ok_def I(2) by (simp add: I(1))
  have "rv_hash_table_lookup t ''g-1'' = None"
    unfolding string_keys.lookup_None_iff [OF I(1)] I(2) by simp
  with hash_table_remove_map [OF s r, of "''g-1''"] t r show ?thesis by auto
qed

text \<open>
  Iterating a table from \<open>rv_hash_table_iterate\<close> with \<open>has_more\<close> and \<open>next\<close> returns the
  value of every entry exactly once, chain by chain, and then stops.
\<close>

lemma hash_table_iteration_complete:
  "iter_collect n t (rv_hash_table_iterate garbage t) = take n (map snd (contents t))"
  by (simp add: iter_collect_rest iterate_rest)



end
