(* ===== verification/Thread_Pool.thy ===== *)
theory Thread_Pool
  imports Prelude "HOL-Library.Multiset"
begin

text \<open>
  The thread pool of \<open>src/vol-rest/src/thread_pool.c\<close> and the way \<open>RV_dataset_read\<close>
  (\<open>rest_vol_dataset.c\<close>) and the tasks it submits (\<open>RV_curl_multi_perform_multithreading\<close> of
  \<open>rest_vol.c\<close>) use it: the reader submits one task per server node and waits on the pool's
  own condition variable until \<open>tasks_completed\<close> reaches the number of nodes.

  The operations are functions on the pool record.  Everything between \<open>pthread_mutex_lock\<close>
  and the matching unlock (or \<open>pthread_cond_wait\<close>) runs as one step; the outcomes of the
  \<open>pthread\<close> calls are arguments.  The threads are the components of a step relation.
\<close>

section \<open>The pool\<close>

text \<open>
  \<open>task_queue\<close> is the ring buffer; a slot that was never written is \<open>None\<close>.  The type
  \<open>'a\<close> of tasks stands for the pair of function pointer and argument.
\<close>

record 'a threadpool =
  task_queue :: "'a option list"
  thread_count :: int
  queue_size :: int
  head :: int
  tail :: int
  count :: int
  shutdown :: bool
  started :: int

text \<open>What the \<open>malloc\<close> and \<open>pthread\<close> calls return; \<open>True\<close> is success.\<close>

record pthread_env =
  malloc_pool_ok :: bool
  malloc_threads_ok :: bool
  malloc_queue_ok :: bool
  mutex_init_ok :: bool
  cond_init_ok :: bool
  create_ok :: "nat \<Rightarrow> bool"
  lock_ok :: bool
  signal_ok :: bool
  broadcast_ok :: bool
  unlock_ok :: bool
  join_ok :: "nat \<Rightarrow> bool"
  mutex_destroy_ok :: bool
  cond_destroy_ok :: bool

text \<open>
  The result of \<open>threadpool_destroy\<close>: the return value, the pool it leaves, the indices of
  \<open>pool->threads\<close> it joins and whether the memory was freed.
\<close>

record 'a destroy_result =
  ret :: int
  pool_left :: "'a threadpool"
  joined :: "nat list"
  freed :: bool

definition threadpool_destroy :: "pthread_env \<Rightarrow> 'a threadpool \<Rightarrow> 'a destroy_result" where
  "threadpool_destroy env p =
     (if \<not> lock_ok env then \<lparr>ret = -1, pool_left = p, joined = [], freed = False\<rparr>
      else
        (let p1 = p\<lparr>shutdown := True\<rparr>
         in if \<not> broadcast_ok env \<or> \<not> unlock_ok env
            then \<lparr>ret = -1, pool_left = p1, joined = [], freed = False\<rparr>
            else
              (let js = [0..<nat (thread_count p1)];
                   err = (if list_all (join_ok env) js then 0 else -1);
                   err' = (if err = 0
                           then if \<not> mutex_destroy_ok env \<or> \<not> cond_destroy_ok env then -1 else 0
                           else err)
               in \<lparr>ret = err', pool_left = p1, joined = js, freed = (err' = 0)\<rparr>)))"

text \<open>The loop of \<open>threadpool_create\<close>: \<open>n\<close> threads are still to be started, \<open>i\<close> have been.\<close>

fun spawn_threads ::
  "(nat \<Rightarrow> bool) \<Rightarrow> nat \<Rightarrow> nat \<Rightarrow> 'a threadpool \<Rightarrow> bool \<times> 'a threadpool" where
  "spawn_threads ok 0 i p = (True, p)"
| "spawn_threads ok (Suc n) i p =
     (if \<not> ok i then (False, p)
      else spawn_threads ok n (Suc i) (p\<lparr>started := started p + 1\<rparr>))"

text \<open>The pool (\<open>None\<close> is NULL) and, when a thread could not be created, what the clean-up did.\<close>

definition threadpool_create ::
  "pthread_env \<Rightarrow> int \<Rightarrow> int \<Rightarrow> 'a threadpool option \<times> 'a destroy_result option" where
  "threadpool_create env tcount qsize =
     (if \<not> malloc_pool_ok env then (None, None)
      else
        (let p = \<lparr>task_queue = replicate (nat qsize) None, thread_count = tcount,
                  queue_size = qsize, head = 0, tail = 0, count = 0, shutdown = False, started = 0\<rparr>
         in if \<not> mutex_init_ok env \<or> \<not> cond_init_ok env \<or> \<not> malloc_threads_ok env
               \<or> \<not> malloc_queue_ok env
            then (None, None)
            else
              (case spawn_threads (create_ok env) (nat tcount) 0 p of
                 (True, p') \<Rightarrow> (Some p', None)
               | (False, p') \<Rightarrow> (None, Some (threadpool_destroy env p')))))"

text \<open>
  \<open>threadpool_add\<close>: the return value, the pool, and whether a signal was sent.  \<open>None\<close>
  is the division by zero of \<open>% pool->queue_size\<close>.
\<close>

definition threadpool_add ::
  "pthread_env \<Rightarrow> 'a threadpool \<Rightarrow> 'a \<Rightarrow> (int \<times> 'a threadpool \<times> bool) option" where
  "threadpool_add env p task =
     (if \<not> lock_ok env then Some (-1, p, False)
      else if queue_size p = 0 then None
      else
        (let next = (tail p + 1) mod queue_size p;
             (err, p', sent) =
               (if count p = queue_size p then (-1, p, False)
                else
                  (let p1 = p\<lparr>task_queue := (task_queue p)[nat (tail p) := Some task],
                              tail := next, count := count p + 1\<rparr>
                   in if \<not> signal_ok env then (-1, p1, False) else (0, p1, True)))
         in Some (if \<not> unlock_ok env then -1 else err, p', sent)))"

text \<open>
  One turn of the loop of \<open>threadpool_thread\<close>, from acquiring the mutex to giving it up:
  wait on the condition variable, leave, or take a task and run it.
\<close>

datatype 'a thread_step = Sleep | Leave "'a threadpool" | Run 'a "'a threadpool" | Uninitialised

definition threadpool_thread :: "'a threadpool \<Rightarrow> 'a thread_step" where
  "threadpool_thread p =
     (if count p = 0 \<and> \<not> shutdown p then Sleep
      else if shutdown p \<and> count p = 0 then Leave (p\<lparr>started := started p - 1\<rparr>)
      else case task_queue p ! nat (head p) of
             None \<Rightarrow> Uninitialised
           | Some task \<Rightarrow>
               Run task (p\<lparr>head := (head p + 1) mod queue_size p, count := count p - 1\<rparr>))"

text \<open>
  \<open>H5_read_thread_pool_init\<close>: as many threads and queue slots as \<open>SERVER_NUM\<close> says; \<open>None\<close>
  when the variable is not set or the pool cannot be created.
\<close>

definition H5_read_thread_pool_init ::
  "pthread_env \<Rightarrow> string option \<Rightarrow> 'a threadpool option" where
  "H5_read_thread_pool_init env server_num =
     (case server_num of
        None \<Rightarrow> None
      | Some s \<Rightarrow> (let n = atoi s in fst (threadpool_create env n n)))"

text \<open>Every call succeeds.\<close>

definition pthread_fine :: pthread_env where
  "pthread_fine = \<lparr>malloc_pool_ok = True, malloc_threads_ok = True, malloc_queue_ok = True,
     mutex_init_ok = True, cond_init_ok = True, create_ok = (\<lambda>_. True), lock_ok = True,
     signal_ok = True, broadcast_ok = True, unlock_ok = True, join_ok = (\<lambda>_. True),
     mutex_destroy_ok = True, cond_destroy_ok = True\<rparr>"

section \<open>The ring buffer is a bounded queue\<close>

text \<open>The queued tasks, oldest first.\<close>

definition queued :: "'a threadpool \<Rightarrow> 'a option list" where
  "queued p = map (\<lambda>i. task_queue p ! nat ((head p + int i) mod queue_size p)) [0..<nat (count p)]"

definition tasks :: "'a threadpool \<Rightarrow> 'a list" where
  "tasks p = map the (queued p)"

definition pool_inv :: "'a threadpool \<Rightarrow> bool" where
  "pool_inv p \<longleftrightarrow> 0 < queue_size p \<and> length (task_queue p) = nat (queue_size p) \<and>
     0 \<le> head p \<and> head p < queue_size p \<and> 0 \<le> count p \<and> count p \<le> queue_size p \<and>
     tail p = (head p + count p) mod queue_size p \<and> None \<notin> set (queued p)"

text \<open>What a client of a bounded queue relies on.\<close>

locale bounded_queue =
  fixes push :: "'q \<Rightarrow> 'a \<Rightarrow> 'q option"
    and pop :: "'q \<Rightarrow> ('a \<times> 'q) option"
    and elems :: "'q \<Rightarrow> 'a list"
    and cap :: "'q \<Rightarrow> nat"
    and ok :: "'q \<Rightarrow> bool"
  assumes push_some: "ok q \<Longrightarrow> push q x = Some q' \<Longrightarrow> elems q' = elems q @ [x]"
    and push_none: "ok q \<Longrightarrow> push q x = None \<longleftrightarrow> length (elems q) = cap q"
    and pop_some: "ok q \<Longrightarrow> pop q = Some (x, q') \<Longrightarrow> elems q = x # elems q'"
    and pop_none: "ok q \<Longrightarrow> pop q = None \<longleftrightarrow> elems q = []"
    and push_ok: "ok q \<Longrightarrow> push q x = Some q' \<Longrightarrow> ok q' \<and> cap q' = cap q"
    and pop_ok: "ok q \<Longrightarrow> pop q = Some (x, q') \<Longrightarrow> ok q' \<and> cap q' = cap q"
begin

text \<open>A run: a push of a value, or a pop.  It returns the values accepted and those popped.\<close>

fun run_queue :: "'a option list \<Rightarrow> 'q \<Rightarrow> 'a list \<times> 'a list \<times> 'q" where
  "run_queue [] q = ([], [], q)"
| "run_queue (Some x # ops) q =
     (case push q x of
        None \<Rightarrow> run_queue ops q
      | Some q' \<Rightarrow> (case run_queue ops q' of (acc, out, q2) \<Rightarrow> (x # acc, out, q2)))"
| "run_queue (None # ops) q =
     (case pop q of
        None \<Rightarrow> run_queue ops q
      | Some (x, q') \<Rightarrow> (case run_queue ops q' of (acc, out, q2) \<Rightarrow> (acc, x # out, q2)))"

lemma run_queue_fifo:
  "ok q \<Longrightarrow> run_queue ops q = (acc, out, q') \<Longrightarrow> ok q' \<and> elems q @ acc = out @ elems q'"
proof (induction ops q arbitrary: acc out q' rule: run_queue.induct)
  case (1 q)
  then show ?case by simp
next
  case (2 x ops q)
  show ?case
  proof (cases "push q x")
    case None
    with 2 show ?thesis by simp
  next
    case (Some q1)
    obtain acc1 out1 q2 where run: "run_queue ops q1 = (acc1, out1, q2)" by (metis prod_cases3)
    note p = push_ok [OF "2.prems"(1) Some]
    have "ok q2 \<and> elems q1 @ acc1 = out1 @ elems q2" using "2.IH"(2) [OF Some _ run] p by blast
    then show ?thesis using "2.prems"(2) Some run push_some [OF "2.prems"(1) Some] by auto
  qed
next
  case (3 ops q)
  show ?case
  proof (cases "pop q")
    case None
    with 3 show ?thesis by simp
  next
    case (Some xq)
    then obtain x q1 where pop: "pop q = Some (x, q1)" by (cases xq) auto
    obtain acc1 out1 q2 where run: "run_queue ops q1 = (acc1, out1, q2)" by (metis prod_cases3)
    note p = pop_ok [OF "3.prems"(1) pop]
    have "ok q2 \<and> elems q1 @ acc1 = out1 @ elems q2"
      using "3.IH"(2) [OF pop refl _ run] p by blast
    then show ?thesis using "3.prems"(2) pop run pop_some [OF "3.prems"(1) pop] by auto
  qed
qed

lemma elems_bounded:
  assumes "ok q" and "length (elems q) \<le> cap q" and "push q x = Some q'"
  shows "length (elems q') \<le> cap q'"
  using push_some [OF assms(1,3)] push_none [OF assms(1), of x] push_ok [OF assms(1,3)] assms(2,3)
  by simp

end

lemma ring_index_inj:
  assumes "(h + int i) mod q = (h + int j) mod q" and "int i < q" and "int j < q"
  shows "i = j"
proof -
  have "q dvd int i - int j" using assms(1) by (simp add: mod_eq_dvd_iff)
  moreover have "\<bar>int i - int j\<bar> < \<bar>q\<bar>" using assms(2,3) by linarith
  ultimately show ?thesis using dvd_imp_le_int [of "int i - int j" q] by (cases "i = j") auto
qed

lemma length_queued [simp]: "length (queued p) = nat (count p)"
  by (simp add: queued_def)

lemma queued_add:
  assumes "pool_inv p" and "count p < queue_size p"
  shows "queued (p\<lparr>task_queue := (task_queue p)[nat (tail p) := Some t],
                   tail := n, count := count p + 1\<rparr>) = queued p @ [Some t]"
proof -
  define q h c where "q = queue_size p" and "h = head p" and "c = nat (count p)"
  have q: "0 < q" "length (task_queue p) = nat q" "tail p = (h + int c) mod q" "int c < q"
    using assms by (simp_all add: pool_inv_def q_def h_def c_def)
  have c1: "nat (count p + 1) = Suc c" using assms by (simp add: pool_inv_def c_def nat_add_distrib)
  let ?slot = "\<lambda>i. nat ((h + int i) mod q)"
  have lt: "?slot i < length (task_queue p)" for i
    using q by (simp add: nat_less_iff)
  have other: "nat (tail p) \<noteq> ?slot i" if "i < c" for i
  proof
    assume "nat (tail p) = ?slot i"
    then have "(h + int i) mod q = (h + int c) mod q"
      using q(1) by (simp add: q(3) eq_nat_nat_iff)
    from ring_index_inj [OF this] that q(4) show False by simp
  qed
  have "map (\<lambda>i. (task_queue p)[nat (tail p) := Some t] ! ?slot i) [0..<c]
      = map (\<lambda>i. task_queue p ! ?slot i) [0..<c]"
    using other by simp
  moreover have "(task_queue p)[nat (tail p) := Some t] ! ?slot c = Some t"
    using lt [of c] by (simp add: q(3))
  ultimately show ?thesis
    by (simp add: queued_def c1) (simp add: q_def h_def c_def)
qed

lemma queued_take:
  assumes "pool_inv p" and "count p > 0"
  shows "queued p = task_queue p ! nat (head p)
      # queued (p\<lparr>head := (head p + 1) mod queue_size p, count := count p - 1\<rparr>)"
proof -
  define q h c where "q = queue_size p" and "h = head p" and "c = nat (count p - 1)"
  have q: "0 < q" "0 \<le> h" "h < q" and c: "nat (count p) = Suc c"
    using assms by (simp_all add: pool_inv_def q_def h_def c_def)
  have shift: "((h + 1) mod q + int i) mod q = (h + int (Suc i)) mod q" for i
    by (simp add: mod_simps ac_simps)
  have "queued p = map (\<lambda>i. task_queue p ! nat ((h + int i) mod q)) (0 # map Suc [0..<c])"
    unfolding queued_def c q_def h_def using upt_conv_Cons [of 0 "Suc c"] map_Suc_upt [of 0 c] by simp
  also have "\<dots> = task_queue p ! nat h # map (\<lambda>i. task_queue p ! nat ((h + int (Suc i)) mod q)) [0..<c]"
    using q by simp
  also have "\<dots> = task_queue p ! nat (head p)
      # queued (p\<lparr>head := (head p + 1) mod queue_size p, count := count p - 1\<rparr>)"
    unfolding queued_def using shift by (simp add: q_def h_def c_def)
  finally show ?thesis .
qed

lemma tasks_add:
  assumes "pool_inv p" and "count p < queue_size p"
  shows "tasks (p\<lparr>task_queue := (task_queue p)[nat (tail p) := Some t],
                  tail := n, count := count p + 1\<rparr>) = tasks p @ [t]"
  using queued_add [OF assms] by (simp add: tasks_def)

lemma pool_inv_add:
  assumes "pool_inv p" and "count p < queue_size p"
  shows "pool_inv (p\<lparr>task_queue := (task_queue p)[nat (tail p) := Some t],
                     tail := (tail p + 1) mod queue_size p, count := count p + 1\<rparr>)"
proof -
  have "((head p + count p) mod queue_size p + 1) mod queue_size p
      = (head p + (count p + 1)) mod queue_size p"
    by (simp add: mod_simps ac_simps)
  then show ?thesis
    using assms queued_add [OF assms, where t = t and n = "(tail p + 1) mod queue_size p"]
    unfolding pool_inv_def by simp
qed

lemma pool_inv_take:
  assumes "pool_inv p" and "count p > 0"
  shows "pool_inv (p\<lparr>head := (head p + 1) mod queue_size p, count := count p - 1\<rparr>)"
proof -
  have "((head p + 1) mod queue_size p + (count p - 1)) mod queue_size p
      = (head p + count p) mod queue_size p"
    by (simp add: mod_simps)
  then show ?thesis
    using assms queued_take [OF assms] unfolding pool_inv_def by auto
qed

lemma head_task:
  assumes "pool_inv p" and "count p > 0"
  shows "\<exists>t. task_queue p ! nat (head p) = Some t"
  using assms queued_take [OF assms] unfolding pool_inv_def by (metis list.set_intros(1) not_None_eq)

lemma destroy_fine:
  "threadpool_destroy pthread_fine p =
     \<lparr>ret = 0, pool_left = p\<lparr>shutdown := True\<rparr>, joined = [0..<nat (thread_count p)], freed = True\<rparr>"
  by (simp add: threadpool_destroy_def pthread_fine_def Let_def list_all_iff)

lemma frame_fields [simp]:
  "queued (p\<lparr>started := x\<rparr>) = queued p" "queued (p\<lparr>shutdown := b\<rparr>) = queued p"
  "tasks (p\<lparr>started := x\<rparr>) = tasks p" "tasks (p\<lparr>shutdown := b\<rparr>) = tasks p"
  "pool_inv (p\<lparr>started := x\<rparr>) = pool_inv p" "pool_inv (p\<lparr>shutdown := b\<rparr>) = pool_inv p"
  by (simp_all add: tasks_def queued_def pool_inv_def)

text \<open>The three possible turns of a thread.\<close>

lemma threadpool_thread_cases:
  assumes "pool_inv p"
  obtains (sleep) "threadpool_thread p = Sleep" "tasks p = []" "\<not> shutdown p"
  | (leave) "threadpool_thread p = Leave (p\<lparr>started := started p - 1\<rparr>)" "tasks p = []" "shutdown p"
  | (run) t p' where "threadpool_thread p = Run t p'" "tasks p = t # tasks p'" "pool_inv p'"
      "queue_size p' = queue_size p" "shutdown p' = shutdown p" "started p' = started p"
proof (cases "count p = 0")
  case True
  then have "tasks p = []" by (simp add: tasks_def queued_def)
  with True show ?thesis
    by (cases "shutdown p") (auto simp: threadpool_thread_def intro: sleep leave)
next
  case False
  then have c: "count p > 0" using assms by (simp add: pool_inv_def)
  obtain t where t: "task_queue p ! nat (head p) = Some t" using head_task [OF assms c] by blast
  let ?p = "p\<lparr>head := (head p + 1) mod queue_size p, count := count p - 1\<rparr>"
  have "threadpool_thread p = Run t ?p" using False t by (simp add: threadpool_thread_def)
  moreover have "tasks p = t # tasks ?p" using queued_take [OF assms c] t by (simp add: tasks_def)
  ultimately show ?thesis using run pool_inv_take [OF assms c] by simp
qed

lemma length_tasks [simp]: "length (tasks p) = nat (count p)"
  by (simp add: tasks_def)

text \<open>Adding and taking as queue operations.\<close>

definition pool_push :: "'a threadpool \<Rightarrow> 'a \<Rightarrow> 'a threadpool option" where
  "pool_push p t =
     (case threadpool_add pthread_fine p t of
        None \<Rightarrow> None
      | Some (err, p', sent) \<Rightarrow> if err = 0 then Some p' else None)"

definition pool_pop :: "'a threadpool \<Rightarrow> ('a \<times> 'a threadpool) option" where
  "pool_pop p = (case threadpool_thread p of Run t p' \<Rightarrow> Some (t, p') | _ \<Rightarrow> None)"

lemma threadpool_add_fine:
  assumes "pool_inv p"
  shows "threadpool_add pthread_fine p t =
    Some (if count p = queue_size p then (-1, p, False)
          else (0, p\<lparr>task_queue := (task_queue p)[nat (tail p) := Some t],
                     tail := (tail p + 1) mod queue_size p, count := count p + 1\<rparr>, True))"
  using assms by (simp add: threadpool_add_def pthread_fine_def pool_inv_def Let_def)

lemma pool_push_eq:
  assumes "pool_inv p"
  shows "pool_push p t =
    (if count p = queue_size p then None
     else Some (p\<lparr>task_queue := (task_queue p)[nat (tail p) := Some t],
                  tail := (tail p + 1) mod queue_size p, count := count p + 1\<rparr>))"
  unfolding pool_push_def threadpool_add_fine [OF assms] by simp

interpretation pool_queue: bounded_queue pool_push pool_pop tasks "\<lambda>p. nat (queue_size p)" pool_inv
proof unfold_locales
  fix p :: "'a threadpool" and x p'
  assume p: "pool_inv p"
  have le: "count p \<noteq> queue_size p \<Longrightarrow> count p < queue_size p" using p by (simp add: pool_inv_def)
  show "tasks p' = tasks p @ [x]" if "pool_push p x = Some p'"
    using that le tasks_add [OF p] unfolding pool_push_eq [OF p] by (auto split: if_splits)
  show "pool_push p x = None \<longleftrightarrow> length (tasks p) = nat (queue_size p)"
    using p unfolding pool_push_eq [OF p] by (auto simp: pool_inv_def)
  show "pool_inv p' \<and> nat (queue_size p') = nat (queue_size p)" if "pool_push p x = Some p'"
    using that le pool_inv_add [OF p, of x] unfolding pool_push_eq [OF p] by (auto split: if_splits)
  show "tasks p = x # tasks p'" if "pool_pop p = Some (x, p')"
    using p that by (cases rule: threadpool_thread_cases) (auto simp: pool_pop_def)
  show "pool_pop p = None \<longleftrightarrow> tasks p = []"
    using p by (cases rule: threadpool_thread_cases) (auto simp: pool_pop_def)
  show "pool_inv p' \<and> nat (queue_size p') = nat (queue_size p)" if "pool_pop p = Some (x, p')"
    using p that by (cases rule: threadpool_thread_cases) (auto simp: pool_pop_def)
qed

section \<open>Readers and workers\<close>

text \<open>
  A thread between two turns of its loop (\<open>Ready\<close>: it is about to take the mutex), inside
  \<open>pthread_cond_wait\<close>, running a task, or gone.
\<close>

datatype 'a worker = Ready | Waiting | Running 'a | Exited

text \<open>
  The thread that calls \<open>RV_dataset_read\<close>: outside a read (\<open>Past\<close> the barrier), submitting the
  tasks of a read, about to test \<open>tasks_completed\<close> with the mutex held, inside
  \<open>pthread_cond_wait\<close>, inside the joins of \<open>threadpool_destroy\<close>, after it.
\<close>

datatype reader = Past | Submitting | AtBarrier | Blocked | Joining | Gone

text \<open>
  \<open>nodes\<close> is \<open>ServerNodeNum\<close>, \<open>todo\<close> what the submission loop has left.  The last three
  fields only record history: the tasks given to \<open>threadpool_add\<close>, those taken from the queue
  and those that ran to their end, in this order of events.
\<close>

record 'a system =
  pool :: "'a threadpool"
  workers :: "'a worker list"
  reader :: reader
  todo :: "'a list"
  tasks_completed :: nat
  nodes :: nat
  submitted :: "'a list"
  taken :: "'a list"
  executed :: "'a list"

text \<open>
  \<open>pthread_cond_signal (&pool->notify)\<close> wakes one of the threads waiting on the condition
  variable, whichever it is: the workers and the reader wait on the same one.
\<close>

inductive signal :: "'a system \<Rightarrow> 'a system \<Rightarrow> bool" where
  signal_worker: "i < length (workers s) \<Longrightarrow> workers s ! i = Waiting \<Longrightarrow>
    signal s (s\<lparr>workers := (workers s)[i := Ready]\<rparr>)"
| signal_reader: "reader s = Blocked \<Longrightarrow> signal s (s\<lparr>reader := AtBarrier\<rparr>)"
| signal_nobody: "Waiting \<notin> set (workers s) \<Longrightarrow> reader s \<noteq> Blocked \<Longrightarrow> signal s s"

definition wake :: "'a worker \<Rightarrow> 'a worker" where
  "wake w = (if w = Waiting then Ready else w)"

text \<open>
  The end of \<open>RV_curl_multi_perform_multithreading\<close>, with the mutex held: count the task; the
  second component says whether the condition is signalled.
\<close>

definition count_task :: "'a \<Rightarrow> 'a system \<Rightarrow> 'a system \<times> bool" where
  "count_task t s =
     (let n = tasks_completed s + 1
      in (s\<lparr>tasks_completed := n, executed := executed s @ [t]\<rparr>, n mod nodes s = 0))"

text \<open>With \<open>spurious\<close> a wait may return without a signal, as POSIX allows.\<close>

inductive step :: "bool \<Rightarrow> 'a system \<Rightarrow> 'a system \<Rightarrow> bool" for spurious :: bool where
  begin_read: "reader s = Past \<Longrightarrow> length ts = nodes s \<Longrightarrow>
    step spurious s (s\<lparr>reader := Submitting, todo := ts, tasks_completed := 0\<rparr>)"
| submit: "reader s = Submitting \<Longrightarrow> todo s = t # ts \<Longrightarrow>
    threadpool_add pthread_fine (pool s) t = Some (err, p, True) \<Longrightarrow>
    signal (s\<lparr>pool := p, todo := ts, submitted := submitted s @ [t]\<rparr>) s' \<Longrightarrow>
    step spurious s s'"
| submit_full: "reader s = Submitting \<Longrightarrow> todo s = t # ts \<Longrightarrow>
    threadpool_add pthread_fine (pool s) t = Some (err, p, False) \<Longrightarrow>
    step spurious s (s\<lparr>pool := p, todo := ts, submitted := submitted s @ [t]\<rparr>)"
| all_submitted: "reader s = Submitting \<Longrightarrow> todo s = [] \<Longrightarrow>
    step spurious s (s\<lparr>reader := AtBarrier\<rparr>)"
| barrier_wait: "reader s = AtBarrier \<Longrightarrow> tasks_completed s < nodes s \<Longrightarrow>
    step spurious s (s\<lparr>reader := Blocked\<rparr>)"
| barrier_pass: "reader s = AtBarrier \<Longrightarrow> \<not> tasks_completed s < nodes s \<Longrightarrow>
    step spurious s (s\<lparr>reader := Past\<rparr>)"
| worker_sleep: "i < length (workers s) \<Longrightarrow> workers s ! i = Ready \<Longrightarrow>
    threadpool_thread (pool s) = Sleep \<Longrightarrow>
    step spurious s (s\<lparr>workers := (workers s)[i := Waiting]\<rparr>)"
| worker_leave: "i < length (workers s) \<Longrightarrow> workers s ! i = Ready \<Longrightarrow>
    threadpool_thread (pool s) = Leave p \<Longrightarrow>
    step spurious s (s\<lparr>workers := (workers s)[i := Exited], pool := p\<rparr>)"
| worker_run: "i < length (workers s) \<Longrightarrow> workers s ! i = Ready \<Longrightarrow>
    threadpool_thread (pool s) = Run t p \<Longrightarrow>
    step spurious s
      (s\<lparr>workers := (workers s)[i := Running t], pool := p, taken := taken s @ [t]\<rparr>)"
| task_done: "i < length (workers s) \<Longrightarrow> workers s ! i = Running t \<Longrightarrow>
    count_task t (s\<lparr>workers := (workers s)[i := Ready]\<rparr>) = (s', False) \<Longrightarrow>
    step spurious s s'"
| last_task_done: "i < length (workers s) \<Longrightarrow> workers s ! i = Running t \<Longrightarrow>
    count_task t (s\<lparr>workers := (workers s)[i := Ready]\<rparr>) = (s1, True) \<Longrightarrow>
    signal s1 s' \<Longrightarrow> step spurious s s'"
| spurious_worker: "spurious \<Longrightarrow> i < length (workers s) \<Longrightarrow> workers s ! i = Waiting \<Longrightarrow>
    step spurious s (s\<lparr>workers := (workers s)[i := Ready]\<rparr>)"
| spurious_reader: "spurious \<Longrightarrow> reader s = Blocked \<Longrightarrow>
    step spurious s (s\<lparr>reader := AtBarrier\<rparr>)"
| destroy: "reader s = Past \<Longrightarrow>
    step spurious s (s\<lparr>reader := Joining, workers := map wake (workers s),
                      pool := pool_left (threadpool_destroy pthread_fine (pool s))\<rparr>)"
| joined_all: "reader s = Joining \<Longrightarrow> \<forall>w \<in> set (workers s). w = Exited \<Longrightarrow>
    step spurious s (s\<lparr>reader := Gone\<rparr>)"

text \<open>The system \<open>H5_read_thread_pool_init\<close> starts, for \<open>n\<close> server nodes.\<close>

definition init_system :: "nat \<Rightarrow> 'a system option" where
  "init_system n =
     map_option (\<lambda>p. \<lparr>pool = p, workers = replicate n Ready, reader = Past, todo = [],
                      tasks_completed = 0, nodes = n, submitted = [], taken = [], executed = []\<rparr>)
       (H5_read_thread_pool_init pthread_fine (Some (show_nat n)))"

inductive reach :: "bool \<Rightarrow> nat \<Rightarrow> 'a system \<Rightarrow> bool" for spurious :: bool and n :: nat where
  reach_init: "init_system n = Some s \<Longrightarrow> reach spurious n s"
| reach_step: "reach spurious n s \<Longrightarrow> step spurious s s' \<Longrightarrow> reach spurious n s'"

section \<open>Invariants of the system\<close>

definition running_of :: "'a worker \<Rightarrow> 'a multiset" where
  "running_of w = (case w of Running t \<Rightarrow> {#t#} | _ \<Rightarrow> {#})"

definition running :: "'a worker list \<Rightarrow> 'a multiset" where
  "running ws = sum_list (map running_of ws)"

definition alive :: "'a worker list \<Rightarrow> nat" where
  "alive ws = sum_list (map (\<lambda>w. if w = Exited then 0 else 1) ws)"

text \<open>The queue, the workers and the history agree.\<close>

definition queue_inv :: "'a system \<Rightarrow> bool" where
  "queue_inv s \<longleftrightarrow> pool_inv (pool s) \<and> queue_size (pool s) = int (nodes s) \<and>
     submitted s = taken s @ tasks (pool s) \<and>
     mset (taken s) = running (workers s) + mset (executed s) \<and>
     length (workers s) = nodes s \<and> started (pool s) = int (alive (workers s))"

text \<open>The reader's count agrees with the history.\<close>

definition barrier_inv :: "'a system \<Rightarrow> bool" where
  "barrier_inv s \<longleftrightarrow>
     (case reader s of
        Submitting \<Rightarrow>
          length (todo s) + length (submitted s) + tasks_completed s = nodes s + length (executed s)
      | AtBarrier \<Rightarrow> length (submitted s) + tasks_completed s = nodes s + length (executed s)
      | Blocked \<Rightarrow> length (submitted s) + tasks_completed s = nodes s + length (executed s)
      | _ \<Rightarrow> length (submitted s) = length (executed s)) \<and>
     (reader s \<noteq> Submitting \<longrightarrow> todo s = []) \<and>
     (if reader s = Joining \<or> reader s = Gone then shutdown (pool s)
      else \<not> shutdown (pool s) \<and> alive (workers s) = length (workers s)) \<and>
     (reader s = Gone \<longrightarrow> alive (workers s) = 0)"

text \<open>If every worker waits, there is nothing to do.\<close>

definition wakeup_inv :: "'a system \<Rightarrow> bool" where
  "wakeup_inv s \<longleftrightarrow> (set (workers s) \<subseteq> {Waiting} \<longrightarrow> tasks (pool s) = [])"

lemma running_update:
  assumes "i < length ws"
  shows "running (ws[i := w]) + running_of (ws ! i) = running ws + running_of w"
  unfolding running_def by (rule sum_list_map_update [OF assms])

lemma alive_update:
  assumes "i < length ws"
  shows "alive (ws[i := w]) + (if ws ! i = Exited then 0 else 1)
    = alive ws + (if w = Exited then 0 else 1)"
  unfolding alive_def using sum_list_map_update [OF assms, of "\<lambda>w. if w = Exited then 0 else 1" w] .

lemma running_of_simps [simp]:
  "running_of Ready = {#}" "running_of Waiting = {#}" "running_of Exited = {#}"
  "running_of (Running t) = {#t#}"
  by (simp_all add: running_of_def)

lemma running_idle [simp]:
  assumes "i < length ws" and "running_of (ws ! i) = {#}" and "running_of w = {#}"
  shows "running (ws[i := w]) = running ws"
  using running_update [OF assms(1), of w] assms(2,3) by simp

lemma running_start [simp]:
  assumes "i < length ws" and "running_of (ws ! i) = {#}"
  shows "running (ws[i := Running t]) = add_mset t (running ws)"
  using running_update [OF assms(1), of "Running t"] assms(2) by simp

lemma running_finish:
  assumes "i < length ws" and "ws ! i = Running t"
  shows "running ws = add_mset t (running (ws[i := Ready]))"
  using running_update [OF assms(1), of Ready] assms(2) by simp

lemma alive_same [simp]:
  assumes "i < length ws" and "ws ! i \<noteq> Exited" and "w \<noteq> Exited"
  shows "alive (ws[i := w]) = alive ws"
  using alive_update [OF assms(1), of w] assms(2,3) by simp

lemma alive_exit:
  assumes "i < length ws" and "ws ! i \<noteq> Exited"
  shows "alive ws = Suc (alive (ws[i := Exited]))"
  using alive_update [OF assms(1), of Exited] assms(2) by simp

lemma wake_map [simp]: "running (map wake ws) = running ws" "alive (map wake ws) = alive ws"
proof -
  have "running_of (wake w) = running_of w" "wake w = Exited \<longleftrightarrow> w = Exited" for w :: "'a worker"
    by (auto simp: wake_def)
  then show "running (map wake ws) = running ws" "alive (map wake ws) = alive ws"
    by (simp_all add: running_def alive_def comp_def)
qed

lemma alive_zero: "alive ws = 0 \<longleftrightarrow> (\<forall>w \<in> set ws. w = Exited)"
  by (induction ws) (auto simp: alive_def)

lemma alive_bound: "alive ws \<le> length ws"
  by (induction ws) (auto simp: alive_def)

lemma signal_frame:
  assumes "signal s s'"
  shows "pool s' = pool s \<and> todo s' = todo s \<and> tasks_completed s' = tasks_completed s \<and>
    nodes s' = nodes s \<and> submitted s' = submitted s \<and> taken s' = taken s \<and>
    executed s' = executed s \<and> length (workers s') = length (workers s) \<and>
    running (workers s') = running (workers s) \<and> alive (workers s') = alive (workers s) \<and>
    (reader s' = reader s \<or> reader s = Blocked \<and> reader s' = AtBarrier)"
  using assms by cases simp_all

lemma queue_inv_signal:
  assumes "signal s s'"
  shows "queue_inv s' \<longleftrightarrow> queue_inv s"
  unfolding queue_inv_def using signal_frame [OF assms] by simp

lemma queue_inv_bound:
  assumes "queue_inv s"
  shows "length (tasks (pool s)) + length (taken s) = length (submitted s)"
    and "size (running (workers s)) + length (executed s) = length (taken s)"
proof -
  have "mset (taken s) = running (workers s) + mset (executed s)"
    using assms by (simp add: queue_inv_def)
  then have "size (mset (taken s)) = size (running (workers s) + mset (executed s))" by (rule arg_cong)
  then show "size (running (workers s)) + length (executed s) = length (taken s)" by simp
qed (use assms in \<open>simp add: queue_inv_def\<close>)

lemma all_executed:
  assumes "queue_inv s" and "length (submitted s) = length (executed s)"
  shows "tasks (pool s) = []" and "running (workers s) = {#}"
proof -
  have "length (tasks (pool s)) = 0" "size (running (workers s)) = 0"
    using queue_inv_bound [OF assms(1)] assms(2) by linarith+
  then show "tasks (pool s) = []" "running (workers s) = {#}"
    by (simp_all only: length_0_conv size_eq_0_iff_empty)
qed

text \<open>The queue has room for every task of a read.\<close>

lemma queue_never_full:
  assumes "queue_inv s" and "barrier_inv s" and "reader s = Submitting" and "todo s = t # ts"
  shows "threadpool_add pthread_fine (pool s) u \<noteq> Some (err, p, False)"
proof -
  have inv: "pool_inv (pool s)" using assms(1) by (simp add: queue_inv_def)
  have "length (todo s) + length (submitted s) + tasks_completed s = nodes s + length (executed s)"
    using assms(2,3) by (simp add: barrier_inv_def)
  then have "length (tasks (pool s)) < nodes s" using queue_inv_bound [OF assms(1)] assms(4) by simp
  then have "count (pool s) \<noteq> queue_size (pool s)" using assms(1) by (simp add: queue_inv_def)
  then show ?thesis unfolding threadpool_add_fine [OF inv] by simp
qed

lemma queue_inv_step:
  assumes "step spurious s s'" and "queue_inv s" and "barrier_inv s"
  shows "queue_inv s'"
  using assms(1)
proof cases
  case (submit t ts err p)
  have inv: "pool_inv (pool s)" using assms(2) by (simp add: queue_inv_def)
  have push: "pool_push (pool s) t = Some p"
    using submit(3) unfolding pool_push_eq [OF inv] threadpool_add_fine [OF inv]
    by (simp split: if_splits)
  have "queue_inv (s\<lparr>pool := p, todo := ts, submitted := submitted s @ [t]\<rparr>)"
    using assms(2) push pool_queue.push_some [OF inv push] pool_queue.push_ok [OF inv push]
    unfolding pool_push_eq [OF inv] queue_inv_def by (auto split: if_splits)
  then show ?thesis using queue_inv_signal [OF submit(4)] by simp
next
  case (submit_full t ts err p)
  then show ?thesis using queue_never_full [OF assms(2,3)] by simp
next
  case (worker_run i t p)
  have inv: "pool_inv (pool s)" using assms(2) by (simp add: queue_inv_def)
  from inv show ?thesis
  proof (cases rule: threadpool_thread_cases)
    case (run t' p')
    with worker_run assms(2) show ?thesis by (simp add: queue_inv_def)
  qed (use worker_run in simp_all)
next
  case (worker_leave i p)
  have inv: "pool_inv (pool s)" using assms(2) by (simp add: queue_inv_def)
  from inv show ?thesis
  proof (cases rule: threadpool_thread_cases)
    case leave
    then have p: "p = pool s\<lparr>started := started (pool s) - 1\<rparr>" using worker_leave(4) by simp
    have "alive (workers s) = Suc (alive ((workers s)[i := Exited]))"
      by (rule alive_exit) (use worker_leave in simp_all)
    with worker_leave(1-3) assms(2) show ?thesis by (simp add: p queue_inv_def)
  qed (use worker_leave in simp_all)
next
  case (task_done i t)
  then show ?thesis using assms(2) running_finish [OF task_done(1,2)]
    by (auto simp: queue_inv_def count_task_def Let_def)
next
  case (last_task_done i t s1)
  have "queue_inv s1" using assms(2) running_finish [OF last_task_done(1,2)] last_task_done
    by (auto simp: queue_inv_def count_task_def Let_def)
  then show ?thesis using queue_inv_signal [OF last_task_done(4)] by simp
next
  case destroy
  then show ?thesis using assms(2)
    by (simp add: queue_inv_def destroy_fine)
qed (use assms(2) in \<open>simp_all add: queue_inv_def\<close>)

lemma barrier_inv_signal:
  assumes "signal s s'" and "barrier_inv s"
  shows "barrier_inv s'"
proof -
  from signal_frame [OF assms(1)] have
    frame: "pool s' = pool s" "todo s' = todo s" "tasks_completed s' = tasks_completed s"
      "nodes s' = nodes s" "submitted s' = submitted s" "executed s' = executed s"
      "length (workers s') = length (workers s)" "alive (workers s') = alive (workers s)"
    and r: "reader s' = reader s \<or> reader s = Blocked \<and> reader s' = AtBarrier"
    by blast+
  from r show ?thesis
    by (elim disjE; cases "reader s") (use assms(2) frame in \<open>simp_all add: barrier_inv_def\<close>)
qed

lemma barrier_inv_done:
  assumes "barrier_inv s" and "queue_inv s" and "i < length (workers s)" and "workers s ! i = Running t"
    and "count_task t (s\<lparr>workers := (workers s)[i := Ready]\<rparr>) = (s', b)"
  shows "barrier_inv s'"
proof -
  have s': "s' = s\<lparr>workers := (workers s)[i := Ready], tasks_completed := tasks_completed s + 1,
                  executed := executed s @ [t]\<rparr>"
    using assms(5) by (simp add: count_task_def Let_def)
  have "length (executed s) < length (submitted s)"
    using queue_inv_bound [OF assms(2)] running_finish [OF assms(3,4)] by simp
  with assms(1) have r: "reader s = Submitting \<or> reader s = AtBarrier \<or> reader s = Blocked"
    unfolding barrier_inv_def by (cases "reader s") simp_all
  have a: "alive ((workers s)[i := Ready]) = alive (workers s)" using assms(3,4) by simp
  from r show ?thesis
    by (elim disjE) (use assms(1) in \<open>simp_all add: s' barrier_inv_def a\<close>)
qed

lemma barrier_inv_step:
  assumes "step spurious s s'" and "barrier_inv s" and "queue_inv s"
  shows "barrier_inv s'"
  using assms(1)
proof cases
  case (begin_read ts)
  with assms(2) show ?thesis by (auto simp: barrier_inv_def)
next
  case (submit t ts err p)
  have inv: "pool_inv (pool s)" using assms(3) by (simp add: queue_inv_def)
  have "shutdown p = shutdown (pool s)"
    using submit(3) unfolding threadpool_add_fine [OF inv] by (auto split: if_splits)
  with submit assms(2) have "barrier_inv (s\<lparr>pool := p, todo := ts, submitted := submitted s @ [t]\<rparr>)"
    by (auto simp: barrier_inv_def)
  then show ?thesis using barrier_inv_signal [OF submit(4)] by simp
next
  case (submit_full t ts err p)
  then show ?thesis using queue_never_full [OF assms(3,2)] by simp
next
  case (barrier_pass)
  have "length (executed s) \<le> length (submitted s)" using queue_inv_bound [OF assms(3)] by simp
  with barrier_pass assms(2) show ?thesis by (auto simp: barrier_inv_def)
next
  case (worker_leave i p)
  have inv: "pool_inv (pool s)" using assms(3) by (simp add: queue_inv_def)
  have l: "alive (workers s) = Suc (alive ((workers s)[i := Exited]))"
    by (rule alive_exit) (use worker_leave in simp_all)
  from inv have "p = pool s\<lparr>started := started (pool s) - 1\<rparr> \<and> shutdown (pool s)"
    by (cases rule: threadpool_thread_cases) (use worker_leave in simp_all)
  with worker_leave(1) assms(2) l show ?thesis
    by (cases "reader s") (simp_all add: barrier_inv_def)
next
  case (worker_run i t p)
  have inv: "pool_inv (pool s)" using assms(3) by (simp add: queue_inv_def)
  then have "shutdown p = shutdown (pool s)"
    by (cases rule: threadpool_thread_cases) (use worker_run in simp_all)
  moreover have "alive ((workers s)[i := Running t]) = alive (workers s)"
    by (rule alive_same) (use worker_run in simp_all)
  ultimately show ?thesis using worker_run(1) assms(2)
    by (cases "reader s") (simp_all add: barrier_inv_def)
next
  case (task_done i t)
  show ?thesis
    by (rule barrier_inv_done [OF assms(2,3) task_done])
next
  case (last_task_done i t s1)
  show ?thesis
    by (rule barrier_inv_signal [OF last_task_done(4) barrier_inv_done [OF assms(2,3) last_task_done(1-3)]])
next
  case destroy
  with assms(2) show ?thesis
    by (simp add: barrier_inv_def destroy_fine)
next
  case joined_all
  with assms(2) show ?thesis by (simp add: barrier_inv_def alive_zero)
qed ((cases "reader s"; use assms(2) in \<open>simp add: barrier_inv_def\<close>)+)

lemma wakeup_inv_busy: "w \<in> set (workers s) \<Longrightarrow> w \<noteq> Waiting \<Longrightarrow> wakeup_inv s"
  by (auto simp: wakeup_inv_def)

lemma wakeup_inv_signal:
  assumes "signal s s'" and "wakeup_inv s"
  shows "wakeup_inv s'"
  using assms(1)
proof cases
  case (signal_worker i)
  then show ?thesis using set_update_memI [of i "workers s" Ready]
    by (intro wakeup_inv_busy [of Ready]) simp_all
qed (use assms(2) in \<open>simp_all add: wakeup_inv_def\<close>)

lemma wakeup_inv_step:
  assumes "step spurious s s'" and "wakeup_inv s" and "queue_inv s" and "barrier_inv s"
    and "0 < nodes s"
  shows "wakeup_inv s'"
proof -
  note mem = set_update_memI [of _ "workers s"]
  have ne: "workers s \<noteq> []" using assms(3,5) by (auto simp: queue_inv_def)
  then obtain w0 ws0 where w0: "workers s = w0 # ws0" by (cases "workers s") simp_all
  from assms(1) show ?thesis
  proof cases
    case (submit t ts err p)
    from submit(4) show ?thesis
    proof cases
      case (signal_worker i)
      then show ?thesis using mem [of i Ready]
      by (intro wakeup_inv_busy [of Ready]) simp_all
    next
      case signal_nobody
      then show ?thesis using w0 by (intro wakeup_inv_busy [of w0]) auto
    qed (use submit in simp_all)
  next
    case (submit_full t ts err p)
    then show ?thesis using queue_never_full [OF assms(3,4)] by simp
  next
    case (worker_sleep i)
    have inv: "pool_inv (pool s)" using assms(3) by (simp add: queue_inv_def)
    then have "tasks (pool s) = []"
      by (cases rule: threadpool_thread_cases) (use worker_sleep in simp_all)
    with worker_sleep show ?thesis by (simp add: wakeup_inv_def)
  next
    case (worker_leave i p)
    then show ?thesis using mem [of i Exited]
      by (intro wakeup_inv_busy [of Exited]) simp_all
  next
    case (worker_run i t p)
    then show ?thesis using mem [of i "Running t"]
      by (intro wakeup_inv_busy [of "Running t"]) simp_all
  next
    case (task_done i t)
    then show ?thesis using mem [of i Ready]
      by (intro wakeup_inv_busy [of Ready]) (auto simp: count_task_def Let_def)
  next
    case (last_task_done i t s1)
    have "wakeup_inv s1" using mem [of i Ready] last_task_done(1,3)
      by (intro wakeup_inv_busy [of Ready]) (auto simp: count_task_def Let_def)
    then show ?thesis by (rule wakeup_inv_signal [OF last_task_done(4)])
  next
    case (spurious_worker i)
    then show ?thesis using mem [of i Ready]
      by (intro wakeup_inv_busy [of Ready]) simp_all
  next
    case destroy
    then show ?thesis using w0 by (intro wakeup_inv_busy [of "wake w0"]) (auto simp: wake_def)
  qed (use assms(2) in \<open>simp_all add: wakeup_inv_def\<close>)
qed

lemma step_nodes: "step spurious s s' \<Longrightarrow> nodes s' = nodes s"
  by (induction rule: step.induct)
    (auto simp: count_task_def Let_def dest!: signal_frame)

lemma spawn_all: "spawn_threads (\<lambda>_. True) n i p = (True, p\<lparr>started := started p + int n\<rparr>)"
  by (induction n arbitrary: i p) simp_all

lemma init_system_eq:
  "init_system n = Some
     \<lparr>pool = \<lparr>task_queue = replicate n None, thread_count = int n, queue_size = int n, head = 0,
              tail = 0, count = 0, shutdown = False, started = int n\<rparr>,
      workers = replicate n Ready, reader = Past, todo = [], tasks_completed = 0, nodes = n,
      submitted = [], taken = [], executed = []\<rparr>"
proof -
  have "atoi (show_nat n) = int n"
    using atoi_show_int [of "[]" "int n"] by (simp add: show_int_def)
  then show ?thesis
    by (simp add: init_system_def H5_read_thread_pool_init_def threadpool_create_def pthread_fine_def
        spawn_all Let_def)
qed

lemma reach_inv:
  assumes "reach spurious n s" and "0 < n"
  shows "queue_inv s \<and> barrier_inv s \<and> wakeup_inv s \<and> nodes s = n"
  using assms(1)
proof induction
  case (reach_init s)
  have "alive (replicate k (Ready :: 'a worker)) = k" "running (replicate k (Ready :: 'a worker)) = {#}"
    for k
    by (induction k) (simp_all add: alive_def running_def)
  with reach_init assms(2) show ?case
    by (auto simp: init_system_eq queue_inv_def barrier_inv_def wakeup_inv_def pool_inv_def
        tasks_def queued_def)
next
  case (reach_step s s')
  then show ?case
    using queue_inv_step [of spurious s s'] barrier_inv_step [of spurious s s']
      wakeup_inv_step [of spurious s s'] step_nodes [of spurious s s'] assms(2) by simp
qed

section \<open>A run of two workers\<close>

text \<open>The states of a run with two nodes.\<close>

definition two_nodes ::
  "string option list \<Rightarrow> int \<Rightarrow> int \<Rightarrow> int \<Rightarrow> string worker list \<Rightarrow> reader \<Rightarrow> string list \<Rightarrow> nat
     \<Rightarrow> string list \<Rightarrow> string list \<Rightarrow> string list \<Rightarrow> string system" where
  "two_nodes q h t c ws r td n sub tk ex =
     \<lparr>pool = \<lparr>task_queue = q, thread_count = 2, queue_size = 2, head = h, tail = t, count = c,
              shutdown = False, started = 2\<rparr>,
      workers = ws, reader = r, todo = td, tasks_completed = n, nodes = 2,
      submitted = sub, taken = tk, executed = ex\<rparr>"

lemmas run_simps = two_nodes_def threadpool_thread_def threadpool_add_def pthread_fine_def
  count_task_def Let_def

lemma step_eqI: "step sp s s1 \<Longrightarrow> s1 = s' \<Longrightarrow> step sp s s'"
  by simp

lemma submit_nobody:
  assumes "reader s = Submitting" and "todo s = t # ts"
    and "threadpool_add pthread_fine (pool s) t = Some (err, p, True)"
    and "Waiting \<notin> set (workers s)"
    and "s' = s\<lparr>pool := p, todo := ts, submitted := submitted s @ [t]\<rparr>"
  shows "step sp s s'"
  using submit [OF assms(1-3)] signal_nobody [of s'] assms by simp

lemma last_task_signals:
  assumes "i < length (workers s)" and "workers s ! i = Running t"
    and "count_task t (s\<lparr>workers := (workers s)[i := Ready]\<rparr>) = (s1, True)"
    and "j < length (workers s1) \<and> workers s1 ! j = Waiting"
    and "s' = s1\<lparr>workers := (workers s1)[j := Ready]\<rparr>"
  shows "step sp s s'"
  using last_task_done [OF assms(1-3)] signal_worker [of j s1] assms by simp

lemma last_task_nobody:
  assumes "i < length (workers s)" and "workers s ! i = Running t"
    and "count_task t (s\<lparr>workers := (workers s)[i := Ready]\<rparr>) = (s1, True)"
    and "Waiting \<notin> set (workers s1)" and "reader s1 \<noteq> Blocked" and "s' = s1"
  shows "step sp s s'"
  using last_task_done [OF assms(1-3)] signal_nobody [of s1] assms by simp

lemma two_nodes_first_running:
  "reach False 2 (two_nodes [Some ''a'', Some ''b''] 1 0 1 [Running ''a'', Ready] AtBarrier [] 0 [''a'', ''b''] [''a''] [])"
proof -
  have "reach False 2 (two_nodes [None, None] 0 0 0 [Ready, Ready] Past [] 0 [] [] [])"
    by (rule reach_init) (simp add: init_system_eq two_nodes_def numeral_2_eq_2)
  then have "reach False 2 (two_nodes [None, None] 0 0 0 [Ready, Ready] Submitting [''a'', ''b''] 0 [] [] [])"
    by (rule reach_step) (rule step_eqI, rule begin_read [where ts = "[''a'', ''b'']"], simp add: run_simps, simp add: run_simps, simp add: run_simps)
  then have "reach False 2 (two_nodes [Some ''a'', None] 0 1 1 [Ready, Ready] Submitting [''b''] 0 [''a''] [] [])"
    by (rule reach_step) (rule submit_nobody, simp add: run_simps, simp add: run_simps, simp add: run_simps, simp add: run_simps, simp add: run_simps)
  then have "reach False 2 (two_nodes [Some ''a'', Some ''b''] 0 0 2 [Ready, Ready] Submitting [] 0 [''a'', ''b''] [] [])"
    by (rule reach_step) (rule submit_nobody, simp add: run_simps, simp add: run_simps, simp add: run_simps, simp add: run_simps, simp add: run_simps)
  then have "reach False 2 (two_nodes [Some ''a'', Some ''b''] 0 0 2 [Ready, Ready] AtBarrier [] 0 [''a'', ''b''] [] [])"
    by (rule reach_step) (rule step_eqI, rule all_submitted, simp add: run_simps, simp add: run_simps, simp add: run_simps)
  then show ?thesis
    by (rule reach_step) (rule step_eqI, rule worker_run [where i = 0], simp add: run_simps, simp add: run_simps, simp add: run_simps, simp add: run_simps)
qed

lemma two_nodes_lost_wakeup:
  "reach False 2 (two_nodes [Some ''a'', Some ''b''] 0 0 0 [Waiting, Waiting] Blocked [] 2 [''a'', ''b''] [''a'', ''b''] [''a'', ''b''])"
proof -
  note two_nodes_first_running
  then have "reach False 2 (two_nodes [Some ''a'', Some ''b''] 1 0 1 [Running ''a'', Ready] Blocked [] 0 [''a'', ''b''] [''a''] [])"
    by (rule reach_step) (rule step_eqI, rule barrier_wait, simp add: run_simps, simp add: run_simps, simp add: run_simps)
  then have "reach False 2 (two_nodes [Some ''a'', Some ''b''] 1 0 1 [Ready, Ready] Blocked [] 1 [''a'', ''b''] [''a''] [''a''])"
    by (rule reach_step) (rule task_done [where i = 0], simp add: run_simps, simp add: run_simps, simp add: run_simps)
  then have "reach False 2 (two_nodes [Some ''a'', Some ''b''] 0 0 0 [Ready, Running ''b''] Blocked [] 1 [''a'', ''b''] [''a'', ''b''] [''a''])"
    by (rule reach_step) (rule step_eqI, rule worker_run [where i = 1], simp add: run_simps, simp add: run_simps, simp add: run_simps, simp add: run_simps)
  then have "reach False 2 (two_nodes [Some ''a'', Some ''b''] 0 0 0 [Waiting, Running ''b''] Blocked [] 1 [''a'', ''b''] [''a'', ''b''] [''a''])"
    by (rule reach_step) (rule step_eqI, rule worker_sleep [where i = 0], simp add: run_simps, simp add: run_simps, simp add: run_simps, simp add: run_simps)
  then have "reach False 2 (two_nodes [Some ''a'', Some ''b''] 0 0 0 [Ready, Ready] Blocked [] 2 [''a'', ''b''] [''a'', ''b''] [''a'', ''b''])"
    by (rule reach_step) (rule last_task_signals [where i = 1 and j = 0], simp add: run_simps, simp add: run_simps, simp add: run_simps, simp add: run_simps, simp add: run_simps)
  then have "reach False 2 (two_nodes [Some ''a'', Some ''b''] 0 0 0 [Waiting, Ready] Blocked [] 2 [''a'', ''b''] [''a'', ''b''] [''a'', ''b''])"
    by (rule reach_step) (rule step_eqI, rule worker_sleep [where i = 0], simp add: run_simps, simp add: run_simps, simp add: run_simps, simp add: run_simps)
  then show ?thesis
    by (rule reach_step) (rule step_eqI, rule worker_sleep [where i = 1], simp add: run_simps, simp add: run_simps, simp add: run_simps, simp add: run_simps)
qed

lemma two_nodes_past:
  "reach False 2 (two_nodes [Some ''a'', Some ''b''] 0 0 0 [Ready, Ready] Past [] 2 [''a'', ''b''] [''a'', ''b''] [''a'', ''b''])"
proof -
  note two_nodes_first_running
  then have "reach False 2 (two_nodes [Some ''a'', Some ''b''] 1 0 1 [Ready, Ready] AtBarrier [] 1 [''a'', ''b''] [''a''] [''a''])"
    by (rule reach_step) (rule task_done [where i = 0], simp add: run_simps, simp add: run_simps, simp add: run_simps)
  then have "reach False 2 (two_nodes [Some ''a'', Some ''b''] 0 0 0 [Ready, Running ''b''] AtBarrier [] 1 [''a'', ''b''] [''a'', ''b''] [''a''])"
    by (rule reach_step) (rule step_eqI, rule worker_run [where i = 1], simp add: run_simps, simp add: run_simps, simp add: run_simps, simp add: run_simps)
  then have "reach False 2 (two_nodes [Some ''a'', Some ''b''] 0 0 0 [Ready, Ready] AtBarrier [] 2 [''a'', ''b''] [''a'', ''b''] [''a'', ''b''])"
    by (rule reach_step) (rule last_task_nobody [where i = 1], simp add: run_simps, simp add: run_simps, simp add: run_simps, simp add: run_simps, simp add: run_simps, simp add: run_simps)
  then show ?thesis
    by (rule reach_step) (rule step_eqI, rule barrier_pass, simp add: run_simps, simp add: run_simps, simp add: run_simps)
qed

section \<open>Properties\<close>

text \<open>
  C25: the ring buffer of the pool is a bounded FIFO queue. Adding to a pool that is not full
  appends the task, adding to a full one is refused with -1 and changes nothing, and a thread's
  turn takes the oldest task, or waits or leaves when there is none.
\<close>

theorem threadpool_fifo:
  assumes "pool_inv p"
  shows "(\<exists>err p' sent. threadpool_add pthread_fine p t = Some (err, p', sent) \<and> pool_inv p' \<and>
      queue_size p' = queue_size p \<and>
      (if length (tasks p) = nat (queue_size p) then err = -1 \<and> p' = p
       else err = 0 \<and> tasks p' = tasks p @ [t])) \<and>
    (case threadpool_thread p of
       Sleep \<Rightarrow> tasks p = [] \<and> \<not> shutdown p
     | Leave p' \<Rightarrow> tasks p = [] \<and> shutdown p
     | Run x p' \<Rightarrow> tasks p = x # tasks p' \<and> pool_inv p'
     | Uninitialised \<Rightarrow> False)"
proof
  show "case threadpool_thread p of
       Sleep \<Rightarrow> tasks p = [] \<and> \<not> shutdown p
     | Leave p' \<Rightarrow> tasks p = [] \<and> shutdown p
     | Run x p' \<Rightarrow> tasks p = x # tasks p' \<and> pool_inv p'
     | Uninitialised \<Rightarrow> False"
    using assms by (cases rule: threadpool_thread_cases) simp_all
next
  show "\<exists>err p' sent. threadpool_add pthread_fine p t = Some (err, p', sent) \<and> pool_inv p' \<and>
      queue_size p' = queue_size p \<and>
      (if length (tasks p) = nat (queue_size p) then err = -1 \<and> p' = p
       else err = 0 \<and> tasks p' = tasks p @ [t])"
  proof (cases "pool_push p t")
    case None
    then show ?thesis using assms pool_queue.push_none [OF assms, of t]
      by (auto simp: threadpool_add_fine pool_push_eq split: if_splits)
  next
    case (Some p')
    then have "threadpool_add pthread_fine p t = Some (0, p', True)"
      using assms by (auto simp: threadpool_add_fine pool_push_eq split: if_splits)
    moreover have "queue_size p' = queue_size p"
      using assms Some by (auto simp: pool_push_eq split: if_splits)
    ultimately show ?thesis
      using pool_queue.push_some [OF assms Some] pool_queue.push_ok [OF assms Some]
        pool_queue.push_none [OF assms, of t] Some by auto
  qed
qed

theorem threadpool_fifo_witness:
  "\<exists>p q. threadpool_create pthread_fine 2 2 = (Some p, None) \<and>
     threadpool_add pthread_fine p ''t'' = Some (0, q, True) \<and> tasks q = [''t'']"
proof -
  let ?p = "\<lparr>task_queue = [None, None], thread_count = 2, queue_size = 2, head = 0, tail = 0,
     count = 0, shutdown = False, started = 2\<rparr> :: string threadpool"
  have p: "threadpool_create pthread_fine 2 2 = (Some ?p, None)"
    by (simp add: threadpool_create_def pthread_fine_def spawn_all Let_def numeral_2_eq_2)
  have "pool_inv ?p" by (simp add: pool_inv_def queued_def)
  moreover have "tasks ?p = []" by (simp add: tasks_def queued_def)
  ultimately show ?thesis
    using threadpool_fifo [of ?p "''t''"] p by (auto simp: threadpool_add_fine)
qed

text \<open>
  C9: tasks run in submission order, each exactly once. In every reachable state of the pool,
  the tasks given to the pool are those the threads took, in the same order, followed by those
  still queued; those taken are those that ran to the end and those running; and a thread never
  reads a queue slot that was not written.
\<close>

theorem tasks_taken_once:
  assumes "reach spurious n s" and "0 < n"
  shows "submitted s = taken s @ tasks (pool s) \<and>
    mset (taken s) = mset (executed s) + running (workers s) \<and>
    threadpool_thread (pool s) \<noteq> Uninitialised"
proof -
  have q: "queue_inv s" using reach_inv [OF assms] by blast
  then have "pool_inv (pool s)" by (simp add: queue_inv_def)
  then have "threadpool_thread (pool s) \<noteq> Uninitialised"
    by (cases rule: threadpool_thread_cases) simp_all
  with q show ?thesis by (simp add: queue_inv_def ac_simps)
qed

theorem tasks_taken_once_witness:
  "\<exists>s. reach False 2 s \<and> submitted s = [''a'', ''b''] \<and> taken s = [''a''] \<and> tasks (pool s) = [''b''] \<and>
     running (workers s) = {#''a''#}"
proof (intro exI conjI)
  note R = two_nodes_first_running
  show "reach False 2 (two_nodes [Some ''a'', Some ''b''] 1 0 1 [Running ''a'', Ready] AtBarrier [] 0
      [''a'', ''b''] [''a''] [])" (is "reach False 2 ?s")
    by (rule R)
  from tasks_taken_once [OF R] show "tasks (pool ?s) = [''b'']" "running (workers ?s) = {#''a''#}"
    by (simp_all add: two_nodes_def)
qed (simp_all add: two_nodes_def)

text \<open>
  C4: the barrier of \<open>RV_dataset_read\<close> is sound. Whenever the reader is past its wait, every
  task submitted so far has run to its end, none is queued and none is running; this holds
  whatever wakes the threads, and after \<open>threadpool_destroy\<close> has joined them every thread has left.
\<close>

theorem read_barrier_sound:
  assumes "reach spurious n s" and "0 < n" and "reader s \<in> {Past, Joining, Gone}"
  shows "mset (executed s) = mset (submitted s) \<and> tasks (pool s) = [] \<and>
    running (workers s) = {#} \<and>
    (reader s = Gone \<longrightarrow> (\<forall>w \<in> set (workers s). w = Exited) \<and> started (pool s) = 0)"
proof -
  have q: "queue_inv s" and b: "barrier_inv s" using reach_inv [OF assms(1,2)] by blast+
  have "length (submitted s) = length (executed s)"
    using b assms(3) by (auto simp: barrier_inv_def)
  note e = all_executed [OF q this]
  have "reader s = Gone \<longrightarrow> alive (workers s) = 0" using b by (simp add: barrier_inv_def)
  with q e show ?thesis by (auto simp: queue_inv_def alive_zero)
qed

theorem read_barrier_sound_witness:
  "\<exists>s. reach False 2 s \<and> reader s = Past \<and> submitted s = [''a'', ''b''] \<and>
     mset (executed s) = mset (submitted s) \<and> tasks (pool s) = []"
proof (intro exI conjI)
  note R = two_nodes_past
  show "reach False 2 (two_nodes [Some ''a'', Some ''b''] 0 0 0 [Ready, Ready] Past [] 2
      [''a'', ''b''] [''a'', ''b''] [''a'', ''b''])" (is "reach False 2 ?s")
    by (rule R)
  from read_barrier_sound [OF R] show "mset (executed ?s) = mset (submitted ?s)" "tasks (pool ?s) = []"
    by (simp_all add: two_nodes_def)
qed (simp_all add: two_nodes_def)

text \<open>
  No task is left behind. As long as a task is queued, some thread is not waiting on the
  condition variable, so the queue is served even if no wait ever returns spuriously.
\<close>

lemma queued_task_is_served:
  assumes "reach spurious n s" and "0 < n" and "tasks (pool s) \<noteq> []"
  shows "\<exists>i < length (workers s). workers s ! i = Ready \<or> (\<exists>t. workers s ! i = Running t)"
proof -
  have q: "queue_inv s" and b: "barrier_inv s" and w: "wakeup_inv s"
    using reach_inv [OF assms(1,2)] by blast+
  have "length (submitted s) \<noteq> length (executed s)"
    using all_executed [OF q] assms(3) by blast
  then have "alive (workers s) = length (workers s)"
    using b by (cases "reader s") (simp_all add: barrier_inv_def)
  then have x: "Exited \<notin> set (workers s)"
  proof (rule contrapos_pp)
    assume "\<not> Exited \<notin> set (workers s)"
    then obtain i where "i < length (workers s)" "workers s ! i = Exited"
      by (auto simp: in_set_conv_nth)
    then have "Suc (alive (workers s)) = alive ((workers s)[i := Ready])"
      using alive_update [of i "workers s" Ready] by simp
    then show "alive (workers s) \<noteq> length (workers s)"
      using alive_bound [of "(workers s)[i := Ready]"] by simp
  qed
  from w assms(3) obtain v where "v \<in> set (workers s)" "v \<noteq> Waiting"
    by (auto simp: wakeup_inv_def)
  with x show ?thesis by (metis in_set_conv_nth worker.exhaust)
qed

text \<open>
  C13: the reader can miss the end of its read. With two server nodes, and without any spurious
  return of a wait, a state is reachable in which both tasks have run, \<open>tasks_completed\<close> equals
  the number of nodes, the reader is still inside \<open>pthread_cond_wait\<close> and no thread can move:
  the last task's \<open>pthread_cond_signal\<close> woke an idle worker, because workers and reader wait on
  the same condition variable.
\<close>

theorem read_barrier_can_deadlock:
  "\<exists>s :: string system. reach False 2 s \<and> reader s = Blocked \<and> tasks_completed s = nodes s \<and>
     executed s = submitted s \<and> length (submitted s) = 2 \<and> (\<forall>s'. \<not> step False s s')"
proof (intro exI conjI allI notI)
  show "reach False 2 (two_nodes [Some ''a'', Some ''b''] 0 0 0 [Waiting, Waiting] Blocked [] 2
      [''a'', ''b''] [''a'', ''b''] [''a'', ''b''])" (is "reach False 2 ?s")
    by (rule two_nodes_lost_wakeup)
  fix s' assume "step False ?s s'"
  then show False
    by cases (auto simp: two_nodes_def less_Suc_eq nth_Cons split: nat.splits)
qed (simp_all add: two_nodes_def)

lemma spawn_stops:
  assumes "\<And>j. j < k \<Longrightarrow> ok (i + j)" and "\<not> ok (i + k)" and "k < n"
  shows "spawn_threads ok n i p = (False, p\<lparr>started := started p + int k\<rparr>)"
  using assms
proof (induction k arbitrary: i n p)
  case 0
  then show ?case by (cases n) simp_all
next
  case (Suc k)
  from Suc.prems(3) obtain m where n: "n = Suc m" by (cases n) simp_all
  have "ok i" using Suc.prems(1) [of 0] by simp
  moreover have "spawn_threads ok m (Suc i) (p\<lparr>started := started p + 1\<rparr>)
      = (False, p\<lparr>started := started p + 1, started := started p + 1 + int k\<rparr>)"
    using Suc.IH [of "Suc i" m "p\<lparr>started := started p + 1\<rparr>"] Suc.prems(1) [of "Suc _"]
      Suc.prems(2,3) n by simp
  ultimately show ?case by (simp add: n)
qed

text \<open>
  When \<open>pthread_create\<close> fails for thread \<open>i\<close>, \<open>threadpool_create\<close> returns NULL after a
  clean-up that calls \<open>pthread_join\<close> on all \<open>thread_count\<close> handles, so also on those from
  \<open>i\<close> on, which no \<open>pthread_create\<close> ever set.
\<close>

lemma create_failure_joins_unset_threads:
  assumes "malloc_pool_ok env" "malloc_threads_ok env" "malloc_queue_ok env"
    and "mutex_init_ok env" "cond_init_ok env" "lock_ok env" "broadcast_ok env" "unlock_ok env"
    and "\<And>j. j < i \<Longrightarrow> create_ok env j" and "\<not> create_ok env i" and "i < n"
  shows "\<exists>d. threadpool_create env (int n) qsize = (None :: 'a threadpool option, Some d) \<and>
    started (pool_left d) = int i \<and> (\<forall>j. i \<le> j \<and> j < n \<longrightarrow> j \<in> set (joined d))"
proof -
  have "spawn_threads (create_ok env) n 0 p = (False, p\<lparr>started := started p + int i\<rparr>)"
    for p :: "'a threadpool"
    using spawn_stops [of i "create_ok env" 0 n p] assms(9-11) by simp
  then show ?thesis
    using assms(1-8) by (simp add: threadpool_create_def threadpool_destroy_def Let_def)
qed

end
