(* ===== verification/Read_Cache.thy ===== *)
theory Read_Cache
  imports Prelude "HOL-Library.Multiset" "HOL-Library.Monad_Syntax"
begin

text \<open>
  The read cache of \<open>src/vol-rest/src/h5read_cache.c\<close>: a doubly linked list of items, most
  recently used first, in an explicit heap.  The heap maps the addresses of live items; reading
  or writing through NULL or through an address that is not live (freed or never allocated) makes
  an operation return \<open>None\<close>, and so does a loop that does not end.  The mutex is held during
  every operation, so each is one step.

  The operations refine an abstract list of entries without pointers (\<open>mru_exec\<close>).
\<close>

section \<open>Data\<close>

type_synonym addr = nat

record 'd cache_item =
  ckey :: string
  cdata :: 'd
  isize :: u64
  cprev :: "addr option"
  cnext :: "addr option"

text \<open>
  \<open>heap\<close> holds the live items and \<open>freed_data\<close> the arguments of \<open>free (item->data)\<close>, newest
  first.  \<open>capacity\<close> is an \<open>int\<close>, \<open>total_size\<close> and \<open>max_size\<close> are \<open>size_t\<close>.
\<close>

record 'd cache =
  heap :: "addr \<rightharpoonup> 'd cache_item"
  chead :: "addr option"
  ctail :: "addr option"
  capacity :: u32
  csize :: u32
  total_size :: u64
  max_size :: u64
  freed_data :: "'d list"

definition max_key_len :: nat where
  "max_key_len = 256"

definition get_item :: "addr option \<Rightarrow> 'd cache \<Rightarrow> 'd cache_item option" where
  "get_item p s = Option.bind p (heap s)"

definition set_item ::
  "addr option \<Rightarrow> ('d cache_item \<Rightarrow> 'd cache_item) \<Rightarrow> 'd cache \<Rightarrow> 'd cache option" where
  "set_item p f s =
     (case p of
        None \<Rightarrow> None
      | Some a \<Rightarrow> map_option (\<lambda>it. s\<lparr>heap := (heap s)(a \<mapsto> f it)\<rparr>) (heap s a))"

section \<open>Operations\<close>

text \<open>\<open>size_t\<close> arguments; \<open>cache->capacity = capacity\<close> converts to \<open>int\<close>.\<close>

definition cache_init :: "bool \<Rightarrow> u64 \<Rightarrow> u64 \<Rightarrow> 'd cache option" where
  "cache_init malloc_ok cap msize =
     (if \<not> malloc_ok then None
      else Some \<lparr>heap = Map.empty, chead = None, ctail = None, capacity = ucast cap, csize = 0,
                 total_size = 0, max_size = msize, freed_data = []\<rparr>)"

text \<open>The two statements with which both \<open>move_to_head\<close> and \<open>cache_delete\<close> begin.\<close>

definition unlink_item :: "addr option \<Rightarrow> 'd cache \<Rightarrow> 'd cache option" where
  "unlink_item item s = do {
     it \<leftarrow> get_item item s;
     s \<leftarrow> (if cprev it \<noteq> None then set_item (cprev it) (\<lambda>i. i\<lparr>cnext := cnext it\<rparr>) s else Some s);
     it \<leftarrow> get_item item s;
     (if cnext it \<noteq> None then set_item (cnext it) (\<lambda>i. i\<lparr>cprev := cprev it\<rparr>) s else Some s)
   }"

definition move_to_head :: "addr option \<Rightarrow> 'd cache \<Rightarrow> 'd cache option" where
  "move_to_head item s =
     (if item = chead s then Some s
      else do {
        s \<leftarrow> unlink_item item s;
        it \<leftarrow> get_item item s;
        s \<leftarrow> Some (if item = ctail s then s\<lparr>ctail := cprev it\<rparr> else s);
        s \<leftarrow> set_item item (\<lambda>i. i\<lparr>cnext := chead s\<rparr>) s;
        s \<leftarrow> set_item item (\<lambda>i. i\<lparr>cprev := None\<rparr>) s;
        s \<leftarrow> (if chead s \<noteq> None then set_item (chead s) (\<lambda>i. i\<lparr>cprev := item\<rparr>) s else Some s);
        s \<leftarrow> Some (s\<lparr>chead := item\<rparr>);
        Some (if ctail s = None then s\<lparr>ctail := item\<rparr> else s)
      })"

text \<open>The search loop all operations share: the item with the key, or NULL at the end.\<close>

partial_function (option) find_item ::
  "(addr \<rightharpoonup> 'd cache_item) \<Rightarrow> string \<Rightarrow> addr option \<Rightarrow> addr option option" where
  "find_item h key p =
     (case p of
        None \<Rightarrow> Some None
      | Some a \<Rightarrow>
          (case h a of
             None \<Rightarrow> None
           | Some it \<Rightarrow> if ckey it = key then Some (Some a) else find_item h key (cnext it)))"

text \<open>The data found (\<open>None\<close> is NULL) and the cache.\<close>

definition cache_get :: "string \<Rightarrow> 'd cache \<Rightarrow> ('d option \<times> 'd cache) option" where
  "cache_get key s = do {
     item \<leftarrow> find_item (heap s) key (chead s);
     (case item of
        None \<Rightarrow> Some (None, s)
      | Some a \<Rightarrow> do {
          s \<leftarrow> move_to_head item s;
          it \<leftarrow> get_item item s;
          Some (Some (cdata it), s)
        })
   }"

text \<open>\<open>free (item->data); free (item)\<close> and the accounting after it.\<close>

definition release_item :: "addr option \<Rightarrow> 'd cache \<Rightarrow> 'd cache option" where
  "release_item item s = do {
     it \<leftarrow> get_item item s;
     Some (s\<lparr>total_size := total_size s - isize it, freed_data := cdata it # freed_data s,
             heap := (heap s)(the item := None), csize := csize s - 1\<rparr>)
   }"

definition cache_evict :: "'d cache \<Rightarrow> 'd cache option" where
  "cache_evict s =
     (if ctail s = None then Some s
      else do {
        let item = ctail s;
        it \<leftarrow> get_item item s;
        s \<leftarrow> (if cprev it \<noteq> None then set_item (cprev it) (\<lambda>i. i\<lparr>cnext := None\<rparr>) s else Some s);
        it \<leftarrow> get_item item s;
        s \<leftarrow> Some (s\<lparr>ctail := cprev it\<rparr>);
        s \<leftarrow> Some (if item = chead s then s\<lparr>chead := None\<rparr> else s);
        release_item item s
      })"

text \<open>
  The comparison converts the \<open>int\<close> capacity to \<open>size_t\<close>.
\<close>

definition over_capacity :: "'d cache \<Rightarrow> bool" where
  "over_capacity s \<longleftrightarrow> total_size s > scast (capacity s)"

partial_function (option) evict_loop :: "'d cache \<Rightarrow> 'd cache option" where
  "evict_loop s =
     (if over_capacity s then Option.bind (cache_evict s) evict_loop else Some s)"

text \<open>
  \<open>m\<close> is what \<open>malloc\<close> returns.  \<open>strcpy\<close> into \<open>key[MAX_KEY_LEN]\<close> is defined only for keys
  that fit with their NUL.
\<close>

definition cache_set ::
  "addr option \<Rightarrow> string \<Rightarrow> 'd \<Rightarrow> u64 \<Rightarrow> 'd cache \<Rightarrow> 'd cache option" where
  "cache_set m key d sz s = do {
     item \<leftarrow> find_item (heap s) key (chead s);
     (case item of
        Some a \<Rightarrow> do {
          it \<leftarrow> get_item item s;
          s \<leftarrow> Some (s\<lparr>total_size := total_size s - isize it\<rparr>);
          s \<leftarrow> set_item item (\<lambda>i. i\<lparr>cdata := d, isize := sz\<rparr>) s;
          s \<leftarrow> Some (s\<lparr>total_size := total_size s + sz\<rparr>);
          move_to_head item s
        }
      | None \<Rightarrow>
          (case m of
             None \<Rightarrow> Some s
           | Some a \<Rightarrow>
               if length key \<ge> max_key_len then None
               else do {
                 s \<leftarrow> Some (s\<lparr>heap := (heap s)(a \<mapsto>
                         \<lparr>ckey = key, cdata = d, isize = sz, cprev = None, cnext = chead s\<rparr>)\<rparr>);
                 s \<leftarrow> (if chead s \<noteq> None then set_item (chead s) (\<lambda>i. i\<lparr>cprev := m\<rparr>) s else Some s);
                 s \<leftarrow> Some (s\<lparr>chead := m\<rparr>);
                 s \<leftarrow> Some (if ctail s = None then s\<lparr>ctail := m\<rparr> else s);
                 s \<leftarrow> Some (s\<lparr>csize := csize s + 1, total_size := total_size s + sz\<rparr>);
                 evict_loop s
               }))
   }"

definition cache_delete :: "string \<Rightarrow> 'd cache \<Rightarrow> 'd cache option" where
  "cache_delete key s = do {
     item \<leftarrow> find_item (heap s) key (chead s);
     (case item of
        None \<Rightarrow> Some s
      | Some a \<Rightarrow> do {
          s \<leftarrow> unlink_item item s;
          it \<leftarrow> get_item item s;
          s \<leftarrow> Some (if item = chead s then s\<lparr>chead := cnext it\<rparr> else s);
          s \<leftarrow> Some (if item = ctail s then s\<lparr>ctail := cprev it\<rparr> else s);
          release_item item s
        })
   }"

text \<open>The loop of \<open>cache_destroy\<close>; the result is the data freed, newest first.\<close>

partial_function (option) destroy_loop ::
  "(addr \<rightharpoonup> 'd cache_item) \<Rightarrow> addr option \<Rightarrow> 'd list \<Rightarrow> ((addr \<rightharpoonup> 'd cache_item) \<times> 'd list) option" where
  "destroy_loop h p fr =
     (case p of
        None \<Rightarrow> Some (h, fr)
      | Some a \<Rightarrow>
          (case h a of
             None \<Rightarrow> None
           | Some it \<Rightarrow> destroy_loop (h(a := None)) (cnext it) (cdata it # fr)))"

definition cache_destroy :: "'d cache \<Rightarrow> ((addr \<rightharpoonup> 'd cache_item) \<times> 'd list) option" where
  "cache_destroy s = destroy_loop (heap s) (chead s) (freed_data s)"

section \<open>Lists in the heap\<close>

text \<open>\<open>dl h p xs n\<close>: the items at \<open>xs\<close> are linked in this order between \<open>p\<close> and \<open>n\<close>.\<close>

fun dl :: "(addr \<rightharpoonup> 'd cache_item) \<Rightarrow> addr option \<Rightarrow> addr list \<Rightarrow> addr option \<Rightarrow> bool" where
  "dl h p [] n \<longleftrightarrow> True"
| "dl h p (a # xs) n \<longleftrightarrow>
     (\<exists>it. h a = Some it \<and> cprev it = p \<and> cnext it = (if xs = [] then n else Some (hd xs))) \<and>
     dl h (Some a) xs n"

lemma dl_append:
  "dl h p (xs @ ys) n \<longleftrightarrow>
     dl h p xs (if ys = [] then n else Some (hd ys)) \<and> dl h (if xs = [] then p else Some (last xs)) ys n"
  by (induction xs arbitrary: p) auto

lemma dl_frame: "dl h p xs n \<Longrightarrow> (\<And>x. x \<in> set xs \<Longrightarrow> h' x = h x) \<Longrightarrow> dl h' p xs n"
  by (induction xs arbitrary: p) auto

lemma dl_upd_next:
  assumes "dl h p xs n" and "distinct xs" and "xs \<noteq> []" and "h (last xs) = Some it"
  shows "dl (h(last xs \<mapsto> it\<lparr>cnext := n'\<rparr>)) p xs n'"
  using assms
proof (induction xs arbitrary: p)
  case (Cons a xs)
  show ?case
  proof (cases "xs = []")
    case False
    then have "last xs \<in> set xs" by simp
    with Cons False show ?thesis by (auto simp del: fun_upd_apply) (auto simp: fun_upd_def)
  qed (use Cons in auto)
qed simp

lemma dl_upd_prev:
  assumes "dl h p xs n" and "distinct xs" and "xs \<noteq> []" and "h (hd xs) = Some it"
  shows "dl (h(hd xs \<mapsto> it\<lparr>cprev := p'\<rparr>)) p' xs n"
proof -
  from assms(3) obtain a ys where xs: "xs = a # ys" by (cases xs) simp_all
  have "dl (h(a \<mapsto> it\<lparr>cprev := p'\<rparr>)) (Some a) ys n"
    by (rule dl_frame [of h]) (use assms xs in auto)
  with assms xs show ?thesis by auto
qed

lemma dl_lookup: "dl h p xs n \<Longrightarrow> a \<in> set xs \<Longrightarrow> \<exists>it. h a = Some it"
  by (induction xs arbitrary: p) auto

text \<open>The entry of an item, its payload without the links.\<close>

definition entry :: "(addr \<rightharpoonup> 'd cache_item) \<Rightarrow> addr \<Rightarrow> string \<times> 'd \<times> u64" where
  "entry h a = (case h a of Some it \<Rightarrow> (ckey it, cdata it, isize it) | None \<Rightarrow> undefined)"

lemma entry_upd [simp]:
  "entry (h(b \<mapsto> it)) c = (if c = b then (ckey it, cdata it, isize it) else entry h c)"
  by (simp add: entry_def)

lemma entry_some: "h a = Some it \<Longrightarrow> entry h a = (ckey it, cdata it, isize it)"
  by (simp add: entry_def)

lemma entry_same:
  assumes "h a = Some it" and "ckey it' = ckey it" and "cdata it' = cdata it" and "isize it' = isize it"
  shows "entry (h(a \<mapsto> it')) = entry h"
  using assms by (auto simp: entry_some fun_eq_iff)

text \<open>Taking an item out of its list leaves the item itself as it was.\<close>

lemma unlink_item_ok:
  assumes "dl (heap s) None (xs @ a # ys) None" and "distinct (xs @ a # ys)"
  shows "\<exists>h it. unlink_item (Some a) s = Some (s\<lparr>heap := h\<rparr>) \<and> heap s a = Some it \<and> h a = Some it \<and>
    cprev it = (if xs = [] then None else Some (last xs)) \<and>
    cnext it = (if ys = [] then None else Some (hd ys)) \<and>
    dl h None (xs @ ys) None \<and> entry h = entry (heap s) \<and> dom h = dom (heap s)"
proof -
  define n where "n = (if ys = [] then None else Some (hd ys))"
  define q where "q = (if xs = [] then None else Some (last xs))"
  from assms(1) obtain it where
    it: "heap s a = Some it" "cprev it = q" "cnext it = n" and
    l: "dl (heap s) None xs (Some a)" and r: "dl (heap s) (Some a) ys None"
    by (auto simp: dl_append n_def q_def)
  have d: "distinct xs" "distinct ys" "a \<notin> set xs" "a \<notin> set ys" "set xs \<inter> set ys = {}"
    using assms(2) by auto
  obtain h1 where h1: "(if cprev it \<noteq> None then set_item (cprev it) (\<lambda>i. i\<lparr>cnext := cnext it\<rparr>) s
        else Some s) = Some (s\<lparr>heap := h1\<rparr>)"
    and h1s: "dl h1 None xs n" "dl h1 (Some a) ys None" "h1 a = Some it" "entry h1 = entry (heap s)"
      "dom h1 = dom (heap s)"
  proof (cases "xs = []")
    case True
    with that [of "heap s"] it r show ?thesis by (simp add: q_def)
  next
    case False
    then have m: "last xs \<in> set xs" by simp
    from dl_lookup [OF l m] obtain il where il: "heap s (last xs) = Some il" by blast
    let ?h = "(heap s)(last xs \<mapsto> il\<lparr>cnext := n\<rparr>)"
    have "dl ?h None xs n" by (rule dl_upd_next [OF l d(1) False il])
    moreover have "dl ?h (Some a) ys None"
      by (rule dl_frame [OF r]) (use m d(5) in auto)
    moreover have "entry ?h = entry (heap s)" by (rule entry_same [where it = il]) (simp_all add: il)
    moreover have "a \<noteq> last xs" "insert (last xs) (dom (heap s)) = dom (heap s)"
      using m d(3) il by auto
    ultimately show ?thesis
      using that [of ?h] False it il by (simp add: q_def set_item_def)
  qed
  obtain h2 where h2: "(if cnext it \<noteq> None then set_item (cnext it) (\<lambda>i. i\<lparr>cprev := cprev it\<rparr>) (s\<lparr>heap := h1\<rparr>)
        else Some (s\<lparr>heap := h1\<rparr>)) = Some (s\<lparr>heap := h2\<rparr>)"
    and h2s: "dl h2 None xs n" "dl h2 q ys None" "h2 a = Some it" "entry h2 = entry (heap s)"
      "dom h2 = dom (heap s)"
  proof (cases "ys = []")
    case True
    with that [of h1] it h1s show ?thesis by (simp add: n_def)
  next
    case False
    then have m: "hd ys \<in> set ys" by simp
    from dl_lookup [OF h1s(2) m] obtain ir where ir: "h1 (hd ys) = Some ir" by blast
    let ?h = "h1(hd ys \<mapsto> ir\<lparr>cprev := q\<rparr>)"
    have "dl ?h q ys None" by (rule dl_upd_prev [OF h1s(2) d(2) False ir])
    moreover have "dl ?h None xs n"
      by (rule dl_frame [OF h1s(1)]) (use m d(5) in auto)
    moreover have "entry ?h = entry (heap s)"
      unfolding h1s(4) [symmetric] by (rule entry_same [where it = ir]) (simp_all add: ir)
    moreover have "a \<noteq> hd ys" "insert (hd ys) (dom (heap s)) = dom (heap s)"
      using m d(4) ir h1s(5) by auto
    ultimately show ?thesis
      using that [of ?h] False it h1s ir by (simp add: n_def set_item_def)
  qed
  have "unlink_item (Some a) s = Some (s\<lparr>heap := h2\<rparr>)"
    unfolding unlink_item_def using it h1 h1s(3) h2 by (simp add: get_item_def)
  moreover have "dl h2 None (xs @ ys) None" using h2s(1,2) by (simp add: dl_append n_def q_def)
  ultimately show ?thesis using it h2s by (auto simp: n_def q_def)
qed

text \<open>Putting an item in front.\<close>

lemma push_front_ok:
  assumes "dl (heap s) None xs None" and "distinct (a # xs)" and "heap s a = Some it"
    and "cprev it = None" and "cnext it = (if xs = [] then None else Some (hd xs))"
    and "chead s = (if xs = [] then None else Some (hd xs))"
  shows "\<exists>h. (if chead s \<noteq> None then set_item (chead s) (\<lambda>i. i\<lparr>cprev := Some a\<rparr>) s else Some s)
      = Some (s\<lparr>heap := h\<rparr>) \<and>
    dl h None (a # xs) None \<and> entry h = entry (heap s) \<and> dom h = dom (heap s)"
proof (cases "xs = []")
  case True
  with assms show ?thesis by (intro exI [of _ "heap s"]) simp
next
  case False
  then have m: "hd xs \<in> set xs" by simp
  from dl_lookup [OF assms(1) m] obtain ih where ih: "heap s (hd xs) = Some ih" by blast
  let ?h = "(heap s)(hd xs \<mapsto> ih\<lparr>cprev := Some a\<rparr>)"
  have "dl ?h (Some a) xs None" using dl_upd_prev [OF assms(1) _ False ih] assms(2) by simp
  moreover have "entry ?h = entry (heap s)" by (rule entry_same [where it = ih]) (simp_all add: ih)
  moreover have "hd xs \<noteq> a" using m assms(2) by auto
  ultimately show ?thesis
    using False assms ih by (intro exI [of _ ?h]) (auto simp: set_item_def)
qed

section \<open>The abstract cache\<close>

text \<open>
  Entries without pointers, most recently used first.  \<open>a_freed\<close> is the data freed, newest
  first.
\<close>

type_synonym 'd entry_t = "string \<times> 'd \<times> u64"

record 'd mru =
  entries :: "'d entry_t list"
  limit :: u64
  a_freed :: "'d list"

definition weight :: "'d entry_t list \<Rightarrow> u64" where
  "weight es = sum_list (map (\<lambda>e. snd (snd e)) es)"

text \<open>The part before, the entry and the part after the first entry with the key.\<close>

fun split_key :: "string \<Rightarrow> 'd entry_t list \<Rightarrow> ('d entry_t list \<times> 'd entry_t \<times> 'd entry_t list) option" where
  "split_key k [] = None"
| "split_key k (e # es) =
     (if fst e = k then Some ([], e, es)
      else map_option (\<lambda>(xs, x, ys). (e # xs, x, ys)) (split_key k es))"

definition mru_get :: "string \<Rightarrow> 'd mru \<Rightarrow> 'd option \<times> 'd mru" where
  "mru_get k m =
     (case split_key k (entries m) of
        None \<Rightarrow> (None, m)
      | Some (xs, e, ys) \<Rightarrow> (Some (fst (snd e)), m\<lparr>entries := e # xs @ ys\<rparr>))"

text \<open>Entries are dropped from the back until the rest fits.\<close>

function mru_shrink :: "'d mru \<Rightarrow> 'd mru" where
  "mru_shrink m =
     (if entries m \<noteq> [] \<and> weight (entries m) > limit m
      then mru_shrink (m\<lparr>entries := butlast (entries m),
                         a_freed := fst (snd (last (entries m))) # a_freed m\<rparr>)
      else m)"
  by pat_completeness auto
termination by (relation "measure (\<lambda>m. length (entries m))") auto

declare mru_shrink.simps [simp del]

lemma mru_shrink_step:
  "entries m \<noteq> [] \<and> weight (entries m) > limit m \<Longrightarrow>
     mru_shrink m = mru_shrink (m\<lparr>entries := butlast (entries m),
                                a_freed := fst (snd (last (entries m))) # a_freed m\<rparr>)"
  by (subst mru_shrink.simps) (rule if_P)

lemma mru_shrink_stop: "\<not> (entries m \<noteq> [] \<and> weight (entries m) > limit m) \<Longrightarrow> mru_shrink m = m"
  by (subst mru_shrink.simps) (rule if_not_P)

definition mru_set :: "bool \<Rightarrow> string \<Rightarrow> 'd \<Rightarrow> u64 \<Rightarrow> 'd mru \<Rightarrow> 'd mru" where
  "mru_set malloc_ok k d sz m =
     (case split_key k (entries m) of
        Some (xs, e, ys) \<Rightarrow> m\<lparr>entries := (k, d, sz) # xs @ ys\<rparr>
      | None \<Rightarrow>
          if malloc_ok then mru_shrink (m\<lparr>entries := (k, d, sz) # entries m\<rparr>) else m)"

definition mru_delete :: "string \<Rightarrow> 'd mru \<Rightarrow> 'd mru" where
  "mru_delete k m =
     (case split_key k (entries m) of
        None \<Rightarrow> m
      | Some (xs, e, ys) \<Rightarrow> m\<lparr>entries := xs @ ys, a_freed := fst (snd e) # a_freed m\<rparr>)"

datatype 'd cache_op = Get string | Set "addr option" string 'd u64 | Delete string

definition mru_exec :: "'d cache_op \<Rightarrow> 'd mru \<Rightarrow> 'd option \<times> 'd mru" where
  "mru_exec op m =
     (case op of
        Get k \<Rightarrow> mru_get k m
      | Set a k d sz \<Rightarrow> (None, mru_set (a \<noteq> None) k d sz m)
      | Delete k \<Rightarrow> (None, mru_delete k m))"

definition cache_exec :: "'d cache_op \<Rightarrow> 'd cache \<Rightarrow> ('d option \<times> 'd cache) option" where
  "cache_exec op s =
     (case op of
        Get k \<Rightarrow> cache_get k s
      | Set a k d sz \<Rightarrow> map_option (Pair None) (cache_set a k d sz s)
      | Delete k \<Rightarrow> map_option (Pair None) (cache_delete k s))"

text \<open>
  What the caller owes: keys fit their array, \<open>malloc\<close> returns an address that is not in use.
\<close>

definition op_valid :: "'d cache \<Rightarrow> 'd cache_op \<Rightarrow> bool" where
  "op_valid s op =
     (case op of
        Set a k d sz \<Rightarrow> length k < max_key_len \<and> (\<forall>x. a = Some x \<longrightarrow> heap s x = None)
      | _ \<Rightarrow> True)"

section \<open>The representation\<close>

definition payload :: "'d cache \<Rightarrow> addr list \<Rightarrow> 'd entry_t list" where
  "payload s xs = map (entry (heap s)) xs"

definition linked :: "'d cache \<Rightarrow> addr list \<Rightarrow> bool" where
  "linked s xs \<longleftrightarrow> distinct xs \<and> dl (heap s) None xs None \<and> dom (heap s) = set xs \<and>
     chead s = (if xs = [] then None else Some (hd xs)) \<and>
     ctail s = (if xs = [] then None else Some (last xs))"

definition counted :: "'d cache \<Rightarrow> addr list \<Rightarrow> bool" where
  "counted s xs \<longleftrightarrow> total_size s = weight (payload s xs) \<and> csize s = of_nat (length xs)"

text \<open>The list of item addresses, read off the heap.\<close>

definition cache_ok :: "'d cache \<Rightarrow> bool" where
  "cache_ok s \<longleftrightarrow> (\<exists>xs. linked s xs \<and> counted s xs \<and> distinct (map fst (payload s xs)))"

definition represents :: "'d cache \<Rightarrow> 'd mru \<Rightarrow> bool" where
  "represents s m \<longleftrightarrow> (\<exists>xs. linked s xs \<and> counted s xs \<and> entries m = payload s xs \<and>
     distinct (map fst (entries m)) \<and> limit m = scast (capacity s) \<and> a_freed m = freed_data s)"

lemma split_key_Some:
  "split_key k es = Some (xs, e, ys) \<Longrightarrow> es = xs @ e # ys \<and> fst e = k \<and> (\<forall>x \<in> set xs. fst x \<noteq> k)"
proof (induction es arbitrary: xs)
  case (Cons x es)
  show ?case
  proof (cases "fst x = k")
    case False
    with Cons.prems obtain zs where z: "split_key k es = Some (zs, e, ys)" "xs = x # zs" by auto
    show ?thesis using Cons.IH [OF z(1)] z(2) False by simp
  qed (use Cons.prems in auto)
qed simp

lemma split_key_None: "split_key k es = None \<longleftrightarrow> k \<notin> fst ` set es"
  by (induction es) auto

text \<open>Searching the heap is searching the list.\<close>

lemma find_item_dl:
  assumes "dl h p xs n"
  shows "find_item h k (if xs = [] then n else Some (hd xs)) =
    (case split_key k (map (entry h) xs) of
       None \<Rightarrow> find_item h k n
     | Some (as, e, bs) \<Rightarrow> Some (Some (xs ! length as)))"
  using assms
proof (induction xs arbitrary: p)
  case (Cons a xs)
  then obtain it where it: "h a = Some it" "cnext it = (if xs = [] then n else Some (hd xs))"
    and r: "dl h (Some a) xs n" by auto
  note IH = Cons.IH [OF r]
  show ?case
  proof (cases "ckey it = k")
    case True
    with it show ?thesis by (subst find_item.simps) (simp add: entry_some)
  next
    case False
    then have "find_item h k (Some a) = find_item h k (cnext it)"
      using it by (subst find_item.simps) simp
    then show ?thesis using IH it False by (auto simp: entry_some split: option.splits)
  qed
qed simp

lemma find_item_nil [simp]: "find_item h k None = Some None"
  by (subst find_item.simps) simp

lemma find_item_linked:
  assumes "linked s xs"
  shows "find_item (heap s) k (chead s) =
    Some (case split_key k (payload s xs) of None \<Rightarrow> None | Some (as, e, bs) \<Rightarrow> Some (xs ! length as))"
  using assms find_item_dl [of "heap s" None xs None k]
  by (auto simp: linked_def payload_def split: option.splits)

text \<open>The addresses around a found entry.\<close>

lemma split_key_addrs:
  assumes "split_key k (payload s xs) = Some (as, e, bs)"
  obtains ys a zs where "xs = ys @ a # zs" "xs ! length as = a" "as = payload s ys"
    "e = entry (heap s) a" "bs = payload s zs"
proof -
  from split_key_Some [OF assms] have "map (entry (heap s)) xs = as @ e # bs" by (simp add: payload_def)
  then obtain ys a zs where "xs = ys @ a # zs" "as = map (entry (heap s)) ys"
    "e = entry (heap s) a" "bs = map (entry (heap s)) zs"
    by (auto simp: map_eq_append_conv)
  with that show ?thesis by (simp add: payload_def)
qed

lemma linked_cong:
  "heap s' = heap s \<Longrightarrow> chead s' = chead s \<Longrightarrow> ctail s' = ctail s \<Longrightarrow> linked s' xs = linked s xs"
  by (simp add: linked_def)

lemma move_to_head_ok:
  assumes "linked s (ys @ a # zs)"
  shows "\<exists>h t. move_to_head (Some a) s = Some (s\<lparr>heap := h, chead := Some a, ctail := t\<rparr>) \<and>
    linked (s\<lparr>heap := h, chead := Some a, ctail := t\<rparr>) (a # ys @ zs) \<and> entry h = entry (heap s)"
proof (cases "ys = []")
  case True
  then have "chead s = Some a" using assms by (simp add: linked_def)
  with assms True show ?thesis
    by (intro exI [of _ "heap s"] exI [of _ "ctail s"]) (simp add: move_to_head_def linked_def)
next
  case False
  have d: "distinct (ys @ a # zs)" and l: "dl (heap s) None (ys @ a # zs) None"
    and dm: "dom (heap s) = set (ys @ a # zs)"
    and hd: "chead s = Some (hd ys)" and tl: "ctail s = Some (last (a # zs))"
    using assms False by (auto simp: linked_def)
  obtain h it where u: "unlink_item (Some a) s = Some (s\<lparr>heap := h\<rparr>)" "h a = Some it"
    "cprev it = Some (last ys)" "dl h None (ys @ zs) None" "entry h = entry (heap s)"
    "dom h = dom (heap s)"
    using unlink_item_ok [OF l d] False by auto
  define t where "t = (if zs = [] then Some (last ys) else ctail s)"
  let ?it = "it\<lparr>cnext := chead s, cprev := None\<rparr>"
  let ?s = "s\<lparr>heap := h(a \<mapsto> ?it), ctail := t\<rparr>"
  have na: "hd ys \<noteq> a" "last ys \<noteq> a" "(Some a = ctail s) = (zs = [])"
    using d False tl by (auto dest: hd_in_set last_in_set)
  have e: "entry (h(a \<mapsto> ?it)) = entry (heap s)"
    unfolding u(5) [symmetric] by (rule entry_same [where it = it]) (simp_all add: u(2))
  have dl: "dl (heap ?s) None (ys @ zs) None"
    by (rule dl_frame [OF u(4)]) (use d in auto)
  obtain h' where h': "(if chead ?s \<noteq> None then set_item (chead ?s) (\<lambda>i. i\<lparr>cprev := Some a\<rparr>) ?s else Some ?s)
      = Some (?s\<lparr>heap := h'\<rparr>)" "dl h' None (a # ys @ zs) None"
      "entry h' = entry (heap ?s)" "dom h' = dom (heap ?s)"
    using push_front_ok [OF dl, of a ?it] d False hd by auto
  obtain z where z: "h (hd ys) = Some z" using dl_lookup [OF u(4), of "hd ys"] False by auto
  have h'_eq: "h' = h(a \<mapsto> ?it, hd ys \<mapsto> z\<lparr>cprev := Some a\<rparr>)"
    using h'(1) hd z na(1) by (simp add: set_item_def) (metis cache.select_convs(1) cache.surjective cache.update_convs(1))
  have "move_to_head (Some a) s = Some (s\<lparr>heap := h', chead := Some a, ctail := t\<rparr>)"
    using hd na u(1-3) z tl
    by (simp add: move_to_head_def get_item_def set_item_def t_def h'_eq)
  moreover have "linked (s\<lparr>heap := h', chead := Some a, ctail := t\<rparr>) (a # ys @ zs)"
    using h'(2,4) u(2,6) dm d False tl by (auto simp: linked_def t_def)
  ultimately show ?thesis using h'(3) e by auto
qed

lemma payload_cong: "entry (heap s') = entry (heap s) \<Longrightarrow> payload s' xs = payload s xs"
  by (simp add: payload_def)

lemma payload_append [simp]: "payload s (xs @ ys) = payload s xs @ payload s ys"
  and payload_Cons [simp]: "payload s (a # xs) = entry (heap s) a # payload s xs"
  and payload_Nil [simp]: "payload s [] = []"
  and length_payload [simp]: "length (payload s xs) = length xs"
  by (simp_all add: payload_def)

lemma weight_simps [simp]: "weight [] = 0" "weight (e # es) = snd (snd e) + weight es"
  "weight (es @ es') = weight es + weight es'"
  by (simp_all add: weight_def)

lemma representsI:
  assumes "linked s xs" and "counted s xs" and "entries m = payload s xs"
    and "distinct (map fst (entries m))" and "limit m = scast (capacity s)" and "a_freed m = freed_data s"
  shows "represents s m"
  using assms unfolding represents_def by blast

section \<open>Every operation refines its abstract counterpart\<close>

lemma cache_get_refines:
  assumes "represents s m"
  shows "\<exists>s'. cache_get k s = Some (fst (mru_get k m), s') \<and> represents s' (snd (mru_get k m))"
proof -
  from assms obtain xs where r: "linked s xs" "counted s xs" "entries m = payload s xs"
    "distinct (map fst (entries m))" "limit m = scast (capacity s)" "a_freed m = freed_data s"
    unfolding represents_def by blast
  show ?thesis
  proof (cases "split_key k (payload s xs)")
    case None
    with assms r show ?thesis by (simp add: cache_get_def mru_get_def find_item_linked)
  next
    case (Some x)
    then obtain as e bs where sp: "split_key k (payload s xs) = Some (as, e, bs)" by (cases x) auto
    obtain ys a zs where a: "xs = ys @ a # zs" "xs ! length as = a" "as = payload s ys"
      "e = entry (heap s) a" "bs = payload s zs" by (rule split_key_addrs [OF sp])
    obtain h t where mv: "move_to_head (Some a) s = Some (s\<lparr>heap := h, chead := Some a, ctail := t\<rparr>)"
      "linked (s\<lparr>heap := h, chead := Some a, ctail := t\<rparr>) (a # ys @ zs)" "entry h = entry (heap s)"
      using move_to_head_ok r(1) a(1) by blast
    let ?s = "s\<lparr>heap := h, chead := Some a, ctail := t\<rparr>"
    from mv(2) obtain it where it: "h a = Some it" by (auto simp: linked_def)
    have "cache_get k s = Some (Some (cdata it), ?s)"
      using sp a(2) mv(1) it r(1) by (simp add: cache_get_def find_item_linked get_item_def)
    moreover have "cdata it = fst (snd e)" using a(4) mv(3) entry_some [of h a it] it by simp
    moreover have "represents ?s (m\<lparr>entries := e # as @ bs\<rparr>)"
    proof (rule representsI [of _ "a # ys @ zs"])
      have p: "payload ?s xs = payload s xs" for xs by (rule payload_cong) (simp add: mv(3))
      show "entries (m\<lparr>entries := e # as @ bs\<rparr>) = payload ?s (a # ys @ zs)"
        by (simp add: p a(3-5) mv(3))
      show "counted ?s (a # ys @ zs)"
        using r(2) a(1) by (simp add: counted_def p mv(3) ac_simps)
      show "distinct (map fst (entries (m\<lparr>entries := e # as @ bs\<rparr>)))"
        using r(3,4) a by auto
    qed (use mv(2) r(5,6) in simp_all)
    ultimately show ?thesis using r(3) sp by (simp add: mru_get_def)
  qed
qed

lemma release_item_eq:
  "heap s a = Some it \<Longrightarrow> release_item (Some a) s =
     Some (s\<lparr>total_size := total_size s - isize it, freed_data := cdata it # freed_data s,
             heap := (heap s)(a := None), csize := csize s - 1\<rparr>)"
  by (simp add: release_item_def get_item_def)

lemma cache_delete_refines:
  assumes "represents s m"
  shows "\<exists>s'. cache_delete k s = Some s' \<and> represents s' (mru_delete k m)"
proof -
  from assms obtain xs where r: "linked s xs" "counted s xs" "entries m = payload s xs"
    "distinct (map fst (entries m))" "limit m = scast (capacity s)" "a_freed m = freed_data s"
    unfolding represents_def by blast
  show ?thesis
  proof (cases "split_key k (payload s xs)")
    case None
    with assms r show ?thesis by (simp add: cache_delete_def mru_delete_def find_item_linked)
  next
    case (Some x)
    then obtain as e bs where sp: "split_key k (payload s xs) = Some (as, e, bs)" by (cases x) auto
    obtain ys a zs where a: "xs = ys @ a # zs" "xs ! length as = a" "as = payload s ys"
      "e = entry (heap s) a" "bs = payload s zs" by (rule split_key_addrs [OF sp])
    have d: "distinct (ys @ a # zs)" and l: "dl (heap s) None (ys @ a # zs) None"
      using r(1) a(1) by (simp_all add: linked_def)
    obtain h it where u: "unlink_item (Some a) s = Some (s\<lparr>heap := h\<rparr>)" "heap s a = Some it" "h a = Some it"
      "cprev it = (if ys = [] then None else Some (last ys))"
      "cnext it = (if zs = [] then None else Some (hd zs))"
      "dl h None (ys @ zs) None" "entry h = entry (heap s)" "dom h = dom (heap s)"
      using unlink_item_ok [OF l d] by blast
    define hd' tl' where "hd' = (if Some a = chead s then cnext it else chead s)"
      and "tl' = (if Some a = ctail s then cprev it else ctail s)"
    let ?s = "s\<lparr>heap := h(a := None), chead := hd', ctail := tl',
                total_size := total_size s - isize it, freed_data := cdata it # freed_data s,
                csize := csize s - 1\<rparr>"
    have "cache_delete k s = Some ?s"
      using sp a(2) u(1,3) r(1)
      by (simp add: cache_delete_def find_item_linked get_item_def release_item_def hd'_def tl'_def)
    moreover have "represents ?s (m\<lparr>entries := as @ bs, a_freed := fst (snd e) # a_freed m\<rparr>)"
    proof (rule representsI [of _ "ys @ zs"])
      have dl: "dl (h(a := None)) None (ys @ zs) None"
        by (rule dl_frame [OF u(6)]) (use d in auto)
      have c: "chead s = Some (if ys = [] then a else hd ys)" "ctail s = Some (if zs = [] then a else last zs)"
        using r(1) a(1) by (simp_all add: linked_def)
      have "ys \<noteq> [] \<Longrightarrow> hd ys \<noteq> a" "zs \<noteq> [] \<Longrightarrow> last zs \<noteq> a" using d by auto
      then have "hd' = (if ys @ zs = [] then None else Some (hd (ys @ zs)))"
        "tl' = (if ys @ zs = [] then None else Some (last (ys @ zs)))"
        using u(4,5) by (cases "ys = []"; cases "zs = []"; simp add: hd'_def tl'_def c)+
      then show "linked ?s (ys @ zs)"
        using dl d u(8) r(1) a(1) by (auto simp: linked_def)
      have p: "payload ?s vs = payload s vs" if "a \<notin> set vs" for vs
        using that by (auto simp: payload_def u(7) [symmetric] entry_def)
      then have p': "payload ?s ys = payload s ys" "payload ?s zs = payload s zs" using d by auto
      show "entries (m\<lparr>entries := as @ bs, a_freed := fst (snd e) # a_freed m\<rparr>) = payload ?s (ys @ zs)"
        using a p' by simp
      show "counted ?s (ys @ zs)"
        using r(2) a(1) u(2) p' by (simp add: counted_def entry_some)
      show "distinct (map fst (entries (m\<lparr>entries := as @ bs, a_freed := fst (snd e) # a_freed m\<rparr>)))"
        using r(3,4) a by auto
    qed (use r(5,6) u(2) a(4) in \<open>simp_all add: entry_some\<close>)
    ultimately show ?thesis using r(3) sp by (simp add: mru_delete_def)
  qed
qed

lemma cache_evict_refines:
  assumes "represents s m" and "entries m \<noteq> []"
  shows "\<exists>s'. cache_evict s = Some s' \<and>
    represents s' (m\<lparr>entries := butlast (entries m), a_freed := fst (snd (last (entries m))) # a_freed m\<rparr>) \<and>
    capacity s' = capacity s"
proof -
  from assms obtain xs where r: "linked s xs" "counted s xs" "entries m = payload s xs"
    "distinct (map fst (entries m))" "limit m = scast (capacity s)" "a_freed m = freed_data s"
    unfolding represents_def by blast
  with assms(2) have "xs \<noteq> []" by auto
  then obtain ys a where xs: "xs = ys @ [a]" by (metis append_butlast_last_id)
  have d: "distinct (ys @ a # [])" and l: "dl (heap s) None (ys @ a # []) None"
    and tl: "ctail s = Some a" and hd: "chead s = Some (hd (ys @ [a]))"
    using r(1) xs by (simp_all add: linked_def)
  obtain h it where u: "unlink_item (Some a) s = Some (s\<lparr>heap := h\<rparr>)" "heap s a = Some it" "h a = Some it"
    "cprev it = (if ys = [] then None else Some (last ys))" "cnext it = None"
    "dl h None ys None" "entry h = entry (heap s)" "dom h = dom (heap s)"
    using unlink_item_ok [OF l d] by auto
  let ?s = "s\<lparr>heap := h(a := None), chead := (if ys = [] then None else chead s), ctail := cprev it,
              total_size := total_size s - isize it, freed_data := cdata it # freed_data s,
              csize := csize s - 1\<rparr>"
  have "(Some a = chead s) = (ys = [])" using hd d by (cases ys) auto
  then have "cache_evict s = Some ?s"
  proof (cases "ys = []")
    case True
    then have "heap s = h"
      using arg_cong [OF u(1), of "\<lambda>r. heap (the r)"] u(2,4,5)
      by (simp add: unlink_item_def get_item_def)
    with True tl hd u show ?thesis
      by (simp add: cache_evict_def get_item_def release_item_def Let_def)
  next
    case False
    obtain z where z: "heap s (last ys) = Some z" using dl_lookup [OF l, of "last ys"] False by auto
    have na: "last ys \<noteq> a" using d False by auto
    have "h = (heap s)(last ys \<mapsto> z\<lparr>cnext := None\<rparr>)"
      using arg_cong [OF u(1), of "\<lambda>r. heap (the r)"] u(2,4,5) False z na
      by (simp add: unlink_item_def get_item_def set_item_def)
    moreover have "hd ys \<noteq> a" using d False by auto
    ultimately show ?thesis using False tl hd u(2,4) z na
      by (simp add: cache_evict_def get_item_def set_item_def release_item_def Let_def)
  qed
  moreover have "represents ?s (m\<lparr>entries := butlast (entries m),
      a_freed := fst (snd (last (entries m))) # a_freed m\<rparr>)"
  proof (rule representsI [of _ ys])
    have dl: "dl (h(a := None)) None ys None"
      by (rule dl_frame [OF u(6)]) (use d in auto)
    then show "linked ?s ys" using d u(4,8) r(1) xs by (auto simp: linked_def)
    have p: "payload ?s ys = payload s ys"
      using d by (auto simp: payload_def u(7) [symmetric] entry_def)
    then show "entries (m\<lparr>entries := butlast (entries m), a_freed := fst (snd (last (entries m))) # a_freed m\<rparr>)
        = payload ?s ys"
      using r(3) xs by simp
    show "counted ?s ys" using r(2) xs u(2) p by (simp add: counted_def entry_some)
    show "distinct (map fst (entries (m\<lparr>entries := butlast (entries m),
        a_freed := fst (snd (last (entries m))) # a_freed m\<rparr>)))"
      using r(3,4) xs by simp
  qed (use r(3,5,6) u(2) xs in \<open>simp_all add: entry_some\<close>)
  ultimately show ?thesis by auto
qed

lemma evict_loop_refines:
  "represents s m \<Longrightarrow> \<exists>s'. evict_loop s = Some s' \<and> represents s' (mru_shrink m) \<and> capacity s' = capacity s"
proof (induction m arbitrary: s rule: mru_shrink.induct)
  case (1 m)
  have over: "over_capacity s \<longleftrightarrow> weight (entries m) > limit m"
    using "1.prems" by (auto simp: represents_def over_capacity_def counted_def)
  show ?case
  proof (cases "entries m \<noteq> [] \<and> weight (entries m) > limit m")
    case True
    obtain s1 where s1: "cache_evict s = Some s1" "capacity s1 = capacity s"
      "represents s1 (m\<lparr>entries := butlast (entries m), a_freed := fst (snd (last (entries m))) # a_freed m\<rparr>)"
      using cache_evict_refines [OF "1.prems"] True by blast
    from "1.IH" [OF True s1(3)] s1(1,2) over True show ?thesis
      by (subst evict_loop.simps, subst mru_shrink.simps) simp
  next
    case False
    then have "\<not> over_capacity s" using over by auto
    with False "1.prems" show ?thesis
      by (subst evict_loop.simps, subst mru_shrink.simps) auto
  qed
qed

lemma cache_set_refines:
  assumes "represents s m" and "op_valid s (Set al k d sz)"
  shows "\<exists>s'. cache_set al k d sz s = Some s' \<and> represents s' (mru_set (al \<noteq> None) k d sz m)"
proof -
  from assms(1) obtain xs where r: "linked s xs" "counted s xs" "entries m = payload s xs"
    "distinct (map fst (entries m))" "limit m = scast (capacity s)" "a_freed m = freed_data s"
    unfolding represents_def by blast
  show ?thesis
  proof (cases "split_key k (payload s xs)")
    case None
    show ?thesis
    proof (cases al)
      case None
      with \<open>split_key k (payload s xs) = None\<close> assms r show ?thesis
        by (simp add: cache_set_def mru_set_def find_item_linked)
    next
      case (Some a)
      have fresh: "heap s a = None" and len: "length k < max_key_len"
        using assms(2) Some by (simp_all add: op_valid_def)
      have na: "a \<notin> set xs" using r(1) fresh by (auto simp: linked_def)
      let ?it = "\<lparr>ckey = k, cdata = d, isize = sz, cprev = None, cnext = chead s\<rparr>"
      let ?s = "s\<lparr>heap := (heap s)(a \<mapsto> ?it)\<rparr>"
      have dl: "dl (heap ?s) None xs None"
        by (rule dl_frame [of "heap s"]) (use r(1) na in \<open>auto simp: linked_def\<close>)
      obtain h where h: "(if chead ?s \<noteq> None then set_item (chead ?s) (\<lambda>i. i\<lparr>cprev := Some a\<rparr>) ?s
          else Some ?s) = Some (?s\<lparr>heap := h\<rparr>)"
        "dl h None (a # xs) None" "entry h = entry (heap ?s)" "dom h = dom (heap ?s)"
        using push_front_ok [OF dl, of a ?it] r(1) na by (auto simp: linked_def)
      let ?s2 = "s\<lparr>heap := h, chead := Some a, ctail := (if ctail s = None then Some a else ctail s),
                  csize := csize s + 1, total_size := total_size s + sz\<rparr>"
      have ev: "cache_set al k d sz s = evict_loop ?s2"
        using None Some len h(1) r(1) by (simp add: cache_set_def find_item_linked)
      have p: "payload ?s2 xs = payload s xs" "entry h a = (k, d, sz)"
        using na h(3) by (auto simp: payload_def)
      have "represents ?s2 (m\<lparr>entries := (k, d, sz) # entries m\<rparr>)"
      proof (rule representsI [of _ "a # xs"])
        show "linked ?s2 (a # xs)" using h(2,4) r(1) na by (auto simp: linked_def)
        show "counted ?s2 (a # xs)" using r(2) p by (simp add: counted_def ac_simps)
        show "distinct (map fst (entries (m\<lparr>entries := (k, d, sz) # entries m\<rparr>)))"
          using r(3,4) None by (simp add: split_key_None)
      qed (use r(3,5,6) p in simp_all)
      from evict_loop_refines [OF this] have
        "\<exists>s'. evict_loop ?s2 = Some s' \<and> represents s' (mru_shrink (m\<lparr>entries := (k, d, sz) # entries m\<rparr>))"
        by blast
      moreover have "mru_set (al \<noteq> None) k d sz m = mru_shrink (m\<lparr>entries := (k, d, sz) # entries m\<rparr>)"
        using None Some r(3) by (simp add: mru_set_def)
      ultimately show ?thesis unfolding ev by simp
    qed
  next
    case (Some x)
    then obtain as e bs where sp: "split_key k (payload s xs) = Some (as, e, bs)" by (cases x) auto
    obtain ys a zs where a: "xs = ys @ a # zs" "xs ! length as = a" "as = payload s ys"
      "e = entry (heap s) a" "bs = payload s zs" by (rule split_key_addrs [OF sp])
    obtain it where it: "heap s a = Some it"
      using r(1) a(1) by (auto simp: linked_def)
    have key: "ckey it = k" using split_key_Some [OF sp] a(4) it by (simp add: entry_some)
    let ?h = "(heap s)(a \<mapsto> it\<lparr>cdata := d, isize := sz\<rparr>)"
    let ?s = "s\<lparr>heap := ?h, total_size := total_size s - isize it + sz\<rparr>"
    have links: "dl ?h p vs n" if "dl (heap s) p vs n" for p vs n
      using that it by (induction vs arbitrary: p) auto
    have "linked ?s (ys @ a # zs)"
      using r(1) a(1) links it by (auto simp: linked_def)
    from move_to_head_ok [OF this] obtain h t where
      mv: "move_to_head (Some a) ?s = Some (?s\<lparr>heap := h, chead := Some a, ctail := t\<rparr>)"
        "linked (?s\<lparr>heap := h, chead := Some a, ctail := t\<rparr>) (a # ys @ zs)" "entry h = entry ?h"
      by auto
    let ?s2 = "?s\<lparr>heap := h, chead := Some a, ctail := t\<rparr>"
    have "cache_set al k d sz s = Some ?s2"
      using sp a(2) mv(1) it r(1)
      by (simp add: cache_set_def find_item_linked get_item_def set_item_def)
    moreover have "represents ?s2 (m\<lparr>entries := (k, d, sz) # as @ bs\<rparr>)"
    proof (rule representsI [of _ "a # ys @ zs"])
      have d: "a \<notin> set ys" "a \<notin> set zs" using r(1) a(1) by (auto simp: linked_def)
      have p: "payload ?s2 ys = payload s ys" "payload ?s2 zs = payload s zs" "entry h a = (k, d, sz)"
        using d mv(3) key by (auto simp: payload_def)
      then show "entries (m\<lparr>entries := (k, d, sz) # as @ bs\<rparr>) = payload ?s2 (a # ys @ zs)"
        by (simp add: a(3,5))
      show "counted ?s2 (a # ys @ zs)"
        using r(2) a(1) p it by (simp add: counted_def entry_some)
      show "distinct (map fst (entries (m\<lparr>entries := (k, d, sz) # as @ bs\<rparr>)))"
        using r(3,4) a key it by (auto simp: entry_some)
    qed (use mv(2) r(5,6) in simp_all)
    ultimately show ?thesis using r(3) sp by (simp add: mru_set_def)
  qed
qed

section \<open>Runs\<close>

text \<open>A store whose operations simulate a specification.\<close>

locale refined_store =
  fixes exec :: "'op \<Rightarrow> 's \<Rightarrow> ('r \<times> 's) option"
    and spec :: "'op \<Rightarrow> 'm \<Rightarrow> 'r \<times> 'm"
    and rel :: "'s \<Rightarrow> 'm \<Rightarrow> bool"
    and valid :: "'s \<Rightarrow> 'op \<Rightarrow> bool"
  assumes sim: "rel s m \<Longrightarrow> valid s op \<Longrightarrow>
    \<exists>s'. exec op s = Some (fst (spec op m), s') \<and> rel s' (snd (spec op m))"
begin

fun run :: "'op list \<Rightarrow> 's \<Rightarrow> ('r list \<times> 's) option" where
  "run [] s = Some ([], s)"
| "run (op # ops) s =
     Option.bind (exec op s) (\<lambda>(r, s'). map_option (\<lambda>(rs, t). (r # rs, t)) (run ops s'))"

fun run_spec :: "'op list \<Rightarrow> 'm \<Rightarrow> 'r list \<times> 'm" where
  "run_spec [] m = ([], m)"
| "run_spec (op # ops) m =
     (case spec op m of (r, m') \<Rightarrow> (case run_spec ops m' of (rs, t) \<Rightarrow> (r # rs, t)))"

text \<open>Every operation of the run is valid in the state it meets.\<close>

fun run_valid :: "'op list \<Rightarrow> 's \<Rightarrow> bool" where
  "run_valid [] s \<longleftrightarrow> True"
| "run_valid (op # ops) s \<longleftrightarrow>
     valid s op \<and> (case exec op s of None \<Rightarrow> True | Some (r, s') \<Rightarrow> run_valid ops s')"

lemma run_sim:
  assumes "rel s m" and "run_valid ops s"
  shows "\<exists>s'. run ops s = Some (fst (run_spec ops m), s') \<and> rel s' (snd (run_spec ops m))"
  using assms
proof (induction ops arbitrary: s m)
  case (Cons op ops)
  obtain s1 where s1: "exec op s = Some (fst (spec op m), s1)" "rel s1 (snd (spec op m))"
    using sim Cons.prems by fastforce
  from Cons.IH [OF s1(2)] s1(1) Cons.prems(2) show ?case by (auto split: prod.splits)
qed simp

end

lemma cache_exec_refines:
  assumes "represents s m" and "op_valid s op"
  shows "\<exists>s'. cache_exec op s = Some (fst (mru_exec op m), s') \<and> represents s' (snd (mru_exec op m))"
proof (cases op)
  case (Get k)
  with cache_get_refines [OF assms(1), of k] show ?thesis by (simp add: cache_exec_def mru_exec_def)
next
  case (Set al k d sz)
  with cache_set_refines [OF assms(1)] assms(2) show ?thesis
    by (fastforce simp: cache_exec_def mru_exec_def)
next
  case (Delete k)
  with cache_delete_refines [OF assms(1), of k] show ?thesis
    by (auto simp: cache_exec_def mru_exec_def)
qed

interpretation read_cache: refined_store cache_exec mru_exec represents op_valid
  by unfold_locales (rule cache_exec_refines)

lemma cache_init_represents:
  "cache_init True cap ms = Some s \<Longrightarrow>
     represents s \<lparr>entries = [], limit = scast (ucast cap :: u32), a_freed = []\<rparr>"
  by (auto simp: cache_init_def represents_def linked_def counted_def intro!: exI [of _ "[]"])

text \<open>\<open>cache_destroy\<close> frees what is cached, and the items.\<close>

lemma destroy_loop_dl:
  assumes "dl h p xs None" and "distinct xs" and "dom h = set xs"
  shows "destroy_loop h (if xs = [] then None else Some (hd xs)) fr
    = Some (Map.empty, rev (map (fst \<circ> snd \<circ> entry h) xs) @ fr)"
  using assms
proof (induction xs arbitrary: h p fr)
  case Nil
  then show ?case by (subst destroy_loop.simps) simp
next
  case (Cons a xs)
  then obtain it where it: "h a = Some it" "cnext it = (if xs = [] then None else Some (hd xs))"
    and l: "dl h (Some a) xs None" and d: "a \<notin> set xs" "distinct xs" by auto
  have l': "dl (h(a := None)) (Some a) xs None" by (rule dl_frame [OF l]) (use d in auto)
  have dm: "dom (h(a := None)) = set xs" using Cons.prems(3) d by auto
  have e: "map (fst \<circ> snd \<circ> entry (h(a := None))) xs = map (fst \<circ> snd \<circ> entry h) xs"
    using d by (auto simp: entry_def)
  have "destroy_loop h (Some a) fr = destroy_loop (h(a := None)) (cnext it) (cdata it # fr)"
    by (subst destroy_loop.simps) (simp add: it(1))
  then show ?case
    using Cons.IH [OF l' d(2) dm, of "cdata it # fr"] it
    unfolding e it(2) by (simp only: list.sel) (simp add: entry_some)
qed

lemma cache_destroy_ok:
  assumes "represents s m"
  shows "cache_destroy s = Some (Map.empty, rev (map (fst \<circ> snd) (entries m)) @ a_freed m)"
proof -
  from assms obtain xs where "linked s xs" "entries m = payload s xs" "a_freed m = freed_data s"
    unfolding represents_def by blast
  with destroy_loop_dl [of "heap s" None xs "freed_data s"] show ?thesis
    by (simp add: cache_destroy_def linked_def payload_def comp_assoc)
qed

section \<open>Accounting of the data\<close>

text \<open>The data a run hands to the cache, and the data of a list of entries.\<close>

fun handed_in :: "'d cache_op list \<Rightarrow> 'd list" where
  "handed_in [] = []"
| "handed_in (Set a k d sz # ops) = d # handed_in ops"
| "handed_in (_ # ops) = handed_in ops"

definition held :: "'d mru \<Rightarrow> 'd multiset" where
  "held m = mset (map (fst \<circ> snd) (entries m)) + mset (a_freed m)"

lemma held_shrink: "held (mru_shrink m) = held m"
proof (induction m rule: mru_shrink.induct)
  case (1 m)
  show ?case
  proof (cases "entries m \<noteq> [] \<and> weight (entries m) > limit m")
    case True
    obtain es e where es: "entries m = es @ [e]" using True by (metis append_butlast_last_id)
    with "1.IH" [OF True] show ?thesis by (simp add: mru_shrink_step [OF True] held_def)
  qed (simp add: mru_shrink_stop)
qed

lemma held_exec: "held (snd (mru_exec op m)) \<subseteq># held m + mset (handed_in [op])"
proof (cases op)
  case (Get k)
  then show ?thesis
    by (auto simp: mru_exec_def mru_get_def held_def dest!: split_key_Some split: option.splits)
next
  case (Set a k d sz)
  show ?thesis
  proof (cases "split_key k (entries m)")
    case None
    have "held (m\<lparr>entries := (k, d, sz) # entries m\<rparr>) = held m + {#d#}" by (simp add: held_def)
    then show ?thesis using None Set by (simp add: mru_exec_def mru_set_def held_shrink)
  next
    case (Some x)
    then obtain xs e ys where sp: "split_key k (entries m) = Some (xs, e, ys)" by (cases x) auto
    with split_key_Some [OF sp] Set show ?thesis
      by (simp add: mru_exec_def mru_set_def held_def)
  qed
next
  case (Delete k)
  then show ?thesis
    by (auto simp: mru_exec_def mru_delete_def held_def dest!: split_key_Some split: option.splits)
qed

lemma handed_in_Cons: "mset (handed_in (op # ops)) = mset (handed_in [op]) + mset (handed_in ops)"
  by (cases op) simp_all

lemma held_run: "held (snd (read_cache.run_spec ops m)) \<subseteq># held m + mset (handed_in ops)"
proof (induction ops arbitrary: m)
  case (Cons op ops)
  obtain r m' where e: "mru_exec op m = (r, m')" by (cases "mru_exec op m")
  have "held (snd (read_cache.run_spec ops m')) \<subseteq># held m' + mset (handed_in ops)" by (rule Cons.IH)
  also have "held m' + mset (handed_in ops) \<subseteq># held m + mset (handed_in (op # ops))"
    using subset_mset.add_right_mono [OF held_exec [of op m], of "mset (handed_in ops)"] e
    by (simp only: handed_in_Cons [of op ops] add.assoc snd_conv)
  finally show ?case using e by (simp add: split_beta)
qed simp

lemma shrink_fits: "\<not> weight (entries (mru_shrink m)) > limit (mru_shrink m)"
proof (induction m rule: mru_shrink.induct)
  case (1 m)
  show ?case
  proof (cases "entries m \<noteq> [] \<and> weight (entries m) > limit m")
    case True
    show ?thesis unfolding mru_shrink_step [OF True] by (rule "1.IH" [OF True])
  qed (auto simp: mru_shrink_stop)
qed

section \<open>Properties\<close>

text \<open>
  C6: the pointer structure implements a most-recently-used list. Starting from
  \<open>cache_init\<close>, every run of \<open>cache_get\<close>, \<open>cache_set\<close> and \<open>cache_delete\<close> whose keys fit and whose
  addresses \<open>malloc\<close> took from free memory returns (no loop runs forever, no NULL or freed item
  is touched), gives the results of the list specification and leaves a heap that represents
  the list, which \<open>cache_destroy\<close> then frees completely.
\<close>

theorem cache_implements_mru:
  assumes "cache_init True cap ms = Some (s0 :: 'd cache)" and "read_cache.run_valid ops s0"
    and "m0 = \<lparr>entries = [], limit = scast (ucast cap :: u32), a_freed = []\<rparr>"
  shows "\<exists>s. read_cache.run ops s0 = Some (fst (read_cache.run_spec ops m0), s) \<and>
    represents s (snd (read_cache.run_spec ops m0)) \<and>
    (\<exists>fr. cache_destroy s = Some (Map.empty, fr))"
  using read_cache.run_sim [OF cache_init_represents [OF assms(1)] assms(2)] assms(3)
    cache_destroy_ok by blast

theorem cache_implements_mru_witness:
  "\<exists>s0 s. cache_init True 100 200 = Some (s0 :: nat cache) \<and>
     read_cache.run [Set (Some 10) ''k'' 7 60, Get ''k'', Set (Some 20) ''l'' 8 60, Get ''k''] s0
       = Some ([None, Some 7, None, None], s)"
proof -
  let ?s0 = "\<lparr>heap = Map.empty, chead = None, ctail = None, capacity = 100, csize = 0,
              total_size = 0, max_size = 200, freed_data = []\<rparr> :: nat cache"
  let ?ops = "[Set (Some 10) ''k'' 7 60, Get ''k'', Set (Some 20) ''l'' 8 60, Get ''k'']"
  have i: "cache_init True 100 200 = Some ?s0" by (simp add: cache_init_def)
  have v: "read_cache.run_valid ?ops ?s0"
    by (simp add: op_valid_def max_key_len_def cache_exec_def cache_set_def cache_get_def
        find_item.simps evict_loop.simps over_capacity_def cache_evict_def get_item_def set_item_def
        move_to_head_def unlink_item_def release_item_def Let_def)
  have "fst (read_cache.run_spec ?ops \<lparr>entries = [], limit = scast (ucast (100 :: u64) :: u32), a_freed = []\<rparr>)
      = [None, Some 7, None, None]"
    by (simp add: mru_exec_def mru_set_def mru_get_def mru_shrink.simps)
  with cache_implements_mru [OF i v refl] i show ?thesis by auto
qed

text \<open>
  Nothing is freed twice. In every run from \<open>cache_init\<close> followed by \<open>cache_destroy\<close> the
  data freed is, with multiplicity, part of the data handed in with \<open>cache_set\<close>.
\<close>

lemma cache_frees_once:
  assumes "cache_init True cap ms = Some s0" and "read_cache.run_valid ops s0"
    and "read_cache.run ops s0 = Some (rs, s)" and "cache_destroy s = Some (h, fr)"
  shows "mset fr \<subseteq># mset (handed_in ops)"
proof -
  obtain s' m where s': "read_cache.run ops s0 = Some (fst (read_cache.run_spec ops m), s')"
    "represents s' (snd (read_cache.run_spec ops m))" "held m = {#}"
    using read_cache.run_sim [OF cache_init_represents [OF assms(1)] assms(2)]
    by (fastforce simp: held_def)
  from s'(1,2) assms(3,4) have "mset fr = held (snd (read_cache.run_spec ops m))"
    by (auto simp: cache_destroy_ok held_def)
  with held_run [of ops m] s'(3) show ?thesis by simp
qed

text \<open>
  The capacity is enforced only when a key is new. Inserting a new key leaves a total of at
  most the capacity, whatever has to be evicted; setting a key that is present replaces its data
  without freeing the old data and without evicting, so the total may exceed the capacity.
\<close>

lemma cache_set_capacity:
  assumes "represents s m" and "op_valid s (Set (Some a) k d sz)"
    and "cache_set (Some a) k d sz s = Some s'"
  shows "if k \<in> fst ` set (entries m)
    then freed_data s' = freed_data s \<and>
      (\<exists>e \<in> set (entries m). fst e = k \<and> total_size s' = total_size s - snd (snd e) + sz)
    else \<not> over_capacity s'"
proof -
  obtain m' where m': "represents s' m'" "m' = mru_set True k d sz m"
    using cache_set_refines [OF assms(1,2)] assms(3) by auto
  have t: "total_size s' = weight (entries m')" "a_freed m' = freed_data s'"
    "over_capacity s' \<longleftrightarrow> weight (entries m') > limit m'"
    using m'(1) by (auto simp: represents_def counted_def over_capacity_def)
  have u: "total_size s = weight (entries m)" "a_freed m = freed_data s"
    using assms(1) by (auto simp: represents_def counted_def)
  show ?thesis
  proof (cases "split_key k (entries m)")
    case None
    then have "m' = mru_shrink (m\<lparr>entries := (k, d, sz) # entries m\<rparr>)"
      using m'(2) by (simp add: mru_set_def)
    moreover have "k \<notin> fst ` set (entries m)" using None split_key_None by metis
    ultimately show ?thesis using t(3) shrink_fits by simp
  next
    case (Some x)
    then obtain xs e ys where sp: "split_key k (entries m) = Some (xs, e, ys)" by (cases x) auto
    from split_key_Some [OF sp] have s: "entries m = xs @ e # ys" "fst e = k" by blast+
    have "m' = m\<lparr>entries := (k, d, sz) # xs @ ys\<rparr>" using m'(2) sp by (simp add: mru_set_def)
    with t u s show ?thesis by (auto simp: ac_simps)
  qed
qed

text \<open>
  The capacity is a \<open>size_t\<close> argument stored in an \<open>int\<close>. For capacities below two
  gigabytes the comparison sees the value given; a capacity of four gigabytes becomes zero, so
  that an insertion of anything evicts it at once.
\<close>

lemma cache_capacity_width:
  assumes "cache_init True cap ms = Some (s :: 'd cache)"
  shows "(cap < 2 ^ 31 \<longrightarrow> (scast (capacity s) :: u64) = cap) \<and>
    (cap = 2 ^ 32 \<longrightarrow> (scast (capacity s) :: u64) = 0)"
proof -
  have c: "capacity s = ucast cap" using assms by (auto simp: cache_init_def)
  have "(scast (ucast cap :: u32) :: u64) = cap" if "cap < 2 ^ 31"
  proof -
    have u: "uint cap < 2 ^ 31" using that by (simp add: word_less_def)
    have "sint (ucast cap :: u32) = signed_take_bit 31 (uint cap)"
      by (simp add: sint_uint unsigned_ucast_eq unsigned_take_bit_eq signed_take_bit_take_bit)
    also have "\<dots> = uint cap" using u
      by (intro signed_take_bit_int_eq_self order_trans [OF _ uint_ge_0]) simp_all
    finally show ?thesis by (simp add: scast_eq)
  qed
  then show ?thesis by (simp add: c)
qed

end
