(* ===== verification/Mem_Buffer.thy ===== *)
theory Mem_Buffer
  imports Prelude "HOL-Library.Monad_Syntax"
begin

text \<open>
  Memory and buffers: the counting allocator of \<open>src/vol-rest/src/util/rest_vol_mem.c\<close>
  (\<open>RV_TRACK_MEM_USAGE\<close>), the growing buffers of \<open>rest_vol_mem.h\<close> (\<open>CHECKED_REALLOC\<close>) and the
  three cURL callbacks of \<open>rest_vol.c\<close> that move bytes between cURL and the connector.

  A byte of memory that was never written is \<open>None\<close>.  A result \<open>None\<close> of an operation is
  undefined behaviour (a write outside a block, a block that is not live, NULL) or a loop that
  does not end.
\<close>

section \<open>The counting allocator\<close>

type_synonym address = nat

text \<open>
  \<open>blocks\<close> maps the address the caller holds to the bytes after the header, so the
  \<open>block_size\<close> stored before them is their number.
\<close>

record mem =
  blocks :: "address \<rightharpoonup> char option list"
  curr_alloc_bytes :: u64     \<comment> \<open>\<open>H5_rest_curr_alloc_bytes\<close>\<close>

definition sizeof_size_t :: u64 where
  "sizeof_size_t = 8"

text \<open>
  \<open>m\<close> is the address behind the header of what \<open>malloc\<close> returns.  When the size plus the header
  wraps around, the header does not fit the block.
\<close>

definition RV_malloc_debug :: "address option \<Rightarrow> u64 \<Rightarrow> mem \<Rightarrow> (address option \<times> mem) option" where
  "RV_malloc_debug m sz s =
     (if sz \<noteq> 0
      then
        (case m of
           None \<Rightarrow> Some (None, s)
         | Some a \<Rightarrow>
             if sz + sizeof_size_t < sz then None
             else Some (Some a, s\<lparr>blocks := (blocks s)(a \<mapsto> replicate (unat sz) None),
                                 curr_alloc_bytes := curr_alloc_bytes s + sz\<rparr>))
      else Some (None, s))"

definition RV_calloc_debug :: "address option \<Rightarrow> u64 \<Rightarrow> mem \<Rightarrow> (address option \<times> mem) option" where
  "RV_calloc_debug m sz s =
     (if sz \<noteq> 0
      then do {
        (p, s) \<leftarrow> RV_malloc_debug m sz s;
        Some (p, (case p of
                    None \<Rightarrow> s
                  | Some a \<Rightarrow> s\<lparr>blocks := (blocks s)(a \<mapsto> replicate (unat sz) (Some (CHR 0x00)))\<rparr>))
      }
      else Some (None, s))"

text \<open>The result is the new value of the caller's pointer, always NULL.\<close>

definition RV_free_debug :: "address option \<Rightarrow> mem \<Rightarrow> (address option \<times> mem) option" where
  "RV_free_debug p s =
     (case p of
        None \<Rightarrow> Some (None, s)
      | Some a \<Rightarrow>
          (case blocks s a of
             None \<Rightarrow> None
           | Some bs \<Rightarrow>
               Some (None, s\<lparr>curr_alloc_bytes := curr_alloc_bytes s - of_nat (length bs),
                             blocks := (blocks s)(a := None)\<rparr>)))"

definition RV_realloc_debug ::
  "address option \<Rightarrow> address option \<Rightarrow> u64 \<Rightarrow> mem \<Rightarrow> (address option \<times> mem) option" where
  "RV_realloc_debug m mem sz s =
     (if mem = None \<and> sz = 0 then Some (None, s)
      else if sz > 0
      then
        (case mem of
           Some a \<Rightarrow> do {
             bs \<leftarrow> blocks s a;
             (p, s) \<leftarrow> RV_malloc_debug m sz s;
             new \<leftarrow> p;
             s \<leftarrow> Some (s\<lparr>blocks := (blocks s)(new \<mapsto>
                     take (unat sz) bs @ drop (length bs) (the (blocks s new)))\<rparr>);
             (_, s) \<leftarrow> RV_free_debug mem s;
             Some (p, s)
           }
         | None \<Rightarrow> RV_malloc_debug m sz s)
      else RV_free_debug mem s)"

text \<open>The caller's requests, with the address \<open>malloc\<close> answers.\<close>

datatype mem_op =
    Malloc "address option" u64
  | Calloc "address option" u64
  | Realloc "address option" "address option" u64
  | Free "address option"

definition mem_exec :: "mem_op \<Rightarrow> mem \<Rightarrow> (address option \<times> mem) option" where
  "mem_exec op s =
     (case op of
        Malloc m n \<Rightarrow> RV_malloc_debug m n s
      | Calloc m n \<Rightarrow> RV_calloc_debug m n s
      | Realloc m p n \<Rightarrow> RV_realloc_debug m p n s
      | Free p \<Rightarrow> RV_free_debug p s)"

text \<open>\<open>malloc\<close> answers an address that is not in use.\<close>

definition fresh_op :: "mem_op \<Rightarrow> mem \<Rightarrow> bool" where
  "fresh_op op s =
     (case op of
        Malloc (Some a) n \<Rightarrow> blocks s a = None
      | Calloc (Some a) n \<Rightarrow> blocks s a = None
      | Realloc (Some a) p n \<Rightarrow> blocks s a = None
      | _ \<Rightarrow> True)"

fun mem_run :: "mem_op list \<Rightarrow> mem \<Rightarrow> mem option" where
  "mem_run [] s = Some s"
| "mem_run (op # ops) s =
     (if \<not> fresh_op op s then None
      else Option.bind (mem_exec op s) (\<lambda>(p, s'). mem_run ops s'))"

definition mem_init :: mem where
  "mem_init = \<lparr>blocks = Map.empty, curr_alloc_bytes = 0\<rparr>"

text \<open>The bytes of the live blocks.\<close>

definition live_bytes :: "(address \<rightharpoonup> char option list) \<Rightarrow> nat" where
  "live_bytes b = (\<Sum>a \<in> dom b. length (the (b a)))"

definition mem_inv :: "mem \<Rightarrow> bool" where
  "mem_inv s \<longleftrightarrow> finite (dom (blocks s)) \<and> curr_alloc_bytes s = of_nat (live_bytes (blocks s))"

lemma live_bytes_insert:
  assumes "finite (dom b)" and "b a = None"
  shows "live_bytes (b(a \<mapsto> bs)) = live_bytes b + length bs"
proof -
  have "a \<notin> dom b" using assms(2) by auto
  moreover have "(\<Sum>x \<in> dom b. length (the ((b(a \<mapsto> bs)) x))) = (\<Sum>x \<in> dom b. length (the (b x)))"
    using \<open>a \<notin> dom b\<close> by (intro sum.cong) auto
  ultimately show ?thesis using assms(1) by (simp add: live_bytes_def)
qed

lemma live_bytes_delete:
  assumes "finite (dom b)" and "b a = Some bs"
  shows "live_bytes b = live_bytes (b(a := None)) + length bs"
proof -
  have "b = (b(a := None))(a \<mapsto> bs)" using assms(2) by (simp add: fun_upd_idem)
  then show ?thesis using live_bytes_insert [of "b(a := None)" a bs] assms(1) by (metis dom_fun_upd finite_Diff fun_upd_same)
qed

lemma live_bytes_replace:
  assumes "finite (dom b)" and "b a = Some bs" and "length bs' = length bs"
  shows "live_bytes (b(a \<mapsto> bs')) = live_bytes b"
proof -
  have "live_bytes ((b(a := None))(a \<mapsto> bs')) = live_bytes (b(a := None)) + length bs'"
    by (rule live_bytes_insert) (use assms in simp_all)
  then show ?thesis using live_bytes_delete [OF assms(1,2)] assms(3) by simp
qed

lemma malloc_inv:
  assumes "mem_inv s" and "RV_malloc_debug m sz s = Some (p, s')"
    and "\<And>a. m = Some a \<Longrightarrow> blocks s a = None"
  shows "mem_inv s' \<and> (p = None \<longrightarrow> s' = s) \<and>
    (\<forall>a. p = Some a \<longrightarrow> m = Some a \<and> blocks s' = (blocks s)(a \<mapsto> replicate (unat sz) None) \<and> sz \<noteq> 0)"
  using assms live_bytes_insert [of "blocks s" "the m" "replicate (unat sz) None"]
  by (auto simp: RV_malloc_debug_def mem_inv_def split: if_splits option.splits)

lemma free_inv:
  assumes "mem_inv s" and "RV_free_debug p s = Some (q, s')"
  shows "mem_inv s' \<and> q = None \<and> blocks s' = (case p of None \<Rightarrow> blocks s | Some a \<Rightarrow> (blocks s)(a := None))"
proof (cases p)
  case None
  with assms show ?thesis by (simp add: RV_free_debug_def)
next
  case (Some a)
  with assms obtain bs where "blocks s a = Some bs" by (auto simp: RV_free_debug_def split: option.splits)
  with Some assms live_bytes_delete [of "blocks s" a bs] show ?thesis
    by (auto simp: RV_free_debug_def mem_inv_def)
qed

lemma mem_inv_replace:
  assumes "mem_inv s" and "blocks s a = Some bs" and "length bs' = length bs"
  shows "mem_inv (s\<lparr>blocks := (blocks s)(a \<mapsto> bs')\<rparr>)"
  using assms live_bytes_replace [where b = "blocks s" and a = a and bs = bs and bs' = bs']
  by (simp add: mem_inv_def)

lemma mem_exec_inv:
  assumes "mem_inv s" and "fresh_op op s" and "mem_exec op s = Some (p, s')"
  shows "mem_inv s'"
proof (cases op)
  case (Malloc m n)
  with malloc_inv [OF assms(1), of m n p s'] assms show ?thesis
    by (cases m) (auto simp: mem_exec_def fresh_op_def)
next
  case (Free q)
  with free_inv [OF assms(1), of q p s'] assms show ?thesis by (simp add: mem_exec_def)
next
  case (Calloc m n)
  then obtain q s1 where s1: "RV_malloc_debug m n s = Some (q, s1)" if "n \<noteq> 0"
    using assms(3) by (auto simp: mem_exec_def RV_calloc_debug_def split: if_splits bind_splits)
  have f: "\<And>a. m = Some a \<Longrightarrow> blocks s a = None" using assms(2) Calloc by (simp add: fresh_op_def)
  show ?thesis
  proof (cases "n = 0")
    case True
    with assms Calloc show ?thesis by (simp add: mem_exec_def RV_calloc_debug_def)
  next
    case False
    note M = malloc_inv [OF assms(1) s1 [OF False] f]
    show ?thesis
    proof (cases q)
      case None
      with assms Calloc s1 [OF False] False M show ?thesis
        by (auto simp: mem_exec_def RV_calloc_debug_def)
    next
      case (Some a)
      with M have b: "blocks s1 a = Some (replicate (unat n) None)" and i: "mem_inv s1" by auto
      have "s' = s1\<lparr>blocks := (blocks s1)(a \<mapsto> replicate (unat n) (Some (CHR 0x00)))\<rparr>"
        using assms(3) Calloc s1 [OF False] False Some by (simp add: mem_exec_def RV_calloc_debug_def)
      then show ?thesis
        using mem_inv_replace [OF i b, of "replicate (unat n) (Some (CHR 0x00))"] by simp
    qed
  qed
next
  case (Realloc m q n)
  have f: "\<And>a. m = Some a \<Longrightarrow> blocks s a = None" using assms(2) Realloc by (simp add: fresh_op_def)
  consider (none) "q = None" "n \<noteq> 0" | (free) "\<not> n > 0" | (move) a where "q = Some a" "n > 0"
    by (cases q) (auto simp: word_neq_0_conv)
  then show ?thesis
  proof cases
    case none
    with assms Realloc malloc_inv [OF assms(1) _ f] show ?thesis
      by (auto simp: mem_exec_def RV_realloc_debug_def word_neq_0_conv)
  next
    case free
    with assms Realloc free_inv [OF assms(1)] show ?thesis
      by (auto simp: mem_exec_def RV_realloc_debug_def split: if_splits)
  next
    case (move a)
    then obtain bs np s1 new where
      s1: "blocks s a = Some bs" "RV_malloc_debug m n s = Some (np, s1)" "np = Some new"
      using assms(3) Realloc
      by (auto simp: mem_exec_def RV_realloc_debug_def split: bind_splits if_splits)
    have M: "mem_inv s1" "blocks s1 = (blocks s)(new \<mapsto> replicate (unat n) None)"
      using malloc_inv [OF assms(1) s1(2) f] s1(3) by auto
    let ?bs = "take (unat n) bs @ drop (length bs) (replicate (unat n) None)"
    let ?s2 = "s1\<lparr>blocks := (blocks s1)(new \<mapsto> ?bs)\<rparr>"
    have "mem_inv ?s2"
      by (rule mem_inv_replace [OF M(1), of new "replicate (unat n) None"]) (simp_all add: M(2))
    moreover obtain r where "RV_free_debug q ?s2 = Some (r, s')"
      using assms(3) Realloc move s1 M(2)
      by (auto simp: mem_exec_def RV_realloc_debug_def split: bind_splits if_splits)
    ultimately show ?thesis using free_inv by blast
  qed
qed

lemma mem_run_inv: "mem_inv s \<Longrightarrow> mem_run ops s = Some s' \<Longrightarrow> mem_inv s'"
proof (induction ops arbitrary: s)
  case (Cons op ops)
  from Cons.prems(2) have f: "fresh_op op s" by (simp split: if_splits)
  with Cons.prems(2) obtain p s1 where e: "mem_exec op s = Some (p, s1)" "mem_run ops s1 = Some s'"
    by (cases "mem_exec op s") auto
  show ?case by (rule Cons.IH [OF mem_exec_inv [OF Cons.prems(1) f e(1)] e(2)])
qed simp

section \<open>Growing buffers\<close>

text \<open>
  The loop of \<open>CHECKED_REALLOC\<close> on the length of the buffer: double until the target fits.
  \<open>ok n\<close> says whether \<open>realloc\<close> to \<open>n\<close> bytes succeeds; the inner result \<open>None\<close> is the error
  exit, the outer one a loop that does not end.
\<close>

partial_function (option) checked_realloc :: "(u64 \<Rightarrow> bool) \<Rightarrow> u64 \<Rightarrow> u64 \<Rightarrow> u64 option option" where
  "checked_realloc ok len target =
     (if target > len
      then if ok (2 * len) then checked_realloc ok (2 * len) target else Some None
      else Some (Some len))"

lemma checked_realloc_stop: "\<not> target > len \<Longrightarrow> checked_realloc ok len target = Some (Some len)"
  by (subst checked_realloc.simps) simp

lemma double_u64:
  assumes "len < target" and "unat target \<le> 2 ^ 63"
  shows "unat (2 * len :: u64) = 2 * unat len"
  using assms by (simp add: unat_word_ariths word_less_nat_alt)

text \<open>A positive length is doubled until the target fits, and not once more.\<close>

lemma checked_realloc_grows:
  assumes "0 < unat len" and "unat target \<le> 2 ^ 63" and "\<And>n. ok n"
  shows "\<exists>k len'. checked_realloc ok len target = Some (Some len') \<and> unat len' = unat len * 2 ^ k \<and>
    unat target \<le> unat len' \<and> (k = 0 \<or> unat len' < 2 * unat target)"
  using assms(1)
proof (induction "2 ^ 63 - unat len" arbitrary: len rule: less_induct)
  case less
  show ?case
  proof (cases "target > len")
    case False
    then show ?thesis
      by (intro exI [of _ 0] exI [of _ len]) (simp add: checked_realloc_stop word_le_nat_alt not_less)
  next
    case True
    note d = double_u64 [OF True assms(2)]
    have lt: "unat len < unat target" using True by (simp add: word_less_nat_alt)
    obtain k len' where k: "checked_realloc ok (2 * len) target = Some (Some len')"
      "unat len' = unat (2 * len) * 2 ^ k" "unat target \<le> unat len'" "k = 0 \<or> unat len' < 2 * unat target"
      using less.hyps [of "2 * len"] less.prems d lt assms(2) by fastforce
    have "checked_realloc ok len target = Some (Some len')"
      using k(1) True assms(3) by (subst checked_realloc.simps) simp
    then show ?thesis using k d lt
      by (intro exI [of _ "Suc k"] exI [of _ len']) auto
  qed
qed

text \<open>From length zero the loop never ends: doubling zero gives zero.\<close>

lemma checked_realloc_zero:
  assumes "ok 0" and "0 < target"
  shows "checked_realloc ok 0 target = None"
proof (rule ccontr)
  assume "checked_realloc ok 0 target \<noteq> None"
  then obtain r where "checked_realloc ok 0 target = Some r" by blast
  then have "ok 0 \<longrightarrow> (0 :: u64) = 0 \<longrightarrow> 0 < target \<longrightarrow> False"
    by (rule checked_realloc.raw_induct
        [where P = "\<lambda>ok len target r. ok 0 \<longrightarrow> len = 0 \<longrightarrow> 0 < target \<longrightarrow> False", rotated])
      (auto split: if_splits)
  with assms show False by simp
qed

section \<open>Printing into a growing buffer\<close>

text \<open>The characters written and the allocated size.\<close>

type_synonym out_buf = "char list \<times> u64"

text \<open>
  \<open>CHECKED_REALLOC (buffer, len, out_index + k, ...)\<close> followed by the writes of \<open>cs\<close>; \<open>e\<close> is the
  error of a failed \<open>realloc\<close>.
\<close>

definition checked_put :: "'e \<Rightarrow> (u64 \<Rightarrow> bool) \<Rightarrow> nat \<Rightarrow> char list \<Rightarrow> out_buf \<Rightarrow> ('e + out_buf) option" where
  "checked_put e ok k cs b =
     (case checked_realloc ok (snd b) (of_nat (length (fst b) + k)) of
        None \<Rightarrow> None
      | Some None \<Rightarrow> Some (Inl e)
      | Some (Some n) \<Rightarrow>
          if length (fst b) + length cs \<le> unat n then Some (Inr (fst b @ cs, n)) else None)"

text \<open>Sequencing: stop at undefined behaviour and at an error.\<close>

definition andthen :: "('e + 'a) option \<Rightarrow> ('a \<Rightarrow> ('e + 'b) option) \<Rightarrow> ('e + 'b) option" where
  "andthen r f = (case r of None \<Rightarrow> None | Some (Inl e) \<Rightarrow> Some (Inl e) | Some (Inr b) \<Rightarrow> f b)"

lemma andthen_simps [simp]:
  "andthen None f = None" "andthen (Some (Inl e)) f = Some (Inl e)" "andthen (Some (Inr b)) f = f b"
  by (simp_all add: andthen_def)

lemma andthen_cong [fundef_cong]:
  "r = r' \<Longrightarrow> (\<And>b. r' = Some (Inr b) \<Longrightarrow> f b = g b) \<Longrightarrow> andthen r f = andthen r' g"
  by (auto simp: andthen_def split: option.splits sum.splits)

lemma checked_put_ok:
  assumes "0 < unat n" and "length cs \<le> k" and "length b + k \<le> 2 ^ 62" and "\<And>m. ok m"
  shows "\<exists>n'. checked_put e ok k cs (b, n) = Some (Inr (b @ cs, n')) \<and> 0 < unat n'"
proof -
  have t: "unat (of_nat (length b + k) :: u64) = length b + k"
    by (rule unat_of_nat_u64) (use assms(3) in simp)
  have "unat (of_nat (length b + k) :: u64) \<le> 2 ^ 63" unfolding t using assms(3) by simp
  from checked_realloc_grows [of n _ ok, OF assms(1) this assms(4)] obtain j n' where
    c: "checked_realloc ok n (of_nat (length b + k)) = Some (Some n')"
    and n': "unat n' = unat n * 2 ^ j" "unat (of_nat (length b + k) :: u64) \<le> unat n'" by blast
  have "length b + length cs \<le> unat n'" "0 < unat n'" using assms(1,2) n' unfolding t by simp_all
  with c show ?thesis unfolding checked_put_def fst_conv snd_conv c by simp
qed

lemma checked_put_fits:
  assumes "length cs \<le> k" and "length b + k \<le> unat n"
  shows "checked_put e ok k cs (b, n) = Some (Inr (b @ cs, n))"
proof -
  have "unat (of_nat (length b + k) :: u64) = length b + k"
    by (rule unat_of_nat_u64) (use assms(2) unat_u64_bound [of n] in simp)
  then have "\<not> of_nat (length b + k) > n" using assms(2) unfolding word_less_nat_alt by simp
  from checked_realloc_stop [OF this] show ?thesis using assms by (simp add: checked_put_def)
qed

section \<open>Response buffers\<close>

text \<open>\<open>curr\<close> is \<open>curr_buf_ptr - buffer\<close>.\<close>

record response_buffer =
  buffer :: "char option list"
  curr :: nat
  buffer_size :: u64

text \<open>\<open>memcpy\<close> of \<open>bs\<close> to offset \<open>i\<close>.\<close>

definition write_bytes :: "nat \<Rightarrow> char list \<Rightarrow> char option list \<Rightarrow> char option list option" where
  "write_bytes i bs b =
     (if i + length bs \<le> length b then Some (take i b @ map Some bs @ drop (i + length bs) b) else None)"

text \<open>A block of \<open>n\<close> bytes after \<open>realloc\<close>.\<close>

definition resize :: "nat \<Rightarrow> char option list \<Rightarrow> char option list" where
  "resize n b = take n b @ replicate (n - length b) None"

text \<open>
  The growing loop of \<open>H5_rest_curl_write_data_callback\<close>; like \<open>CHECKED_REALLOC\<close>, but a failed
  \<open>realloc\<close> keeps the buffer.  The first component is success.
\<close>

partial_function (option) grow ::
  "(u64 \<Rightarrow> bool) \<Rightarrow> u64 \<Rightarrow> response_buffer \<Rightarrow> (bool \<times> response_buffer) option" where
  "grow ok target rb =
     (if target > buffer_size rb
      then if ok (2 * buffer_size rb)
           then grow ok target (rb\<lparr>buffer := resize (unat (2 * buffer_size rb)) (buffer rb),
                                  buffer_size := 2 * buffer_size rb\<rparr>)
           else Some (False, rb)
      else Some (True, rb))"

text \<open>
  The global callback.  cURL passes \<open>size * nmemb\<close> bytes, here \<open>data\<close>; the result is the
  number of bytes taken.  The pointer difference is not negative, as \<open>curr\<close> is an offset.
\<close>

definition H5_rest_curl_write_data_callback ::
  "(u64 \<Rightarrow> bool) \<Rightarrow> char list \<Rightarrow> response_buffer \<Rightarrow> (nat \<times> response_buffer) option" where
  "H5_rest_curl_write_data_callback ok data rb = do {
     let data_size = length data;
     let buf_ptrdiff = curr rb + data_size;
     (grown, rb) \<leftarrow> grow ok (of_nat (buf_ptrdiff + 1)) rb;
     (if \<not> grown then Some (0, rb)
      else do {
        b \<leftarrow> write_bytes (curr rb) data (buffer rb);
        rb \<leftarrow> Some (rb\<lparr>buffer := b, curr := curr rb + data_size\<rparr>);
        b \<leftarrow> write_bytes (curr rb) [CHR 0x00] (buffer rb);
        Some (data_size, rb\<lparr>buffer := b\<rparr>)
      })
   }"

text \<open>The callback of the dataset transfers: the growing loop is commented out.\<close>

definition H5_rest_curl_write_data_callback_no_global ::
  "char list \<Rightarrow> response_buffer \<Rightarrow> (nat \<times> response_buffer) option" where
  "H5_rest_curl_write_data_callback_no_global data rb = do {
     let data_size = length data;
     b \<leftarrow> write_bytes (curr rb) data (buffer rb);
     rb \<leftarrow> Some (rb\<lparr>buffer := b, curr := curr rb + data_size\<rparr>);
     b \<leftarrow> write_bytes (curr rb) [CHR 0x00] (buffer rb);
     Some (data_size, rb\<lparr>buffer := b\<rparr>)
   }"

text \<open>What has been received.\<close>

definition received :: "response_buffer \<Rightarrow> char list" where
  "received rb = map the (take (curr rb) (buffer rb))"

definition rb_inv :: "response_buffer \<Rightarrow> bool" where
  "rb_inv rb \<longleftrightarrow> length (buffer rb) = unat (buffer_size rb) \<and> curr rb \<le> length (buffer rb) \<and>
     0 < buffer_size rb \<and> None \<notin> set (take (curr rb) (buffer rb))"

text \<open>A receiver of bytes with a bound on what it can hold.\<close>

locale receiver =
  fixes recv :: "char list \<Rightarrow> 's \<Rightarrow> (nat \<times> 's) option"
    and text_of :: "'s \<Rightarrow> char list"
    and cap :: "'s \<Rightarrow> nat"
    and ok :: "'s \<Rightarrow> bool"
  assumes recv_ok: "ok s \<Longrightarrow> length (text_of s) + length d < cap s \<Longrightarrow>
    \<exists>s'. recv d s = Some (length d, s') \<and> text_of s' = text_of s @ d \<and> ok s' \<and> cap s' = cap s"
begin

text \<open>cURL delivers a response in chunks and stops when a chunk is not taken completely.\<close>

fun deliver :: "char list list \<Rightarrow> 's \<Rightarrow> (bool \<times> 's) option" where
  "deliver [] s = Some (True, s)"
| "deliver (d # ds) s =
     (case recv d s of
        None \<Rightarrow> None
      | Some (n, s') \<Rightarrow> if n = length d then deliver ds s' else Some (False, s'))"

lemma deliver_all:
  assumes "ok s" and "length (text_of s) + length (concat ds) < cap s"
  shows "\<exists>s'. deliver ds s = Some (True, s') \<and> text_of s' = text_of s @ concat ds \<and> ok s'"
  using assms
proof (induction ds arbitrary: s)
  case (Cons d ds)
  then obtain s1 where s1: "recv d s = Some (length d, s1)" "text_of s1 = text_of s @ d" "ok s1"
    "cap s1 = cap s"
    using recv_ok [of s d] by auto
  obtain s' where "deliver ds s1 = Some (True, s')" "text_of s' = text_of s1 @ concat ds" "ok s'"
    using Cons.IH [OF s1(3)] Cons.prems(2) s1(2,4) by auto
  with s1 show ?case by simp
qed simp

end

lemma length_resize [simp]: "length (resize n b) = n"
  by (simp add: resize_def)

lemma take_resize: "i \<le> length b \<Longrightarrow> length b \<le> n \<Longrightarrow> take i (resize n b) = take i b"
  by (simp add: resize_def)

lemma append_received:
  assumes "curr rb + length d < length (buffer rb)" and "None \<notin> set (take (curr rb) (buffer rb))"
  shows "\<exists>b. H5_rest_curl_write_data_callback_no_global d rb
      = Some (length d, rb\<lparr>curr := curr rb + length d, buffer := b\<rparr>) \<and>
    length b = length (buffer rb) \<and> take (curr rb + length d) b = take (curr rb) (buffer rb) @ map Some d \<and>
    b ! (curr rb + length d) = Some (CHR 0x00)"
  using assms
  by (auto simp: H5_rest_curl_write_data_callback_no_global_def write_bytes_def nth_append Let_def
      min_def)

lemma no_global_overflow:
  assumes "length (buffer rb) \<le> curr rb + length d"
  shows "H5_rest_curl_write_data_callback_no_global d rb = None"
  using assms by (auto simp: H5_rest_curl_write_data_callback_no_global_def write_bytes_def Let_def)

lemma grow_ok:
  assumes "rb_inv rb" and "unat target \<le> 2 ^ 63" and "\<And>n. ok n"
  shows "\<exists>rb'. grow ok target rb = Some (True, rb') \<and> rb_inv rb' \<and> curr rb' = curr rb \<and>
    take (curr rb) (buffer rb') = take (curr rb) (buffer rb) \<and> target \<le> buffer_size rb'"
  using assms(1)
proof (induction "2 ^ 63 - unat (buffer_size rb)" arbitrary: rb rule: less_induct)
  case less
  show ?case
  proof (cases "target > buffer_size rb")
    case False
    then show ?thesis using less.prems by (intro exI [of _ rb]) (subst grow.simps, simp)
  next
    case True
    let ?rb = "rb\<lparr>buffer := resize (unat (2 * buffer_size rb)) (buffer rb), buffer_size := 2 * buffer_size rb\<rparr>"
    note d = double_u64 [OF True assms(2)]
    have lt: "unat (buffer_size rb) < unat target" "0 < unat (buffer_size rb)"
      using True less.prems by (simp_all add: word_less_nat_alt rb_inv_def)
    have t: "take (curr rb) (buffer ?rb) = take (curr rb) (buffer rb)"
      using less.prems d by (simp add: rb_inv_def take_resize)
    have "rb_inv ?rb"
      using less.prems d lt t by (auto simp: rb_inv_def word_less_nat_alt)
    moreover have "2 ^ 63 - unat (buffer_size ?rb) < 2 ^ 63 - unat (buffer_size rb)"
      using d lt assms(2) by simp
    ultimately obtain rb' where
      "grow ok target ?rb = Some (True, rb')" "rb_inv rb'" "curr rb' = curr rb"
      "take (curr rb) (buffer rb') = take (curr rb) (buffer ?rb)" "target \<le> buffer_size rb'"
      using less.hyps [of ?rb] by auto
    with True assms(3) t show ?thesis by (subst grow.simps) simp
  qed
qed

lemma global_recv:
  assumes "rb_inv rb" and "length (received rb) + length d < 2 ^ 63" and "\<And>n. ok n"
  shows "\<exists>rb'. H5_rest_curl_write_data_callback ok d rb = Some (length d, rb') \<and>
    received rb' = received rb @ d \<and> rb_inv rb' \<and> curr rb' < length (buffer rb') \<and>
    buffer rb' ! curr rb' = Some (CHR 0x00)"
proof -
  let ?target = "of_nat (curr rb + length d + 1) :: u64"
  have l: "length (received rb) = curr rb" using assms(1) by (simp add: received_def rb_inv_def)
  have t: "unat ?target = curr rb + length d + 1"
    by (rule unat_of_nat_u64) (use assms(2) l in simp)
  obtain rb1 where g: "grow ok ?target rb = Some (True, rb1)" "rb_inv rb1" "curr rb1 = curr rb"
    "take (curr rb) (buffer rb1) = take (curr rb) (buffer rb)" "?target \<le> buffer_size rb1"
    using grow_ok [of rb ?target ok] assms t l by auto
  have "curr rb1 + length d < length (buffer rb1)"
    using g(2,3,5) t by (simp add: rb_inv_def word_le_nat_alt)
  then obtain b where b: "H5_rest_curl_write_data_callback_no_global d rb1
      = Some (length d, rb1\<lparr>curr := curr rb1 + length d, buffer := b\<rparr>)"
    "length b = length (buffer rb1)" "b ! (curr rb1 + length d) = Some (CHR 0x00)"
    "take (curr rb1 + length d) b = take (curr rb1) (buffer rb1) @ map Some d"
    using append_received [of rb1 d] g(2) by (auto simp: rb_inv_def)
  let ?rb = "rb1\<lparr>curr := curr rb1 + length d, buffer := b\<rparr>"
  have "H5_rest_curl_write_data_callback ok d rb = Some (length d, ?rb)"
    using g(1,3) b(1)
    by (simp add: H5_rest_curl_write_data_callback_def H5_rest_curl_write_data_callback_no_global_def Let_def)
  moreover have "received ?rb = received rb @ d"
    using b(4) g(3,4) by (simp add: received_def comp_def)
  moreover have "rb_inv ?rb"
    using g(2) b(2,4) \<open>curr rb1 + length d < length (buffer rb1)\<close> by (auto simp: rb_inv_def)
  ultimately show ?thesis using b(2,3) \<open>curr rb1 + length d < length (buffer rb1)\<close> by auto
qed

lemma no_global_recv:
  assumes "rb_inv rb" and "length (received rb) + length d < unat (buffer_size rb)"
  shows "\<exists>rb'. H5_rest_curl_write_data_callback_no_global d rb = Some (length d, rb') \<and>
    received rb' = received rb @ d \<and> rb_inv rb' \<and> buffer_size rb' = buffer_size rb"
proof -
  have "length (received rb) = curr rb" using assms(1) by (simp add: received_def rb_inv_def)
  then have lt: "curr rb + length d < length (buffer rb)" using assms by (simp add: rb_inv_def)
  from append_received [OF lt] assms(1) obtain b where b: "H5_rest_curl_write_data_callback_no_global d rb
      = Some (length d, rb\<lparr>curr := curr rb + length d, buffer := b\<rparr>)" "length b = length (buffer rb)"
    "take (curr rb + length d) b = take (curr rb) (buffer rb) @ map Some d"
    by (auto simp: rb_inv_def)
  then show ?thesis using assms(1) lt by (auto simp: rb_inv_def received_def comp_def)
qed

interpretation global_buffer:
  receiver "H5_rest_curl_write_data_callback (\<lambda>_. True)" received "\<lambda>_. 2 ^ 63" rb_inv
proof unfold_locales
  fix rb and d :: "char list" assume "rb_inv rb" and "length (received rb) + length d < 2 ^ 63"
  from global_recv [OF this, of "\<lambda>_. True"]
  show "\<exists>rb'. H5_rest_curl_write_data_callback (\<lambda>_. True) d rb = Some (length d, rb') \<and>
      received rb' = received rb @ d \<and> rb_inv rb' \<and> (2 :: nat) ^ 63 = 2 ^ 63"
    by auto
qed

interpretation transfer_buffer:
  receiver H5_rest_curl_write_data_callback_no_global received "\<lambda>rb. unat (buffer_size rb)" rb_inv
proof unfold_locales
  fix rb and d :: "char list" assume "rb_inv rb" and "length (received rb) + length d < unat (buffer_size rb)"
  from no_global_recv [OF this]
  show "\<exists>rb'. H5_rest_curl_write_data_callback_no_global d rb = Some (length d, rb') \<and>
      received rb' = received rb @ d \<and> rb_inv rb' \<and> unat (buffer_size rb') = unat (buffer_size rb)"
    by auto
qed

lemma deliver_append:
  "global_buffer.deliver (xs @ ys) s = (case global_buffer.deliver xs s of
     None \<Rightarrow> None | Some (b, s') \<Rightarrow> if b then global_buffer.deliver ys s' else Some (False, s'))"
  by (induction xs arbitrary: s) (auto split: option.splits)

text \<open>After at least one chunk the byte behind the response is the NUL.\<close>

lemma global_deliver:
  assumes "rb_inv rb" and "length (received rb) + length (concat ds @ d) < 2 ^ 63"
  shows "\<exists>rb'. global_buffer.deliver (ds @ [d]) rb = Some (True, rb') \<and>
    received rb' = received rb @ concat ds @ d \<and> rb_inv rb' \<and> curr rb' < length (buffer rb') \<and>
    buffer rb' ! curr rb' = Some (CHR 0x00)"
proof -
  obtain rb1 where rb1: "global_buffer.deliver ds rb = Some (True, rb1)"
    "received rb1 = received rb @ concat ds" "rb_inv rb1"
    using global_buffer.deliver_all [OF assms(1), of ds] assms(2) by auto
  from global_recv [OF rb1(3), of d "\<lambda>_. True"] assms(2) rb1(2) show ?thesis
    by (fastforce simp: deliver_append rb1(1))
qed

text \<open>The buffer \<open>H5_rest_init\<close> allocates, with \<open>CURL_RESPONSE_BUFFER_DEFAULT_SIZE\<close> bytes.\<close>

definition response_buffer_init :: response_buffer where
  "response_buffer_init = \<lparr>buffer = replicate 1024 None, curr = 0, buffer_size = 1024\<rparr>"

text \<open>The buffer of a transfer: \<open>calloc\<close> of the exact number of bytes expected.\<close>

definition transfer_buffer_init :: "nat \<Rightarrow> response_buffer" where
  "transfer_buffer_init n =
     \<lparr>buffer = replicate n (Some (CHR 0x00)), curr = 0, buffer_size = of_nat n\<rparr>"

section \<open>Uploads\<close>

record upload_info =
  ubuffer :: "char list"
  ubuffer_size :: u64
  bytes_sent :: u64

text \<open>
  The bytes copied to cURL and the state.  \<open>None\<close> as \<open>inptr\<close> is the NULL pointer: nothing is
  sent.
\<close>

definition H5_rest_curl_read_data_callback ::
  "u64 \<Rightarrow> u64 \<Rightarrow> upload_info option \<Rightarrow> char list \<times> upload_info option" where
  "H5_rest_curl_read_data_callback sz nmemb inptr =
     (let max_buf_size = sz * nmemb
      in case inptr of
           None \<Rightarrow> ([], None)
         | Some u \<Rightarrow>
             if bytes_sent u \<ge> ubuffer_size u then ([], Some u)
             else
               (let bytes_left = ubuffer_size u - bytes_sent u;
                    data_size = (if bytes_left > max_buf_size then max_buf_size else bytes_left)
                in (take (unat data_size) (drop (unat (bytes_sent u)) (ubuffer u)),
                    Some (u\<lparr>bytes_sent := bytes_sent u + data_size\<rparr>))))"

text \<open>cURL asks repeatedly, with a room of \<open>n\<close> bytes each time.\<close>

fun upload :: "u64 list \<Rightarrow> upload_info \<Rightarrow> char list \<times> upload_info" where
  "upload [] u = ([], u)"
| "upload (n # ns) u =
     (case H5_rest_curl_read_data_callback 1 n (Some u) of
        (bs, Some u') \<Rightarrow> (case upload ns u' of (cs, u2) \<Rightarrow> (bs @ cs, u2))
      | (bs, None) \<Rightarrow> (bs, u))"

lemma read_callback_step:
  assumes "length (ubuffer u) = unat (ubuffer_size u)" and "bytes_sent u \<le> ubuffer_size u"
  shows "\<exists>u'. H5_rest_curl_read_data_callback 1 n (Some u)
      = (take (unat n) (drop (unat (bytes_sent u)) (ubuffer u)), Some u') \<and>
    ubuffer u' = ubuffer u \<and> ubuffer_size u' = ubuffer_size u \<and>
    unat (bytes_sent u') = min (unat (ubuffer_size u)) (unat (bytes_sent u) + unat n)"
proof (cases "bytes_sent u \<ge> ubuffer_size u")
  case True
  with assms have "bytes_sent u = ubuffer_size u" by simp
  with assms True show ?thesis by (simp add: H5_rest_curl_read_data_callback_def)
next
  case False
  have sub: "unat (ubuffer_size u - bytes_sent u) = unat (ubuffer_size u) - unat (bytes_sent u)"
    using assms(2) by (rule unat_sub)
  show ?thesis
  proof (cases "ubuffer_size u - bytes_sent u > n")
    case True
    then have lt: "unat n < unat (ubuffer_size u) - unat (bytes_sent u)"
      unfolding word_less_nat_alt sub .
    have "unat (bytes_sent u + n) = unat (bytes_sent u) + unat n"
      by (rule unat_add_lem [THEN iffD1]) (use lt unat_u64_bound [of "ubuffer_size u"] in simp)
    with True False lt show ?thesis by (simp add: H5_rest_curl_read_data_callback_def Let_def)
  next
    case le: False
    then have ge: "unat (ubuffer_size u) - unat (bytes_sent u) \<le> unat n"
      unfolding word_less_nat_alt sub not_less .
    have "unat (bytes_sent u) \<le> unat (ubuffer_size u)" using assms(2) by (simp add: word_le_nat_alt)
    with le False ge assms(1) sub show ?thesis
      by (auto simp: H5_rest_curl_read_data_callback_def Let_def)
  qed
qed

lemma upload_prefix:
  assumes "length (ubuffer u) = unat (ubuffer_size u)" and "bytes_sent u \<le> ubuffer_size u"
  shows "fst (upload ns u) = take (sum_list (map unat ns)) (drop (unat (bytes_sent u)) (ubuffer u))"
  using assms
proof (induction ns arbitrary: u)
  case (Cons n ns)
  obtain u' where u': "H5_rest_curl_read_data_callback 1 n (Some u)
      = (take (unat n) (drop (unat (bytes_sent u)) (ubuffer u)), Some u')"
    "ubuffer u' = ubuffer u" "ubuffer_size u' = ubuffer_size u"
    "unat (bytes_sent u') = min (unat (ubuffer_size u)) (unat (bytes_sent u) + unat n)"
    using read_callback_step [OF Cons.prems] by blast
  have "bytes_sent u' \<le> ubuffer_size u'" using u'(3,4) by (simp add: word_le_nat_alt)
  with Cons.IH [of u'] Cons.prems u'(2,3) have
    IH: "fst (upload ns u') = take (sum_list (map unat ns)) (drop (unat (bytes_sent u')) (ubuffer u))"
    by simp
  have "drop (unat (bytes_sent u')) (ubuffer u) = drop (unat (bytes_sent u) + unat n) (ubuffer u)"
    using u'(4) Cons.prems(1) by (simp add: min_def)
  then show ?case using u'(1) IH
    by (simp add: split_beta take_add drop_drop [symmetric] add.commute del: drop_drop)
qed simp

section \<open>Properties\<close>

text \<open>
  The allocation counter is exact. After any run of \<open>RV_malloc\<close>, \<open>RV_calloc\<close>, \<open>RV_realloc\<close>
  and \<open>RV_free\<close> that is defined, \<open>H5_rest_curr_alloc_bytes\<close> equals the number of bytes in the
  live blocks, so that the leak report of \<open>H5rest_term\<close> is empty when everything was freed.
\<close>

lemma alloc_counter_exact:
  assumes "mem_run ops mem_init = Some s" and "live_bytes (blocks s) < 2 ^ 64"
  shows "unat (curr_alloc_bytes s) = live_bytes (blocks s) \<and>
    (curr_alloc_bytes s = 0 \<longleftrightarrow> live_bytes (blocks s) = 0)"
proof -
  have "mem_inv mem_init" by (simp add: mem_inv_def mem_init_def live_bytes_def)
  from mem_run_inv [OF this assms(1)] have "curr_alloc_bytes s = of_nat (live_bytes (blocks s))"
    by (simp add: mem_inv_def)
  then have "unat (curr_alloc_bytes s) = live_bytes (blocks s)"
    using unat_of_nat_u64 [OF assms(2)] by simp
  then show ?thesis by (metis unat_eq_0)
qed

text \<open>
  The buffer of a dataset transfer does not grow. The callback of the transfers takes a
  chunk exactly when it and a terminating NUL fit, and is undefined otherwise; a transfer buffer
  is allocated with the exact size of the data, so a complete response always writes its NUL
  one byte behind the buffer.
\<close>

lemma transfer_buffer_bounds:
  "(n = 0 \<or> length d \<ge> n \<longleftrightarrow> H5_rest_curl_write_data_callback_no_global d (transfer_buffer_init n) = None) \<and>
   (length d = n \<longrightarrow> H5_rest_curl_write_data_callback_no_global d (transfer_buffer_init n) = None)"
proof -
  have "H5_rest_curl_write_data_callback_no_global d (transfer_buffer_init n) \<noteq> None" if "length d < n"
    using append_received [of "transfer_buffer_init n" d] that
    by (auto simp: transfer_buffer_init_def)
  moreover have "H5_rest_curl_write_data_callback_no_global d (transfer_buffer_init n) = None" if "n \<le> length d"
    by (rule no_global_overflow) (use that in \<open>simp add: transfer_buffer_init_def\<close>)
  ultimately show ?thesis by (cases "length d < n") auto
qed

text \<open>
  Uploads are complete and in order. Whatever room cURL offers in its successive calls, the
  bytes it is given are the bytes of the buffer from the start, none twice and none skipped, up to
  the total room; once all are sent the callback returns zero bytes.
\<close>

lemma upload_complete:
  assumes "length b < 2 ^ 64"
    and "u = \<lparr>ubuffer = b, ubuffer_size = of_nat (length b), bytes_sent = 0\<rparr>"
  shows "fst (upload ns u) = take (sum_list (map unat ns)) b \<and>
    fst (H5_rest_curl_read_data_callback 1 n (Some (u\<lparr>bytes_sent := of_nat (length b)\<rparr>))) = []"
proof -
  have "length (ubuffer u) = unat (ubuffer_size u)" "bytes_sent u \<le> ubuffer_size u"
    using unat_of_nat_u64 [OF assms(1)] by (simp_all add: assms(2))
  from upload_prefix [OF this, of ns] show ?thesis
    by (simp add: assms(2) H5_rest_curl_read_data_callback_def)
qed

text \<open>
  A failing allocation breaks \<open>RV_realloc_debug\<close>. Its comment says the buffer is unchanged
  and NULL returned; the code copies the old bytes to the NULL pointer. When the allocation
  succeeds, the new block starts with the bytes of the old one, cut to the new size, and the old
  block is gone.
\<close>

lemma realloc_debug_behaviour:
  assumes "blocks s a = Some bs" and "n > 0" and "n + 8 \<ge> n"
  shows "RV_realloc_debug None (Some a) n s = None \<and>
    (a' \<noteq> a \<longrightarrow> (\<exists>s'. RV_realloc_debug (Some a') (Some a) n s = Some (Some a', s') \<and>
      blocks s' a = None \<and> take (min (unat n) (length bs)) (the (blocks s' a')) = take (unat n) bs \<and>
      length (the (blocks s' a')) = unat n))"
proof -
  have n: "n \<noteq> 0" using assms(2) by auto
  have "RV_realloc_debug None (Some a) n s = None"
    using assms n by (simp add: RV_realloc_debug_def RV_malloc_debug_def)
  moreover have "length (take (unat n) bs @ drop (length bs) (replicate (unat n) None)) = unat n"
    by simp
  ultimately show ?thesis
    using assms n
    by (auto simp: RV_realloc_debug_def RV_malloc_debug_def RV_free_debug_def sizeof_size_t_def
        min_def not_less)
qed

end
