(* ===== verification/Base64.thy ===== *)
theory Base64
  imports Mem_Buffer
begin

unbundle bit_operations_syntax

text \<open>
  \<open>RV_base64_encode\<close> and \<open>RV_base64_decode\<close> of \<open>src/vol-rest/src/rest_vol.c\<close>, which put property
  lists, fill values and raw data into JSON.  Bytes are 8-bit words, the groups of three bytes or
  four characters 32-bit words, built and taken apart with the shifts of the source.

  The output buffer is the list of characters written so far together with its allocated size;
  every write is checked against that size.  Result \<open>None\<close> is undefined behaviour: a write
  behind the buffer, a read behind the input, or the use of the NULL that \<open>strchr\<close> returns for
  a character outside the alphabet.
\<close>

section \<open>Encoder\<close>

datatype base64_error = NullInput | NullOutput | CannotAlloc

text \<open>\<open>BASE64_ENCODE_DEFAULT_BUFFER_SIZE\<close>.\<close>

definition base64_default_size :: u64 where
  "base64_default_size = 33554432"

text \<open>
  \<open>CHECKED_REALLOC_NO_PTR (*out, nalloc, out_index + k, ...)\<close> followed by the writes of \<open>cs\<close>.
\<close>

definition put :: "(u64 \<Rightarrow> bool) \<Rightarrow> nat \<Rightarrow> char list \<Rightarrow> out_buf \<Rightarrow> (base64_error + out_buf) option" where
  "put = checked_put CannotAlloc"

definition encode_charset :: string where
  "encode_charset = ''ABCDEFGHIJKLMNOPQRSTUVWXYZabcdefghijklmnopqrstuvwxyz0123456789+/''"

text \<open>\<open>(uint8_t)(three_byte_set >> k) & 0x3f\<close>.\<close>

definition sextet :: "nat \<Rightarrow> u32 \<Rightarrow> u8" where
  "sextet k w = (ucast (drop_bit k w) :: u8) AND 0x3f"

definition encode_char :: "nat \<Rightarrow> u32 \<Rightarrow> char" where
  "encode_char k w = encode_charset ! unat (sextet k w)"

text \<open>
  The loop, by the bytes that are left: three or more, two, one or none.
\<close>

fun encode_loop :: "(u64 \<Rightarrow> bool) \<Rightarrow> u8 list \<Rightarrow> out_buf \<Rightarrow> (base64_error + out_buf) option" where
  "encode_loop ok [] b = Some (Inr b)"
| "encode_loop ok [x] b =
     (let w = push_bit 16 (ucast x) in
      put ok 2 [encode_char 18 w, encode_char 12 w] b)"
| "encode_loop ok [x, y] b =
     (let w = push_bit 16 (ucast x) + push_bit 8 (ucast y) in
      andthen (put ok 2 [encode_char 18 w, encode_char 12 w] b)
        (put ok 1 [encode_char 6 w]))"
| "encode_loop ok (x # y # z # rest) b =
     (let w = push_bit 16 (ucast x) + push_bit 8 (ucast y) + ucast z in
      andthen (put ok 2 [encode_char 18 w, encode_char 12 w] b)
        (\<lambda>b. andthen (put ok 1 [encode_char 6 w] b)
          (\<lambda>b. andthen (put ok 1 [encode_char 0 w] b) (encode_loop ok rest))))"

fun pad_loop :: "(u64 \<Rightarrow> bool) \<Rightarrow> nat \<Rightarrow> out_buf \<Rightarrow> (base64_error + out_buf) option" where
  "pad_loop ok 0 b = Some (Inr b)"
| "pad_loop ok (Suc n) b = andthen (put ok 1 ''='' b) (pad_loop ok n)"

text \<open>The buffer the loops start with.  \<open>out_size\<close> is \<open>None\<close> for a NULL pointer.\<close>

definition initial_buffer :: "(u64 \<Rightarrow> bool) \<Rightarrow> u64 option \<Rightarrow> (base64_error + out_buf) option" where
  "initial_buffer ok out_size =
     (if out_size = None \<or> out_size = Some 0
      then if ok base64_default_size then Some (Inr ([], base64_default_size))
           else Some (Inl CannotAlloc)
      else Some (Inr ([], the out_size)))"

text \<open>
  The characters before the NUL (their number is what \<open>*out_size\<close> is set to) and the size of
  the buffer.
\<close>

definition RV_base64_encode ::
  "(u64 \<Rightarrow> bool) \<Rightarrow> u8 list option \<Rightarrow> bool \<Rightarrow> u64 option \<Rightarrow> (base64_error + out_buf) option" where
  "RV_base64_encode ok inp out_given out_size =
     (case inp of
        None \<Rightarrow> Some (Inl NullInput)
      | Some bs \<Rightarrow>
          if \<not> out_given then Some (Inl NullOutput)
          else
            andthen (initial_buffer ok out_size) (\<lambda>b.
            andthen (encode_loop ok bs b) (\<lambda>b.
            andthen (pad_loop ok ((4 - length (fst b) mod 4) mod 4) b) (\<lambda>b.
            andthen (put ok 1 [CHR 0x00] b) (\<lambda>b.
              Some (Inr (butlast (fst b), snd b)))))))"

section \<open>Decoder\<close>

definition decode_charset :: string where
  "decode_charset = ''ABCDEFGHIJKLMNOPQRSTUVWXYZabcdefghijklmnopqrstuvwxyz0123456789-_''"

text \<open>
  \<open>strchr (charset, c) - charset\<close>; \<open>strchr\<close> finds the terminating NUL too.  \<open>None\<close> is NULL.
\<close>

fun char_index :: "string \<Rightarrow> char \<Rightarrow> nat option" where
  "char_index [] c = (if c = CHR 0x00 then Some 0 else None)"
| "char_index (x # xs) c = (if x = c then Some 0 else map_option Suc (char_index xs c))"

definition decode_sextet :: "u8 \<Rightarrow> u8 option" where
  "decode_sextet c = map_option of_nat (char_index decode_charset (char_of (unat c)))"

text \<open>\<open>(uint8_t)(w >> k)\<close>, and the same as a character.\<close>

definition octet :: "nat \<Rightarrow> u32 \<Rightarrow> u8" where
  "octet k w = ucast (drop_bit k w)"

definition octet_char :: "nat \<Rightarrow> u32 \<Rightarrow> char" where
  "octet_char k w = char_of (unat (octet k w))"

text \<open>
  One turn of the loop at offset \<open>i\<close>.  \<open>buf\<close> is the memory behind \<open>in\<close>, at least \<open>in_size\<close>
  bytes; bytes from \<open>in_size\<close> on are not put into the set but \<open>buf[i + 3]\<close> and \<open>buf[i + 2]\<close>
  are read whatever \<open>in_size\<close> is.
\<close>

definition byte_or_zero :: "u8 list \<Rightarrow> nat \<Rightarrow> nat \<Rightarrow> u32" where
  "byte_or_zero buf in_size i = (if i < in_size then ucast (buf ! i) else 0)"

text \<open>A character of the input as the byte it is read as.\<close>

definition byte_of :: "char \<Rightarrow> u8" where
  "byte_of c = of_nat (of_char c)"

definition decode_group ::
  "(u64 \<Rightarrow> bool) \<Rightarrow> u8 list \<Rightarrow> nat \<Rightarrow> nat \<Rightarrow> out_buf \<Rightarrow> (base64_error + out_buf) option" where
  "decode_group ok buf in_size i b =
     (let w = push_bit 24 (ucast (buf ! i)) + push_bit 16 (byte_or_zero buf in_size (i + 1))
              + push_bit 8 (byte_or_zero buf in_size (i + 2)) + byte_or_zero buf in_size (i + 3)
      in if length buf \<le> i + 3 then None
         else if buf ! (i + 3) = byte_of (CHR ''='')
         then do {
           c0 \<leftarrow> decode_sextet (octet 24 w);
           c1 \<leftarrow> decode_sextet (octet 16 w);
           let v = push_bit 6 (ucast c0) OR ucast c1;
           let v = drop_bit 4 v;
           put ok 1 [octet_char 0 v] b
         }
         else if buf ! (i + 2) = byte_of (CHR ''='')
         then do {
           c0 \<leftarrow> decode_sextet (octet 24 w);
           c1 \<leftarrow> decode_sextet (octet 16 w);
           c2 \<leftarrow> decode_sextet (octet 8 w);
           let v = push_bit 12 (ucast c0) OR push_bit 6 (ucast c1) OR ucast c2;
           let v = drop_bit 2 v;
           put ok 2 [octet_char 8 v, octet_char 0 v] b
         }
         else do {
           c0 \<leftarrow> decode_sextet (octet 24 w);
           c1 \<leftarrow> decode_sextet (octet 16 w);
           c2 \<leftarrow> decode_sextet (octet 8 w);
           c3 \<leftarrow> decode_sextet (octet 0 w);
           let v = push_bit 18 (ucast c0) OR push_bit 12 (ucast c1) OR push_bit 6 (ucast c2) OR ucast c3;
           put ok 3 [octet_char 16 v, octet_char 8 v, octet_char 0 v] b
         })"

function decode_loop ::
  "(u64 \<Rightarrow> bool) \<Rightarrow> u8 list \<Rightarrow> nat \<Rightarrow> nat \<Rightarrow> out_buf \<Rightarrow> (base64_error + out_buf) option" where
  "decode_loop ok buf in_size i b =
     (if i < in_size
      then andthen (decode_group ok buf in_size i b) (decode_loop ok buf in_size (i + 4))
      else Some (Inr b))"
  by pat_completeness auto
termination by (relation "measure (\<lambda>(ok, buf, in_size, i, b). in_size - i)") auto

declare decode_loop.simps [simp del]

text \<open>
  All characters written, the NUL included (their number is what \<open>*out_size\<close> is set to).  The
  NUL is written without a check of the buffer.
\<close>

definition RV_base64_decode ::
  "(u64 \<Rightarrow> bool) \<Rightarrow> u8 list option \<Rightarrow> nat \<Rightarrow> bool \<Rightarrow> u64 option \<Rightarrow> (base64_error + out_buf) option" where
  "RV_base64_decode ok inp in_size out_given out_size =
     (case inp of
        None \<Rightarrow> Some (Inl NullInput)
      | Some buf \<Rightarrow>
          if \<not> out_given then Some (Inl NullOutput)
          else
            andthen (initial_buffer ok out_size) (\<lambda>b.
            andthen (decode_loop ok buf in_size 0 b) (\<lambda>b.
              if length (fst b) < unat (snd b) then Some (Inr (fst b @ [CHR 0x00], snd b))
              else None)))"

section \<open>Reference encoder\<close>

text \<open>The groups of RFC 4648 in plain arithmetic.\<close>

definition sym :: "nat \<Rightarrow> char" where
  "sym n = encode_charset ! (n mod 64)"

fun base64 :: "u8 list \<Rightarrow> char list" where
  "base64 [] = []"
| "base64 [x] = (let v = unat x * 2 ^ 16 in [sym (v div 2 ^ 18), sym (v div 2 ^ 12), CHR ''='', CHR ''=''])"
| "base64 [x, y] =
     (let v = unat x * 2 ^ 16 + unat y * 2 ^ 8
      in [sym (v div 2 ^ 18), sym (v div 2 ^ 12), sym (v div 2 ^ 6), CHR ''=''])"
| "base64 (x # y # z # rest) =
     (let v = unat x * 2 ^ 16 + unat y * 2 ^ 8 + unat z
      in [sym (v div 2 ^ 18), sym (v div 2 ^ 12), sym (v div 2 ^ 6), sym v] @ base64 rest)"

section \<open>Words and arithmetic\<close>

lemma unat_sextet: "unat (sextet k w) = unat w div 2 ^ k mod 64"
proof -
  have "sextet k w = take_bit 6 (ucast (drop_bit k w))"
    by (simp add: sextet_def take_bit_eq_mask mask_numeral)
  then have "unat (sextet k w) = take_bit 6 (take_bit 8 (drop_bit k (unat w)))"
    by (simp only: unsigned_take_bit_eq unsigned_ucast_eq unat_drop_bit_eq len_num1 len_bit0) simp
  then show ?thesis by (simp add: take_bit_eq_mod drop_bit_eq_div mod_mod_cancel)
qed

lemma encode_char_sym: "encode_char k w = sym (unat w div 2 ^ k)"
  by (simp add: encode_char_def sym_def unat_sextet)

lemma shift_up: "push_bit k (ucast (x :: u8)) = (of_nat (unat x * 2 ^ k) :: u32)"
  by (simp add: push_bit_eq_mult)

lemma unat_shift_1: "unat (push_bit 16 (ucast (x :: u8)) :: u32) = unat x * 2 ^ 16"
  unfolding shift_up by (rule unat_of_nat_u32) (use unat_u8_bound [of x] in simp)

lemma unat_shift_2:
  "unat (push_bit 16 (ucast (x :: u8)) + push_bit 8 (ucast (y :: u8)) :: u32)
    = unat x * 2 ^ 16 + unat y * 2 ^ 8"
  unfolding shift_up of_nat_add [symmetric]
  by (rule unat_of_nat_u32) (use unat_u8_bound [of x] unat_u8_bound [of y] in simp)

lemma unat_shift_3:
  "unat (push_bit 16 (ucast (x :: u8)) + push_bit 8 (ucast (y :: u8)) + ucast (z :: u8) :: u32)
    = unat x * 2 ^ 16 + unat y * 2 ^ 8 + unat z"
proof -
  have "push_bit 16 (ucast x) + push_bit 8 (ucast y) + ucast z
      = (of_nat (unat x * 2 ^ 16 + unat y * 2 ^ 8 + unat z) :: u32)"
    unfolding shift_up of_nat_add by simp
  moreover have "unat (of_nat (unat x * 2 ^ 16 + unat y * 2 ^ 8 + unat z) :: u32)
      = unat x * 2 ^ 16 + unat y * 2 ^ 8 + unat z"
    by (rule unat_of_nat_u32)
      (use unat_u8_bound [of x] unat_u8_bound [of y] unat_u8_bound [of z] in simp)
  ultimately show ?thesis by simp
qed

section \<open>The encoder against the reference\<close>

text \<open>The characters without the padding.\<close>

fun body :: "u8 list \<Rightarrow> char list" where
  "body [] = []"
| "body [x] = take 2 (base64 [x])"
| "body [x, y] = take 3 (base64 [x, y])"
| "body (x # y # z # rest) = take 4 (base64 [x, y, z]) @ body rest"

lemma base64_body: "base64 bs = body bs @ replicate ((4 - length (body bs) mod 4) mod 4) (CHR ''='')"
  by (induction bs rule: body.induct) (simp_all add: Let_def numeral_2_eq_2)

lemma length_body: "length (body bs) \<le> 4 * length bs"
  by (induction bs rule: body.induct) (simp_all add: Let_def)

lemmas put_ok = checked_put_ok [where e = CannotAlloc, folded put_def]

lemma encode_loop_ok:
  assumes "0 < unat n" and "length b + 4 * length bs \<le> 2 ^ 62" and "\<And>m. ok m"
  shows "\<exists>n'. encode_loop ok bs (b, n) = Some (Inr (b @ body bs, n')) \<and> 0 < unat n'"
  using assms(1,2)
proof (induction bs arbitrary: b n rule: body.induct)
  case 1
  then show ?case by simp
next
  case (2 x)
  let ?w = "push_bit 16 (ucast x)"
  obtain n1 where n1: "put ok 2 [encode_char 18 ?w, encode_char 12 ?w] (b, n)
      = Some (Inr (b @ [encode_char 18 ?w, encode_char 12 ?w], n1))" "0 < unat n1"
    using put_ok [of n "[encode_char 18 ?w, encode_char 12 ?w]" 2 b ok] 2 assms(3) by auto
  then show ?case by (simp add: Let_def encode_char_sym unat_shift_1)
next
  case (3 x y)
  let ?w = "push_bit 16 (ucast x) + push_bit 8 (ucast y)"
  obtain n1 where n1: "put ok 2 [encode_char 18 ?w, encode_char 12 ?w] (b, n)
      = Some (Inr (b @ [encode_char 18 ?w, encode_char 12 ?w], n1))" "0 < unat n1"
    using put_ok [of n "[encode_char 18 ?w, encode_char 12 ?w]" 2 b ok] 3 assms(3) by auto
  obtain n2 where "put ok 1 [encode_char 6 ?w] (b @ [encode_char 18 ?w, encode_char 12 ?w], n1)
      = Some (Inr (b @ [encode_char 18 ?w, encode_char 12 ?w, encode_char 6 ?w], n2))" "0 < unat n2"
    using put_ok [OF n1(2), of "[encode_char 6 ?w]" 1 "b @ [encode_char 18 ?w, encode_char 12 ?w]" ok]
      3 assms(3) by auto
  with n1 show ?case by (simp add: Let_def encode_char_sym unat_shift_2)
next
  case (4 x y z rest)
  let ?w = "push_bit 16 (ucast x) + push_bit 8 (ucast y) + ucast z"
  let ?c = "\<lambda>k. encode_char k ?w"
  obtain n1 where n1: "put ok 2 [?c 18, ?c 12] (b, n) = Some (Inr (b @ [?c 18, ?c 12], n1))" "0 < unat n1"
    using put_ok [of n "[?c 18, ?c 12]" 2 b ok] 4 assms(3) by auto
  obtain n2 where n2: "put ok 1 [?c 6] (b @ [?c 18, ?c 12], n1)
      = Some (Inr (b @ [?c 18, ?c 12, ?c 6], n2))" "0 < unat n2"
    using put_ok [of n1 "[?c 6]" 1 "b @ [?c 18, ?c 12]" ok] n1(2) 4 assms(3) by auto
  obtain n3 where n3: "put ok 1 [?c 0] (b @ [?c 18, ?c 12, ?c 6], n2)
      = Some (Inr (b @ [?c 18, ?c 12, ?c 6, ?c 0], n3))" "0 < unat n3"
    using put_ok [of n2 "[?c 0]" 1 "b @ [?c 18, ?c 12, ?c 6]" ok] n2(2) 4 assms(3) by auto
  obtain n4 where "encode_loop ok rest (b @ [?c 18, ?c 12, ?c 6, ?c 0], n3)
      = Some (Inr ((b @ [?c 18, ?c 12, ?c 6, ?c 0]) @ body rest, n4))" "0 < unat n4"
    using "4.IH" [OF n3(2), of "b @ [?c 18, ?c 12, ?c 6, ?c 0]"] "4.prems"(2) by auto
  with n1 n2 n3 show ?case by (simp add: Let_def encode_char_sym unat_shift_3)
qed

lemma pad_loop_ok:
  assumes "0 < unat n" and "length b + k \<le> 2 ^ 62" and "\<And>m. ok m"
  shows "\<exists>n'. pad_loop ok k (b, n) = Some (Inr (b @ replicate k (CHR ''=''), n')) \<and> 0 < unat n'"
  using assms(1,2)
proof (induction k arbitrary: b n)
  case (Suc k)
  obtain n1 where "put ok 1 ''='' (b, n) = Some (Inr (b @ ''='', n1))" "0 < unat n1"
    using put_ok [of n "''=''" 1 b ok] Suc.prems assms(3) by auto
  with Suc.IH [of n1 "b @ ''=''"] Suc.prems show ?case by (auto simp: replicate_app_Cons_same)
qed simp

lemma initial_buffer_ok:
  assumes "\<And>m. ok m"
  shows "\<exists>n. initial_buffer ok out_size = Some (Inr ([], n)) \<and> 0 < unat n"
  using assms by (cases out_size) (auto simp: initial_buffer_def base64_default_size_def unat_gt_0)

lemma encode_ok:
  assumes "4 * length bs + 4 \<le> 2 ^ 62" and "\<And>m. ok m"
  shows "\<exists>n. RV_base64_encode ok (Some bs) True out_size = Some (Inr (base64 bs, n))"
proof -
  obtain n where n: "initial_buffer ok out_size = Some (Inr ([], n))" "0 < unat n"
    using initial_buffer_ok assms(2) by blast
  obtain n1 where n1: "encode_loop ok bs ([], n) = Some (Inr (body bs, n1))" "0 < unat n1"
    using encode_loop_ok [OF n(2), of "[]" bs ok] assms by auto
  let ?k = "(4 - length (body bs) mod 4) mod 4"
  have l: "length (body bs) + ?k + 1 \<le> 2 ^ 62"
    using length_body [of bs] assms(1) mod_less_divisor [of 4 "4 - length (body bs) mod 4"] by linarith
  obtain n2 where n2: "pad_loop ok ?k (body bs, n1) = Some (Inr (base64 bs, n2))" "0 < unat n2"
    using pad_loop_ok [OF n1(2), of "body bs" ?k ok] l assms(2) by (auto simp: base64_body)
  obtain n3 where "put ok 1 [CHR 0x00] (base64 bs, n2) = Some (Inr (base64 bs @ [CHR 0x00], n3))"
    using put_ok [OF n2(2), of "[CHR 0x00]" 1 "base64 bs" ok] l assms(2) by (auto simp: base64_body)
  with n n1 n2 show ?thesis by (simp add: RV_base64_encode_def)
qed

section \<open>The decoder on encoded input\<close>

lemma unat_byte_of [simp]: "unat (byte_of c) = of_char c"
  unfolding byte_of_def by (subst unat_of_nat) (simp add: take_bit_nat_eq_self)

lemma byte_of_inject [simp]: "byte_of c = byte_of d \<longleftrightarrow> c = d"
proof
  assume "byte_of c = byte_of d"
  then have "unat (byte_of c) = unat (byte_of d)" by simp
  then show "c = d" by simp
qed simp

text \<open>The alphabets agree on the first 62 characters.\<close>

lemma alphabets_agree: "n < 62 \<Longrightarrow> char_index decode_charset (encode_charset ! n) = Some n"
proof -
  have "\<forall>n \<in> set [0..<62]. char_index decode_charset (encode_charset ! n) = Some n" by code_simp
  then show "n < 62 \<Longrightarrow> char_index decode_charset (encode_charset ! n) = Some n" by simp
qed

lemma last_symbols: "encode_charset ! 62 = CHR ''+''" "encode_charset ! 63 = CHR ''/''"
  by code_simp+

lemma sym_not_pad: "sym n \<noteq> CHR ''=''"
proof -
  have "CHR ''='' \<notin> set encode_charset" by code_simp
  moreover have "sym n \<in> set encode_charset"
    unfolding sym_def by (rule nth_mem) (simp add: encode_charset_def)
  ultimately show ?thesis by metis
qed

lemma decode_sextet_sym:
  assumes "sym n \<noteq> CHR ''+''" and "sym n \<noteq> CHR ''/''"
  shows "decode_sextet (byte_of (sym n)) = Some (of_nat (n mod 64))"
proof -
  have "n mod 64 \<noteq> 62" "n mod 64 \<noteq> 63" using assms last_symbols by (auto simp: sym_def)
  moreover have "n mod 64 < 64" by simp
  ultimately have "n mod 64 < 62" by linarith
  then show ?thesis by (simp add: decode_sextet_def sym_def alphabets_agree)
qed

lemma unat_octet: "unat (octet k w) = unat w div 2 ^ k mod 256"
proof -
  have "unat (octet k w) = take_bit 8 (drop_bit k (unat w))"
    unfolding octet_def by (simp only: unsigned_ucast_eq unat_drop_bit_eq len_num1 len_bit0) simp
  then show ?thesis by (simp add: take_bit_eq_mod drop_bit_eq_div)
qed

lemma octet_eqI: "unat w div 2 ^ k mod 256 = unat x \<Longrightarrow> octet k w = x"
  by (rule word_unat_eq_iff [THEN iffD2]) (simp only: unat_octet)

text \<open>Taking the four bytes of a set apart gives them back.\<close>

lemma four_bytes:
  fixes a b c d :: u8
  defines "w \<equiv> push_bit 24 (ucast a) + push_bit 16 (ucast b) + push_bit 8 (ucast c) + (ucast d :: u32)"
  shows "octet 24 w = a" "octet 16 w = b" "octet 8 w = c" "octet 0 w = d"
proof -
  note bounds = unat_u8_bound [of a] unat_u8_bound [of b] unat_u8_bound [of c] unat_u8_bound [of d]
  have "w = of_nat (unat a * 2 ^ 24 + unat b * 2 ^ 16 + unat c * 2 ^ 8 + unat d)"
    unfolding w_def shift_up of_nat_add by simp
  moreover have "unat (of_nat (unat a * 2 ^ 24 + unat b * 2 ^ 16 + unat c * 2 ^ 8 + unat d) :: u32)
      = unat a * 2 ^ 24 + unat b * 2 ^ 16 + unat c * 2 ^ 8 + unat d"
    by (rule unat_of_nat_u32) (use bounds in simp)
  ultimately have u: "unat w = ((unat a * 256 + unat b) * 256 + unat c) * 256 + unat d" by simp
  have d1: "(k * 256 + j) div 256 = k" "(k * 256 + j) mod 256 = j" if "j < 256" for k j :: nat
    using that by simp_all
  have v1: "unat w div 256 = (unat a * 256 + unat b) * 256 + unat c" unfolding u by (rule d1) (rule bounds)
  then have v2: "unat w div 65536 = unat a * 256 + unat b"
    using d1 [OF bounds(3)] div_mult2_eq [of "unat w" 256 256] by simp
  then have v3: "unat w div 16777216 = unat a"
    using d1 [OF bounds(2)] div_mult2_eq [of "unat w" 65536 256] by simp
  show "octet 24 w = a" by (rule octet_eqI) (use v3 bounds in simp)
  show "octet 16 w = b" by (rule octet_eqI) (use v2 bounds d1 in simp)
  have "(2 :: nat) ^ 8 = 256" by simp
  then show "octet 8 w = c" by (intro octet_eqI) (simp only: v1 d1(2) [OF bounds(3)])
  have "unat w mod 256 = unat d" by (simp only: u d1(2) [OF bounds(4)])
  then show "octet 0 w = d" by (intro octet_eqI) simp
qed

text \<open>Putting sextets together.\<close>

lemma ucast_of_unat: "ucast (x :: u8) = (of_nat (unat x) :: u32)"
  by simp

lemma push_of_nat: "push_bit k (ucast (of_nat (n mod 64) :: u8)) = (of_nat (n mod 64 * 2 ^ k) :: u32)"
proof -
  have "unat (of_nat (n mod 64) :: u8) = n mod 64"
    by (subst unat_of_nat) (simp add: take_bit_nat_eq_self)
  then have "(ucast (of_nat (n mod 64) :: u8) :: u32) = of_nat (n mod 64)"
    by (simp only: ucast_of_unat)
  then show ?thesis by (simp add: push_bit_eq_mult)
qed

lemma or_add:
  fixes m n k :: nat
  assumes "n < 2 ^ k"
  shows "(of_nat (m * 2 ^ k) OR of_nat n :: 'a::len word) = of_nat (m * 2 ^ k + n)"
proof -
  have "of_nat (m * 2 ^ k) OR of_nat n = (of_nat (push_bit k m OR n) :: 'a word)"
    by (simp only: of_nat_or_eq push_bit_eq_mult)
  also have "push_bit k m OR n = push_bit k m + n"
  proof (rule disjunctive_add_eq_or [symmetric])
    have "\<not> bit n j" if "k \<le> j" for j
      using assms that by (metis bit_take_bit_iff leD take_bit_nat_eq_self)
    then show "push_bit k m AND n = 0"
      by (auto simp: bit_eq_iff bit_simps not_le)
  qed
  finally show ?thesis by (simp add: push_bit_eq_mult)
qed

text \<open>The group of four characters of three bytes, and the first byte of a group.\<close>

lemma unat_octets: "unat v = n \<Longrightarrow> octet_char k v = char_of (n div 2 ^ k mod 256)"
  by (simp add: octet_char_def unat_octet)

lemma join_two:
  assumes "unat (v :: u32) < 2 ^ 24"
  shows "drop_bit 4 (push_bit 6 (ucast (of_nat (unat v div 2 ^ 18 mod 64) :: u8))
      OR ucast (of_nat (unat v div 2 ^ 12 mod 64) :: u8)) = (of_nat (unat v div 2 ^ 16) :: u32)"
proof -
  define m where "m = unat v div 2 ^ 12"
  have m: "m < 4096" using assms by (simp add: m_def less_mult_imp_div_less)
  have e: "unat v div 2 ^ 18 = m div 64" "unat v div 2 ^ 16 = m div 16" 
    by (simp_all add: m_def div_mult2_eq [symmetric])
  have "m div 64 mod 64 = m div 64" using m by (simp add: less_mult_imp_div_less)
  then have "push_bit 6 (ucast (of_nat (m div 64 mod 64) :: u8)) OR ucast (of_nat (m mod 64) :: u8)
      = (of_nat (m div 64 * 2 ^ 6 + m mod 64) :: u32)"
    using push_of_nat [of 6 "m div 64"] push_of_nat [of 0 m] or_add [of "m mod 64" 6 "m div 64"] by simp
  also have "m div 64 * 2 ^ 6 + m mod 64 = m" by simp
  finally have "unat (drop_bit 4 (push_bit 6 (ucast (of_nat (m div 64 mod 64) :: u8))
      OR ucast (of_nat (m mod 64) :: u8)) :: u32) = m div 16"
    using m by (simp only: unat_drop_bit_eq) (simp add: unat_of_nat_u32 drop_bit_eq_div)
  then show ?thesis unfolding e m_def [symmetric] by (metis of_nat_unat ucast_id)
qed

lemma join_four:
  assumes "n < 2 ^ 24"
  shows "push_bit 18 (ucast (of_nat (n div 2 ^ 18 mod 64) :: u8))
      OR push_bit 12 (ucast (of_nat (n div 2 ^ 12 mod 64) :: u8))
      OR push_bit 6 (ucast (of_nat (n div 2 ^ 6 mod 64) :: u8))
      OR ucast (of_nat (n mod 64) :: u8) = (of_nat n :: u32)"
proof -
  define p where "p = n div 2 ^ 6"
  define q where "q = p div 2 ^ 6"
  have e: "n div 2 ^ 12 = q" "n div 2 ^ 18 = q div 64"
    by (simp_all add: q_def p_def div_mult2_eq [symmetric])
  have "q < 4096" using assms by (simp add: q_def p_def div_mult2_eq [symmetric] less_mult_imp_div_less)
  then have top: "q div 64 mod 64 = q div 64" by (simp add: less_mult_imp_div_less)
  have 1: "push_bit 6 (ucast (of_nat (p mod 64) :: u8)) OR ucast (of_nat (n mod 64) :: u8)
      = (of_nat (p mod 64 * 2 ^ 6 + n mod 64) :: u32)"
    using push_of_nat [of 6 p] push_of_nat [of 0 n] or_add [of "n mod 64" 6 "p mod 64"] by simp
  have small: "p mod 64 < 64" "n mod 64 < 64" "q mod 64 < 64" by simp_all
  then have "p mod 64 * 64 + n mod 64 < 4096" by linarith
  then have lt1: "p mod 64 * 2 ^ 6 + n mod 64 < 2 ^ 12" by simp
  have 2: "push_bit 12 (ucast (of_nat (q mod 64) :: u8)) OR of_nat (p mod 64 * 2 ^ 6 + n mod 64)
      = (of_nat (q mod 64 * 2 ^ 12 + (p mod 64 * 2 ^ 6 + n mod 64)) :: u32)"
    using push_of_nat [of 12 q] or_add [OF lt1, of "q mod 64"] by simp
  have lt2: "q mod 64 * 2 ^ 12 + (p mod 64 * 2 ^ 6 + n mod 64) < 2 ^ 18"
    using small(3) lt1 by simp
  have 3: "push_bit 18 (ucast (of_nat (q div 64 mod 64) :: u8))
        OR of_nat (q mod 64 * 2 ^ 12 + (p mod 64 * 2 ^ 6 + n mod 64))
      = (of_nat (q div 64 * 2 ^ 18 + (q mod 64 * 2 ^ 12 + (p mod 64 * 2 ^ 6 + n mod 64))) :: u32)"
    using push_of_nat [of 18 "q div 64"] or_add [OF lt2, of "q div 64"] top by simp
  have "q div 64 * 2 ^ 18 + (q mod 64 * 2 ^ 12 + (p mod 64 * 2 ^ 6 + n mod 64)) = n"
  proof -
    have "q div 64 * 64 + q mod 64 = q" "q * 64 + p mod 64 = p" "p * 64 + n mod 64 = n"
      by (simp_all add: q_def p_def)
    then have "q div 64 * 262144 + (q mod 64 * 4096 + (p mod 64 * 64 + n mod 64)) = n" by linarith
    then show ?thesis by simp
  qed
  then show ?thesis unfolding e p_def [symmetric] 1 2 3 by simp
qed

text \<open>What decoding an encoded list of bytes gives.\<close>

fun decoded :: "u8 list \<Rightarrow> char list" where
  "decoded [] = []"
| "decoded [x] = [char_of (unat x)]"
| "decoded [x, y] = [char_of (unat x)]"
| "decoded (x # y # z # rest) = char_of (unat x) # char_of (unat y) # char_of (unat z) # decoded rest"

lemma decoded_eq:
  "decoded bs = map (\<lambda>x. char_of (unat x)) (if length bs mod 3 = 2 then butlast bs else bs)"
proof (induction bs rule: decoded.induct)
  case (4 x y z rest)
  have "length (x # y # z # rest) mod 3 = length rest mod 3" by simp
  with 4 show ?case by (cases rest) auto
qed simp_all

definition plain :: "char list \<Rightarrow> bool" where
  "plain cs \<longleftrightarrow> CHR ''+'' \<notin> set cs \<and> CHR ''/'' \<notin> set cs"

lemma group_start:
  assumes "drop i buf = map byte_of (c0 # c1 # c2 # c3 # cs)"
  shows "i + 3 < length buf" "buf ! i = byte_of c0" "buf ! (i + 1) = byte_of c1"
    "buf ! (i + 2) = byte_of c2" "buf ! (i + 3) = byte_of c3" "drop (i + 4) buf = map byte_of cs"
proof -
  have l: "length (drop i buf) = length cs + 4" using assms by simp
  then show "i + 3 < length buf" by simp
  have "buf ! (i + k) = drop i buf ! k" if "k < 4" for k using that l by (intro nth_drop [symmetric]) simp
  note n = this
  show "buf ! i = byte_of c0" "buf ! (i + 1) = byte_of c1" "buf ! (i + 2) = byte_of c2"
    "buf ! (i + 3) = byte_of c3"
    using n [of 0] n [of 1] n [of 2] n [of 3] unfolding assms by (simp_all add: numeral_2_eq_2 numeral_3_eq_3)
  have "drop (i + 4) buf = drop 4 (drop i buf)" by (simp add: add.commute)
  then show "drop (i + 4) buf = map byte_of cs" by (simp add: assms)
qed

lemma decode_group_sets:
  assumes "drop i buf = map byte_of (c0 # c1 # c2 # c3 # cs)" and "in_size = length buf"
  defines "w \<equiv> push_bit 24 (ucast (byte_of c0)) + push_bit 16 (ucast (byte_of c1))
    + push_bit 8 (ucast (byte_of c2)) + (ucast (byte_of c3) :: u32)"
  shows "push_bit 24 (ucast (buf ! i)) + push_bit 16 (byte_or_zero buf in_size (i + 1))
      + push_bit 8 (byte_or_zero buf in_size (i + 2)) + byte_or_zero buf in_size (i + 3) = w"
  using group_start [OF assms(1)] assms(2) by (simp add: byte_or_zero_def w_def)

lemma decode_group_three:
  assumes "drop i buf = map byte_of ([sym (n div 2 ^ 18), sym (n div 2 ^ 12), sym (n div 2 ^ 6), sym n] @ cs)"
    and "in_size = length buf" and "n < 2 ^ 24"
    and "plain [sym (n div 2 ^ 18), sym (n div 2 ^ 12), sym (n div 2 ^ 6), sym n]"
  shows "decode_group ok buf in_size i b =
    put ok 3 [char_of (n div 2 ^ 16 mod 256), char_of (n div 2 ^ 8 mod 256), char_of (n mod 256)] b"
proof -
  note a = assms(1) [simplified append.simps]
  note g = group_start [OF a] and w = decode_group_sets [OF a assms(2)]
  have u: "unat (of_nat n :: u32) = n" by (rule unat_of_nat_u32) (use assms(3) in simp)
  have s: "decode_sextet (byte_of (sym (n div 2 ^ 18))) = Some (of_nat (n div 2 ^ 18 mod 64))"
    "decode_sextet (byte_of (sym (n div 2 ^ 12))) = Some (of_nat (n div 2 ^ 12 mod 64))"
    "decode_sextet (byte_of (sym (n div 2 ^ 6))) = Some (of_nat (n div 2 ^ 6 mod 64))"
    "decode_sextet (byte_of (sym n)) = Some (of_nat (n mod 64))"
    by (rule decode_sextet_sym; use assms(4) in \<open>force simp: plain_def\<close>)+
  have j: "octet_char k (of_nat n) = char_of (n div 2 ^ k mod 256)" for k
    by (rule unat_octets) (rule u)
  have g1: "(length buf \<le> i + 3) = False" using g(1) by simp
  show ?thesis
    unfolding decode_group_def w
    by (simp only: four_bytes Let_def g(5) g(4) byte_of_inject sym_not_pad if_False s bind.bind_lunit
        join_four [OF assms(3)] j g1)
      simp
qed

lemma decode_group_one:
  assumes "drop i buf = map byte_of ([sym (n div 2 ^ 18), sym (n div 2 ^ 12), c, CHR ''=''] @ cs)"
    and "in_size = length buf" and "n < 2 ^ 24"
    and "plain [sym (n div 2 ^ 18), sym (n div 2 ^ 12)]"
  shows "decode_group ok buf in_size i b = put ok 1 [char_of (n div 2 ^ 16 mod 256)] b"
proof -
  note a = assms(1) [simplified append.simps]
  note g = group_start [OF a] and w = decode_group_sets [OF a assms(2)]
  have u: "unat (of_nat n :: u32) = n" by (rule unat_of_nat_u32) (use assms(3) in simp)
  have u16: "unat (of_nat (n div 2 ^ 16) :: u32) = n div 2 ^ 16"
    by (rule unat_of_nat_u32) (use assms(3) in \<open>simp add: less_mult_imp_div_less\<close>)
  have s: "decode_sextet (byte_of (sym (n div 2 ^ 18))) = Some (of_nat (n div 2 ^ 18 mod 64))"
    "decode_sextet (byte_of (sym (n div 2 ^ 12))) = Some (of_nat (n div 2 ^ 12 mod 64))"
    by (rule decode_sextet_sym; use assms(4) in \<open>force simp: plain_def\<close>)+
  have j2: "drop_bit 4 (push_bit 6 (ucast (of_nat (n div 2 ^ 18 mod 64) :: u8))
      OR ucast (of_nat (n div 2 ^ 12 mod 64) :: u8)) = (of_nat (n div 2 ^ 16) :: u32)"
    using join_two [of "of_nat n"] assms(3) unfolding u by simp
  have j: "octet_char 0 (of_nat (n div 2 ^ 16)) = char_of (n div 2 ^ 16 mod 256)"
    using unat_octets [OF u16, of 0] by simp
  have g1: "(length buf \<le> i + 3) = False" using g(1) by simp
  show ?thesis
    unfolding decode_group_def w
    by (simp only: four_bytes Let_def g(5) byte_of_inject if_True if_False s bind.bind_lunit j2 j g1 simp_thms)
qed

lemmas put_fits = checked_put_fits [where e = CannotAlloc, folded put_def]

lemma plain_append [simp]: "plain (xs @ ys) \<longleftrightarrow> plain xs \<and> plain ys"
  by (auto simp: plain_def)

lemma decode_loop_ok:
  assumes "drop i buf = map byte_of (base64 bs)" and "plain (base64 bs)"
    and "length b + length (decoded bs) < unat n"
  shows "decode_loop ok buf (length buf) i (b, n) = Some (Inr (b @ decoded bs, n))"
  using assms
proof (induction bs arbitrary: i b rule: decoded.induct)
  case 1
  then have "\<not> i < length buf" by simp
  then show ?case by (subst decode_loop.simps) simp
next
  case (2 x)
  let ?n = "unat x * 2 ^ 16"
  have lt: "?n < 2 ^ 24" using unat_u8_bound [of x] by simp
  have a: "drop i buf = map byte_of ([sym (?n div 2 ^ 18), sym (?n div 2 ^ 12), CHR ''='', CHR ''=''] @ [])"
    using "2.prems"(1) by (simp add: Let_def)
  have p: "plain [sym (?n div 2 ^ 18), sym (?n div 2 ^ 12)]"
    using "2.prems"(2) by (simp add: plain_def Let_def)
  have l: "length buf = i + 4" using arg_cong [OF a, of length] by simp
  have g: "decode_group ok buf (length buf) i (b, n) = Some (Inr (b @ [char_of (unat x)], n))"
    using decode_group_one [OF a refl lt p] put_fits [of "[char_of (unat x)]" 1 b n ok] "2.prems"(3)
      unat_u8_bound [of x] by simp
  have "decode_loop ok buf (length buf) (i + 4) c = Some (Inr c)" for c
    by (subst decode_loop.simps) (simp add: l)
  with g l show ?case by (subst decode_loop.simps) simp
next
  case (3 x y)
  let ?n = "unat x * 2 ^ 16 + unat y * 2 ^ 8"
  have lt: "?n < 2 ^ 24" using unat_u8_bound [of x] unat_u8_bound [of y] by simp
  have a: "drop i buf = map byte_of ([sym (?n div 2 ^ 18), sym (?n div 2 ^ 12), sym (?n div 2 ^ 6), CHR ''=''] @ [])"
    using "3.prems"(1) by (simp add: Let_def)
  have p: "plain [sym (?n div 2 ^ 18), sym (?n div 2 ^ 12)]"
    using "3.prems"(2) by (simp add: plain_def Let_def)
  have l: "length buf = i + 4" using arg_cong [OF a, of length] by simp
  have "?n div 2 ^ 16 mod 256 = unat x"
    using unat_u8_bound [of x] unat_u8_bound [of y] by simp
  then have g: "decode_group ok buf (length buf) i (b, n) = Some (Inr (b @ [char_of (unat x)], n))"
    using decode_group_one [OF a refl lt p] put_fits [of "[char_of (unat x)]" 1 b n ok] "3.prems"(3)
    by simp
  have "decode_loop ok buf (length buf) (i + 4) c = Some (Inr c)" for c
    by (subst decode_loop.simps) (simp add: l)
  with g l show ?case by (subst decode_loop.simps) simp
next
  case (4 x y z rest)
  let ?n = "unat x * 2 ^ 16 + unat y * 2 ^ 8 + unat z"
  note bounds = unat_u8_bound [of x] unat_u8_bound [of y] unat_u8_bound [of z]
  have lt: "?n < 2 ^ 24" using bounds by simp
  have a: "drop i buf = map byte_of ([sym (?n div 2 ^ 18), sym (?n div 2 ^ 12), sym (?n div 2 ^ 6), sym ?n]
      @ base64 rest)"
    using "4.prems"(1) by (simp add: Let_def)
  have p: "plain [sym (?n div 2 ^ 18), sym (?n div 2 ^ 12), sym (?n div 2 ^ 6), sym ?n]"
    "plain (base64 rest)"
    using "4.prems"(2) by (simp_all add: plain_def Let_def)
  note gs = group_start [OF a [simplified append.simps]]
  have e: "?n = (unat x * 256 + unat y) * 256 + unat z" by simp
  then have "?n div 2 ^ 8 = unat x * 256 + unat y" using bounds(3) by simp
  then have v: "?n div 2 ^ 16 mod 256 = unat x" "?n div 2 ^ 8 mod 256 = unat y"
    using bounds by simp_all
  have v3: "?n mod 256 = unat z" by (simp only: e mod_mult_self3 mod_less [OF bounds(3)])
  have g: "decode_group ok buf (length buf) i (b, n)
      = Some (Inr (b @ [char_of (unat x), char_of (unat y), char_of (unat z)], n))"
    unfolding decode_group_three [OF a refl lt p(1)] v v3
    by (rule put_fits) (use "4.prems"(3) in simp_all)
  have "decode_loop ok buf (length buf) (i + 4) (b @ [char_of (unat x), char_of (unat y), char_of (unat z)], n)
      = Some (Inr ((b @ [char_of (unat x), char_of (unat y), char_of (unat z)]) @ decoded rest, n))"
    by (rule "4.IH") (use gs(6) p(2) "4.prems"(3) in simp_all)
  with g gs(1) show ?case by (subst decode_loop.simps) simp
qed

section \<open>Properties\<close>

text \<open>
  C23: the encoder is base64. With memory available, \<open>RV_base64_encode\<close> returns exactly the
  RFC 4648 encoding of its input, padded to a multiple of four, whatever buffer the caller passes;
  it never writes behind the buffer.
\<close>

theorem encode_is_base64:
  assumes "4 * length bs + 4 \<le> 2 ^ 62" and "\<And>m. ok m"
  shows "\<exists>n. RV_base64_encode ok (Some bs) True out_size = Some (Inr (base64 bs, n)) \<and>
    length (base64 bs) mod 4 = 0"
proof -
  have "length (base64 bs) mod 4 = 0"
    by (induction bs rule: base64.induct) (simp_all add: Let_def)
  moreover obtain n where "RV_base64_encode ok (Some bs) True out_size = Some (Inr (base64 bs, n))"
    using encode_ok [of bs ok out_size, OF assms] by (elim exE)
  ultimately show ?thesis by (intro exI [of _ n]) simp
qed

theorem encode_is_base64_witness:
  "\<exists>n. RV_base64_encode (\<lambda>_. True) (Some [77, 97, 110, 33]) True (Some 2) = Some (Inr (''TWFuIQ=='', n))"
proof -
  have "base64 [77, 97, 110, 33] = ''TWFuIQ==''"
    by (simp add: Let_def sym_def encode_charset_def)
  with encode_is_base64 [of "[77, 97, 110, 33]" "\<lambda>_. True" "Some 2"] show ?thesis by simp
qed



text \<open>
  The characters \<open>+\<close> and \<open>/\<close>, which the encoder produces, are not in the decoder's
  alphabet: decoding a group that contains one in its first two places uses the NULL of \<open>strchr\<close>.
\<close>

lemma decode_foreign_symbol:
  assumes "c0 \<in> {CHR ''+'', CHR ''/''} \<or> c1 \<in> {CHR ''+'', CHR ''/''}" and "\<And>m. ok m"
  shows "RV_base64_decode ok (Some (map byte_of [c0, c1, c2, c3])) 4 True out_size = None"
proof -
  let ?buf = "map byte_of [c0, c1, c2, c3]"
  have no: "decode_sextet (byte_of c) = None" if "c \<in> {CHR ''+'', CHR ''/''}" for c
  proof -
    have "char_index decode_charset (CHR ''+'') = None" "char_index decode_charset (CHR ''/'') = None"
      by code_simp+
    with that show ?thesis by (auto simp: decode_sextet_def)
  qed
  have a: "drop 0 ?buf = map byte_of (c0 # c1 # c2 # c3 # [])" by simp
  note w = decode_group_sets [OF a, of 4]
  have s: "decode_sextet (byte_of c0) = None \<or> decode_sextet (byte_of c1) = None" 
    using assms(1) no [of c0] no [of c1] by (elim disjE) simp_all
  have "decode_group ok ?buf 4 0 b = None" for b
  proof -
    have l: "4 = length ?buf" "(length ?buf \<le> 0 + 3) = False" by simp_all
    have r: "Option.bind x (\<lambda>_. None) = None" for x :: "u8 option" by (cases x) simp_all
    from s show ?thesis
      by (elim disjE) (simp_all only: decode_group_def w [OF l(1)] four_bytes Let_def l(2) if_False
        bind.bind_lzero r if_cancel)
  qed
  then have d: "decode_loop ok ?buf 4 0 b = None" for b by (subst decode_loop.simps) simp
  obtain n where "initial_buffer ok out_size = Some (Inr ([], n))"
    using initial_buffer_ok [of ok out_size, OF assms(2)] by blast
  then show ?thesis using d [of "([], n)"] by (simp add: RV_base64_decode_def)
qed

end
