(* ===== verification/Paths.thy ===== *)
theory Paths
  imports Mem_Buffer
begin

text \<open>
  Path names in \<open>src/vol-rest/src/rest_vol.c\<close>: \<open>H5_rest_basename\<close>, \<open>H5_rest_dirname\<close>, the URL
  encoding of a path (\<open>H5_rest_url_encode_path\<close>), the path kept in an object handle
  (\<open>RV_set_object_handle_path\<close>), the URL section of an object type
  (\<open>RV_set_object_type_header\<close>) and \<open>strtrim\<close>.

  \<open>curl_easy_escape\<close> is a parameter \<open>escape\<close>; its result \<open>None\<close> is NULL.  A C string is the
  list of its characters before the NUL.
\<close>

datatype path_error = BadValue | CantAlloc | CantEncode

section \<open>Base name and directory name\<close>

definition H5_rest_basename :: "string \<Rightarrow> string" where
  "H5_rest_basename path = (case split_last (CHR ''/'') path of Some (_, post) \<Rightarrow> post | None \<Rightarrow> path)"

text \<open>\<open>len\<close> is the pointer difference; NULL when \<open>malloc\<close> fails.\<close>

definition H5_rest_dirname :: "bool \<Rightarrow> string \<Rightarrow> string option" where
  "H5_rest_dirname malloc_ok path =
     (let len = length path - length (H5_rest_basename path)
      in if malloc_ok then Some (take len path) else None)"

section \<open>URL encoding\<close>

text \<open>The components after the first one.\<close>

fun encode_components ::
  "(u64 \<Rightarrow> bool) \<Rightarrow> (string \<Rightarrow> string option) \<Rightarrow> string list \<Rightarrow> out_buf \<Rightarrow> (path_error + out_buf) option"
where
  "encode_components ok escape [] b = Some (Inr b)"
| "encode_components ok escape (token # tokens) b =
     (case escape token of
        None \<Rightarrow> Some (Inl CantEncode)
      | Some component \<Rightarrow>
          andthen (checked_put CantAlloc ok (length component + 1) (CHR ''/'' # component) b)
            (encode_components ok escape tokens))"

definition encode_first ::
  "(u64 \<Rightarrow> bool) \<Rightarrow> (string \<Rightarrow> string option) \<Rightarrow> string list \<Rightarrow> out_buf \<Rightarrow> (path_error + out_buf) option"
where
  "encode_first ok escape tokens b =
     (case tokens of
        [] \<Rightarrow> Some (Inr b)
      | token # rest \<Rightarrow>
          (case escape token of
             None \<Rightarrow> Some (Inl CantEncode)
           | Some component \<Rightarrow>
               andthen (checked_put CantAlloc ok (length component) component b)
                 (encode_components ok escape rest)))"

text \<open>
  The prefix is copied unchecked; it must fit the buffer.  The result is the encoded path
  before the NUL and the size of its buffer.
\<close>

definition H5_rest_url_encode_path ::
  "(u64 \<Rightarrow> bool) \<Rightarrow> (string \<Rightarrow> string option) \<Rightarrow> string option \<Rightarrow> (path_error + out_buf) option" where
  "H5_rest_url_encode_path ok escape path_arg =
     (case path_arg of
        None \<Rightarrow> Some (Inl BadValue)
      | Some path \<Rightarrow>
          let prefix = takeWhile (\<lambda>c. \<not> is_alnum_char c) path;
              nalloc = of_nat (length path - length prefix + 1) :: u64
          in if \<not> ok nalloc then Some (Inl CantAlloc)
             else
               let path_copy = drop (length prefix) path;
                   nalloc = 3 * nalloc + of_nat (length prefix) + 1
               in if \<not> ok nalloc then Some (Inl CantAlloc)
                  else if unat nalloc < length prefix then None
                  else andthen (encode_first ok escape (strtok_all ''/'' path_copy) (prefix, nalloc))
                         (\<lambda>b. andthen (checked_put CantAlloc ok 1 [CHR 0x00] b)
                           (\<lambda>b. Some (Inr (butlast (fst b), snd b)))))"

section \<open>Handle paths\<close>

text \<open>
  \<open>strncpy (dst, src, n)\<close>: at most \<open>n\<close> characters of the string, then NULs up to \<open>n\<close>.
\<close>

definition strncpy_bytes :: "string \<Rightarrow> nat \<Rightarrow> char list" where
  "strncpy_bytes src n = take n (src @ replicate n (CHR 0x00))"

text \<open>
  \<open>Inr None\<close> is NULL in \<open>*buf\<close>; \<open>Inr (Some b)\<close> is the allocated block; the outer \<open>None\<close> is a
  write outside of it.
\<close>

definition RV_set_object_handle_path ::
  "bool \<Rightarrow> string option \<Rightarrow> string option \<Rightarrow> (path_error + char option list option) option" where
  "RV_set_object_handle_path malloc_ok obj_path parent_path =
     (case obj_path of
        None \<Rightarrow> Some (Inr None)
      | Some obj \<Rightarrow>
          let relative = (obj = [] \<or> hd obj \<noteq> CHR ''/'');
              include_parent_path = (parent_path \<noteq> None \<and> parent_path \<noteq> Some ''/'' \<and> relative);
              parent = the parent_path;
              path_size = (if include_parent_path then length parent + 1 + length obj + 1
                           else 1 + length obj + 1)
          in if \<not> malloc_ok then Some (Inl CantAlloc)
             else do {
               let b = replicate path_size None;
               b \<leftarrow> (if include_parent_path then write_bytes 0 (strncpy_bytes parent path_size) b
                    else Some b);
               let path_len = (if include_parent_path then length parent else 0);
               b \<leftarrow> (if relative then write_bytes path_len ''/'' b else Some b);
               let path_len = (if relative then path_len + 1 else path_len);
               b \<leftarrow> write_bytes path_len (strncpy_bytes obj (length obj + 1)) b;
               b \<leftarrow> write_bytes (path_size - 1) [CHR 0x00] b;
               Some (Inr (Some b))
             })"

text \<open>The C string at the start of a block; \<open>None\<close> when it is not terminated inside.\<close>

fun c_string :: "char option list \<Rightarrow> string option" where
  "c_string [] = None"
| "c_string (None # _) = None"
| "c_string (Some c # b) = (if c = CHR 0x00 then Some [] else map_option ((#) c) (c_string b))"

section \<open>Object types and trimming\<close>

text \<open>\<open>H5I_type_t\<close>, as far as the connector distinguishes it.\<close>

datatype object_type = H5I_FILE | H5I_GROUP | H5I_DATATYPE | H5I_DATASET | H5I_ATTR | H5I_UNINIT | H5I_BADID

definition RV_set_object_type_header :: "object_type \<Rightarrow> path_error + string" where
  "RV_set_object_type_header t =
     (case t of
        H5I_FILE \<Rightarrow> Inr ''groups''
      | H5I_GROUP \<Rightarrow> Inr ''groups''
      | H5I_DATATYPE \<Rightarrow> Inr ''datatypes''
      | H5I_DATASET \<Rightarrow> Inr ''datasets''
      | _ \<Rightarrow> Inl BadValue)"

text \<open>\<open>strtrim\<close>; \<open>trim_back\<close> is the loop on \<open>end\<close>, an index into the string.\<close>

fun trim_back :: "string \<Rightarrow> nat \<Rightarrow> nat" where
  "trim_back s 0 = 0"
| "trim_back s (Suc e) = (if is_space_char (s ! Suc e) then trim_back s e else Suc e)"

definition strtrim :: "string \<Rightarrow> string" where
  "strtrim str =
     (let s = dropWhile is_space_char str
      in if s = [] then [] else take (trim_back s (length s - 1) + 1) s)"

section \<open>Properties of names\<close>

lemma dirname_basename:
  "H5_rest_dirname True path = Some d \<Longrightarrow> path = d @ H5_rest_basename path"
  by (auto simp: H5_rest_dirname_def H5_rest_basename_def Let_def split: option.splits
      dest: split_last_Some)

lemma basename_no_slash: "CHR ''/'' \<notin> set (H5_rest_basename path)"
  by (auto simp: H5_rest_basename_def split_last_None_iff split: option.splits dest: split_last_Some)

lemma dirname_ends:
  assumes "H5_rest_dirname True path = Some d"
  shows "d = [] \<or> last d = CHR ''/''"
proof (cases "split_last (CHR ''/'') path")
  case (Some p)
  obtain pre post where p: "p = (pre, post)" by (cases p)
  have "path = pre @ CHR ''/'' # post" using split_last_Some Some p by blast
  with assms Some p show ?thesis by (auto simp: H5_rest_dirname_def H5_rest_basename_def)
qed (use assms in \<open>simp add: H5_rest_dirname_def H5_rest_basename_def\<close>)

lemma basename_unique:
  assumes "CHR ''/'' \<notin> set b" and "d = [] \<or> last d = CHR ''/''"
  shows "H5_rest_basename (d @ b) = b" and "H5_rest_dirname True (d @ b) = Some d"
proof -
  have "H5_rest_basename (d @ b) = b"
  proof (cases "d = []")
    case True
    with assms(1) show ?thesis
      by (simp add: H5_rest_basename_def split_last_None_iff [THEN iffD2])
  next
    case False
    then obtain d' where d: "d = d' @ [CHR ''/'']" using assms(2) by (metis append_butlast_last_id)
    have n: "split_last (CHR ''/'') b = None" using assms(1) by (simp add: split_last_None_iff)
    have "split_last (CHR ''/'') (xs @ CHR ''/'' # b) = Some (xs, b)" for xs
      using n by (induction xs) auto
    with d show ?thesis by (simp add: H5_rest_basename_def)
  qed
  then show "H5_rest_basename (d @ b) = b" "H5_rest_dirname True (d @ b) = Some d"
    by (simp_all add: H5_rest_dirname_def)
qed

lemma trim_back_spec:
  assumes "e < length s"
  shows "take (trim_back s e + 1) s = s ! 0 # rev (dropWhile is_space_char (rev (tl (take (e + 1) s))))"
  using assms
proof (induction e)
  case 0
  then show ?case by (cases s) auto
next
  case (Suc e)
  have t: "tl (take (Suc e + 1) s) = tl (take (e + 1) s) @ [s ! Suc e]"
    using Suc.prems by (cases s) (simp_all add: take_Suc_nth_snoc)
  show ?case
  proof (cases "is_space_char (s ! Suc e)")
    case True
    with Suc t show ?thesis by simp
  next
    case False
    have "take (Suc e + 1) s = s ! 0 # tl (take (Suc e + 1) s)" using Suc.prems by (cases s) auto
    with False t show ?thesis by simp
  qed
qed

lemma strtrim_spec:
  "strtrim str = rev (dropWhile is_space_char (rev (dropWhile is_space_char str)))"
proof (cases "dropWhile is_space_char str")
  case (Cons c cs)
  have c: "\<not> is_space_char c" using hd_dropWhile [of is_space_char str] Cons by simp
  have "dropWhile is_space_char (rev cs @ [c]) = dropWhile is_space_char (rev cs) @ [c]"
    using c by (induction "rev cs") (auto simp: dropWhile_append)
  with trim_back_spec [of "length (c # cs) - 1" "c # cs"] show ?thesis
    by (simp add: strtrim_def Cons)
qed (simp add: strtrim_def del: dropWhile_eq_Nil_conv)

section \<open>URL encoding of a path\<close>

lemma encode_components_fits:
  assumes "\<And>t u. escape t = Some u \<Longrightarrow> length u \<le> 3 * length t"
    and "length b + sum_list (map (\<lambda>t. 3 * length t + 1) ts) \<le> unat n"
  shows "encode_components ok escape ts (b, n) =
    (case those (map escape ts) of
       None \<Rightarrow> Some (Inl CantEncode)
     | Some us \<Rightarrow> Some (Inr (b @ concat (map ((#) (CHR ''/'')) us), n)))"
  using assms(2)
proof (induction ts arbitrary: b)
  case (Cons t ts)
  show ?case
  proof (cases "escape t")
    case (Some u)
    have "length u \<le> 3 * length t" by (rule assms(1) [OF Some])
    with Cons.prems have "checked_put CantAlloc ok (length u + 1) (CHR ''/'' # u) (b, n)
        = Some (Inr (b @ CHR ''/'' # u, n))"
      and "length (b @ CHR ''/'' # u) + sum_list (map (\<lambda>t. 3 * length t + 1) ts) \<le> unat n"
      by (simp_all add: checked_put_fits)
    with Some Cons.IH [of "b @ CHR ''/'' # u"] show ?thesis by (simp split: option.splits)
  qed simp
qed simp

lemma encode_first_fits:
  assumes "\<And>t u. escape t = Some u \<Longrightarrow> length u \<le> 3 * length t"
    and "length b + sum_list (map (\<lambda>t. 3 * length t + 1) ts) \<le> unat n"
  shows "encode_first ok escape ts (b, n) =
    (case those (map escape ts) of
       None \<Rightarrow> Some (Inl CantEncode)
     | Some us \<Rightarrow> Some (Inr (b @ join ''/'' us, n)))"
proof (cases ts)
  case (Cons t ts')
  show ?thesis
  proof (cases "escape t")
    case (Some u)
    have "length u \<le> 3 * length t" by (rule assms(1) [OF Some])
    with assms(2) Cons have "checked_put CantAlloc ok (length u) u (b, n) = Some (Inr (b @ u, n))"
      and "length (b @ u) + sum_list (map (\<lambda>t. 3 * length t + 1) ts') \<le> unat n"
      by (simp_all add: checked_put_fits)
    moreover have "((@) ''/'' :: string \<Rightarrow> string) = (#) (CHR ''/'')" by auto
    ultimately show ?thesis
      using Some Cons encode_components_fits [where escape = escape and b = "b @ u" and ts = ts' and n = n and ok = ok, OF assms(1)]
      by (simp add: encode_first_def join_Cons split: option.splits)
  qed (simp add: encode_first_def Cons)
qed (simp add: encode_first_def)

lemma those_lengths:
  assumes "\<And>t u. escape t = Some u \<Longrightarrow> length u \<le> 3 * length t"
  shows "those (map escape ts) = Some us \<Longrightarrow> length (join ''/'' us) \<le> sum_list (map (\<lambda>t. 3 * length t + 1) ts)"
proof (induction ts arbitrary: us)
  case (Cons t ts)
  then obtain u us' where u: "escape t = Some u" "those (map escape ts) = Some us'" "us = u # us'"
    by (auto split: option.splits)
  have "length (join ''/'' us) \<le> length u + 1 + length (join ''/'' us')"
    unfolding u(3) by (cases us') simp_all
  with Cons.IH [OF u(2)] assms [OF u(1)] show ?case by simp
qed simp

text \<open>The encoder in closed form, when no allocation fails.\<close>

lemma url_encoded:
  fixes path :: string
  assumes "\<And>t u. escape t = Some u \<Longrightarrow> length u \<le> 3 * length t"
    and "length path < 2 ^ 61" and "\<And>n. unat n \<le> 4 * length path + 4 \<Longrightarrow> ok n"
  defines "prefix \<equiv> takeWhile (\<lambda>c. \<not> is_alnum_char c) path"
  shows "H5_rest_url_encode_path ok escape (Some path) =
    (case those (map escape (strtok_all ''/'' (drop (length prefix) path))) of
       None \<Rightarrow> Some (Inl CantEncode)
     | Some us \<Rightarrow> Some (Inr (prefix @ join ''/'' us,
                            of_nat (3 * (length path - length prefix + 1) + length prefix + 1))))"
proof -
  let ?ts = "strtok_all ''/'' (drop (length prefix) path)"
  let ?m = "length path - length prefix + 1"
  let ?n = "3 * ?m + length prefix + 1"
  have p: "length prefix \<le> length path" unfolding prefix_def by (rule length_takeWhile_le)
  have m: "unat (of_nat ?m :: u64) = ?m" by (rule unat_of_nat_u64) (use assms(2) p in simp)
  have n: "unat (of_nat ?n :: u64) = ?n" by (rule unat_of_nat_u64) (use assms(2) p in simp)
  have w: "3 * of_nat ?m + of_nat (length prefix) + 1 = (of_nat ?n :: u64)" by simp
  have ok: "ok (of_nat ?m)" "ok (of_nat ?n)" using assms(3) m n p by simp_all
  have s: "sum_list (map (\<lambda>t. 3 * length t + 1) ?ts) \<le> 3 * ?m"
  proof -
    have "sum_list (map (\<lambda>t. 3 * length t + 1) ts) \<le> 3 * sum_list (map (\<lambda>t. length t + 1) ts)"
      for ts :: "string list" by (induction ts) auto
    from this [of ?ts] strtok_all_length [of "''/''" "drop (length prefix) path"] show ?thesis by simp
  qed
  have le: "length prefix + sum_list (map (\<lambda>t. 3 * length t + 1) ?ts) \<le> unat (of_nat ?n :: u64)"
    unfolding n using s by linarith
  have f: "encode_first ok escape ?ts (prefix, of_nat ?n) =
    (case those (map escape ?ts) of None \<Rightarrow> Some (Inl CantEncode)
     | Some us \<Rightarrow> Some (Inr (prefix @ join ''/'' us, of_nat ?n)))"
    by (rule encode_first_fits [OF assms(1) le])
  have fin: "checked_put CantAlloc ok 1 [CHR 0x00] (prefix @ join ''/'' us, of_nat ?n)
      = Some (Inr ((prefix @ join ''/'' us) @ [CHR 0x00], of_nat ?n))"
    if "those (map escape ?ts) = Some us" for us
    by (rule checked_put_fits)
      (use those_lengths [OF assms(1) that] s in \<open>simp_all only: n length_append list.size, linarith\<close>)
  have l: "\<not> unat (of_nat ?n :: u64) < length prefix" unfolding n by simp
  show ?thesis
    unfolding H5_rest_url_encode_path_def option.case prefix_def [symmetric] Let_def w
    using ok l f fin by (cases "those (map escape ?ts)") (simp_all add: butlast_append del: of_nat_add of_nat_mult of_nat_Suc)
qed

text \<open>
  C35: the encoded path is the prefix up to the first letter or digit, unchanged, followed by
  the escaped components separated by single slashes.  The buffer of three bytes per
  character never has to grow, and the path with its NUL fits it.
\<close>

theorem url_encode_path:
  fixes path :: string
  assumes "\<And>t u. escape t = Some u \<Longrightarrow> length u \<le> 3 * length t"
    and "length path < 2 ^ 61" and "\<And>n. unat n \<le> 4 * length path + 4 \<Longrightarrow> ok n"
  defines "prefix \<equiv> takeWhile (\<lambda>c. \<not> is_alnum_char c) path"
  shows "H5_rest_url_encode_path ok escape (Some path) =
    (case those (map escape (strtok_all ''/'' (drop (length prefix) path))) of
       None \<Rightarrow> Some (Inl CantEncode)
     | Some us \<Rightarrow> Some (Inr (prefix @ join ''/'' us,
                            of_nat (3 * (length path - length prefix + 1) + length prefix + 1))))"
  unfolding prefix_def by (rule url_encoded [OF assms(1-3)])

text \<open>A percent encoder for the witness: letters, digits and \<open>-._~\<close> are kept.\<close>

definition hex_digit :: "nat \<Rightarrow> char" where
  "hex_digit n = ''0123456789ABCDEF'' ! n"

definition percent_encode :: "string \<Rightarrow> string option" where
  "percent_encode s = Some (concat (map (\<lambda>c.
     if is_alnum_char c \<or> c \<in> set ''-._~'' then [c]
     else [CHR ''%'', hex_digit (of_char c div 16), hex_digit (of_char c mod 16)]) s))"

theorem url_encode_path_witness:
  "H5_rest_url_encode_path (\<lambda>_. True) percent_encode (Some ''/ #a//b c/'')
     = Some (Inr (''/ #a/b%20c'', 28))"
proof -
  have l: "length u \<le> 3 * length t" if "percent_encode t = Some u" for t u
  proof -
    have "length (concat (map (\<lambda>c. if is_alnum_char c \<or> c \<in> set ''-._~'' then [c]
     else [CHR ''%'', hex_digit (of_char c div 16), hex_digit (of_char c mod 16)]) t)) \<le> 3 * length t"
      by (induction t) simp_all
    with that show ?thesis by (simp only: percent_encode_def option.inject)
  qed
  have p: "takeWhile (\<lambda>c. \<not> is_alnum_char c) ''/ #a//b c/'' = ''/ #''" by code_simp
  have t: "strtok_all ''/'' ''a//b c/'' = [''a'', ''b c'']" by code_simp
  have e: "those (map percent_encode [''a'', ''b c'']) = Some [''a'', ''b%20c'']" by code_simp
  have d: "drop (length ''/ #'') ''/ #a//b c/'' = ''a//b c/''" by simp
  from url_encode_path [of percent_encode "''/ #a//b c/''" "\<lambda>_. True", OF l] show ?thesis
    unfolding p d t e by simp
qed

section \<open>The path of an object handle\<close>

text \<open>What the handle path should be.\<close>

definition handle_name :: "string \<Rightarrow> string option \<Rightarrow> string" where
  "handle_name obj parent =
     (if obj \<noteq> [] \<and> hd obj = CHR ''/'' then obj
      else (case parent of None \<Rightarrow> [] | Some p \<Rightarrow> if p = ''/'' then [] else p) @ ''/'' @ obj)"

lemma c_string_terminated:
  "CHR 0x00 \<notin> set s \<Longrightarrow> c_string (map Some s @ Some (CHR 0x00) # b) = Some s"
  by (induction s) auto

lemma strncpy_bytes_fits: "length s \<le> n \<Longrightarrow> strncpy_bytes s n = s @ replicate (n - length s) (CHR 0x00)"
  by (simp add: strncpy_bytes_def)

lemma write_bytes_end:
  "i + length bs \<le> length b \<Longrightarrow>
    write_bytes i bs b = Some (take i b @ map Some bs @ drop (i + length bs) b)"
  by (simp add: write_bytes_def)

text \<open>
  An absolute object path is kept, a relative one is put behind the parent's path and a
  slash, the root and a missing parent counting as empty.  Every write stays inside the
  block, which holds the terminated string.
\<close>

lemma handle_path:
  assumes "CHR 0x00 \<notin> set obj" and "\<And>p. parent = Some p \<Longrightarrow> CHR 0x00 \<notin> set p"
  shows "\<exists>b. RV_set_object_handle_path True (Some obj) parent = Some (Inr (Some b)) \<and>
    c_string b = Some (handle_name obj parent)"
proof -
  consider (abs) "obj \<noteq> []" "hd obj = CHR ''/''"
    | (root) "\<not> (obj \<noteq> [] \<and> hd obj = CHR ''/'')" "parent = None \<or> parent = Some ''/''"
    | (rel) p where "\<not> (obj \<noteq> [] \<and> hd obj = CHR ''/'')" "parent = Some p" "p \<noteq> ''/''"
    by (cases parent) auto
  then show ?thesis
  proof cases
    case abs
    then show ?thesis
      using c_string_terminated [OF assms(1), of "[Some (CHR 0x00)]"]
      by (simp add: RV_set_object_handle_path_def handle_name_def write_bytes_def strncpy_bytes_fits)
  next
    case root
    then have n: "handle_name obj parent = CHR ''/'' # obj" by (auto simp: handle_name_def)
    have "CHR 0x00 \<notin> set (CHR ''/'' # obj)" using assms(1) by simp
    note c = c_string_terminated [OF this, of "[]"]
    from root c n show ?thesis
      by (auto simp: RV_set_object_handle_path_def write_bytes_def strncpy_bytes_fits)
  next
    case rel
    then have n: "handle_name obj parent = p @ CHR ''/'' # obj" by (simp add: handle_name_def)
    have "CHR 0x00 \<notin> set (p @ CHR ''/'' # obj)" using assms rel(2) by simp
    note c = c_string_terminated [OF this, of "[]"]
    from rel c n show ?thesis
      by (auto simp: RV_set_object_handle_path_def write_bytes_def strncpy_bytes_fits)
  qed
qed

end
