(* ===== verification/Responses.thy ===== *)
theory Responses
  imports Paths
begin

text \<open>
  Requests and responses: the error handling of a cURL transfer (\<open>HANDLE_RESPONSE\<close> and
  \<open>CURL_PERFORM_INTERNAL\<close> of \<open>rest_vol.h\<close>), \<open>RV_parse_response\<close> and the callbacks of
  \<open>rest_vol.c\<close> that read a response: the object URI, its class, the server version, the
  allocated size, creation properties, and link and attribute names by index; and the macro
  \<open>FIND_JSON_SECTION_END\<close> that cuts a JSON object out of a text.

  yajl is a library: its two functions are the fields of the record \<open>yajl\<close>, an argument of
  the callbacks.  The type \<open>json\<close> is what the connector sees of a \<open>yajl_val\<close> through the accessor
  macros.  cURL is the argument \<open>perform\<close>.
\<close>

section \<open>Values and errors\<close>

text \<open>The minor error numbers of \<open>FUNC_GOTO_ERROR\<close>.\<close>

datatype failure =
    H5E_BADVALUE | H5E_PARSEERROR | H5E_CANTGET | H5E_CANTALLOC | H5E_CALLBACK | H5E_CANTCREATE
  | H5E_SYSERRSTR | H5E_UNSUPPORTED

text \<open>
  A number carries its text and, when the parser could convert it, the \<open>long long\<close> value.
\<close>

datatype json =
    YString string
  | YNumber string "int option"
  | YObject "(string \<times> json) list"
  | YArray "json list"
  | YTrue
  | YFalse
  | YNull

datatype yajl_type = yajl_t_string | yajl_t_number | yajl_t_object | yajl_t_array | yajl_t_any

record yajl =
  tree_parse :: "string \<Rightarrow> json option"
  tree_get :: "json \<Rightarrow> string list \<Rightarrow> yajl_type \<Rightarrow> json option"

fun YAJL_GET_STRING :: "json \<Rightarrow> string option" where
  "YAJL_GET_STRING (YString s) = Some s"
| "YAJL_GET_STRING _ = None"

fun YAJL_GET_INTEGER :: "json \<Rightarrow> int option" where
  "YAJL_GET_INTEGER (YNumber _ i) = i"
| "YAJL_GET_INTEGER _ = None"

fun array_of :: "json option \<Rightarrow> json list option" where
  "array_of (Some (YArray vs)) = Some vs"
| "array_of _ = None"

section \<open>HTTP\<close>

datatype http_error =
    BadRequest | AuthenticationNeeded | Unauthorized | NotFound | MethodNotAllowed | AlreadyExists
  | Deleted | SelectionTooLarge | InternalError | NotImplemented | ServiceUnavailable
  | GatewayTimeout | UnknownError | CurlFailed | NoResponseCode

definition HANDLE_RESPONSE :: "int \<Rightarrow> http_error + unit" where
  "HANDLE_RESPONSE code =
     (if code = 200 then Inr ()
      else if code = 201 then Inr ()
      else if code = 400 then Inl BadRequest
      else if code = 401 then Inl AuthenticationNeeded
      else if code = 403 then Inl Unauthorized
      else if code = 404 then Inl NotFound
      else if code = 405 then Inl MethodNotAllowed
      else if code = 409 then Inl AlreadyExists
      else if code = 410 then Inl Deleted
      else if code = 413 then Inl SelectionTooLarge
      else if code = 500 then Inl InternalError
      else if code = 501 then Inl NotImplemented
      else if code = 503 then Inl ServiceUnavailable
      else if code = 504 then Inl GatewayTimeout
      else Inl UnknownError)"

text \<open>
  \<open>perform\<close> is \<open>curl_easy_perform\<close>, which runs the write callback on the response buffer and says
  whether it returned \<open>CURLE_OK\<close>; \<open>code\<close> is the response code that \<open>curl_easy_getinfo\<close> reads.
\<close>

definition CURL_PERFORM_INTERNAL ::
  "(response_buffer \<Rightarrow> (bool \<times> response_buffer) option) \<Rightarrow> int option \<Rightarrow> bool \<Rightarrow> response_buffer
     \<Rightarrow> ((http_error + unit) \<times> response_buffer) option" where
  "CURL_PERFORM_INTERNAL perform code handle_HTTP_response rb =
     (case perform rb of
        None \<Rightarrow> None
      | Some (result, rb) \<Rightarrow>
          let rb = rb\<lparr>curr := 0\<rparr>
          in Some (if \<not> result then (Inl CurlFailed, rb)
                   else if handle_HTTP_response
                   then (case code of
                           None \<Rightarrow> (Inl NoResponseCode, rb)
                         | Some c \<Rightarrow> (HANDLE_RESPONSE c, rb))
                   else (Inr (), rb)))"

section \<open>Parsing a response\<close>

text \<open>The callback is given what it may read and the state it may change.\<close>

definition RV_parse_response ::
  "string option \<Rightarrow> (string \<Rightarrow> 's \<Rightarrow> (failure + unit) \<times> 's) option \<Rightarrow> 's \<Rightarrow> (failure + unit) \<times> 's" where
  "RV_parse_response HTTP_response parse_callback s =
     (case HTTP_response of
        None \<Rightarrow> (Inl H5E_BADVALUE, s)
      | Some r \<Rightarrow>
          (case parse_callback of
             None \<Rightarrow> (Inr (), s)
           | Some f \<Rightarrow> (case f r s of (Inl _, s) \<Rightarrow> (Inl H5E_CALLBACK, s) | (Inr _, s) \<Rightarrow> (Inr (), s))))"

definition RV_parse_type :: "yajl \<Rightarrow> string \<Rightarrow> object_type \<Rightarrow> (failure + unit) \<times> object_type" where
  "RV_parse_type y response object_type =
     (case tree_parse y response of
        None \<Rightarrow> (Inl H5E_PARSEERROR, object_type)
      | Some parse_tree \<Rightarrow>
          (case tree_get y parse_tree [''class''] yajl_t_string of
             None \<Rightarrow> (Inl H5E_PARSEERROR, object_type)
           | Some key_obj \<Rightarrow>
               (case YAJL_GET_STRING key_obj of
                  None \<Rightarrow> (Inl H5E_PARSEERROR, object_type)
                | Some s \<Rightarrow>
                    if s = ''group'' then (Inr (), H5I_GROUP)
                    else if s = ''dataset'' then (Inr (), H5I_DATASET)
                    else if s = ''datatype'' then (Inr (), H5I_DATATYPE)
                    else (Inl H5E_PARSEERROR, object_type))))"

text \<open>The URI of an object: the string to copy, or \<open>None\<close> for a link that has no id.\<close>

definition found_uri :: "json option \<Rightarrow> failure + string option" where
  "found_uri key_obj =
     (case key_obj of
        None \<Rightarrow> Inl H5E_CANTGET
      | Some v \<Rightarrow> (case YAJL_GET_STRING v of None \<Rightarrow> Inl H5E_BADVALUE | Some s \<Rightarrow> Inr (Some s)))"

definition parsed_uri :: "yajl \<Rightarrow> json \<Rightarrow> failure + string option" where
  "parsed_uri y parse_tree =
     (let link_id = tree_get y parse_tree [''link'', ''id''] yajl_t_string;
          object_id = tree_get y parse_tree [''id''] yajl_t_string;
          root_id = tree_get y parse_tree [''root''] yajl_t_string;
          rest = (if link_id \<noteq> None then found_uri link_id
                  else if object_id \<noteq> None then found_uri object_id
                  else found_uri root_id)
      in case tree_get y parse_tree [''link'', ''class''] yajl_t_string of
           None \<Rightarrow> rest
         | Some key_obj \<Rightarrow>
             (case YAJL_GET_STRING key_obj of
                None \<Rightarrow> Inl H5E_BADVALUE
              | Some link_type \<Rightarrow>
                  if link_type = ''H5L_TYPE_SOFT'' \<or> link_type = ''H5L_TYPE_EXTERNAL''
                     \<or> link_type = ''H5L_TYPE_UD''
                  then Inr None else rest))"

definition URI_MAX_LENGTH :: nat where
  "URI_MAX_LENGTH = 256"

text \<open>\<open>buf_out\<close> is the caller's block; \<open>None\<close> is a write outside of it.\<close>

definition RV_copy_object_URI_callback ::
  "yajl \<Rightarrow> string \<Rightarrow> char option list \<Rightarrow> ((failure + unit) \<times> char option list) option" where
  "RV_copy_object_URI_callback y response buf_out =
     (case tree_parse y response of
        None \<Rightarrow> Some (Inl H5E_PARSEERROR, buf_out)
      | Some parse_tree \<Rightarrow>
          (case parsed_uri y parse_tree of
             Inl e \<Rightarrow> Some (Inl e, buf_out)
           | Inr None \<Rightarrow> Some (Inr (), buf_out)
           | Inr (Some s) \<Rightarrow>
               map_option (Pair (Inr ())) (write_bytes 0 (strncpy_bytes s URI_MAX_LENGTH) buf_out)))"

section \<open>Server version\<close>

record server_api_version =
  major :: u64
  minor :: u64
  patch :: u64

text \<open>\<open>(int)strtol (s, NULL, 10)\<close>: \<open>strtol\<close> saturates, the cast wraps.\<close>

definition strtol_int :: "string \<Rightarrow> int" where
  "strtol_int s = sint (word_of_int (max (- (2 ^ 63)) (min (2 ^ 63 - 1) (atoi s))) :: 32 word)"

text \<open>A field of the version; negative numbers are rejected.\<close>

definition version_field :: "string \<Rightarrow> failure + u64" where
  "version_field s = (if strtol_int s < 0 then Inl H5E_BADVALUE else Inr (of_int (strtol_int s)))"

text \<open>The three \<open>strtok_r\<close> steps.  A missing or bad field leaves the later fields as they were.\<close>

definition parse_version :: "string list \<Rightarrow> server_api_version \<Rightarrow> (failure + unit) \<times> server_api_version" where
  "parse_version tokens v =
     (case tokens of
        [] \<Rightarrow> (Inl H5E_BADVALUE, v)
      | t # tokens \<Rightarrow>
          (case version_field t of
             Inl e \<Rightarrow> (Inl e, v)
           | Inr n \<Rightarrow>
               let v = v\<lparr>major := n\<rparr>
               in case tokens of
                    [] \<Rightarrow> (Inl H5E_BADVALUE, v)
                  | t # tokens \<Rightarrow>
                      (case version_field t of
                         Inl e \<Rightarrow> (Inl e, v)
                       | Inr n \<Rightarrow>
                           let v = v\<lparr>minor := n\<rparr>
                           in case tokens of
                                [] \<Rightarrow> (Inl H5E_BADVALUE, v)
                              | t # _ \<Rightarrow>
                                  (case version_field t of
                                     Inl e \<Rightarrow> (Inl e, v)
                                   | Inr n \<Rightarrow> (Inr (), v\<lparr>patch := n\<rparr>)))))"

definition RV_parse_server_version ::
  "yajl \<Rightarrow> string \<Rightarrow> server_api_version \<Rightarrow> (failure + unit) \<times> server_api_version" where
  "RV_parse_server_version y response v =
     (case tree_parse y response of
        None \<Rightarrow> (Inl H5E_PARSEERROR, v)
      | Some parse_tree \<Rightarrow>
          (case tree_get y parse_tree [''version''] yajl_t_string of
             None \<Rightarrow> (Inl H5E_BADVALUE, v)
           | Some key_obj \<Rightarrow>
               (case YAJL_GET_STRING key_obj of
                  None \<Rightarrow> (Inl H5E_BADVALUE, v)
                | Some s \<Rightarrow> parse_version (strtok_all ''.'' s) v)))"

definition SERVER_VERSION_MATCHES_OR_EXCEEDS :: "server_api_version \<Rightarrow> u64 \<Rightarrow> u64 \<Rightarrow> u64 \<Rightarrow> bool" where
  "SERVER_VERSION_MATCHES_OR_EXCEEDS v major_needed minor_needed patch_needed \<longleftrightarrow>
     major v > major_needed \<or> (major v = major_needed \<and> minor v > minor_needed) \<or>
     (major v = major_needed \<and> minor v = minor_needed \<and> patch v \<ge> patch_needed)"

section \<open>Sizes, properties and names\<close>

definition RV_parse_allocated_size_callback :: "yajl \<Rightarrow> string \<Rightarrow> u64 \<Rightarrow> (failure + unit) \<times> u64" where
  "RV_parse_allocated_size_callback y response allocated_size =
     (case tree_parse y response of
        None \<Rightarrow> (Inl H5E_PARSEERROR, allocated_size)
      | Some parse_tree \<Rightarrow>
          (case tree_get y parse_tree [''allocated_size''] yajl_t_number of
             None \<Rightarrow> (Inl H5E_PARSEERROR, allocated_size)
           | Some key_obj \<Rightarrow>
               (case YAJL_GET_INTEGER key_obj of
                  None \<Rightarrow> (Inl H5E_BADVALUE, allocated_size)
                | Some i \<Rightarrow> if i < 0 then (Inl H5E_BADVALUE, allocated_size) else (Inr (), of_int i))))"

text \<open>The copy of the creation properties; \<open>malloc_ok\<close> says whether it can be allocated.\<close>

definition RV_parse_creation_properties_callback :: "yajl \<Rightarrow> bool \<Rightarrow> json \<Rightarrow> failure + string" where
  "RV_parse_creation_properties_callback y malloc_ok parse_tree =
     (case tree_get y parse_tree [''creationProperties''] yajl_t_string of
        None \<Rightarrow> Inl H5E_BADVALUE
      | Some key_obj \<Rightarrow>
          (case YAJL_GET_STRING key_obj of
             None \<Rightarrow> Inl H5E_BADVALUE
           | Some s \<Rightarrow> if malloc_ok then Inr s else Inl H5E_CANTALLOC))"

datatype iter_order = H5_ITER_UNKNOWN | H5_ITER_INC | H5_ITER_DEC | H5_ITER_NATIVE | H5_ITER_N

text \<open>Reading an element of an array of the tree; \<open>None\<close> is out of bounds.\<close>

definition element :: "'a list \<Rightarrow> u64 \<Rightarrow> 'a option" where
  "element xs i = (if unat i < length xs then Some (xs ! unat i) else None)"

text \<open>The loop over the keys of a link: the last \<open>title\<close>; a title that is no string is an error.\<close>

fun link_title :: "(string \<times> json) list \<Rightarrow> string option \<Rightarrow> failure + string option" where
  "link_title [] found = Inr found"
| "link_title ((k, v) # kvs) found =
     (if k = ''title''
      then (case YAJL_GET_STRING v of None \<Rightarrow> Inl H5E_PARSEERROR | Some s \<Rightarrow> link_title kvs (Some s))
      else link_title kvs found)"

text \<open>
  In decreasing order the code computes the position from \<open>u.object.len\<close> although the value is
  an array: \<open>alien_len\<close> is the content of that part of the union.  A link that is not an object
  would be read as one, which is undefined.
\<close>

definition RV_copy_link_name_by_index ::
  "yajl \<Rightarrow> u64 \<Rightarrow> bool \<Rightarrow> string \<Rightarrow> iter_order \<Rightarrow> u64 \<Rightarrow> (failure + string) option" where
  "RV_copy_link_name_by_index y alien_len malloc_ok response order index =
     (case tree_parse y response of
        None \<Rightarrow> Some (Inl H5E_PARSEERROR)
      | Some parse_tree \<Rightarrow>
          (case tree_get y parse_tree [''links''] yajl_t_array of
             Some (YArray values) \<Rightarrow>
               if values = [] then Some (Inl H5E_PARSEERROR)
               else if index \<ge> of_nat (length values) then Some (Inl H5E_PARSEERROR)
               else if order \<notin> {H5_ITER_DEC, H5_ITER_NATIVE, H5_ITER_INC} then Some (Inl H5E_BADVALUE)
               else
                 (case element values (if order = H5_ITER_DEC then alien_len - 1 - index else index) of
                    Some (YObject kvs) \<Rightarrow>
                      (case link_title kvs None of
                         Inl e \<Rightarrow> Some (Inl e)
                       | Inr None \<Rightarrow> Some (Inl H5E_PARSEERROR)
                       | Inr (Some name) \<Rightarrow> Some (if malloc_ok then Inr name else Inl H5E_PARSEERROR))
                  | _ \<Rightarrow> None)
           | Some _ \<Rightarrow> None
           | None \<Rightarrow> Some (Inl H5E_PARSEERROR)))"

text \<open>
  The bounds check is made while \<open>index\<close> is still 0; the requested position \<open>n\<close> is read
  afterwards.
\<close>

definition RV_copy_attribute_name_by_index ::
  "yajl \<Rightarrow> bool \<Rightarrow> string \<Rightarrow> iter_order \<Rightarrow> u64 \<Rightarrow> (failure + string) option" where
  "RV_copy_attribute_name_by_index y malloc_ok response order n =
     (let index = 0
      in case tree_parse y response of
        None \<Rightarrow> Some (Inl H5E_PARSEERROR)
      | Some parse_tree \<Rightarrow>
          (case tree_get y parse_tree [''attributes''] yajl_t_object of
             Some (YObject kvs) \<Rightarrow>
               let len = of_nat (length kvs) :: u64
               in if kvs = [] then Some (Inl H5E_PARSEERROR)
                  else if index \<ge> len then Some (Inl H5E_PARSEERROR)
                  else
                    let index = n
                    in if order \<notin> {H5_ITER_DEC, H5_ITER_NATIVE, H5_ITER_INC} then Some (Inl H5E_BADVALUE)
                       else
                         (case element (map fst kvs) (if order = H5_ITER_DEC then len - 1 - index else index) of
                            None \<Rightarrow> None
                          | Some s \<Rightarrow> Some (if malloc_ok then Inr s else Inl H5E_PARSEERROR))
           | Some _ \<Rightarrow> None
           | None \<Rightarrow> Some (Inl H5E_PARSEERROR)))"

text \<open>\<open>strstr\<close>: the text from the first occurrence on.\<close>

fun strstr :: "string \<Rightarrow> string \<Rightarrow> string option" where
  "strstr [] pat = (if pat = [] then Some [] else None)"
| "strstr (c # s) pat = (if take (length pat) (c # s) = pat then Some (c # s) else strstr s pat)"

section \<open>The end of a JSON object\<close>

text \<open>
  \<open>FIND_JSON_SECTION_END\<close> on the text behind \<open>start_ptr + 1\<close>; the result is the text from
  \<open>end_ptr\<close> on, \<open>None\<close> the error at the terminating NUL.  After a backslash the next character
  is looked at, which may be the NUL.
\<close>

fun section_end :: "bool \<Rightarrow> nat \<Rightarrow> string \<Rightarrow> string option" where
  "section_end suspend 0 s = Some s"
| "section_end suspend (Suc depth) [] = None"
| "section_end suspend (Suc depth) (c # s) =
     (if c = CHR 0x5C \<and> s \<noteq> [] \<and> (hd s = CHR 0x5C \<or> hd s = CHR 0x22)
      then section_end suspend (Suc depth) (tl s)
      else if c = CHR 0x22 then section_end (\<not> suspend) (Suc depth) s
      else if c = CHR ''{'' \<and> \<not> suspend then section_end suspend (Suc (Suc depth)) s
      else if c = CHR ''}'' \<and> \<not> suspend then section_end suspend depth s
      else section_end suspend (Suc depth) s)"

definition FIND_JSON_SECTION_END :: "string \<Rightarrow> string option" where
  "FIND_JSON_SECTION_END start = section_end False 1 (tl start)"

section \<open>Texts with balanced braces\<close>

text \<open>
  The shape of every JSON text as far as braces are concerned: strings with escapes, braces
  around more text, and other characters.
\<close>

datatype str_char = Plain char | Esc char

datatype piece = Str "str_char list" | Braces "piece list" | Other char

fun str_char_text :: "str_char \<Rightarrow> string" where
  "str_char_text (Plain c) = [c]"
| "str_char_text (Esc c) = [CHR 0x5C, c]"

fun str_char_ok :: "str_char \<Rightarrow> bool" where
  "str_char_ok (Plain c) \<longleftrightarrow> c \<noteq> CHR 0x22 \<and> c \<noteq> CHR 0x5C"
| "str_char_ok (Esc c) \<longleftrightarrow> True"

fun piece_text :: "piece \<Rightarrow> string" where
  "piece_text (Str cs) = CHR 0x22 # concat (map str_char_text cs) @ [CHR 0x22]"
| "piece_text (Braces ps) = CHR ''{'' # concat (map piece_text ps) @ ''}''"
| "piece_text (Other c) = [c]"

fun piece_ok :: "piece \<Rightarrow> bool" where
  "piece_ok (Str cs) \<longleftrightarrow> list_all str_char_ok cs"
| "piece_ok (Braces ps) \<longleftrightarrow> list_all piece_ok ps"
| "piece_ok (Other c) \<longleftrightarrow> c \<noteq> CHR 0x22 \<and> c \<noteq> CHR 0x5C \<and> c \<noteq> CHR ''{'' \<and> c \<noteq> CHR ''}''"

lemma section_end_str:
  "list_all str_char_ok cs \<Longrightarrow>
    section_end True (Suc d) (concat (map str_char_text cs) @ CHR 0x22 # s) = section_end False (Suc d) s"
proof (induction cs)
  case (Cons c cs)
  then show ?case by (cases c) auto
qed simp

lemma section_end_pieces:
  assumes "\<And>p d s. p \<in> set ps \<Longrightarrow> piece_ok p \<Longrightarrow>
    section_end False (Suc d) (piece_text p @ s) = section_end False (Suc d) s"
    and "list_all piece_ok ps"
  shows "section_end False (Suc d) (concat (map piece_text ps) @ s) = section_end False (Suc d) s"
  using assms by (induction ps) auto

lemma section_end_piece:
  "piece_ok p \<Longrightarrow> section_end False (Suc d) (piece_text p @ s) = section_end False (Suc d) s"
proof (induction p arbitrary: d s rule: piece_text.induct)
  case (1 cs)
  then show ?case by (simp add: section_end_str)
next
  case (2 ps)
  then have "section_end False (Suc (Suc d)) (concat (map piece_text ps) @ CHR ''}'' # s)
      = section_end False (Suc (Suc d)) (CHR ''}'' # s)"
    by (intro section_end_pieces) auto
  then show ?case by simp
next
  case (3 c)
  then show ?case by simp
qed

lemma section_end_suffix: "section_end b d s = Some r \<Longrightarrow> \<exists>u. s = u @ r"
proof (induction b d s rule: section_end.induct)
  case (3 suspend depth c s)
  show ?case
  proof (cases "c = CHR 0x5C \<and> s \<noteq> [] \<and> (hd s = CHR 0x5C \<or> hd s = CHR 0x22)")
    case True
    with 3 obtain u where "tl s = u @ r" by auto
    with True have "c # s = (c # hd s # u) @ r" by (cases s) auto
    then show ?thesis by blast
  next
    case False
    then have "\<exists>u. s = u @ r" using 3 by (auto split: if_splits)
    then obtain u where "c # s = (c # u) @ r" by auto
    then show ?thesis by blast
  qed
qed simp_all

section \<open>Properties of the callbacks\<close>

lemma sint_u32: "- (2 ^ 31) \<le> i \<Longrightarrow> i < 2 ^ 31 \<Longrightarrow> sint (word_of_int i :: 32 word) = i"
  by (simp add: sint_sbintrunc' signed_take_bit_int_eq_self)

lemma version_field_show:
  assumes "n < 2 ^ 31" and "rest = [] \<or> \<not> is_digit_char (hd rest)"
  shows "version_field (show_nat n @ rest) = Inr (of_nat n)"
proof -
  have "show_nat n = show_int (int n)" by (simp add: show_int_def)
  then have a: "atoi (show_nat n @ rest) = int n" using atoi_show_int [OF assms(2)] by simp
  have "max (- (2 ^ 63)) (min (2 ^ 63 - 1) (int n)) = int n" using assms(1) by simp
  moreover have "sint (word_of_int (int n) :: 32 word) = int n"
    by (rule sint_u32) (use assms(1) in simp_all)
  ultimately have "strtol_int (show_nat n @ rest) = int n"
    by (simp only: strtol_int_def a)
  then show ?thesis by (simp add: version_field_def)
qed

lemma show_nat_no_dot: "CHR ''.'' \<notin> set (show_nat n)"
  using show_nat_digits digit_not_special(8) by blast

lemma version_tokens:
  assumes "CHR ''.'' \<notin> set ext"
  shows "strtok_all ''.'' (show_nat a @ ''.'' @ show_nat b @ ''.'' @ show_nat c @ ext)
    = [show_nat a, show_nat b, show_nat c @ ext]"
proof -
  have "strtok_all ''.'' (join ''.'' [show_nat a, show_nat b, show_nat c @ ext])
      = [show_nat a, show_nat b, show_nat c @ ext]"
    by (rule strtok_all_join) (use assms show_nat_no_dot in auto)
  then show ?thesis by simp
qed

text \<open>The copy of an URI ends with a NUL only when the URI is shorter than the buffer.\<close>

lemma c_string_unterminated: "CHR 0x00 \<notin> set s \<Longrightarrow> c_string (map Some s) = None"
  by (induction s) auto

lemma uri_callback_buffer:
  assumes "tree_parse y response = Some t" and "parsed_uri y t = Inr (Some s)"
    and "CHR 0x00 \<notin> set s" and "length buf = URI_MAX_LENGTH"
  shows "\<exists>b. RV_copy_object_URI_callback y response buf = Some (Inr (), b) \<and>
    c_string b = (if length s < URI_MAX_LENGTH then Some s else None)"
proof -
  have w: "write_bytes 0 (strncpy_bytes s URI_MAX_LENGTH) buf
      = Some (map Some (strncpy_bytes s URI_MAX_LENGTH))"
    using assms(4) by (simp add: write_bytes_def strncpy_bytes_def)
  have "c_string (map Some (strncpy_bytes s URI_MAX_LENGTH))
      = (if length s < URI_MAX_LENGTH then Some s else None)"
  proof (cases "length s < URI_MAX_LENGTH")
    case True
    then obtain k where k: "URI_MAX_LENGTH - length s = Suc k" by (metis Suc_diff_Suc)
    then have "map Some (strncpy_bytes s URI_MAX_LENGTH)
        = map Some s @ Some (CHR 0x00) # map Some (replicate k (CHR 0x00))"
      using True by (simp add: strncpy_bytes_fits)
    then show ?thesis using True by (metis c_string_terminated [OF assms(3)])
  next
    case False
    then have "strncpy_bytes s URI_MAX_LENGTH = take URI_MAX_LENGTH s"
      by (simp add: strncpy_bytes_def)
    moreover have "CHR 0x00 \<notin> set (take URI_MAX_LENGTH s)" using assms(3) by (meson in_set_takeD)
    ultimately show ?thesis using False by (simp add: c_string_unterminated)
  qed
  with w assms(1,2) show ?thesis by (auto simp: RV_copy_object_URI_callback_def)
qed

section \<open>Properties\<close>

text \<open>
  C20: a request fills the response buffer with exactly the response. Whatever an earlier
  request left, a transfer of at least one chunk ends with the write position reset, and the C
  string that \<open>RV_parse_response\<close> hands to the callback is the whole response; the error is decided
  by the response code alone. A response with an empty body leaves the previous response in the
  buffer.
\<close>

theorem request_response:
  assumes "rb_inv rb" and "curr rb = 0" and "length (concat ds @ d) < 2 ^ 63"
    and "CHR 0x00 \<notin> set (concat ds @ d)"
  shows "(\<exists>rb'. CURL_PERFORM_INTERNAL (global_buffer.deliver (ds @ [d])) (Some code) True rb
      = Some (HANDLE_RESPONSE code, rb') \<and> c_string (buffer rb') = Some (concat ds @ d) \<and>
      rb_inv rb' \<and> curr rb' = 0) \<and>
    CURL_PERFORM_INTERNAL (global_buffer.deliver []) (Some code) True rb
      = Some (HANDLE_RESPONSE code, rb)"
proof -
  have r: "received rb = []" using assms(2) by (simp add: received_def)
  obtain rb' where d: "global_buffer.deliver (ds @ [d]) rb = Some (True, rb')"
    and t: "received rb' = concat ds @ d" "rb_inv rb'" "curr rb' < length (buffer rb')"
      "buffer rb' ! curr rb' = Some (CHR 0x00)"
    using global_deliver [OF assms(1), of ds d] assms(3) r by auto
  have "map Some (received rb') = take (curr rb') (buffer rb')"
    using t(2) by (auto simp: received_def rb_inv_def comp_def intro!: map_idI) (metis option.collapse)
  then have "buffer rb' = map Some (concat ds @ d) @ Some (CHR 0x00) # drop (Suc (curr rb')) (buffer rb')"
    using t(1,3,4) by (metis append_take_drop_id Cons_nth_drop_Suc)
  with c_string_terminated [OF assms(4)] have "c_string (buffer rb') = Some (concat ds @ d)" by metis
  then have "\<exists>rb'. CURL_PERFORM_INTERNAL (global_buffer.deliver (ds @ [d])) (Some code) True rb
      = Some (HANDLE_RESPONSE code, rb') \<and> c_string (buffer rb') = Some (concat ds @ d) \<and>
      rb_inv rb' \<and> curr rb' = 0"
    using t(2) d by (auto simp: CURL_PERFORM_INTERNAL_def Let_def rb_inv_def)
  moreover have "CURL_PERFORM_INTERNAL (global_buffer.deliver []) (Some code) True rb
      = Some (HANDLE_RESPONSE code, rb)"
    using assms(2) by (simp add: CURL_PERFORM_INTERNAL_def)
  ultimately show ?thesis by blast
qed

theorem request_response_witness:
  "\<exists>rb'. CURL_PERFORM_INTERNAL (global_buffer.deliver ([''{a''] @ [''b}''])) (Some 404) True
      (response_buffer_init\<lparr>buffer := map Some ''junk'' @ replicate 1020 None\<rparr>)
      = Some (Inl NotFound, rb') \<and> c_string (buffer rb') = Some ''{ab}''"
proof -
  have "rb_inv (response_buffer_init\<lparr>buffer := map Some ''junk'' @ replicate 1020 None\<rparr>)"
    by (simp add: rb_inv_def response_buffer_init_def)
  from request_response [OF this, of "[''{a'']" "''b}''" 404] show ?thesis
    by (auto simp: response_buffer_init_def HANDLE_RESPONSE_def)
qed

text \<open>
  C28: \<open>FIND_JSON_SECTION_END\<close> finds the brace that closes the object at its start, whatever
  strings, escapes and nested objects are inside and whatever follows, and never moves
  behind the terminating NUL.
\<close>

theorem section_end_of_object:
  assumes "piece_ok (Braces ps)"
  shows "FIND_JSON_SECTION_END (piece_text (Braces ps) @ rest) = Some rest \<and>
    (\<forall>t r. FIND_JSON_SECTION_END t = Some r \<longrightarrow> (\<exists>u. tl t = u @ r))"
proof -
  have "section_end False (Suc 0) (concat (map piece_text ps) @ CHR ''}'' # rest)
      = section_end False (Suc 0) (CHR ''}'' # rest)"
    by (rule section_end_pieces [OF section_end_piece]) (use assms in auto)
  then show ?thesis using section_end_suffix by (simp add: FIND_JSON_SECTION_END_def)
qed

theorem section_end_of_object_witness:
  "FIND_JSON_SECTION_END (''{'' @ [CHR 0x22, CHR 0x5C, CHR 0x22, CHR ''}'', CHR 0x22] @ '':{}}, rest'')
     = Some '', rest'' \<and> (\<exists>u. ''}b'' = u @ ''b'')"
  using section_end_of_object [of "[Str [Esc (CHR 0x22), Plain (CHR ''}'')], Other (CHR '':''), Braces []]" "'', rest''"]
  by (simp add: FIND_JSON_SECTION_END_def)

text \<open>
  The server version in a response is read back exactly, suffixes such as \<open>rc1\<close> behind the
  patch number are ignored, and the version check is the lexicographic order.
\<close>

lemma server_version_parsed:
  assumes "tree_parse y response = Some t"
    and "tree_get y t [''version''] yajl_t_string
      = Some (YString (show_nat a @ ''.'' @ show_nat b @ ''.'' @ show_nat c @ ext))"
    and "a < 2 ^ 31" and "b < 2 ^ 31" and "c < 2 ^ 31"
    and "CHR ''.'' \<notin> set ext" and "ext = [] \<or> \<not> is_digit_char (hd ext)"
  shows "\<exists>v. RV_parse_server_version y response v0 = (Inr (), v) \<and>
    (\<forall>x < 2 ^ 31. \<forall>y < 2 ^ 31. \<forall>z < 2 ^ 31.
      SERVER_VERSION_MATCHES_OR_EXCEEDS v (of_nat x) (of_nat y) (of_nat z) \<longleftrightarrow>
        x < a \<or> x = a \<and> (y < b \<or> y = b \<and> z \<le> c))"
proof -
  let ?v = "v0\<lparr>major := of_nat a, minor := of_nat b, patch := of_nat c\<rparr>"
  have f: "version_field (show_nat a) = Inr (of_nat a)" "version_field (show_nat b) = Inr (of_nat b)"
    "version_field (show_nat c @ ext) = Inr (of_nat c)"
    using version_field_show [of _ "[]"] version_field_show [of c ext] assms(3-5,7) by auto
  have r: "RV_parse_server_version y response v0 = (Inr (), ?v)"
    by (simp add: RV_parse_server_version_def assms(1,2) version_tokens [OF assms(6), simplified]
        parse_version_def f)
  have u: "(of_nat m :: u64) < of_nat n \<longleftrightarrow> m < n" "(of_nat m :: u64) = of_nat n \<longleftrightarrow> m = n"
    "(of_nat m :: u64) \<le> of_nat n \<longleftrightarrow> m \<le> n" if "m < 2 ^ 31" "n < 2 ^ 31" for m n
  proof -
    have "unat (of_nat m :: u64) = m" "unat (of_nat n :: u64) = n"
      using that by (simp_all add: unat_of_nat_u64)
    then show "(of_nat m :: u64) < of_nat n \<longleftrightarrow> m < n" "(of_nat m :: u64) = of_nat n \<longleftrightarrow> m = n"
      "(of_nat m :: u64) \<le> of_nat n \<longleftrightarrow> m \<le> n"
      by (simp_all add: word_less_nat_alt word_le_nat_alt word_unat_eq_iff)
  qed
  show ?thesis
    by (intro exI [of _ ?v] conjI r)
      (use assms(3-5) in \<open>auto simp: SERVER_VERSION_MATCHES_OR_EXCEEDS_def u\<close>)
qed

lemma element_of_nat:
  assumes "length xs < 2 ^ 64"
  shows "element xs (of_nat (length xs) - 1 - n)
    = (if unat n < length xs then Some (rev xs ! unat n) else None)"
proof (cases "unat n < length xs")
  case True
  have "of_nat (length xs) - 1 - n = (of_nat (length xs - 1 - unat n) :: u64)"
    using True by (simp add: of_nat_diff)
  moreover have "unat (of_nat (length xs - 1 - unat n) :: u64) = length xs - 1 - unat n"
    by (rule unat_of_nat_u64) (use assms in linarith)
  ultimately have u: "unat (of_nat (length xs) - 1 - n) = length xs - 1 - unat n" by (simp only:)
  show ?thesis unfolding element_def u using True by (simp add: rev_nth)
next
  case False
  have "of_nat (length xs) - 1 - n = (of_nat (2 ^ 64 + length xs - 1 - unat n) :: u64)"
    using False unat_u64_bound [of n] by (simp add: of_nat_diff)
  moreover have "unat (of_nat (2 ^ 64 + length xs - 1 - unat n) :: u64) = 2 ^ 64 + length xs - 1 - unat n"
    by (rule unat_of_nat_u64) (use False unat_u64_bound [of n] in linarith)
  ultimately have u: "unat (of_nat (length xs) - 1 - n) = 2 ^ 64 + length xs - 1 - unat n" by (simp only:)
  have "length xs \<le> 2 ^ 64 + length xs - 1 - unat n" using unat_u64_bound [of n] by linarith
  then show ?thesis unfolding element_def u using False by simp
qed

text \<open>
  The name of an attribute by position is right inside the bounds, in both orders; but the
  bounds check looks at position 0 and not at the requested one, so every position from
  the number of attributes on is read out of bounds instead of being an error.
\<close>

lemma attribute_name_by_index:
  assumes "tree_parse y response = Some t"
    and "tree_get y t [''attributes''] yajl_t_object = Some (YObject kvs)"
    and "kvs \<noteq> []" and "length kvs < 2 ^ 64" and "order = H5_ITER_INC \<or> order = H5_ITER_DEC"
  shows "RV_copy_attribute_name_by_index y True response order n =
    (if unat n < length kvs
     then Some (Inr ((if order = H5_ITER_DEC then rev (map fst kvs) else map fst kvs) ! unat n))
     else None)"
proof -
  have "unat (of_nat (length kvs) :: u64) = length kvs" using assms(4) by (rule unat_of_nat_u64)
  then have l: "\<not> 0 \<ge> (of_nat (length kvs) :: u64)" using assms(3) by (simp add: word_le_nat_alt)
  have d: "element (map fst kvs) (of_nat (length kvs) - 1 - n)
      = (if unat n < length kvs then Some (rev (map fst kvs) ! unat n) else None)"
    using element_of_nat [of "map fst kvs" n] assms(4) by simp
  show ?thesis
    using assms(5) l
    by (auto simp: RV_copy_attribute_name_by_index_def Let_def assms(1-3) d) (simp_all add: element_def)
qed

text \<open>Link names: in increasing order with a proper check; in decreasing order by a foreign length.\<close>

lemma link_name_increasing:
  assumes "tree_parse y response = Some t"
    and "tree_get y t [''links''] yajl_t_array = Some (YArray (map (\<lambda>l. YObject [(''title'', YString l)]) names))"
    and "length names < 2 ^ 64"
  shows "RV_copy_link_name_by_index y k True response H5_ITER_INC n =
    Some (if unat n < length names then Inr (names ! unat n) else Inl H5E_PARSEERROR)"
proof -
  have "unat (of_nat (length names) :: u64) = length names" using assms(3) by (rule unat_of_nat_u64)
  then have "n \<ge> of_nat (length names) \<longleftrightarrow> \<not> unat n < length names"
    by (simp add: word_le_nat_alt not_less)
  then show ?thesis
    by (auto simp: RV_copy_link_name_by_index_def assms(1,2) element_def)
qed

lemma link_name_decreasing:
  assumes "tree_parse y response = Some t" and "tree_get y t [''links''] yajl_t_array = Some (YArray ls)"
    and "length ls < 2 ^ 63" and "unat n < length ls"
  shows "RV_copy_link_name_by_index y 0 True response H5_ITER_DEC n = None"
proof -
  have u: "unat (of_nat (length ls) :: u64) = length ls" using assms(3) by (intro unat_of_nat_u64) simp
  have "- 1 - n = (of_nat (2 ^ 64 - 1 - unat n) :: u64)"
    using unat_u64_bound [of n] by (simp add: of_nat_diff)
  moreover have "unat (of_nat (2 ^ 64 - 1 - unat n) :: u64) = 2 ^ 64 - 1 - unat n"
    by (rule unat_of_nat_u64) simp
  ultimately have "unat (- 1 - n) = 2 ^ 64 - 1 - unat n" by simp
  then have "element ls (- 1 - n) = None" using assms(3,4) by (simp add: element_def)
  moreover have "\<not> n \<ge> of_nat (length ls)" using u assms(4) by (simp add: word_le_nat_alt)
  moreover have "ls \<noteq> []" using assms(4) by auto
  ultimately show ?thesis by (simp add: RV_copy_link_name_by_index_def assms(1,2))
qed

end
