(* ===== verification/Text_Buffer.thy ===== *)
theory Text_Buffer
  imports Paths
begin

text \<open>
  Printing into C character buffers, as \<open>rest_vol.c\<close> and \<open>rest_vol_dataset.c\<close> do it: a block, its
  allocated length and a current position, grown with \<open>CHECKED_REALLOC\<close> and written with
  \<open>strcat\<close>, \<open>strncat\<close> and \<open>snprintf\<close>.  The record of the response buffer is used for the
  block; a result \<open>None\<close> is a write outside the block or a scan over bytes never written.

  The lemmas lift to the level of strings: a buffer that \<open>holds\<close> a string holds the longer one
  after each operation that has room.
\<close>

type_synonym text_buffer = response_buffer

text \<open>A fresh block of \<open>n\<close> bytes with the position at its start and its first byte cleared.\<close>

definition fresh_text :: "u64 \<Rightarrow> text_buffer" where
  "fresh_text n =
     \<lparr>buffer = (if n = 0 then [] else Some (CHR 0x00) # replicate (unat n - 1) None), curr = 0,
      buffer_size = n\<rparr>"

text \<open>A block from \<open>calloc\<close>.\<close>

definition zero_text :: "u64 \<Rightarrow> text_buffer" where
  "zero_text n =
     \<lparr>buffer = replicate (unat n) (Some (CHR 0x00)), curr = 0, buffer_size = n\<rparr>"

definition CHECKED_REALLOC ::
  "'e \<Rightarrow> (u64 \<Rightarrow> bool) \<Rightarrow> u64 \<Rightarrow> text_buffer \<Rightarrow> ('e + text_buffer) option" where
  "CHECKED_REALLOC e ok target tb =
     (case grow ok target tb of
        None \<Rightarrow> None
      | Some (grown, tb) \<Rightarrow> Some (if grown then Inr tb else Inl e))"

text \<open>\<open>strcat (curr, t)\<close>; \<open>advance\<close> moves the position.\<close>

definition strcat :: "string \<Rightarrow> text_buffer \<Rightarrow> ('e + text_buffer) option" where
  "strcat t tb =
     (case c_string (drop (curr tb) (buffer tb)) of
        None \<Rightarrow> None
      | Some s \<Rightarrow>
          (case write_bytes (curr tb + length s) (t @ [CHR 0x00]) (buffer tb) of
             None \<Rightarrow> None
           | Some b \<Rightarrow> Some (Inr (tb\<lparr>buffer := b\<rparr>))))"

definition advance :: "nat \<Rightarrow> text_buffer \<Rightarrow> ('e + text_buffer) option" where
  "advance n tb = Some (Inr (tb\<lparr>curr := curr tb + n\<rparr>))"

text \<open>\<open>strcat (curr, t)\<close> and \<open>curr += strlen (t)\<close>, also written \<open>strcat (curr++, ",")\<close>.\<close>

definition strcat_advance :: "string \<Rightarrow> text_buffer \<Rightarrow> ('e + text_buffer) option" where
  "strcat_advance t tb = andthen (strcat t tb) (advance (length t))"

text \<open>
  \<open>bytes_printed = snprintf (curr, n, ...)\<close> and \<open>curr += bytes_printed\<close>, where the conversion
  gives \<open>t\<close>.  Only \<open>n - 1\<close> characters and the NUL are written, but \<open>bytes_printed\<close> is the length
  of \<open>t\<close>.
\<close>

definition snprintf :: "u64 \<Rightarrow> string \<Rightarrow> text_buffer \<Rightarrow> ('e + text_buffer) option" where
  "snprintf n t tb =
     (case write_bytes (curr tb) (if n = 0 then [] else take (unat n - 1) t @ [CHR 0x00]) (buffer tb) of
        None \<Rightarrow> None
      | Some b \<Rightarrow> Some (Inr (tb\<lparr>buffer := b, curr := curr tb + length t\<rparr>)))"

text \<open>A loop over the elements of a list.\<close>

fun each :: "('a \<Rightarrow> 's \<Rightarrow> ('e + 's) option) \<Rightarrow> 'a list \<Rightarrow> 's \<Rightarrow> ('e + 's) option" where
  "each f [] s = Some (Inr s)"
| "each f (x # xs) s = andthen (f x s) (each f xs)"

section \<open>Buffers that hold a string\<close>

definition holds :: "text_buffer \<Rightarrow> string \<Rightarrow> bool" where
  "holds tb s \<longleftrightarrow>
     length (buffer tb) = unat (buffer_size tb) \<and> curr tb = length s \<and> length s < length (buffer tb) \<and>
     take (length s) (buffer tb) = map Some s \<and> buffer tb ! length s = Some (CHR 0x00)"

abbreviation room :: "text_buffer \<Rightarrow> nat" where
  "room tb \<equiv> unat (buffer_size tb)"

lemma holds_fresh: "n \<noteq> 0 \<Longrightarrow> holds (fresh_text n) []"
  using unat_gt_0 [of n] by (simp add: holds_def fresh_text_def)

lemma holds_zero: "n \<noteq> 0 \<Longrightarrow> holds (zero_text n) []"
  using unat_gt_0 [of n] by (simp add: holds_def zero_text_def)

lemma holds_buffer:
  "holds tb s \<Longrightarrow> buffer tb = map Some s @ Some (CHR 0x00) # drop (Suc (length s)) (buffer tb)"
  unfolding holds_def by (metis append_take_drop_id Cons_nth_drop_Suc)

lemma holds_c_string: "holds tb s \<Longrightarrow> CHR 0x00 \<notin> set s \<Longrightarrow> c_string (buffer tb) = Some s"
  by (metis holds_buffer c_string_terminated)

lemma holds_written:
  assumes "holds tb s" and "length s + length t < room tb"
    and "write_bytes (length s) (t @ [CHR 0x00]) (buffer tb) = Some b"
  shows "holds (tb\<lparr>buffer := b, curr := length s + length t\<rparr>) (s @ t)"
proof -
  have l: "length s + length t < length (buffer tb)" using assms(1,2) by (simp add: holds_def)
  have b: "b = take (length s) (buffer tb) @ map Some t @ Some (CHR 0x00)
      # drop (length s + length t + 1) (buffer tb)"
    using assms(3) l by (simp add: write_bytes_def)
  have "take (length s) (buffer tb) = map Some s" using assms(1) by (simp add: holds_def)
  with b have b: "b = map Some (s @ t) @ Some (CHR 0x00) # drop (length s + length t + 1) (buffer tb)"
    by simp
  then have "length b = length (buffer tb)" using l by simp
  moreover have "take (length (s @ t)) b = map Some (s @ t)" "b ! length (s @ t) = Some (CHR 0x00)"
    unfolding b by (simp_all add: nth_append)
  ultimately show ?thesis using assms(1) l by (simp add: holds_def)
qed

lemma snprintf_holds:
  assumes "holds tb s" and "length s + length t < room tb" and "length t < unat n"
  shows "\<exists>tb'. snprintf n t tb = Some (Inr tb') \<and> holds tb' (s @ t) \<and> buffer_size tb' = buffer_size tb"
proof -
  have n: "n \<noteq> 0" "take (unat n - 1) t = t" using assms(3) by auto
  have c: "curr tb = length s" "length (buffer tb) = room tb" using assms(1) by (simp_all add: holds_def)
  obtain b where b: "write_bytes (length s) (t @ [CHR 0x00]) (buffer tb) = Some b"
    using assms(2) c by (simp add: write_bytes_def)
  from holds_written [OF assms(1,2) b] b n c show ?thesis by (simp add: snprintf_def)
qed

lemma strcat_holds:
  assumes "holds tb s" and "length s + length t < room tb"
  shows "\<exists>tb'. strcat_advance t tb = Some (Inr tb') \<and> holds tb' (s @ t) \<and> buffer_size tb' = buffer_size tb"
proof -
  have c: "curr tb = length s" "length (buffer tb) = room tb" using assms(1) by (simp_all add: holds_def)
  have "drop (length s) (buffer tb) = Some (CHR 0x00) # drop (Suc (length s)) (buffer tb)"
    using assms(1) unfolding holds_def by (metis Cons_nth_drop_Suc)
  then have z: "c_string (drop (curr tb) (buffer tb)) = Some []" using c by simp
  obtain b where b: "write_bytes (length s) (t @ [CHR 0x00]) (buffer tb) = Some b"
    using assms(2) c by (simp add: write_bytes_def)
  from b z c holds_written [OF assms b] show ?thesis
    by (simp add: strcat_advance_def strcat_def advance_def)
qed

text \<open>Growing keeps what is in the block.\<close>

lemma grow_extends:
  assumes "length (buffer tb) = room tb" and "0 < room tb" and "unat target \<le> 2 ^ 63" and "\<And>n. ok n"
  shows "\<exists>tb'. CHECKED_REALLOC e ok target tb = Some (Inr tb') \<and> take (room tb) (buffer tb') = buffer tb \<and>
    length (buffer tb') = room tb' \<and> curr tb' = curr tb \<and> unat target \<le> room tb' \<and> room tb \<le> room tb'"
proof -
  define P where "P = (\<lambda>tb'. take (room tb) (buffer tb') = buffer tb \<and> length (buffer tb') = room tb' \<and>
    curr tb' = curr tb \<and> room tb \<le> room tb')"
  have "\<exists>tb'. grow ok target tb0 = Some (True, tb') \<and> P tb' \<and> unat target \<le> room tb'" if "P tb0" for tb0
    using that
  proof (induction "2 ^ 63 - room tb0" arbitrary: tb0 rule: less_induct)
    case less
    show ?case
    proof (cases "target > buffer_size tb0")
      case False
      then have "grow ok target tb0 = Some (True, tb0)" by (subst grow.simps) simp
      with False less.prems show ?thesis by (simp add: word_le_nat_alt not_less)
    next
      case True
      let ?tb = "tb0\<lparr>buffer := resize (unat (2 * buffer_size tb0)) (buffer tb0), buffer_size := 2 * buffer_size tb0\<rparr>"
      have h: "P tb0" and r: "room tb \<le> room tb0" using less.prems by (simp_all add: P_def)
      note d = double_u64 [OF True assms(3)]
      have lt: "room tb0 < unat target" using True by (simp add: word_less_nat_alt)
      have P: "P ?tb" using h d by (auto simp: P_def resize_def)
      have "2 ^ 63 - room ?tb < 2 ^ 63 - room tb0" using d lt r assms(2,3) by simp
      from less.hyps [OF this P] True assms(4) show ?thesis by (subst grow.simps) simp
    qed
  qed
  from this [of tb] assms(1) show ?thesis by (auto simp: P_def CHECKED_REALLOC_def)
qed

lemma grow_holds:
  assumes "holds tb s" and "unat target \<le> 2 ^ 63" and "\<And>n. ok n"
  shows "\<exists>tb'. CHECKED_REALLOC e ok target tb = Some (Inr tb') \<and> holds tb' s \<and>
    unat target \<le> room tb' \<and> room tb \<le> room tb'"
proof -
  have h: "length (buffer tb) = room tb" "length s < room tb" using assms(1) by (simp_all add: holds_def)
  obtain tb' where g: "CHECKED_REALLOC e ok target tb = Some (Inr tb')" "take (room tb) (buffer tb') = buffer tb"
    "length (buffer tb') = room tb'" "curr tb' = curr tb" "unat target \<le> room tb'" "room tb \<le> room tb'"
    using grow_extends [OF h(1) _ assms(2), of ok e] h(2) assms(3) by auto
  have "take (length s) (buffer tb') = take (length s) (buffer tb)"
    "buffer tb' ! length s = buffer tb ! length s"
    using h(2) unfolding g(2) [symmetric] by simp_all
  with g assms(1) show ?thesis by (auto simp: holds_def)
qed

text \<open>Loops keep an indexed invariant.\<close>

lemma each_inv:
  assumes "\<And>k st. k < length xs \<Longrightarrow> I k st \<Longrightarrow> \<exists>st'. f (xs ! k) st = Some (Inr st') \<and> I (Suc k) st'"
    and "I 0 st"
  shows "\<exists>st'. each f xs st = Some (Inr st') \<and> I (length xs) st'"
  using assms
proof (induction xs arbitrary: I st)
  case (Cons x xs)
  obtain st1 where 1: "f x st = Some (Inr st1)" "I (Suc 0) st1"
    using Cons.prems(1) [of 0 st] Cons.prems(2) by auto
  have "\<exists>st'. each f xs st1 = Some (Inr st') \<and> I (Suc (length xs)) st'"
    by (rule Cons.IH [of "\<lambda>k. I (Suc k)", OF _ 1(2)]) (use Cons.prems(1) in force)
  then show ?case using 1 by simp
qed simp

text \<open>The texts of the first \<open>k\<close> turns.\<close>

definition texts :: "(nat \<Rightarrow> string) \<Rightarrow> nat \<Rightarrow> string" where
  "texts f k = concat (map f [0..<k])"

lemma texts_simps [simp]: "texts f 0 = []" "texts f (Suc k) = texts f k @ f k"
  by (simp_all add: texts_def)

lemma length_texts: "(\<And>i. i < k \<Longrightarrow> length (f i) \<le> b) \<Longrightarrow> length (texts f k) \<le> k * b"
proof (induction k)
  case (Suc k)
  have "length (f k) \<le> b" "length (texts f k) \<le> k * b" using Suc by simp_all
  then show ?case by simp
qed simp

text \<open>A turn that reserves \<open>r\<close> bytes and prints one text into them.\<close>

lemma reserve_print:
  assumes "holds tb s" and "length s + r \<le> 2 ^ 62" and "length t < r" and "\<And>n. ok n"
    and "\<And>tb. holds tb s \<Longrightarrow> length s + length t < room tb \<Longrightarrow> length s + r \<le> room tb \<Longrightarrow>
      \<exists>tb'. p tb = Some (Inr tb') \<and> holds tb' (s @ t) \<and> buffer_size tb' = buffer_size tb"
  shows "\<exists>tb'. andthen (CHECKED_REALLOC e ok (of_nat (length s + r)) tb) p = Some (Inr tb') \<and>
    holds tb' (s @ t) \<and> length s + r \<le> room tb' \<and> room tb \<le> room tb'"
proof -
  have r: "unat (of_nat (length s + r) :: u64) = length s + r"
    by (rule unat_of_nat_u64) (use assms(2) in simp)
  obtain tb1 where 1: "CHECKED_REALLOC e ok (of_nat (length s + r)) tb = Some (Inr tb1)" "holds tb1 s"
    "length s + r \<le> room tb1" "room tb \<le> room tb1"
    using grow_holds [OF assms(1), of "of_nat (length s + r)" ok e] assms(2,4) unfolding r by fastforce
  obtain tb' where "p tb1 = Some (Inr tb')" "holds tb' (s @ t)" "buffer_size tb' = buffer_size tb1"
    using assms(5) [OF 1(2)] 1(3) assms(3) by auto
  with 1 show ?thesis by simp
qed

end
