(* ===== verification/Dataspace.thy ===== *)
theory Dataspace
  imports Text_Buffer Responses
begin

text \<open>
  Dataspaces and their JSON form: \<open>RV_convert_dataspace_shape_to_JSON\<close> prints the shape and the
  maximum dimensions into two growing buffers, \<open>RV_parse_dataspace\<close> reads them back from a
  response (both in \<open>src/vol-rest/src/rest_vol.c\<close>).

  A dataspace is what the HDF5 library reports about it; its constructors \<open>H5Screate\<close> and
  \<open>H5Screate_simple\<close> are the fields of the record \<open>hdf5_space\<close>.
\<close>

section \<open>Printing\<close>

text \<open>The dimensions of a simple dataspace with their maxima.\<close>

datatype dataspace = H5S_NO_CLASS | H5S_NULL | H5S_SCALAR | H5S_SIMPLE "(u64 \<times> u64) list"

definition H5S_UNLIMITED :: u64 where
  "H5S_UNLIMITED = - 1"

definition MAX_NUM_LENGTH :: u64 where
  "MAX_NUM_LENGTH = 20"

definition DATASPACE_SHAPE_BUFFER_DEFAULT_SIZE :: u64 where
  "DATASPACE_SHAPE_BUFFER_DEFAULT_SIZE = 256"

text \<open>The conversion \<open>"%s%" PRIuHSIZE\<close> with a comma before all but the first number.\<close>

definition number_text :: "nat \<Rightarrow> u64 \<Rightarrow> string" where
  "number_text i v = (if i > 0 then '','' else []) @ show_nat (unat v)"

definition shape_step :: "(u64 \<Rightarrow> bool) \<Rightarrow> u64 list \<Rightarrow> nat \<Rightarrow> text_buffer \<Rightarrow> (failure + text_buffer) option" where
  "shape_step ok dims i tb =
     (let buf_ptrdiff = of_nat (curr tb) :: u64;
          new_len = buf_ptrdiff + MAX_NUM_LENGTH + 1
      in andthen (CHECKED_REALLOC H5E_CANTALLOC ok new_len tb)
           (snprintf (new_len - buf_ptrdiff) (number_text i (dims ! i))))"

text \<open>
  \<open>addr\<close> is the address of the current position, which the size given to \<open>snprintf\<close> is computed
  from.
\<close>

definition maxdims_step ::
  "(u64 \<Rightarrow> bool) \<Rightarrow> (text_buffer \<Rightarrow> u64) \<Rightarrow> u64 list \<Rightarrow> nat \<Rightarrow> text_buffer \<Rightarrow> (failure + text_buffer) option"
where
  "maxdims_step ok addr maxdims i tb =
     (let buf_ptrdiff = of_nat (curr tb) :: u64;
          new_len = buf_ptrdiff + MAX_NUM_LENGTH + 1
      in andthen (CHECKED_REALLOC H5E_CANTALLOC ok new_len tb)
           (\<lambda>tb. if maxdims ! i = H5S_UNLIMITED
                 then andthen (if i > 0 then strcat_advance '','' tb else Some (Inr tb)) (strcat_advance ''0'')
                 else snprintf (new_len - addr tb) (number_text i (maxdims ! i)) tb))"

text \<open>A buffer that is printed only when the caller wants it.\<close>

definition if_wanted :: "('s \<Rightarrow> ('e + 's) option) \<Rightarrow> 's option \<Rightarrow> ('e + 's option) option" where
  "if_wanted f tb =
     (case tb of None \<Rightarrow> Some (Inr None) | Some tb \<Rightarrow> andthen (f tb) (\<lambda>tb. Some (Inr (Some tb))))"

definition dims_loop ::
  "(u64 \<Rightarrow> bool) \<Rightarrow> (text_buffer \<Rightarrow> u64) \<Rightarrow> u64 list \<Rightarrow> u64 list \<Rightarrow> text_buffer option \<times> text_buffer option
     \<Rightarrow> (failure + text_buffer option \<times> text_buffer option) option" where
  "dims_loop ok addr dims maxdims =
     each (\<lambda>i (shape, mx).
         andthen (if_wanted (shape_step ok dims i) shape)
           (\<lambda>shape. andthen (if_wanted (maxdims_step ok addr maxdims i) mx)
             (\<lambda>mx. Some (Inr (shape, mx)))))
       [0..<length dims]"

definition null_str :: string where
  "null_str = CHR 0x22 # ''shape'' @ [CHR 0x22] @ '': '' @ [CHR 0x22] @ ''H5S_NULL'' @ [CHR 0x22]"

definition shape_key :: string where
  "shape_key = CHR 0x22 # ''shape'' @ [CHR 0x22] @ '': [''"

definition maxdims_key :: string where
  "maxdims_key = CHR 0x22 # ''maxdims'' @ [CHR 0x22] @ '': [''"

text \<open>Reserve room for a fixed text at the start and append it.\<close>

definition put_key :: "(u64 \<Rightarrow> bool) \<Rightarrow> string \<Rightarrow> text_buffer \<Rightarrow> (failure + text_buffer) option" where
  "put_key ok key tb =
     andthen (CHECKED_REALLOC H5E_CANTALLOC ok (of_nat (length key) + 1) tb) (strcat_advance key)"

definition RV_convert_dataspace_shape_to_JSON ::
  "(u64 \<Rightarrow> bool) \<Rightarrow> (text_buffer \<Rightarrow> u64) \<Rightarrow> bool \<Rightarrow> bool \<Rightarrow> dataspace
     \<Rightarrow> (failure + text_buffer option \<times> text_buffer option) option" where
  "RV_convert_dataspace_shape_to_JSON ok addr shape_body maxdims_body space =
     (let n = DATASPACE_SHAPE_BUFFER_DEFAULT_SIZE
      in case space of
           H5S_NO_CLASS \<Rightarrow> Some (Inl H5E_BADVALUE)
         | H5S_SCALAR \<Rightarrow> Some (Inr (None, None))
         | H5S_NULL \<Rightarrow>
             if shape_body \<and> \<not> ok n then Some (Inl H5E_CANTALLOC)
             else if \<not> shape_body then None
             else andthen (put_key ok null_str (fresh_text n)) (\<lambda>shape. Some (Inr (Some shape, None)))
         | H5S_SIMPLE ds \<Rightarrow>
             if (shape_body \<or> maxdims_body) \<and> \<not> ok n then Some (Inl H5E_CANTALLOC)
             else if ds = [] then Some (Inl H5E_BADVALUE)
             else if (shape_body \<or> maxdims_body) \<and> \<not> ok (8 * of_nat (length ds)) then Some (Inl H5E_CANTALLOC)
             else
               andthen (if_wanted (put_key ok shape_key) (if shape_body then Some (fresh_text n) else None))
                 (\<lambda>shape.
               andthen (if_wanted (put_key ok maxdims_key) (if maxdims_body then Some (fresh_text n) else None))
                 (\<lambda>mx.
               andthen (dims_loop ok addr (map fst ds) (map snd ds) (shape, mx))
                 (\<lambda>(shape, mx).
               andthen (if_wanted (strcat_advance '']'') shape)
                 (\<lambda>shape.
               andthen (if_wanted (strcat_advance '']'') mx)
                 (\<lambda>mx. Some (Inr (shape, mx)))))))) "

section \<open>Parsing\<close>

record hdf5_space =
  create_class :: "dataspace \<Rightarrow> dataspace option"
  create_simple :: "u64 list \<Rightarrow> u64 list option \<Rightarrow> dataspace option"

text \<open>
  The loop over the two arrays.  \<open>None\<close>: an element that is not an integer is read as one, or
  \<open>maxdims\<close> is shorter than \<open>dims\<close> and read behind its end.
\<close>

fun read_dims :: "json list \<Rightarrow> json list option \<Rightarrow> (u64 list \<times> u64 list option) option" where
  "read_dims [] maxdims = Some ([], map_option (\<lambda>_. []) maxdims)"
| "read_dims (d # ds) None = do {
     val \<leftarrow> YAJL_GET_INTEGER d;
     (dims, maxdims) \<leftarrow> read_dims ds None;
     Some (of_int val # dims, maxdims)
   }"
| "read_dims (d # ds) (Some []) = None"
| "read_dims (d # ds) (Some (m # ms)) = do {
     val \<leftarrow> YAJL_GET_INTEGER d;
     mval \<leftarrow> YAJL_GET_INTEGER m;
     (dims, maxdims) \<leftarrow> read_dims ds (Some ms);
     Some (of_int val # dims, map_option ((#) (if mval = 0 then H5S_UNLIMITED else of_int mval)) maxdims)
   }"

definition created :: "dataspace option \<Rightarrow> (failure + dataspace) option" where
  "created r = Some (case r of None \<Rightarrow> Inl H5E_CANTCREATE | Some s \<Rightarrow> Inr s)"

definition RV_parse_dataspace ::
  "hdf5_space \<Rightarrow> yajl \<Rightarrow> (u64 \<Rightarrow> bool) \<Rightarrow> string \<Rightarrow> (failure + dataspace) option" where
  "RV_parse_dataspace h y ok space =
     (case tree_parse y space of
        None \<Rightarrow> Some (Inl H5E_PARSEERROR)
      | Some parse_tree \<Rightarrow>
          (case Option.bind (tree_get y parse_tree [''shape'', ''class''] yajl_t_string) YAJL_GET_STRING of
             None \<Rightarrow> Some (Inl H5E_PARSEERROR)
           | Some dataspace_type \<Rightarrow>
               if dataspace_type = ''H5S_NULL'' then created (create_class h H5S_NULL)
               else if dataspace_type = ''H5S_SCALAR'' then created (create_class h H5S_SCALAR)
               else if dataspace_type = ''H5S_SIMPLE'' then
                 (case array_of (tree_get y parse_tree [''shape'', ''dims''] yajl_t_array) of
                    None \<Rightarrow> Some (Inl H5E_PARSEERROR)
                  | Some dims_obj \<Rightarrow>
                      let maxdims_obj = array_of (tree_get y parse_tree [''shape'', ''maxdims''] yajl_t_array)
                      in if dims_obj = [] then Some (Inl H5E_BADVALUE)
                         else if \<not> ok (8 * of_nat (length dims_obj)) then Some (Inl H5E_CANTALLOC)
                         else if maxdims_obj \<noteq> None \<and> \<not> ok (8 * of_nat (length (the maxdims_obj)))
                         then Some (Inl H5E_CANTALLOC)
                         else
                           (case read_dims dims_obj maxdims_obj of
                              None \<Rightarrow> None
                            | Some (dims, maxdims) \<Rightarrow> created (create_simple h dims maxdims)))
               else Some (Inl H5E_BADVALUE)))"

section \<open>What is printed\<close>

text \<open>The number printed for a maximum: 0 stands for unlimited.\<close>

definition maxdim_number :: "u64 \<Rightarrow> u64" where
  "maxdim_number m = (if m = H5S_UNLIMITED then 0 else m)"

definition shape_text :: "u64 list \<Rightarrow> string" where
  "shape_text ds = shape_key @ join '','' (map (\<lambda>d. show_nat (unat d)) ds) @ '']''"

definition maxdims_text :: "u64 list \<Rightarrow> string" where
  "maxdims_text ms = maxdims_key @ join '','' (map (\<lambda>m. show_nat (unat (maxdim_number m))) ms) @ '']''"

lemma length_number_text: "unat v < 10 ^ 18 \<Longrightarrow> length (number_text i v) \<le> 19"
  using length_show_nat [of "unat v" 18] by (simp add: number_text_def)

lemma new_len: "of_nat n + MAX_NUM_LENGTH + 1 = (of_nat (n + 21) :: u64)"
  by (simp add: MAX_NUM_LENGTH_def)

lemma shape_step_ok:
  assumes "holds tb s" and "length s \<le> 2 ^ 20" and "unat (dims ! i) < 10 ^ 18" and "\<And>n. ok n"
  shows "\<exists>tb'. shape_step ok dims i tb = Some (Inr tb') \<and> holds tb' (s @ number_text i (dims ! i)) \<and>
    length (s @ number_text i (dims ! i)) + 2 \<le> room tb' \<and> room tb \<le> room tb'"
proof -
  have c: "curr tb = length s" using assms(1) by (simp add: holds_def)
  have l: "length (number_text i (dims ! i)) + 2 \<le> 21" using length_number_text [OF assms(3)] by simp
  have n: "of_nat (length s + 21) - of_nat (length s) = (21 :: u64)" by simp
  have "length s + 21 \<le> 2 ^ 62" using assms(2) by simp
  from reserve_print [where ok = ok and t = "number_text i (dims ! i)", OF assms(1) this _ assms(4) snprintf_holds [where n = 21]] l
  show ?thesis unfolding shape_step_def c new_len Let_def n by fastforce
qed

lemma maxdims_step_ok:
  assumes "holds tb s" and "length s \<le> 2 ^ 20" and "unat (maxdim_number (ms ! i)) < 10 ^ 18"
    and "\<And>n. ok n" and "\<And>tb. 2 ^ 21 \<le> unat (addr tb) \<and> unat (addr tb) < 2 ^ 63"
  shows "\<exists>tb'. maxdims_step ok addr ms i tb = Some (Inr tb') \<and>
    holds tb' (s @ number_text i (maxdim_number (ms ! i))) \<and>
    length (s @ number_text i (maxdim_number (ms ! i))) + 2 \<le> room tb' \<and> room tb \<le> room tb'"
proof -
  let ?t = "number_text i (maxdim_number (ms ! i))"
  have c: "curr tb = length s" using assms(1) by (simp add: holds_def)
  have l: "length ?t + 2 \<le> 21" using length_number_text [OF assms(3)] by simp
  have b: "length s + 21 \<le> 2 ^ 62" using assms(2) by simp
  have sz: "length ?t < unat (of_nat (length s + 21) - addr tb :: u64)" for tb
  proof -
    have u: "unat (of_nat (length s + 21) :: u64) = length s + 21"
      by (rule unat_of_nat_u64) (use b in simp)
    have e: "unat (of_nat (length s + 21) - addr tb :: u64)
        = 2 ^ 64 + (length s + 21) - unat (addr tb)"
      using assms(2) assms(5) [of tb] unfolding unat_sub_if' u by simp
    have "unat (addr tb) < 9223372036854775808" using assms(5) [of tb] by simp
    moreover have "(2 :: nat) ^ 64 = 18446744073709551616" by simp
    ultimately show ?thesis using l unfolding e by linarith
  qed
  let ?p = "\<lambda>tb. if ms ! i = H5S_UNLIMITED
                 then andthen (if i > 0 then strcat_advance '','' tb else Some (Inr tb)) (strcat_advance ''0'')
                 else snprintf (of_nat (length s + 21) - addr tb) (number_text i (ms ! i)) tb"
  have "\<exists>tb'. ?p tb = Some (Inr tb' :: failure + text_buffer) \<and> holds tb' (s @ ?t) \<and> buffer_size tb' = buffer_size tb"
    if h: "holds tb s" "length s + length ?t < room tb" for tb
  proof (cases "ms ! i = H5S_UNLIMITED")
    case False
    then have t: "?t = number_text i (ms ! i)" by (simp add: maxdim_number_def)
    from snprintf_holds [OF h sz] False show ?thesis unfolding t by simp
  next
    case True
    have z: "show_nat 0 = ''0''" by code_simp
    show ?thesis
    proof (cases "i > 0")
      case False
      with True have t: "?t = ''0''" by (simp add: number_text_def maxdim_number_def z)
      from strcat_holds [OF h] True False show ?thesis unfolding t by simp
    next
      case i: True
      with True have t: "?t = '',0''" by (simp add: number_text_def maxdim_number_def z)
      obtain tb1 where 1: "strcat_advance '','' tb = Some (Inr tb1 :: failure + text_buffer)"
        "holds tb1 (s @ '','')" "buffer_size tb1 = buffer_size tb"
        using strcat_holds [OF h(1), of "'',''"] h(2) unfolding t by auto
      from strcat_holds [OF 1(2), of "''0''"] h(2) 1(1,3) True i show ?thesis unfolding t by simp
    qed
  qed
  from reserve_print [where ok = ok and t = ?t, OF assms(1) b _ assms(4) this] l show ?thesis
    unfolding maxdims_step_def c new_len Let_def by fastforce
qed

text \<open>The loop on both buffers.\<close>

lemma dims_loop_ok:
  assumes "holds shape shape_key" and "holds mx maxdims_key"
    and "length shape_key + 2 \<le> room shape" and "length maxdims_key + 2 \<le> room mx"
    and "length ds \<le> 32" and "\<And>d m. (d, m) \<in> set ds \<Longrightarrow> unat d < 10 ^ 18 \<and> unat (maxdim_number m) < 10 ^ 18"
    and "\<And>n. ok n" and "\<And>tb. 2 ^ 21 \<le> unat (addr tb) \<and> unat (addr tb) < 2 ^ 63"
  shows "\<exists>sh mx'. dims_loop ok addr (map fst ds) (map snd ds) (Some shape, Some mx) = Some (Inr (Some sh, Some mx')) \<and>
    holds sh (shape_key @ join '','' (map (\<lambda>d. show_nat (unat d)) (map fst ds))) \<and>
    holds mx' (maxdims_key @ join '','' (map (\<lambda>m. show_nat (unat (maxdim_number m))) (map snd ds))) \<and>
    length (shape_key @ join '','' (map (\<lambda>d. show_nat (unat d)) (map fst ds))) + 2 \<le> room sh \<and>
    length (maxdims_key @ join '','' (map (\<lambda>m. show_nat (unat (maxdim_number m))) (map snd ds))) + 2 \<le> room mx'"
proof -
  let ?a = "\<lambda>i. number_text i (map fst ds ! i)" and ?b = "\<lambda>i. number_text i (maxdim_number (map snd ds ! i))"
  define I where "I = (\<lambda>k (sh, mx). \<exists>a b. sh = Some a \<and> mx = Some b \<and>
    holds a (shape_key @ texts ?a k) \<and> length (shape_key @ texts ?a k) + 2 \<le> room a \<and>
    holds b (maxdims_key @ texts ?b k) \<and> length (maxdims_key @ texts ?b k) + 2 \<le> room b)"
  have el: "unat (map fst ds ! k) < 10 ^ 18" "unat (maxdim_number (map snd ds ! k)) < 10 ^ 18"
    if "k < length ds" for k
    using assms(6) [of "fst (ds ! k)" "snd (ds ! k)"] that by simp_all
  have keys: "length shape_key \<le> 32" "length maxdims_key \<le> 32"
    by (simp_all add: shape_key_def maxdims_key_def)
  have short: "length (shape_key @ texts ?a k) \<le> 2 ^ 20" "length (maxdims_key @ texts ?b k) \<le> 2 ^ 20"
    if "k < length ds" for k
  proof -
    have "length (texts ?a k) \<le> k * 19" "length (texts ?b k) \<le> k * 19"
      using that el by (intro length_texts length_number_text; simp)+
    then show "length (shape_key @ texts ?a k) \<le> 2 ^ 20" "length (maxdims_key @ texts ?b k) \<le> 2 ^ 20"
      using keys that assms(5) by simp_all
  qed
  let ?f = "\<lambda>i (shape, mx). andthen (if_wanted (shape_step ok (map fst ds) i) shape)
           (\<lambda>shape. andthen (if_wanted (maxdims_step ok addr (map snd ds) i) mx)
             (\<lambda>mx. Some (Inr (shape, mx))))"
  have "\<exists>st'. ?f ([0..<length (map fst ds)] ! k) st = Some (Inr st') \<and> I (Suc k) st'"
    if k0: "k < length [0..<length (map fst ds)]" and i: "I k st" for k st
  proof -
    have k: "k < length ds" using k0 by simp
    obtain a b where st: "st = (Some a, Some b)" and ab: "holds a (shape_key @ texts ?a k)"
      "holds b (maxdims_key @ texts ?b k)"
      using i unfolding I_def by (cases st) auto
    obtain a' where "shape_step ok (map fst ds) k a = Some (Inr a')" "holds a' (shape_key @ texts ?a (Suc k))"
      "length (shape_key @ texts ?a (Suc k)) + 2 \<le> room a'"
      using shape_step_ok [where ok = ok, OF ab(1) short(1) [OF k] el(1) [OF k] assms(7)] by auto
    moreover obtain b' where "maxdims_step ok addr (map snd ds) k b = Some (Inr b')"
      "holds b' (maxdims_key @ texts ?b (Suc k))" "length (maxdims_key @ texts ?b (Suc k)) + 2 \<le> room b'"
      using maxdims_step_ok [where ok = ok and addr = addr, OF ab(2) short(2) [OF k] el(2) [OF k] assms(7,8)] by auto
    ultimately show ?thesis using k st by (simp add: if_wanted_def I_def)
  qed
  moreover have "I 0 (Some shape, Some mx)" using assms(1-4) by (simp add: I_def)
  ultimately have "\<exists>st'. each ?f [0..<length (map fst ds)] (Some shape, Some mx) = Some (Inr st') \<and>
      I (length [0..<length (map fst ds)]) st'"
    by (rule each_inv)
  then obtain st' where st': "dims_loop ok addr (map fst ds) (map snd ds) (Some shape, Some mx) = Some (Inr st')"
    "I (length ds) st'"
    by (auto simp: dims_loop_def)
  have "texts ?a (length ds) = join '','' (map (\<lambda>d. show_nat (unat d)) (map fst ds))"
    "texts ?b (length ds) = join '','' (map (\<lambda>m. show_nat (unat (maxdim_number m))) (map snd ds))"
    using join_indexed [of "'',''" "\<lambda>d. show_nat (unat d)" "map fst ds"]
      join_indexed [of "'',''" "\<lambda>m. show_nat (unat (maxdim_number m))" "map snd ds"]
    by (simp_all add: texts_def number_text_def)
  with st' show ?thesis unfolding I_def by (cases st') auto
qed

lemma put_key_ok:
  assumes "length key + 2 \<le> 256" and "\<And>n. ok n"
  shows "\<exists>tb. put_key ok key (fresh_text 256) = Some (Inr tb) \<and> holds tb key \<and> length key + 2 \<le> room tb"
proof -
  have t: "unat (of_nat (length key + 1) :: u64) = length key + 1"
    by (rule unat_of_nat_u64) (use assms(1) in simp)
  have r: "CHECKED_REALLOC H5E_CANTALLOC ok (of_nat (length key) + 1) (fresh_text 256) = Some (Inr (fresh_text 256))"
  proof -
    have "\<not> of_nat (length key + 1) > buffer_size (fresh_text 256)"
      unfolding word_less_nat_alt t using assms(1) by (simp add: fresh_text_def)
    then have "grow ok (of_nat (length key + 1)) (fresh_text 256) = Some (True, fresh_text 256)"
      by (subst grow.simps) simp
    moreover have "of_nat (length key) + 1 = (of_nat (length key + 1) :: u64)" by simp
    ultimately show ?thesis by (simp only: CHECKED_REALLOC_def option.case prod.case if_True)
  qed
  have h: "holds (fresh_text 256) []" by (rule holds_fresh) simp
  have m: "room (fresh_text 256) = 256" by (simp add: fresh_text_def)
  from strcat_holds [OF h, of key] r assms(1) m show ?thesis by (auto simp: put_key_def)
qed

lemma shape_to_JSON_ok:
  assumes "ds \<noteq> []" and "length ds \<le> 32"
    and "\<And>d m. (d, m) \<in> set ds \<Longrightarrow> unat d < 10 ^ 18 \<and> unat (maxdim_number m) < 10 ^ 18"
    and "\<And>n. ok n" and "\<And>tb. 2 ^ 21 \<le> unat (addr tb) \<and> unat (addr tb) < 2 ^ 63"
  shows "\<exists>sh mx. RV_convert_dataspace_shape_to_JSON ok addr True True (H5S_SIMPLE ds)
      = Some (Inr (Some sh, Some mx)) \<and>
    holds sh (shape_text (map fst ds)) \<and> holds mx (maxdims_text (map snd ds))"
proof -
  let ?a = "join '','' (map (\<lambda>d. show_nat (unat d)) (map fst ds))"
  let ?b = "join '','' (map (\<lambda>m. show_nat (unat (maxdim_number m))) (map snd ds))"
  obtain sh where sh: "put_key ok shape_key (fresh_text 256) = Some (Inr sh)" "holds sh shape_key"
    "length shape_key + 2 \<le> room sh"
    using put_key_ok [of shape_key ok] assms(4) by (auto simp: shape_key_def)
  obtain mx where mx: "put_key ok maxdims_key (fresh_text 256) = Some (Inr mx)" "holds mx maxdims_key"
    "length maxdims_key + 2 \<le> room mx"
    using put_key_ok [of maxdims_key ok] assms(4) by (auto simp: maxdims_key_def)
  obtain sh1 mx1 where l: "dims_loop ok addr (map fst ds) (map snd ds) (Some sh, Some mx)
      = Some (Inr (Some sh1, Some mx1))"
    "holds sh1 (shape_key @ ?a)" "holds mx1 (maxdims_key @ ?b)"
    "length (shape_key @ ?a) + 2 \<le> room sh1" "length (maxdims_key @ ?b) + 2 \<le> room mx1"
    using dims_loop_ok [where ok = ok and addr = addr, OF sh(2) mx(2) sh(3) mx(3) assms(2) assms(3) assms(4,5)]
    by blast
  obtain sh2 where sh2: "strcat_advance '']'' sh1 = Some (Inr sh2 :: failure + text_buffer)"
    "holds sh2 ((shape_key @ ?a) @ '']'')"
    using strcat_holds [OF l(2), of "'']''"] l(4) by auto
  obtain mx2 where mx2: "strcat_advance '']'' mx1 = Some (Inr mx2 :: failure + text_buffer)"
    "holds mx2 ((maxdims_key @ ?b) @ '']'')"
    using strcat_holds [OF l(3), of "'']''"] l(5) by auto
  show ?thesis
    by (intro exI [of _ sh2] exI [of _ mx2])
      (use assms(1,4) sh(1) mx(1) l(1) sh2 mx2 in
        \<open>simp add: RV_convert_dataspace_shape_to_JSON_def DATASPACE_SHAPE_BUFFER_DEFAULT_SIZE_def
          if_wanted_def shape_text_def maxdims_text_def\<close>)
qed

section \<open>Reading back\<close>

text \<open>The numbers in the brackets of a text, and the array a JSON parser makes of them.\<close>

definition bracket_ints :: "string \<Rightarrow> int list" where
  "bracket_ints t =
     map atoi (strtok_all '','' (takeWhile (\<lambda>c. c \<noteq> CHR '']'') (tl (dropWhile (\<lambda>c. c \<noteq> CHR ''['') t))))"

definition number :: "int \<Rightarrow> json" where
  "number i = YNumber (show_int i) (Some i)"

lemma bracket_ints_text:
  assumes "CHR ''['' \<notin> set key"
  shows "bracket_ints ((key @ ''['') @ join '','' (map show_nat ns) @ '']'') = map int ns"
proof -
  have s: "c \<notin> set (show_nat n)" if "\<not> is_digit_char c" for c n using that show_nat_digits by blast
  have d: "\<not> is_digit_char (CHR '']'')" "\<not> is_digit_char (CHR '','')" by code_simp+
  have j: "CHR '']'' \<notin> set (join '','' (map show_nat ns))"
    by (rule not_in_join) (auto simp: s d(1))
  have "dropWhile (\<lambda>c. c \<noteq> CHR ''['') (key @ x) = dropWhile (\<lambda>c. c \<noteq> CHR ''['') x" for x
    by (rule dropWhile_append2) (use assms in auto)
  then have "tl (dropWhile (\<lambda>c. c \<noteq> CHR ''['') ((key @ ''['') @ join '','' (map show_nat ns) @ '']''))
      = join '','' (map show_nat ns) @ '']''" by simp
  moreover have "takeWhile (\<lambda>c. c \<noteq> CHR '']'') (join '','' (map show_nat ns) @ '']'')
      = join '','' (map show_nat ns)"
    using j by (subst takeWhile_append2) auto
  moreover have "strtok_all '','' (join '','' (map show_nat ns)) = map show_nat ns"
    by (rule strtok_all_join) (auto simp: s d(2))
  moreover have "atoi (show_nat n) = int n" for n
    using atoi_show_int [of "[]" "int n"] by (simp add: show_int_def)
  ultimately show ?thesis by (simp add: bracket_ints_def)
qed

lemma read_dims_numbers:
  "length ds = length ms \<Longrightarrow>
    read_dims (map (\<lambda>d. number (int (unat d))) ds) (Some (map (\<lambda>m. number (int (unat m))) ms))
      = Some (ds, Some (map (\<lambda>m. if m = 0 then H5S_UNLIMITED else m) ms))"
  by (induction ds ms rule: list_induct2) (auto simp: number_def uint_0_iff)

section \<open>Properties\<close>



end
