(* ===== verification/Selection.thy ===== *)
theory Selection
  imports Dataspace
begin

text \<open>
  Selections in \<open>src/vol-rest/src/rest_vol_dataset.c\<close>:
  \<open>RV_convert_dataspace_selection_to_string\<close>, which tells the server what to read or write,
  \<open>RV_dataspace_selection_is_contiguous\<close> and \<open>RV_convert_start_to_offset\<close>, which decide how the
  memory buffer is used.

  A selection is what the HDF5 library reports: its type, the extent of the dataspace, the
  regular hyperslab (one start, stride, count and block per dimension) or the list of points.
\<close>

section \<open>Selections\<close>

record slab =
  start :: u64
  stride :: u64
  count :: u64
  block :: u64

datatype selection =
    H5S_SEL_NONE
  | H5S_SEL_ALL
  | H5S_SEL_POINTS "u64 list list"
  | H5S_SEL_HYPERSLABS "slab list"
  | H5S_SEL_ERROR

definition DATASPACE_SELECTION_STRING_DEFAULT_SIZE :: u64 where
  "DATASPACE_SELECTION_STRING_DEFAULT_SIZE = 512"

text \<open>The exclusive end and the step sent to the server, in 64-bit arithmetic.\<close>

definition slab_stop :: "slab \<Rightarrow> u64" where
  "slab_stop s = start s + (stride s * (count s - 1)) + (block s - 1) + 1"

definition slab_step :: "slab \<Rightarrow> u64" where
  "slab_step s = stride s div block s"

section \<open>As a request parameter\<close>

text \<open>The conversion \<open>"%s%" PRIuHSIZE ":%" PRIuHSIZE ":%" PRIuHSIZE\<close>.\<close>

definition triple_text :: "nat \<Rightarrow> slab \<Rightarrow> string" where
  "triple_text i s = (if i > 0 then '','' else []) @ show_nat (unat (start s)) @ '':'' @
     show_nat (unat (slab_stop s)) @ '':'' @ show_nat (unat (slab_step s))"

text \<open>
  One turn of the loop.  The size given to \<open>snprintf\<close> is the whole new length although the
  position is inside the buffer.  A block of size 0 would be a division by zero.
\<close>

definition triple_step :: "(u64 \<Rightarrow> bool) \<Rightarrow> slab list \<Rightarrow> nat \<Rightarrow> text_buffer \<Rightarrow> (failure + text_buffer) option" where
  "triple_step ok slabs i tb =
     (let buf_ptrdiff = of_nat (curr tb) :: u64;
          new_len = buf_ptrdiff + 3 * MAX_NUM_LENGTH + 4
      in andthen (CHECKED_REALLOC H5E_CANTALLOC ok new_len tb)
           (\<lambda>tb. if block (slabs ! i) = 0 then None else snprintf new_len (triple_text i (slabs ! i)) tb))"

definition hyperslab_param :: "(u64 \<Rightarrow> bool) \<Rightarrow> slab list \<Rightarrow> text_buffer \<Rightarrow> (failure + text_buffer) option" where
  "hyperslab_param ok slabs tb =
     andthen (strcat_advance ''['' tb) (\<lambda>tb.
     andthen (each (triple_step ok slabs) [0..<length slabs] tb) (\<lambda>tb.
     andthen (CHECKED_REALLOC H5E_CANTALLOC ok (of_nat (curr tb) + 2) tb)
       (strcat_advance '']'')))"

section \<open>As JSON\<close>

definition points_str :: string where
  "points_str = CHR 0x22 # ''points'' @ [CHR 0x22] @ '': [''"

text \<open>The coordinates of one point; \<open>size\<close> is the size given to each \<open>snprintf\<close>.\<close>

definition coordinate_step :: "u64 \<Rightarrow> u64 list \<Rightarrow> nat \<Rightarrow> text_buffer \<Rightarrow> (failure + text_buffer) option" where
  "coordinate_step n point j = snprintf n (number_text j (point ! j))"

definition point_step :: "(u64 \<Rightarrow> bool) \<Rightarrow> nat \<Rightarrow> u64 list list \<Rightarrow> nat \<Rightarrow> text_buffer \<Rightarrow> (failure + text_buffer) option" where
  "point_step ok ndims points i tb =
     (let n = of_nat ndims * MAX_NUM_LENGTH + of_nat ndims + (if ndims > 1 then 3 else 1)
      in andthen (CHECKED_REALLOC H5E_CANTALLOC ok (of_nat (curr tb) + n) tb) (\<lambda>tb.
         andthen (if i > 0 then strcat_advance '','' tb else Some (Inr tb)) (\<lambda>tb.
         andthen (if ndims > 1 then strcat_advance ''['' tb else Some (Inr tb)) (\<lambda>tb.
         andthen (each (coordinate_step n (points ! i)) [0..<ndims] tb) (\<lambda>tb.
           if ndims > 1 then strcat_advance '']'' tb else Some (Inr tb))))))"

definition points_JSON :: "(u64 \<Rightarrow> bool) \<Rightarrow> nat \<Rightarrow> u64 list list \<Rightarrow> text_buffer \<Rightarrow> (failure + text_buffer) option" where
  "points_JSON ok ndims points tb =
     andthen (CHECKED_REALLOC H5E_CANTALLOC ok (of_nat (length points_str) + 1) tb) (\<lambda>tb.
     andthen (strcat_advance points_str tb) (\<lambda>tb.
     andthen (each (point_step ok ndims points) [0..<length points] tb) (\<lambda>tb.
     andthen (CHECKED_REALLOC H5E_CANTALLOC ok (of_nat (curr tb) + 2) tb)
       (strcat_advance '']''))))"

text \<open>
  The three lists of a hyperslab.  \<open>"["\<close> is put twice into the stop list and never into the
  step list.
\<close>

definition slab_step_bodies ::
  "u64 \<Rightarrow> slab list \<Rightarrow> nat \<Rightarrow> text_buffer \<times> text_buffer \<times> text_buffer
     \<Rightarrow> (failure + text_buffer \<times> text_buffer \<times> text_buffer) option" where
  "slab_step_bodies body_size slabs i = (\<lambda>(sta, sto, ste).
     andthen (snprintf (body_size - of_nat (curr sta)) (number_text i (start (slabs ! i))) sta) (\<lambda>sta.
     andthen (snprintf (body_size - of_nat (curr sto)) (number_text i (slab_stop (slabs ! i))) sto) (\<lambda>sto.
     if block (slabs ! i) = 0 then None
     else andthen (snprintf (body_size - of_nat (curr ste)) (number_text i (slab_step (slabs ! i))) ste) (\<lambda>ste.
       Some (Inr (sta, sto, ste))))))"

definition slab_bodies ::
  "slab list \<Rightarrow> (failure + text_buffer \<times> text_buffer \<times> text_buffer) option" where
  "slab_bodies slabs =
     (let body_size = of_nat (length slabs) * MAX_NUM_LENGTH + of_nat (length slabs)
      in andthen (strcat_advance ''['' (zero_text body_size)) (\<lambda>sta.
         andthen (strcat_advance ''['' (zero_text body_size)) (\<lambda>sto.
         andthen (strcat_advance ''['' sto) (\<lambda>sto.
         andthen (each (slab_step_bodies body_size slabs) [0..<length slabs] (sta, sto, zero_text body_size))
           (\<lambda>(sta, sto, ste).
         andthen (strcat '']'' sta) (\<lambda>sta.
         andthen (strcat '']'' sto) (\<lambda>sto.
         andthen (strcat '']'' ste) (\<lambda>ste.
           Some (Inr (sta, sto, ste))))))))))"

definition slab_format :: "string \<Rightarrow> string \<Rightarrow> string \<Rightarrow> string" where
  "slab_format sta sto ste =
     CHR 0x22 # ''start'' @ [CHR 0x22] @ '': '' @ sta @ '','' @
     CHR 0x22 # ''stop'' @ [CHR 0x22] @ '': '' @ sto @ '','' @
     CHR 0x22 # ''step'' @ [CHR 0x22] @ '': '' @ ste"

definition hyperslab_JSON :: "(u64 \<Rightarrow> bool) \<Rightarrow> slab list \<Rightarrow> text_buffer \<Rightarrow> (failure + text_buffer) option" where
  "hyperslab_JSON ok slabs tb =
     andthen (slab_bodies slabs) (\<lambda>(sta, sto, ste).
       case (c_string (buffer sta), c_string (buffer sto), c_string (buffer ste)) of
         (Some a, Some b, Some c) \<Rightarrow>
           let buf_ptrdiff = of_nat (curr tb) :: u64
           in andthen (CHECKED_REALLOC H5E_CANTALLOC ok
                (buf_ptrdiff + of_nat (length a) + of_nat (length b) + of_nat (length c) + 1) tb) (\<lambda>tb.
              andthen (snprintf (buffer_size tb - buf_ptrdiff) (slab_format a b c) tb) (\<lambda>tb'.
                if of_nat (length (slab_format a b c)) \<ge> buffer_size tb' - buf_ptrdiff
                then Some (Inl H5E_SYSERRSTR) else Some (Inr tb')))
       | _ \<Rightarrow> None)"

section \<open>The string of a selection\<close>

text \<open>
  \<open>dims\<close> is the extent of the dataspace, \<open>None\<close> when the id is not a dataspace.  The allocations
  of the coordinate arrays are one \<open>ok\<close> each.
\<close>

definition RV_convert_dataspace_selection_to_string ::
  "(u64 \<Rightarrow> bool) \<Rightarrow> u64 list option \<Rightarrow> selection \<Rightarrow> bool \<Rightarrow> (failure + text_buffer) option" where
  "RV_convert_dataspace_selection_to_string ok extent sel req_param =
     (let out_string = fresh_text DATASPACE_SELECTION_STRING_DEFAULT_SIZE
      in if \<not> ok DATASPACE_SELECTION_STRING_DEFAULT_SIZE then Some (Inl H5E_CANTALLOC)
         else case extent of
           None \<Rightarrow> Some (Inl H5E_BADVALUE)
         | Some dims \<Rightarrow>
             let ndims = of_nat (length dims) :: u64
             in if dims = [] then Some (Inl H5E_BADVALUE)
                else
                  (case sel of
                     H5S_SEL_ALL \<Rightarrow> Some (Inr out_string)
                   | H5S_SEL_NONE \<Rightarrow> Some (Inr out_string)
                   | H5S_SEL_POINTS points \<Rightarrow>
                       if req_param then Some (Inl H5E_UNSUPPORTED)
                       else if \<not> ok (8 * (ndims * of_nat (length points))) then Some (Inl H5E_CANTALLOC)
                       else points_JSON ok (length dims) points out_string
                   | H5S_SEL_HYPERSLABS slabs \<Rightarrow>
                       if \<not> ok (8 * ndims) then Some (Inl H5E_CANTALLOC)
                       else if req_param then hyperslab_param ok slabs out_string
                       else if \<not> ok (ndims * MAX_NUM_LENGTH + ndims) then Some (Inl H5E_CANTALLOC)
                       else hyperslab_JSON ok slabs out_string
                   | H5S_SEL_ERROR \<Rightarrow> Some (Inl H5E_BADVALUE)))"

section \<open>Contiguity and offset\<close>

text \<open>The number of elements a slab selects in its dimension.\<close>

definition width :: "slab \<Rightarrow> u64" where
  "width s = count s * block s"

text \<open>
  The loop from the second fastest dimension to the slowest; the lists are reversed, so that
  the head is the current dimension.
\<close>

fun whole_loop :: "bool \<Rightarrow> (u64 \<times> slab) list \<Rightarrow> bool" where
  "whole_loop whole [] \<longleftrightarrow> True"
| "whole_loop whole ((dim, s) # rest) \<longleftrightarrow>
     \<not> (dim > 1 \<and> width s > 1 \<and> \<not> whole) \<and>
     whole_loop (whole \<and> start s = 0 \<and> width s = dim) rest"

text \<open>
  \<open>nblocks = H5Sget_select_hyper_nblocks (space_id) < 0\<close> assigns the result of the comparison:
  0 when the call succeeds, and a failure otherwise goes to the error.  \<open>regular\<close> is
  \<open>H5Sis_regular_hyperslab\<close>.
\<close>

definition RV_dataspace_selection_is_contiguous ::
  "int \<Rightarrow> u64 list \<Rightarrow> selection \<Rightarrow> bool \<Rightarrow> int \<Rightarrow> failure + bool" where
  "RV_dataspace_selection_is_contiguous npoints dims sel regular hyper_nblocks =
     (if npoints < 0 then Inl H5E_CANTGET
      else if npoints < 2 then Inr True
      else if dims = [] then Inr True
      else
        (case sel of
           H5S_SEL_HYPERSLABS slabs \<Rightarrow>
             if \<not> regular then Inr False
             else
               let nblocks = (if hyper_nblocks < 0 then 1 else 0) :: int
               in if nblocks \<noteq> 0 then Inl H5E_CANTGET
                  else if \<exists>s \<in> set slabs. stride s > 1 then Inr False
                  else if nblocks > 1 \<and> (\<exists>s \<in> set (butlast slabs). count s > 1) then Inr False
                  else
                    (case rev (zip dims slabs) of
                       [] \<Rightarrow> Inr True
                     | (dim, s) # rest \<Rightarrow> Inr (whole_loop (start s = 0 \<and> width s = dim) rest))
         | H5S_SEL_POINTS _ \<Rightarrow> Inr False
         | H5S_SEL_ALL \<Rightarrow> Inr True
         | H5S_SEL_NONE \<Rightarrow> Inr False
         | H5S_SEL_ERROR \<Rightarrow> Inl H5E_BADVALUE))"

text \<open>The offset, with the bounding box of the selection as \<open>starts\<close>; \<open>hssize_t\<close> wraps like \<open>u64\<close>.\<close>

fun offset_loop :: "u64 \<Rightarrow> (u64 \<times> u64) list \<Rightarrow> u64" where
  "offset_loop ret [] = ret"
| "offset_loop ret ((dim, st) # rest) = offset_loop (ret * (dim + st)) rest"

definition RV_convert_start_to_offset :: "u64 list \<Rightarrow> selection \<Rightarrow> u64 list \<Rightarrow> failure + u64" where
  "RV_convert_start_to_offset dims sel starts =
     (case sel of
        H5S_SEL_HYPERSLABS _ \<Rightarrow> Inr (offset_loop (hd starts) (zip (tl dims) (tl starts)))
      | H5S_SEL_POINTS _ \<Rightarrow> Inl H5E_BADVALUE
      | H5S_SEL_ALL \<Rightarrow> Inr 0
      | H5S_SEL_NONE \<Rightarrow> Inr 0
      | H5S_SEL_ERROR \<Rightarrow> Inl H5E_BADVALUE)"

section \<open>Slices and hyperslabs\<close>

text \<open>What a \<open>start:stop:step\<close> triple selects, and what a hyperslab selects in one dimension.\<close>

definition slice :: "nat \<Rightarrow> nat \<Rightarrow> nat \<Rightarrow> nat set" where
  "slice a b k = (if k = 0 then {} else {a + i * k | i. a + i * k < b})"

definition selected :: "slab \<Rightarrow> nat set" where
  "selected s = {unat (start s) + i * unat (stride s) + j | i j. i < unat (count s) \<and> j < unat (block s)}"

lemma slice_exact_nat:
  fixes sd c b :: nat
  assumes "0 < sd" "0 < c" "0 < b" "1 < c \<longrightarrow> b \<le> sd"
  shows "slice 0 (sd * (c - 1) + b) (sd div b) = {i * sd + j | i j. i < c \<and> j < b} \<longleftrightarrow>
    b = 1 \<or> (if c = 1 then sd div b = 1 else sd = b)"
    (is "?L = ?S \<longleftrightarrow> ?R")
proof
  assume eq: "?L = ?S"
  show ?R
  proof (cases "b = 1")
    case False
    have "1 = 0 * sd + 1 \<and> 0 < c \<and> 1 < b" using False assms by simp
    then have "1 \<in> ?S" by blast
    then have "1 \<in> ?L" unfolding eq .
    then obtain k where k: "sd div b \<noteq> 0" "1 = k * (sd div b)"
      by (auto simp: slice_def split: if_splits)
    then have q: "sd div b = 1" by (metis nat_mult_eq_1_iff)
    moreover have "sd = b" if c: "c \<noteq> 1"
    proof (rule ccontr)
      assume "sd \<noteq> b"
      with c assms have lt: "b < sd" by auto
      have "1 \<le> c - 1" using c assms(2) by linarith
      then have "sd \<le> sd * (c - 1)" by simp
      then have "b \<in> ?L" using q assms(3) lt by (auto simp: slice_def)
      with eq obtain i j where ij: "b = i * sd + j" "j < b" by auto
      then have "0 < i" by (cases i) auto
      then have "sd \<le> i * sd" by simp
      with ij lt show False by simp
    qed
    ultimately show ?thesis by simp
  qed simp
next
  assume r: ?R
  show "?L = ?S"
  proof (cases "b = 1")
    case True
    have "i * sd < sd * (c - 1) + 1 \<longleftrightarrow> i < c" for i
    proof -
      have "i * sd \<le> sd * (c - 1) \<longleftrightarrow> i \<le> c - 1" using assms(1) by (simp add: mult.commute)
      then show ?thesis using assms(2) by linarith
    qed
    then show ?thesis using True assms(1) by (auto simp: slice_def)
  next
    case False
    show ?thesis
    proof (cases "c = 1")
      case True
      with r False show ?thesis by (auto simp: slice_def)
    next
      case c: False
      with r False have sd: "sd = b" by simp
      have m: "b * (c - 1) + b = c * b" using assms(2) by (cases c) simp_all
      have "?L = {..<c * b}" unfolding sd m using assms(3) by (auto simp: slice_def)
      moreover have "?S = {..<c * b}"
      proof (intro equalityI subsetI)
        fix x assume "x \<in> ?S"
        then obtain i j where ij: "x = i * b + j" "i < c" "j < b" unfolding sd by blast
        then have "x < (i + 1) * b" by simp
        also have "\<dots> \<le> c * b" by (rule mult_le_mono1) (use ij in simp)
        finally show "x \<in> {..<c * b}" by simp
      next
        fix x assume "x \<in> {..<c * b}"
        then have "x div b < c" "x mod b < b" "x = x div b * b + x mod b"
          using assms(3) by (simp_all add: less_mult_imp_div_less)
        then show "x \<in> ?S" unfolding sd by blast
      qed
      ultimately show ?thesis by simp
    qed
  qed
qed

lemma unat_slab_stop:
  assumes "0 < count s" and "0 < block s"
    and "unat (start s) + unat (stride s) * (unat (count s) - 1) + unat (block s) < 2 ^ 64"
  shows "unat (slab_stop s) = unat (start s) + unat (stride s) * (unat (count s) - 1) + unat (block s)"
proof -
  have c: "count s - 1 = of_nat (unat (count s) - 1)" "block s - 1 = of_nat (unat (block s) - 1)"
    using assms(1,2) by (simp_all add: of_nat_diff word_less_nat_alt Suc_leI)
  have "slab_stop s = of_nat (unat (start s) + unat (stride s) * (unat (count s) - 1) + (unat (block s) - 1) + 1)"
    unfolding slab_stop_def c by simp
  moreover have "unat (start s) + unat (stride s) * (unat (count s) - 1) + (unat (block s) - 1) + 1
      = unat (start s) + unat (stride s) * (unat (count s) - 1) + unat (block s)"
    using assms(2) by (simp add: word_less_nat_alt)
  ultimately show ?thesis using unat_of_nat_u64 [OF assms(3)] by simp
qed

lemma slice_shift: "slice (a + c) (b + c) k = (\<lambda>x. x + c) ` slice a b k"
  by (auto simp: slice_def image_iff)

section \<open>Row-major offsets of a box\<close>

text \<open>
  The offsets of the elements of a box, slowest dimension first: for each dimension its extent,
  the first index and the number of indices.
\<close>

type_synonym box = "(nat \<times> nat \<times> nat) list"

fun elements :: "box \<Rightarrow> nat" where
  "elements [] = 1"
| "elements ((d, a, w) # r) = d * elements r"

fun offsets :: "box \<Rightarrow> nat set" where
  "offsets [] = {0}"
| "offsets ((d, a, w) # r) = {c * elements r + x | c x. a \<le> c \<and> c < a + w \<and> x \<in> offsets r}"

fun first_offset :: "box \<Rightarrow> nat" where
  "first_offset [] = 0"
| "first_offset ((d, a, w) # r) = a * elements r + first_offset r"

fun in_extent :: "box \<Rightarrow> bool" where
  "in_extent [] \<longleftrightarrow> True"
| "in_extent ((d, a, w) # r) \<longleftrightarrow> 0 < w \<and> a + w \<le> d \<and> in_extent r"

fun whole_box :: "box \<Rightarrow> bool" where
  "whole_box [] \<longleftrightarrow> True"
| "whole_box ((d, a, w) # r) \<longleftrightarrow> a = 0 \<and> w = d \<and> whole_box r"

text \<open>Every dimension with more than one index has only complete dimensions behind it.\<close>

fun packed :: "box \<Rightarrow> bool" where
  "packed [] \<longleftrightarrow> True"
| "packed ((d, a, w) # r) \<longleftrightarrow> (d > 1 \<and> w > 1 \<longrightarrow> whole_box r) \<and> packed r"

lemma offsets_bound: "in_extent r \<Longrightarrow> x \<in> offsets r \<Longrightarrow> x < elements r"
proof (induction r arbitrary: x rule: offsets.induct)
  case (2 d a w r)
  then obtain c y where c: "x = c * elements r + y" "c < a + w" "y \<in> offsets r" by auto
  have "x < (c + 1) * elements r" using c 2 by simp
  also have "\<dots> \<le> d * elements r" by (rule mult_le_mono1) (use c(2) "2.prems"(1) in simp)
  finally show ?case by simp
qed simp

lemma first_in_offsets: "in_extent r \<Longrightarrow> first_offset r \<in> offsets r"
proof (induction r rule: offsets.induct)
  case (2 d a w r)
  then have "first_offset ((d, a, w) # r) = a * elements r + first_offset r \<and> a \<le> a \<and> a < a + w \<and>
      first_offset r \<in> offsets r" by simp
  then show ?case unfolding offsets.simps by blast
qed simp

lemma whole_offsets: "whole_box r \<Longrightarrow> in_extent r \<Longrightarrow> offsets r = {..<elements r}"
proof (induction r rule: offsets.induct)
  case (2 d a w r)
  then have r: "offsets r = {..<elements r}" and a: "a = 0" "w = d" by auto
  show ?case
  proof (intro equalityI subsetI)
    fix x assume "x \<in> offsets ((d, a, w) # r)"
    then show "x \<in> {..<elements ((d, a, w) # r)}" using offsets_bound [OF "2.prems"(2)] by auto
  next
    fix x assume "x \<in> {..<elements ((d, a, w) # r)}"
    then have x: "x < d * elements r" by simp
    then have p: "0 < elements r" by (cases "elements r") auto
    have "x div elements r < d" "x mod elements r < elements r" "x = x div elements r * elements r + x mod elements r"
      using x p by (simp_all add: less_mult_imp_div_less)
    then show "x \<in> offsets ((d, a, w) # r)" using r a by auto
  qed
qed auto

lemma whole_if_ends:
  assumes "in_extent r" and "0 \<in> offsets r" and "elements r - 1 \<in> offsets r"
  shows "whole_box r"
  using assms
proof (induction r rule: offsets.induct)
  case (2 d a w r)
  have r: "in_extent r" and w: "0 < w" "a + w \<le> d" using "2.prems"(1) by auto
  have p: "0 < elements r" using offsets_bound [OF r first_in_offsets [OF r]] by simp
  obtain c x where 0: "0 = c * elements r + x" "a \<le> c" "x \<in> offsets r" using "2.prems"(2) by auto
  obtain e y where 1: "d * elements r - 1 = e * elements r + y" "e < a + w" "y \<in> offsets r"
    using "2.prems"(3) by auto
  have y: "y < elements r" by (rule offsets_bound [OF r 1(3)])
  have d: "0 < d" using w by simp
  have e: "e = d - 1"
  proof (rule ccontr)
    assume "e \<noteq> d - 1"
    then have "e + 1 \<le> d - 1" using 1(2) w by simp
    then have "(e + 1) * elements r \<le> (d - 1) * elements r" by (rule mult_le_mono1)
    moreover have "(d - 1) * elements r + elements r = d * elements r" using d by (cases d) simp_all
    moreover have "(e + 1) * elements r = e * elements r + elements r" by simp
    ultimately show False using 1(1) y p by linarith
  qed
  have "(d - 1) * elements r + elements r = d * elements r" using d by (cases d) simp_all
  then have "y = elements r - 1" using 1(1) p unfolding e by linarith
  moreover have "c = 0" "x = 0" using 0(1) p by simp_all
  ultimately have "whole_box r" using "2.IH" [OF r] 0(3) 1(3) by simp
  moreover have "a = 0" using 0(2) \<open>c = 0\<close> by simp
  moreover have "w = d" using 1(2) w e \<open>a = 0\<close> by linarith
  ultimately show ?case by simp
qed simp

fun box_size :: "box \<Rightarrow> nat" where
  "box_size [] = 1"
| "box_size ((d, a, w) # r) = w * box_size r"

lemma whole_size: "whole_box r \<Longrightarrow> box_size r = elements r \<and> first_offset r = 0"
  by (induction r rule: whole_box.induct) auto

lemma packed_offsets:
  "packed r \<Longrightarrow> in_extent r \<Longrightarrow> offsets r = {first_offset r..<first_offset r + box_size r}"
proof (induction r rule: offsets.induct)
  case (2 d a w r)
  have r: "in_extent r" "packed r" and w: "0 < w" "a + w \<le> d" using "2.prems" by auto
  note IH = "2.IH" [OF r(2,1)]
  show ?case
  proof (cases "w = 1")
    case True
    then have e: "offsets ((d, a, w) # r) = (\<lambda>x. a * elements r + x) ` offsets r" by force
    show ?thesis unfolding e IH using True by (simp add: ac_simps)
  next
    case False
    with "2.prems" w have wh: "whole_box r" by auto
    note f = whole_size [OF wh] and o = whole_offsets [OF wh r(1)]
    have p: "0 < elements r" using offsets_bound [OF r(1) first_in_offsets [OF r(1)]] by simp
    show ?thesis
    proof (intro equalityI subsetI)
      fix x assume "x \<in> offsets ((d, a, w) # r)"
      then obtain c y where c: "x = c * elements r + y" "a \<le> c" "c < a + w" "y < elements r"
        using o by auto
      have "a * elements r \<le> c * elements r" by (rule mult_le_mono1 [OF c(2)])
      then have "a * elements r \<le> x" unfolding c(1) by linarith
      moreover have "(c + 1) * elements r \<le> (a + w) * elements r" by (rule mult_le_mono1) (use c(3) in simp)
      ultimately show "x \<in> {first_offset ((d, a, w) # r)..<first_offset ((d, a, w) # r) + box_size ((d, a, w) # r)}"
        using c(1,4) f by (auto simp: algebra_simps)
    next
      fix x assume "x \<in> {first_offset ((d, a, w) # r)..<first_offset ((d, a, w) # r) + box_size ((d, a, w) # r)}"
      then have x: "a * elements r \<le> x" "x < (a + w) * elements r" using f by (simp_all add: algebra_simps)
      have "a \<le> x div elements r" using x(1) p by (simp add: less_eq_div_iff_mult_less_eq)
      moreover have "x div elements r < a + w" using x(2) by (simp add: less_mult_imp_div_less)
      moreover have "x mod elements r \<in> offsets r" using o p by simp
      moreover have "x = x div elements r * elements r + x mod elements r" by simp
      ultimately show "x \<in> offsets ((d, a, w) # r)" unfolding offsets.simps mem_Collect_eq by blast
    qed
  qed
qed simp

text \<open>Conversely, only a packed box has offsets without gaps.\<close>

lemma interval_packed:
  assumes "in_extent r" and "\<And>x y z. x \<in> offsets r \<Longrightarrow> z \<in> offsets r \<Longrightarrow> x \<le> y \<Longrightarrow> y \<le> z \<Longrightarrow> y \<in> offsets r"
  shows "packed r"
  using assms
proof (induction r rule: offsets.induct)
  case (2 d a w r)
  have r: "in_extent r" and w: "0 < w" "a + w \<le> d" using "2.prems"(1) by auto
  let ?P = "elements r" and ?o = "offsets ((d, a, w) # r)"
  have row: "c * ?P + x \<in> ?o \<longleftrightarrow> x \<in> offsets r" if "a \<le> c" "c < a + w" "x < ?P" for c x
  proof
    assume "c * ?P + x \<in> ?o"
    then obtain e y where e: "c * ?P + x = e * ?P + y" "y \<in> offsets r" by auto
    have "y < ?P" by (rule offsets_bound [OF r e(2)])
    with e(1) that(3) have "x = y"
      by (metis mod_less mod_mult_self3)
    with e(2) show "x \<in> offsets r" by simp
  qed (use that in auto)
  have conv: "y \<in> offsets r" if "x \<in> offsets r" "z \<in> offsets r" "x \<le> y" "y \<le> z" for x y z
  proof -
    have b: "x < ?P" "y < ?P" "z < ?P"
      using offsets_bound [OF r] that by (auto intro: le_less_trans)
    have "a * ?P + x \<in> ?o" "a * ?P + z \<in> ?o" using row [of a] w b that by auto
    from "2.prems"(2) [OF this, of "a * ?P + y"] that have "a * ?P + y \<in> ?o" by simp
    then show ?thesis using row [of a y] w b by simp
  qed
  have "packed r" by (rule "2.IH" [OF r conv])
  moreover have "whole_box r" if "1 < w"
  proof -
    let ?f = "first_offset r"
    have f: "?f \<in> offsets r" "?f < ?P" using first_in_offsets [OF r] offsets_bound [OF r] by auto
    have in1: "a * ?P + ?f \<in> ?o" "(a + 1) * ?P + ?f \<in> ?o"
      using row [of a ?f] row [of "a + 1" ?f] f that by auto
    have "a * ?P + (?P - 1) \<in> ?o" by (rule "2.prems"(2) [OF in1]) (use f in auto)
    then have e: "?P - 1 \<in> offsets r" using row [of a "?P - 1"] f(2) w by simp
    have "(a + 1) * ?P + 0 \<in> ?o" by (rule "2.prems"(2) [OF in1]) (use f in auto)
    then have "0 \<in> offsets r" using row [of "a + 1" 0] f(2) that by simp
    from whole_if_ends [OF r this e] show ?thesis .
  qed
  ultimately show ?case by simp
qed simp

lemma packed_iff:
  assumes "in_extent r"
  shows "packed r \<longleftrightarrow> offsets r = {first_offset r..<first_offset r + box_size r}"
proof
  assume "offsets r = {first_offset r..<first_offset r + box_size r}"
  then show "packed r" by (intro interval_packed [OF assms]) auto
qed (rule packed_offsets [OF _ assms])

text \<open>The elements of a hyperslab, for the extents and the slabs of its dimensions.\<close>

fun selection_offsets :: "(u64 \<times> slab) list \<Rightarrow> nat set" where
  "selection_offsets [] = {0}"
| "selection_offsets ((d, s) # r) =
     {c * prod_list (map (\<lambda>(d, _). unat d) r) + x | c x. c \<in> selected s \<and> x \<in> selection_offsets r}"

text \<open>What HDF5 guarantees of a regular hyperslab inside its extent.\<close>

definition slab_ok :: "u64 \<Rightarrow> slab \<Rightarrow> bool" where
  "slab_ok d s \<longleftrightarrow> 0 < count s \<and> 0 < block s \<and> 0 < stride s \<and> (count s = 1 \<or> block s \<le> stride s) \<and>
     unat (start s) + unat (stride s) * (unat (count s) - 1) + unat (block s) \<le> unat d"

definition box_of :: "(u64 \<times> slab) list \<Rightarrow> box" where
  "box_of = map (\<lambda>(d, s). (unat d, unat (start s), unat (width s)))"

lemma slab_unit_stride:
  assumes "slab_ok d s" and "stride s = 1"
  shows "unat (width s) = unat (count s) * unat (block s)" and "0 < unat (width s)"
    and "unat (start s) + unat (width s) \<le> unat d"
    and "selected s = {unat (start s)..<unat (start s) + unat (width s)}"
proof -
  have p: "0 < unat (count s)" "0 < unat (block s)" using assms(1) by (simp_all add: slab_ok_def unat_gt_0 word_neq_0_conv)
  have one: "unat (count s) = 1 \<or> unat (block s) = 1"
  proof (cases "count s = 1")
    case False
    with assms have "unat (block s) \<le> unat (1 :: u64)" by (simp add: slab_ok_def word_le_nat_alt)
    with p show ?thesis by simp
  qed simp
  have m: "unat (count s) * unat (block s) = (unat (count s) - 1) + unat (block s)"
    using one p by auto
  have fit: "unat (start s) + ((unat (count s) - 1) + unat (block s)) \<le> unat d"
    using assms by (simp add: slab_ok_def)
  have "unat (count s) * unat (block s) < 2 ^ 64"
    unfolding m using fit unat_u64_bound [of d] by linarith
  then show w: "unat (width s) = unat (count s) * unat (block s)"
    by (simp add: width_def unat_mult_lem [symmetric])
  show "0 < unat (width s)" unfolding w using p by simp
  show "unat (start s) + unat (width s) \<le> unat d" unfolding w m using fit .
  show "selected s = {unat (start s)..<unat (start s) + unat (width s)}"
  proof (cases "unat (count s) = 1")
    case True
    then have "selected s = (\<lambda>j. unat (start s) + j) ` {..<unat (block s)}"
      by (auto simp: selected_def)
    also have "\<dots> = {unat (start s)..<unat (start s) + unat (block s)}"
      by (simp add: lessThan_atLeast0 add.commute)
    finally show ?thesis unfolding w True by simp
  next
    case False
    with one have b: "unat (block s) = 1" by simp
    then have "selected s = (\<lambda>i. unat (start s) + i) ` {..<unat (count s)}"
      using assms(2) by (auto simp: selected_def)
    also have "\<dots> = {unat (start s)..<unat (start s) + unat (count s)}"
      by (simp add: lessThan_atLeast0 add.commute)
    finally show ?thesis unfolding w b by simp
  qed
qed

lemma elements_box_of: "elements (box_of ds) = prod_list (map (\<lambda>(d, _). unat d) ds)"
  by (induction ds) (auto simp: box_of_def)

lemma selection_box:
  assumes "\<And>d s. (d, s) \<in> set ds \<Longrightarrow> slab_ok d s \<and> stride s = 1"
  shows "selection_offsets ds = offsets (box_of ds) \<and> in_extent (box_of ds)"
  using assms
proof (induction ds)
  case (Cons a ds)
  obtain d s where a: "a = (d, s)" by (cases a)
  have s: "slab_ok d s" "stride s = 1" using Cons.prems a by auto
  note u = slab_unit_stride [OF s]
  have "selection_offsets ds = offsets (box_of ds) \<and> in_extent (box_of ds)"
    by (rule Cons.IH) (use Cons.prems in auto)
  with u show ?case
    using elements_box_of [of ds] by (auto simp: a box_of_def)
qed (simp add: box_of_def)

text \<open>The loop of the code decides packedness.\<close>

lemma whole_loop_packed:
  "(whole_loop (whole_box (box_of ys)) xs \<and> packed (box_of ys)) \<longleftrightarrow> packed (box_of (rev xs @ ys))"
proof (induction xs arbitrary: ys)
  case (Cons a xs)
  obtain d s where a: "a = (d, s)" by (cases a)
  have w: "whole_box (box_of (a # ys)) \<longleftrightarrow> whole_box (box_of ys) \<and> start s = 0 \<and> width s = d"
    by (auto simp: a box_of_def unat_eq_0)
  have one: "1 < unat d \<longleftrightarrow> d > 1" "1 < unat (width s) \<longleftrightarrow> width s > 1"
    by (simp_all add: word_less_nat_alt)
  have p: "packed (box_of (a # ys)) \<longleftrightarrow> (d > 1 \<and> width s > 1 \<longrightarrow> whole_box (box_of ys)) \<and> packed (box_of ys)"
    using one by (simp add: a box_of_def)
  have "whole_loop (whole_box (box_of ys)) (a # xs) \<and> packed (box_of ys) \<longleftrightarrow>
      whole_loop (whole_box (box_of (a # ys))) xs \<and> packed (box_of (a # ys))"
    unfolding w p by (auto simp: a)
  also have "\<dots> \<longleftrightarrow> packed (box_of (rev xs @ a # ys))" by (rule Cons.IH)
  finally show ?case by simp
qed simp

section \<open>Properties of contiguity and offsets\<close>

text \<open>
  C10: \<open>RV_dataspace_selection_is_contiguous\<close> is right for every regular hyperslab with stride 1,
  of any rank: it answers TRUE exactly when the selected elements form one run in row-major
  order. With a larger stride it always answers FALSE, which is safe. The check on the number
  of blocks, dead by a missing pair of parentheses, is not needed for this.
\<close>

theorem contiguous_iff:
  assumes "length dims = length slabs" and "dims \<noteq> []" and "2 \<le> npoints" and "0 \<le> hyper_nblocks"
    and "\<And>d s. (d, s) \<in> set (zip dims slabs) \<Longrightarrow> slab_ok d s"
  shows "RV_dataspace_selection_is_contiguous npoints dims (H5S_SEL_HYPERSLABS slabs) True hyper_nblocks
    = Inr ((\<forall>s \<in> set slabs. stride s = 1) \<and> (\<exists>a n. selection_offsets (zip dims slabs) = {a..<a + n}))"
proof (cases "\<forall>s \<in> set slabs. stride s = 1")
  case False
  then obtain s where s: "s \<in> set slabs" "stride s \<noteq> 1" by blast
  then obtain d where "(d, s) \<in> set (zip dims slabs)" using assms(1) by (metis in_set_impl_in_set_zip2)
  from assms(5) [OF this] have "0 < stride s" by (simp add: slab_ok_def)
  with s(2) have "stride s > 1" by (metis word_less_1 order_neq_le_trans not_less linorder_neqE_linordered_idom less_one word_neq_0_conv)
  with s(1) False assms(2,3,4) show ?thesis
    by (auto simp: RV_dataspace_selection_is_contiguous_def)
next
  case True
  let ?ds = "zip dims slabs"
  have "\<And>d s. (d, s) \<in> set ?ds \<Longrightarrow> slab_ok d s \<and> stride s = 1"
    using assms(5) True by (auto dest: set_zip_rightD)
  note b = selection_box [OF this]
  have "rev ?ds \<noteq> []" using assms(1,2) by (cases dims; cases slabs) auto
  then obtain d s rest where r: "rev ?ds = (d, s) # rest" by (cases "rev ?ds") auto
  then have ds: "?ds = rev rest @ [(d, s)]" by (metis rev.simps(2) rev_rev_ident)
  have w: "whole_box (box_of [(d, s)]) \<longleftrightarrow> start s = 0 \<and> width s = d" "packed (box_of [(d, s)])"
    by (auto simp: box_of_def unat_eq_0)
  have "RV_dataspace_selection_is_contiguous npoints dims (H5S_SEL_HYPERSLABS slabs) True hyper_nblocks
      = Inr (whole_loop (start s = 0 \<and> width s = d) rest)"
    using True assms(2,3,4) r by (simp add: RV_dataspace_selection_is_contiguous_def)
  moreover have "whole_loop (start s = 0 \<and> width s = d) rest \<longleftrightarrow> packed (box_of ?ds)"
    using whole_loop_packed [of "[(d, s)]" rest] w unfolding ds by simp
  moreover have "packed (box_of ?ds) \<longleftrightarrow> (\<exists>a n. selection_offsets ?ds = {a..<a + n})"
  proof
    assume "\<exists>a n. selection_offsets ?ds = {a..<a + n}"
    then obtain a n where "offsets (box_of ?ds) = {a..<a + n}" using b by auto
    then show "packed (box_of ?ds)" by (intro interval_packed) (use b in auto)
  qed (use packed_offsets [of "box_of ?ds"] b in auto)
  ultimately show ?thesis using True by simp
qed

theorem contiguous_iff_witness:
  "RV_dataspace_selection_is_contiguous 6 [4, 5]
      (H5S_SEL_HYPERSLABS [\<lparr>start = 1, stride = 1, count = 2, block = 1\<rparr>, \<lparr>start = 1, stride = 1, count = 3, block = 1\<rparr>])
      True 1
    = Inr (\<exists>a n. selection_offsets (zip [4, 5]
      [\<lparr>start = 1, stride = 1, count = 2, block = 1\<rparr>, \<lparr>start = 1, stride = 1, count = 3, block = 1\<rparr>]) = {a..<a + n})"
  by (subst contiguous_iff) (auto simp: slab_ok_def)

text \<open>The offset in row-major order, in the same arithmetic.\<close>

fun row_major :: "u64 \<Rightarrow> (u64 \<times> u64) list \<Rightarrow> u64" where
  "row_major ret [] = ret"
| "row_major ret ((dim, st) # rest) = row_major (ret * dim + st) rest"

lemma offset_loop_zero: "(\<forall>(d, s) \<in> set r. s = 0) \<Longrightarrow> offset_loop ret r = row_major ret r"
  by (induction ret r rule: offset_loop.induct) auto

text \<open>
  \<open>RV_convert_start_to_offset\<close> multiplies by the sum of the extent and the start index
  instead of multiplying by the extent and adding the start index. It is right when every
  dimension but the slowest starts at 0; in two dimensions it is right only then or in row 1.
\<close>

lemma start_to_offset:
  "((\<forall>s \<in> set starts. s = 0) \<longrightarrow>
     RV_convert_start_to_offset (d0 # dims) (H5S_SEL_HYPERSLABS slabs) (s0 # starts)
       = Inr (row_major s0 (zip dims starts))) \<and>
   (unat s0 * (unat d1 + unat s1) < 2 ^ 64 \<longrightarrow>
     (RV_convert_start_to_offset [d0, d1] (H5S_SEL_HYPERSLABS slabs) [s0, s1] = Inr (row_major s0 [(d1, s1)])
       \<longleftrightarrow> s1 = 0 \<or> s0 = 1))"
proof (intro conjI impI)
  assume "\<forall>s \<in> set starts. s = 0"
  then have "\<forall>(d, s) \<in> set (zip dims starts). s = 0" by (auto dest: set_zip_rightD)
  then show "RV_convert_start_to_offset (d0 # dims) (H5S_SEL_HYPERSLABS slabs) (s0 # starts)
      = Inr (row_major s0 (zip dims starts))"
    by (simp add: RV_convert_start_to_offset_def offset_loop_zero)
next
  assume b: "unat s0 * (unat d1 + unat s1) < 2 ^ 64"
  have m: "unat (s0 * s1) = unat s0 * unat s1"
    by (rule unat_mult_lem [THEN iffD1]) (use b in \<open>simp add: distrib_left\<close>)
  have "s0 * (d1 + s1) = s0 * d1 + s1 \<longleftrightarrow> s0 * s1 = s1" by (simp add: distrib_left)
  also have "\<dots> \<longleftrightarrow> unat s0 * unat s1 = unat s1" unfolding m [symmetric] by (rule unat_inject_u64 [symmetric])
  also have "\<dots> \<longleftrightarrow> s1 = 0 \<or> s0 = 1" by (metis mult_cancel2 mult_1 mult_0_right unat_eq_0 unat_eq_one_u64)
  finally show "RV_convert_start_to_offset [d0, d1] (H5S_SEL_HYPERSLABS slabs) [s0, s1] = Inr (row_major s0 [(d1, s1)])
       \<longleftrightarrow> s1 = 0 \<or> s0 = 1"
    by (simp add: RV_convert_start_to_offset_def)
qed



section \<open>The printed selections\<close>

lemma length_show_u64: "length (show_nat (unat (v :: u64))) \<le> 20"
proof (rule length_show_nat)
  have "unat v < 2 ^ 64" by (rule unat_u64_bound)
  then show "unat v < 10 ^ 20" by simp
qed simp

definition triple :: "slab \<Rightarrow> string" where
  "triple s = show_nat (unat (start s)) @ '':'' @ show_nat (unat (slab_stop s)) @ '':'' @ show_nat (unat (slab_step s))"

lemma triple_text: "triple_text i s = (if i > 0 then '','' else []) @ triple s"
  by (simp add: triple_text_def triple_def)

lemma length_triple_text: "length (triple_text i s) \<le> 63"
  using length_show_u64 [of "start s"] length_show_u64 [of "slab_stop s"] length_show_u64 [of "slab_step s"]
  by (simp add: triple_text_def)

lemma triple_step_ok:
  assumes "holds tb s" and "length s \<le> 2 ^ 40" and "block (slabs ! i) \<noteq> 0" and "\<And>n. ok n"
  shows "\<exists>tb'. triple_step ok slabs i tb = Some (Inr tb') \<and> holds tb' (s @ triple_text i (slabs ! i))"
proof -
  let ?t = "triple_text i (slabs ! i)"
  have c: "curr tb = length s" using assms(1) by (simp add: holds_def)
  have n: "of_nat (length s) + 3 * MAX_NUM_LENGTH + 4 = (of_nat (length s + 64) :: u64)"
    by (simp add: MAX_NUM_LENGTH_def)
  have u: "unat (of_nat (length s + 64) :: u64) = length s + 64"
    by (rule unat_of_nat_u64) (use assms(2) in simp)
  have lt: "length ?t < unat (of_nat (length s + 64) :: u64)"
    unfolding u using length_triple_text [of i "slabs ! i"] by simp
  have b: "length s + 64 \<le> 2 ^ 62" using assms(2) by simp
  have l: "length ?t < 64" using length_triple_text [of i "slabs ! i"] by simp
  let ?p = "\<lambda>tb. if block (slabs ! i) = 0 then None
                 else (snprintf (of_nat (length s + 64)) ?t tb :: (failure + text_buffer) option)"
  have "\<exists>tb'. ?p tb = Some (Inr tb') \<and> holds tb' (s @ ?t) \<and> buffer_size tb' = buffer_size tb"
    if "holds tb s" "length s + length ?t < room tb" for tb
    using snprintf_holds [OF that lt] assms(3) by simp
  from reserve_print [where ok = ok and t = ?t, OF assms(1) b l assms(4) this] show ?thesis
    unfolding triple_step_def c n Let_def by fastforce
qed

text \<open>The last reservation and the closing bracket.\<close>

lemma close_bracket:
  assumes "holds tb s" and "length s \<le> 2 ^ 61" and "\<And>n. ok n"
  shows "\<exists>tb'. andthen (CHECKED_REALLOC H5E_CANTALLOC ok (of_nat (curr tb) + 2) tb) (strcat_advance '']'')
    = Some (Inr tb' :: failure + text_buffer) \<and> holds tb' (s @ '']'')"
proof -
  have c: "curr tb = length s" using assms(1) by (simp add: holds_def)
  have n: "of_nat (length s) + 2 = (of_nat (length s + 2) :: u64)" by simp
  have b: "length s + 2 \<le> 2 ^ 62" using assms(2) by simp
  from reserve_print [where ok = ok and t = "'']''", OF assms(1) b _ assms(3) strcat_holds] show ?thesis
    unfolding c n by fastforce
qed

lemma hyperslab_param_ok:
  assumes "\<And>s. s \<in> set slabs \<Longrightarrow> block s \<noteq> 0" and "length slabs \<le> 2 ^ 32" and "\<And>n. ok n"
  shows "\<exists>tb. hyperslab_param ok slabs (fresh_text 512) = Some (Inr tb) \<and>
    holds tb (''['' @ join '','' (map triple slabs) @ '']'')"
proof -
  let ?t = "\<lambda>i. triple_text i (slabs ! i)"
  have short: "length (''['' @ texts ?t k) \<le> 2 ^ 40" if "k \<le> length slabs" for k
  proof -
    have "length (texts ?t k) \<le> k * 63" by (rule length_texts) (rule length_triple_text)
    with that assms(2) show ?thesis by simp
  qed
  have h: "holds (fresh_text 512) []" and r: "room (fresh_text 512) = 512"
    by (rule holds_fresh) (simp_all add: fresh_text_def)
  obtain tb0 where 0: "strcat_advance ''['' (fresh_text 512) = Some (Inr tb0 :: failure + text_buffer)" "holds tb0 ''[''"
    using strcat_holds [OF h, of "''[''"] r by auto
  have "\<exists>st'. triple_step ok slabs ([0..<length slabs] ! k) st = Some (Inr st') \<and> holds st' (''['' @ texts ?t (Suc k))"
    if k0: "k < length [0..<length slabs]" and i: "holds st (''['' @ texts ?t k)" for k st
  proof -
    have k: "k < length slabs" using k0 by simp
    then have "block (slabs ! k) \<noteq> 0" using assms(1) by simp
    from triple_step_ok [where ok = ok, OF i short this assms(3)] k show ?thesis by simp
  qed
  moreover have "holds tb0 (''['' @ texts ?t 0)" using 0(2) by simp
  ultimately have "\<exists>st'. each (triple_step ok slabs) [0..<length slabs] tb0 = Some (Inr st') \<and>
      holds st' (''['' @ texts ?t (length [0..<length slabs]))"
    by (rule each_inv)
  then obtain tb1 where 1: "each (triple_step ok slabs) [0..<length slabs] tb0 = Some (Inr tb1)"
    "holds tb1 (''['' @ texts ?t (length slabs))" by auto
  have "length (''['' @ texts ?t (length slabs)) \<le> 2 ^ 61" using short [of "length slabs"] by simp
  from close_bracket [where ok = ok, OF 1(2) this assms(3)] obtain tb2 where
    2: "andthen (CHECKED_REALLOC H5E_CANTALLOC ok (of_nat (curr tb1) + 2) tb1) (strcat_advance '']'')
      = Some (Inr tb2 :: failure + text_buffer)" "holds tb2 ((''['' @ texts ?t (length slabs)) @ '']'')" by blast
  have "texts ?t (length slabs) = join '','' (map triple slabs)"
    using join_indexed [of "'',''" triple slabs] by (simp add: texts_def triple_text)
  with 2(2) have "holds tb2 (''['' @ join '','' (map triple slabs) @ '']'')" by simp
  with 0 1 2(1) show ?thesis by (simp add: hyperslab_param_def)
qed

subsection \<open>Points\<close>

definition point_text :: "nat \<Rightarrow> u64 list \<Rightarrow> string" where
  "point_text ndims p =
     (if ndims > 1 then ''['' else []) @ join '','' (map (\<lambda>v. show_nat (unat v)) p) @ (if ndims > 1 then '']'' else [])"

lemma optional_strcat:
  assumes "holds tb s" and "length s + length t < room tb"
  shows "\<exists>tb'. (if b then strcat_advance t tb else Some (Inr tb)) = Some (Inr tb') \<and>
    holds tb' (s @ (if b then t else [])) \<and> buffer_size tb' = buffer_size tb"
  using strcat_holds [OF assms] assms by auto

lemma length_numbers: "length (texts (\<lambda>j. number_text j (p j)) (Suc k)) \<le> 21 * k + 20"
proof (induction k)
  case 0
  show ?case using length_show_u64 [of "p 0"] by (simp add: number_text_def)
next
  case (Suc k)
  have "length (number_text (Suc k) (p (Suc k))) \<le> 21"
    using length_show_u64 [of "p (Suc k)"] by (simp add: number_text_def)
  with Suc show ?case by simp
qed

lemma numbers_join:
  "texts (\<lambda>j. number_text j (p ! j)) (length p) = join '','' (map (\<lambda>v. show_nat (unat v)) p)"
  using join_indexed [of "'',''" "\<lambda>v. show_nat (unat v)" p] by (simp add: texts_def number_text_def)

lemma coordinates_ok:
  assumes "holds tb s" and "length s + 21 * length p \<le> room tb" and "21 < unat n"
  shows "\<exists>tb'. each (coordinate_step n p) [0..<length p] tb = Some (Inr tb') \<and>
    holds tb' (s @ join '','' (map (\<lambda>v. show_nat (unat v)) p)) \<and> buffer_size tb' = buffer_size tb"
proof -
  let ?t = "\<lambda>j. number_text j (p ! j)"
  have "\<exists>st'. coordinate_step n p ([0..<length p] ! k) st = Some (Inr st') \<and>
      (holds st' (s @ texts ?t (Suc k)) \<and> buffer_size st' = buffer_size tb)"
    if k0: "k < length [0..<length p]" and i: "holds st (s @ texts ?t k) \<and> buffer_size st = buffer_size tb" for k st
  proof -
    have k: "k < length p" using k0 by simp
    have "length (s @ texts ?t k) + length (?t k) \<le> length s + (21 * k + 20)"
      using length_numbers [of "\<lambda>j. p ! j" k] by simp
    also have "\<dots> < length s + 21 * length p" using k by simp
    finally have l: "length (s @ texts ?t k) + length (?t k) < room st" using i assms(2) by simp
    have "length (?t k) \<le> 21"
      using length_show_u64 [of "p ! k"] by (cases "k = 0") (simp_all add: number_text_def)
    then have n: "length (?t k) < unat n" using assms(3) by simp
    from snprintf_holds [OF conjunct1 [OF i] l n] i k show ?thesis by (auto simp: coordinate_step_def)
  qed
  moreover have "holds tb (s @ texts ?t 0) \<and> buffer_size tb = buffer_size tb" using assms(1) by simp
  ultimately have "\<exists>st'. each (coordinate_step n p) [0..<length p] tb = Some (Inr st') \<and>
      (holds st' (s @ texts ?t (length [0..<length p])) \<and> buffer_size st' = buffer_size tb)"
    by (rule each_inv)
  then show ?thesis by (simp add: numbers_join)
qed

lemma length_join_numbers:
  fixes p :: "u64 list"
  assumes "p \<noteq> []"
  shows "length (join '','' (map (\<lambda>v. show_nat (unat v)) p)) + 1 \<le> 21 * length p"
proof -
  obtain k where k: "length p = Suc k" using assms by (cases p) auto
  from length_numbers [of "\<lambda>j. p ! j" k] show ?thesis unfolding k [symmetric] numbers_join using k by linarith
qed

lemma point_step_ok:
  assumes "holds tb s" and "length s \<le> 2 ^ 60" and "points ! i = p" and "length p = ndims" and "0 < ndims"
    and "ndims \<le> 2 ^ 32" and "\<And>n. ok n"
  shows "\<exists>tb'. point_step ok ndims points i tb = Some (Inr tb') \<and>
    holds tb' (s @ (if i > 0 then '','' else []) @ point_text ndims p)"
proof -
  let ?r = "21 * ndims + (if ndims > 1 then 3 else 1)"
  let ?c = "(if i > 0 then '','' else []) :: string" and ?o = "(if ndims > 1 then ''['' else []) :: string"
  let ?j = "join '','' (map (\<lambda>v. show_nat (unat v)) p)" and ?e = "(if ndims > 1 then '']'' else []) :: string"
  have c: "curr tb = length s" using assms(1) by (simp add: holds_def)
  have n: "of_nat ndims * MAX_NUM_LENGTH + of_nat ndims + (if ndims > 1 then 3 else 1) = (of_nat ?r :: u64)"
    by (simp add: MAX_NUM_LENGTH_def)
  have u: "unat (of_nat ?r :: u64) = ?r" by (rule unat_of_nat_u64) (use assms(6) in simp)
  have b: "length s + ?r \<le> 2 ^ 62" using assms(2,6) by simp
  have len: "length (?c @ ?o @ ?j @ ?e) < ?r"
    using length_join_numbers [of p] assms(4,5) by auto
  let ?p = "\<lambda>tb. andthen (if i > 0 then strcat_advance '','' tb else Some (Inr tb)) (\<lambda>tb.
         andthen (if ndims > 1 then strcat_advance ''['' tb else Some (Inr tb)) (\<lambda>tb.
         andthen (each (coordinate_step (of_nat ?r) (points ! i)) [0..<ndims] tb) (\<lambda>tb.
           if ndims > 1 then strcat_advance '']'' tb else Some (Inr tb :: failure + text_buffer))))"
  have "\<exists>tb'. ?p tb = Some (Inr tb') \<and> holds tb' (s @ ?c @ ?o @ ?j @ ?e) \<and> buffer_size tb' = buffer_size tb"
    if h: "holds tb s" and rm: "length s + ?r \<le> room tb" for tb
  proof -
    have p1: "1 \<le> ndims" using assms(5) by simp
    obtain tb1 where 1: "(if i > 0 then strcat_advance '','' tb else Some (Inr tb)) = Some (Inr tb1 :: failure + text_buffer)"
      "holds tb1 (s @ ?c)" "buffer_size tb1 = buffer_size tb"
      using optional_strcat [OF h, of "'',''" "i > 0"] rm p1 by auto
    have "length ?c \<le> 1" by simp
    then have r1: "length (s @ ?c) + length ''['' < room tb1"
      using rm p1 unfolding 1(3) by simp
    obtain tb2 where 2: "(if ndims > 1 then strcat_advance ''['' tb1 else Some (Inr tb1)) = Some (Inr tb2 :: failure + text_buffer)"
      "holds tb2 ((s @ ?c) @ ?o)" "buffer_size tb2 = buffer_size tb"
      using optional_strcat [OF 1(2) r1, of "ndims > 1"] 1(3) by auto
    have "length ((s @ ?c) @ ?o) + 21 * length p \<le> room tb2" using rm 2(3) assms(4) by auto
    moreover have "21 < unat (of_nat ?r :: u64)" unfolding u using p1 by simp
    ultimately obtain tb3 where 3: "each (coordinate_step (of_nat ?r) p) [0..<length p] tb2 = Some (Inr tb3)"
      "holds tb3 (((s @ ?c) @ ?o) @ ?j)" "buffer_size tb3 = buffer_size tb"
      using coordinates_ok [OF 2(2), of p "of_nat ?r"] 2(3) by auto
    have "length (((s @ ?c) @ ?o) @ ?j) + length '']'' < room tb3 \<or> \<not> ndims > 1"
      using len rm 3(3) by auto
    then obtain tb4 where 4: "(if ndims > 1 then strcat_advance '']'' tb3 else Some (Inr tb3)) = Some (Inr tb4 :: failure + text_buffer)"
      "holds tb4 ((((s @ ?c) @ ?o) @ ?j) @ ?e)" "buffer_size tb4 = buffer_size tb"
      using optional_strcat [OF 3(2), of "'']''" "ndims > 1"] 3 by auto
    then show ?thesis using 1(1) 2(1) 3(1) assms(3,4) by simp
  qed
  from reserve_print [where ok = ok and t = "?c @ ?o @ ?j @ ?e" and p = ?p, OF assms(1) b len assms(7) this]
  show ?thesis
    unfolding point_step_def c n Let_def point_text_def of_nat_add [symmetric] by fastforce
qed

lemma points_JSON_ok:
  assumes "\<And>p. p \<in> set points \<Longrightarrow> length p = ndims" and "0 < ndims" and "ndims \<le> 2 ^ 20"
    and "length points \<le> 2 ^ 32" and "\<And>n. ok n"
  shows "\<exists>tb. points_JSON ok ndims points (fresh_text 512) = Some (Inr tb) \<and>
    holds tb (points_str @ join '','' (map (point_text ndims) points) @ '']'')"
proof -
  let ?t = "\<lambda>i. (if i > 0 then '','' else []) @ point_text ndims (points ! i)"
  have short: "length (points_str @ texts ?t k) \<le> 2 ^ 60" if k: "k \<le> length points" for k
  proof -
    have "length (?t i) \<le> 21 * ndims + 3" if "i < k" for i
    proof -
      have "length (points ! i) = ndims" using that k assms(1) by simp
      then show ?thesis
        using length_join_numbers [of "points ! i"] assms(2) by (auto simp: point_text_def)
    qed
    then have "length (texts ?t k) \<le> k * (21 * ndims + 3)" by (rule length_texts)
    also have "\<dots> \<le> 2 ^ 32 * (21 * 2 ^ 20 + 3)" by (rule mult_le_mono) (use k assms(3,4) in simp_all)
    finally show ?thesis by (simp add: points_str_def)
  qed
  have h: "holds (fresh_text 512) []" and r: "room (fresh_text 512) = 512"
    by (rule holds_fresh) (simp_all add: fresh_text_def)
  have u: "unat (of_nat (length points_str) + 1 :: u64) = 12" by (simp add: points_str_def)
  obtain tb where t: "CHECKED_REALLOC H5E_CANTALLOC ok (of_nat (length points_str) + 1) (fresh_text 512) = Some (Inr tb)"
    "holds tb []" "512 \<le> room tb"
    using grow_holds [where ok = ok, OF h, of "of_nat (length points_str) + 1" H5E_CANTALLOC] assms(5) r unfolding u by auto
  obtain tb0 where 0: "strcat_advance points_str tb = Some (Inr tb0 :: failure + text_buffer)" "holds tb0 points_str"
    using strcat_holds [OF t(2), of points_str] t(3) by (auto simp: points_str_def)
  have "\<exists>st'. point_step ok ndims points ([0..<length points] ! k) st = Some (Inr st') \<and> holds st' (points_str @ texts ?t (Suc k))"
    if k0: "k < length [0..<length points]" and i: "holds st (points_str @ texts ?t k)" for k st
  proof -
    have k: "k < length points" using k0 by simp
    then have "length (points ! k) = ndims" using assms(1) by simp
    moreover have "ndims \<le> 2 ^ 32" using assms(3) by simp
    ultimately show ?thesis
      using point_step_ok [where ok = ok, OF i short refl _ assms(2) _ assms(5)] k by simp
  qed
  moreover have "holds tb0 (points_str @ texts ?t 0)" using 0(2) by simp
  ultimately have "\<exists>st'. each (point_step ok ndims points) [0..<length points] tb0 = Some (Inr st') \<and>
      holds st' (points_str @ texts ?t (length [0..<length points]))"
    by (rule each_inv)
  then obtain tb1 where 1: "each (point_step ok ndims points) [0..<length points] tb0 = Some (Inr tb1)"
    "holds tb1 (points_str @ texts ?t (length points))" by auto
  have "length (points_str @ texts ?t (length points)) \<le> 2 ^ 61" using short [of "length points"] by simp
  from close_bracket [where ok = ok, OF 1(2) this assms(5)] obtain tb2 where
    2: "andthen (CHECKED_REALLOC H5E_CANTALLOC ok (of_nat (curr tb1) + 2) tb1) (strcat_advance '']'')
      = Some (Inr tb2 :: failure + text_buffer)" "holds tb2 ((points_str @ texts ?t (length points)) @ '']'')" by blast
  have "texts ?t (length points) = join '','' (map (point_text ndims) points)"
    using join_indexed [of "'',''" "point_text ndims" points] by (simp add: texts_def)
  with 2(2) have "holds tb2 (points_str @ join '','' (map (point_text ndims) points) @ '']'')" by simp
  with t(1) 0(1) 1(1) 2(1) show ?thesis by (auto simp: points_JSON_def)
qed

subsection \<open>The JSON of a hyperslab\<close>

lemma strcat_c_string:
  assumes "holds tb s" and "length s + length t < room tb" and "CHR 0x00 \<notin> set (s @ t)"
  shows "\<exists>tb'. strcat t tb = Some (Inr tb' :: 'e + text_buffer) \<and> c_string (buffer tb') = Some (s @ t)"
proof -
  obtain tb' where t: "strcat_advance t tb = Some (Inr tb' :: 'e + text_buffer)" "holds tb' (s @ t)"
    using strcat_holds [OF assms(1,2)] by blast
  then obtain tb1 where 1: "strcat t tb = Some (Inr tb1 :: 'e + text_buffer)" "buffer tb' = buffer tb1"
    by (auto simp: strcat_advance_def advance_def andthen_def split: option.splits sum.splits)
  with holds_c_string [OF t(2) assms(3)] show ?thesis by auto
qed

text \<open>Numbers with at most 17 digits.\<close>

lemma length_small_numbers:
  "(\<And>j. j \<le> k \<Longrightarrow> unat (p j) < 10 ^ 17) \<Longrightarrow> length (texts (\<lambda>j. number_text j (p j)) (Suc k)) \<le> 18 * k + 17"
proof (induction k)
  case 0
  then show ?case using length_show_nat [of "unat (p 0)" 17] by (simp add: number_text_def)
next
  case (Suc k)
  have "length (number_text (Suc k) (p (Suc k))) \<le> 18"
    using length_show_nat [of "unat (p (Suc k))" 17] Suc.prems by (simp add: number_text_def)
  with Suc show ?case by simp
qed

text \<open>One of the three lists in the loop.\<close>

lemma body_snprintf:
  assumes "holds tb (pre @ texts (\<lambda>j. number_text j (p j)) k)" and "buffer_size tb = of_nat (21 * n)"
    and "k < n" and "n \<le> 8" and "length pre \<le> 2" and "\<And>j. j < n \<Longrightarrow> unat (p j) < 10 ^ 17"
  shows "\<exists>tb'. snprintf (of_nat (21 * n) - of_nat (curr tb)) (number_text k (p k)) tb = Some (Inr tb') \<and>
    holds tb' (pre @ texts (\<lambda>j. number_text j (p j)) (Suc k)) \<and> buffer_size tb' = of_nat (21 * n)"
proof -
  let ?s = "pre @ texts (\<lambda>j. number_text j (p j)) k" and ?t = "number_text k (p k)"
  have c: "curr tb = length ?s" using assms(1) by (simp add: holds_def)
  have "length (texts (\<lambda>j. number_text j (p j)) (Suc k)) \<le> 18 * k + 17"
    by (rule length_small_numbers) (use assms(3,6) in auto)
  then have lt: "length ?s + length ?t < 21 * n" using assms(3,5) by simp
  have un: "unat (of_nat (21 * n) :: u64) = 21 * n" by (rule unat_of_nat_u64) (use assms(4) in simp)
  have l1: "length ?s + length ?t < room tb" unfolding assms(2) un by (rule lt)
  have "of_nat (21 * n) - of_nat (length ?s) = (of_nat (21 * n - length ?s) :: u64)"
    using lt by (intro of_nat_diff [symmetric]) simp
  moreover have "unat (of_nat (21 * n - length ?s) :: u64) = 21 * n - length ?s"
    by (rule unat_of_nat_u64) (use assms(4) in simp)
  ultimately have l2: "length ?t < unat (of_nat (21 * n) - of_nat (length ?s) :: u64)" using lt by simp
  from snprintf_holds [OF assms(1) l1 l2] show ?thesis unfolding c assms(2) by simp
qed


definition list_text :: "u64 list \<Rightarrow> string" where
  "list_text vs = join '','' (map (\<lambda>v. show_nat (unat v)) vs)"

lemma list_text_no_nul: "CHR 0x00 \<notin> set (list_text vs)"
proof -
  have "\<not> is_digit_char (CHR 0x00)" by code_simp
  then have "CHR 0x00 \<notin> set (show_nat n)" for n using show_nat_digits by blast
  then show ?thesis unfolding list_text_def by (intro not_in_join) auto
qed

lemma texts_list_text:
  "texts (\<lambda>j. number_text j (f (xs ! j))) (length xs) = list_text (map f xs)"
proof -
  have "texts (\<lambda>j. number_text j (f (xs ! j))) (length xs)
      = texts (\<lambda>j. number_text j (map f xs ! j)) (length (map f xs))"
    unfolding texts_def by (rule arg_cong [where f = concat], rule map_cong) auto
  then show ?thesis unfolding numbers_join list_text_def .
qed

text \<open>A hyperslab whose numbers have at most 17 digits.\<close>

definition small_slab :: "slab \<Rightarrow> bool" where
  "small_slab s \<longleftrightarrow> block s \<noteq> 0 \<and> unat (start s) < 10 ^ 17 \<and> unat (slab_stop s) < 10 ^ 17 \<and>
     unat (slab_step s) < 10 ^ 17"

lemma slab_bodies_ok:
  assumes "slabs \<noteq> []" and "length slabs \<le> 8" and "\<And>s. s \<in> set slabs \<Longrightarrow> small_slab s"
  shows "\<exists>sta sto ste. slab_bodies slabs = Some (Inr (sta, sto, ste)) \<and>
    c_string (buffer sta) = Some (''['' @ list_text (map start slabs) @ '']'') \<and>
    c_string (buffer sto) = Some (''[['' @ list_text (map slab_stop slabs) @ '']'') \<and>
    c_string (buffer ste) = Some (list_text (map slab_step slabs) @ '']'')"
proof -
  define n where "n = length slabs"
  define B where "B = (of_nat (21 * n) :: u64)"
  note print = body_snprintf [where n = n, folded B_def]
  have n: "0 < n" "n \<le> 8" using assms(1,2) by (auto simp: n_def)
  have B: "of_nat (length slabs) * MAX_NUM_LENGTH + of_nat (length slabs) = B"
    by (simp add: MAX_NUM_LENGTH_def n_def B_def)
  have uB: "unat B = 21 * n" unfolding B_def by (rule unat_of_nat_u64) (use n in simp)
  then have B0: "B \<noteq> 0" using n by (metis mult_is_0 not_gr_zero unat_0 zero_neq_numeral)
  note z = holds_zero [OF B0]
  have bs: "buffer_size (zero_text B) = B" by (simp add: zero_text_def)
  let ?A = "\<lambda>j. number_text j (start (slabs ! j))" and ?O = "\<lambda>j. number_text j (slab_stop (slabs ! j))"
    and ?E = "\<lambda>j. number_text j (slab_step (slabs ! j))"
  have el: "small_slab (slabs ! j)" if "j < n" for j using that assms(3) by (simp add: n_def)
  obtain a0 where a0: "strcat_advance ''['' (zero_text B) = Some (Inr a0 :: failure + text_buffer)" "holds a0 ''[''"
    "buffer_size a0 = B"
    using strcat_holds [OF z, of "''[''"] n by (auto simp: bs uB)
  obtain o1 where o1: "strcat_advance ''['' a0 = Some (Inr o1 :: failure + text_buffer)" "holds o1 ''[[''"
    "buffer_size o1 = B"
    using strcat_holds [OF a0(2), of "''[''"] n by (auto simp: a0(3) uB)
  define I where "I = (\<lambda>k (a, s, e). holds a (''['' @ texts ?A k) \<and> buffer_size a = B \<and>
    holds s (''[['' @ texts ?O k) \<and> buffer_size s = B \<and> holds e ([] @ texts ?E k) \<and> buffer_size e = B)"
  have "\<exists>st'. slab_step_bodies B slabs ([0..<length slabs] ! k) st = Some (Inr st') \<and> I (Suc k) st'"
    if k0: "k < length [0..<length slabs]" and i: "I k st" for k st
  proof -
    have k: "k < n" using k0 by (simp add: n_def)
    obtain a s e where st: "st = (a, s, e)" by (cases st)
    note i = i [unfolded I_def st prod.case]
    have b: "block (slabs ! k) \<noteq> 0" using el [OF k] by (simp add: small_slab_def)
    obtain a' where a': "snprintf (B - of_nat (curr a)) (?A k) a = Some (Inr a' :: failure + text_buffer)"
      "holds a' (''['' @ texts ?A (Suc k))" "buffer_size a' = B"
      using print [of a "''[''" "\<lambda>j. start (slabs ! j)" k] i k n(2) el
      by (auto simp: small_slab_def)
    obtain s' where s': "snprintf (B - of_nat (curr s)) (?O k) s = Some (Inr s' :: failure + text_buffer)"
      "holds s' (''[['' @ texts ?O (Suc k))" "buffer_size s' = B"
      using print [of s "''[[''" "\<lambda>j. slab_stop (slabs ! j)" k] i k n(2) el
      by (auto simp: small_slab_def)
    obtain e' where e': "snprintf (B - of_nat (curr e)) (?E k) e = Some (Inr e' :: failure + text_buffer)"
      "holds e' ([] @ texts ?E (Suc k))" "buffer_size e' = B"
      using print [of e "[]" "\<lambda>j. slab_step (slabs ! j)" k] i k n(2) el
      by (auto simp: small_slab_def)
    have "I (Suc k) (a', s', e')" using a'(2,3) s'(2,3) e'(2,3) by (simp only: I_def prod.case simp_thms)
    moreover have "slab_step_bodies B slabs k st = Some (Inr (a', s', e'))"
      using a'(1) s'(1) e'(1) b by (simp add: slab_step_bodies_def st)
    ultimately show ?thesis using k by (simp add: n_def)
  qed
  moreover have "I 0 (a0, o1, zero_text B)" using a0 o1 z bs by (simp add: I_def)
  ultimately have "\<exists>st'. each (slab_step_bodies B slabs) [0..<length slabs] (a0, o1, zero_text B) = Some (Inr st') \<and>
      I (length [0..<length slabs]) st'"
    by (rule each_inv)
  then obtain a s e where l: "each (slab_step_bodies B slabs) [0..<length slabs] (a0, o1, zero_text B)
      = Some (Inr (a, s, e))"
    and i: "holds a (''['' @ list_text (map start slabs))" "holds s (''[['' @ list_text (map slab_stop slabs))"
      "holds e (list_text (map slab_step slabs))" "buffer_size a = B" "buffer_size s = B" "buffer_size e = B"
    by (auto simp: I_def texts_list_text)
  have len: "length (list_text (map f slabs)) + 3 < 21 * n" if "\<And>j. j < n \<Longrightarrow> unat (f (slabs ! j)) < 10 ^ 17" for f
  proof -
    obtain k where k: "n = Suc k" using n by (cases n) auto
    have "length (texts (\<lambda>j. number_text j (f (slabs ! j))) (Suc k)) \<le> 18 * k + 17"
      by (rule length_small_numbers) (use that k in auto)
    then have "length (list_text (map f slabs)) \<le> 18 * k + 17"
      unfolding k [symmetric] unfolding n_def texts_list_text .
    then show ?thesis unfolding k by simp
  qed
  have l3: "length (list_text (map start slabs)) + 3 < 21 * n" "length (list_text (map slab_stop slabs)) + 3 < 21 * n"
    "length (list_text (map slab_step slabs)) + 3 < 21 * n"
    by (rule len, use el in \<open>auto simp: small_slab_def\<close>)+
  obtain a2 where a2: "strcat '']'' a = Some (Inr a2 :: failure + text_buffer)"
    "c_string (buffer a2) = Some ((''['' @ list_text (map start slabs)) @ '']'')"
    using strcat_c_string [OF i(1), of "'']''"] l3(1) list_text_no_nul unfolding i(4) uB by fastforce
  obtain s2 where s2: "strcat '']'' s = Some (Inr s2 :: failure + text_buffer)"
    "c_string (buffer s2) = Some ((''[['' @ list_text (map slab_stop slabs)) @ '']'')"
    using strcat_c_string [OF i(2), of "'']''"] l3(2) list_text_no_nul unfolding i(5) uB by fastforce
  obtain e2 where e2: "strcat '']'' e = Some (Inr e2 :: failure + text_buffer)"
    "c_string (buffer e2) = Some (list_text (map slab_step slabs) @ '']'')"
    using strcat_c_string [OF i(3), of "'']''"] l3(3) list_text_no_nul unfolding i(6) uB by fastforce
  have "slab_bodies slabs = Some (Inr (a2, s2, e2))"
    using a0(1) o1(1) l a2(1) s2(1) e2(1) unfolding slab_bodies_def Let_def B by simp
  then show ?thesis using a2(2) s2(2) e2(2) by simp
qed

lemma show_no_nul: "CHR 0x00 \<notin> set (show_nat n)"
proof -
  have "\<not> is_digit_char (CHR 0x00)" by code_simp
  then show ?thesis using show_nat_digits by blast
qed

lemma triple_no_nul: "CHR 0x00 \<notin> set (join '','' (map triple slabs))"
  by (rule not_in_join) (auto simp: triple_def show_no_nul)

lemma points_no_nul: "CHR 0x00 \<notin> set (join '','' (map (point_text n) points))"
  using list_text_no_nul by (intro not_in_join) (auto simp: point_text_def list_text_def)

text \<open>
  C26: the selection sent to the server is the list of triples of the hyperslab, or the list of
  points with brackets around each point when the rank is above 1. Whatever the numbers are,
  the growing buffer is never left and never cut.
\<close>

theorem selection_text:
  assumes "dims \<noteq> []" and "\<And>n. ok n"
  shows "(length slabs \<le> 2 ^ 32 \<and> (\<forall>s \<in> set slabs. block s \<noteq> 0) \<longrightarrow>
      (\<exists>tb. RV_convert_dataspace_selection_to_string ok (Some dims) (H5S_SEL_HYPERSLABS slabs) True = Some (Inr tb) \<and>
         c_string (buffer tb) = Some (''['' @ join '','' (map triple slabs) @ '']''))) \<and>
    (length dims \<le> 2 ^ 20 \<and> length points \<le> 2 ^ 32 \<and> (\<forall>p \<in> set points. length p = length dims) \<longrightarrow>
      (\<exists>tb. RV_convert_dataspace_selection_to_string ok (Some dims) (H5S_SEL_POINTS points) False = Some (Inr tb) \<and>
         c_string (buffer tb) = Some (points_str @ join '','' (map (point_text (length dims)) points) @ '']'')))"
proof (intro conjI impI)
  assume a: "length slabs \<le> 2 ^ 32 \<and> (\<forall>s \<in> set slabs. block s \<noteq> 0)"
  obtain tb where t: "hyperslab_param ok slabs (fresh_text 512) = Some (Inr tb)"
    "holds tb (''['' @ join '','' (map triple slabs) @ '']'')"
    using hyperslab_param_ok [where ok = ok and slabs = slabs] a assms(2) by blast
  have "CHR 0x00 \<notin> set (''['' @ join '','' (map triple slabs) @ '']'')" using triple_no_nul by simp
  from holds_c_string [OF t(2) this] t(1) assms
  show "\<exists>tb. RV_convert_dataspace_selection_to_string ok (Some dims) (H5S_SEL_HYPERSLABS slabs) True = Some (Inr tb) \<and>
         c_string (buffer tb) = Some (''['' @ join '','' (map triple slabs) @ '']'')"
    by (simp add: RV_convert_dataspace_selection_to_string_def DATASPACE_SELECTION_STRING_DEFAULT_SIZE_def)
next
  assume a: "length dims \<le> 2 ^ 20 \<and> length points \<le> 2 ^ 32 \<and> (\<forall>p \<in> set points. length p = length dims)"
  obtain tb where t: "points_JSON ok (length dims) points (fresh_text 512) = Some (Inr tb)"
    "holds tb (points_str @ join '','' (map (point_text (length dims)) points) @ '']'')"
    using points_JSON_ok [where ok = ok and points = points and ndims = "length dims"] a assms by auto
  have "CHR 0x00 \<notin> set (points_str @ join '','' (map (point_text (length dims)) points) @ '']'')"
    using points_no_nul by (simp add: points_str_def)
  from holds_c_string [OF t(2) this] t(1) assms
  show "\<exists>tb. RV_convert_dataspace_selection_to_string ok (Some dims) (H5S_SEL_POINTS points) False = Some (Inr tb) \<and>
         c_string (buffer tb) = Some (points_str @ join '','' (map (point_text (length dims)) points) @ '']'')"
    by (simp add: RV_convert_dataspace_selection_to_string_def DATASPACE_SELECTION_STRING_DEFAULT_SIZE_def)
qed

theorem selection_text_witness:
  "(\<exists>tb. RV_convert_dataspace_selection_to_string (\<lambda>_. True) (Some [10, 10])
       (H5S_SEL_HYPERSLABS [\<lparr>start = 1, stride = 2, count = 3, block = 1\<rparr>, \<lparr>start = 0, stride = 1, count = 1, block = 1\<rparr>])
       True = Some (Inr tb) \<and> c_string (buffer tb) = Some ''[1:6:2,0:1:1]'') \<and>
   (\<exists>tb. RV_convert_dataspace_selection_to_string (\<lambda>_. True) (Some [10, 10])
       (H5S_SEL_POINTS [[1, 2], [3, 4]]) False = Some (Inr tb) \<and>
     c_string (buffer tb) = Some (points_str @ ''[1,2],[3,4]]''))"
proof -
  have n: "show_nat 0 = ''0''" "show_nat 1 = ''1''" "show_nat 2 = ''2''" "show_nat 3 = ''3''" "show_nat 4 = ''4''"
    "show_nat 6 = ''6''"
    by code_simp+
  have t: "''['' @ join '','' (map triple [\<lparr>start = 1, stride = 2, count = 3, block = 1\<rparr>,
      \<lparr>start = 0, stride = 1, count = 1, block = 1\<rparr>]) @ '']'' = ''[1:6:2,0:1:1]''"
    by (simp add: triple_def slab_stop_def slab_step_def n del: One_nat_def)
  have p: "join '','' (map (point_text (length [10, 10 :: u64])) [[1, 2], [3, 4]]) @ '']'' = ''[1,2],[3,4]]''"
    by (simp add: point_text_def n del: One_nat_def)
  show ?thesis
    using selection_text [of "[10, 10]" "\<lambda>_. True"
        "[\<lparr>start = 1, stride = 2, count = 3, block = 1\<rparr>, \<lparr>start = 0, stride = 1, count = 1, block = 1\<rparr>]"
        "[[1, 2], [3, 4]]"]
    unfolding t p by simp
qed

text \<open>
  The JSON of a hyperslab is malformed. For a hyperslab of rank at most 8 whose numbers have
  at most 17 digits the result is exactly this text, in which the stop list opens with two
  brackets and the step list with none.
\<close>

lemma hyperslab_JSON_text:
  assumes "slabs \<noteq> []" and "length slabs = length dims" and "length slabs \<le> 8"
    and "\<And>s. s \<in> set slabs \<Longrightarrow> small_slab s" and "\<And>n. ok n"
  shows "\<exists>tb. RV_convert_dataspace_selection_to_string ok (Some dims) (H5S_SEL_HYPERSLABS slabs) False = Some (Inr tb) \<and>
    c_string (buffer tb) = Some (slab_format (''['' @ list_text (map start slabs) @ '']'')
      (''[['' @ list_text (map slab_stop slabs) @ '']'') (list_text (map slab_step slabs) @ '']''))"
proof -
  let ?a = "''['' @ list_text (map start slabs) @ '']''" and ?b = "''[['' @ list_text (map slab_stop slabs) @ '']''"
    and ?c = "list_text (map slab_step slabs) @ '']''"
  obtain sta sto ste where b: "slab_bodies slabs = Some (Inr (sta, sto, ste))"
    "c_string (buffer sta) = Some ?a" "c_string (buffer sto) = Some ?b" "c_string (buffer ste) = Some ?c"
    using slab_bodies_ok [OF assms(1,3,4)] by blast
  have len: "length (list_text (map f slabs)) \<le> 143" if f: "\<And>s. s \<in> set slabs \<Longrightarrow> unat (f s) < 10 ^ 17" for f
  proof -
    obtain k where k: "length slabs = Suc k" using assms(1) by (cases slabs) auto
    have "length (texts (\<lambda>j. number_text j (f (slabs ! j))) (Suc k)) \<le> 18 * k + 17"
      by (rule length_small_numbers, rule f) (use k in simp)
    then have "length (list_text (map f slabs)) \<le> 18 * k + 17"
      unfolding k [symmetric] texts_list_text .
    then show ?thesis using k assms(3) by simp
  qed
  have "length (list_text (map start slabs)) \<le> 143" "length (list_text (map slab_stop slabs)) \<le> 143"
    "length (list_text (map slab_step slabs)) \<le> 143"
    by (rule len, use assms(4) in \<open>auto simp: small_slab_def\<close>)+
  then have l: "length (slab_format ?a ?b ?c) < 512" "length ?a + length ?b + length ?c + 1 \<le> 512"
    by (simp_all add: slab_format_def)
  have h: "holds (fresh_text 512) []" and r: "room (fresh_text 512) = 512" and z: "curr (fresh_text 512) = 0"
    by (rule holds_fresh) (simp_all add: fresh_text_def)
  let ?tgt = "of_nat (length ?a) + of_nat (length ?b) + of_nat (length ?c) + 1 :: u64"
  have "?tgt = of_nat (length ?a + length ?b + length ?c + 1)" by (simp only: of_nat_add of_nat_1)
  moreover have "unat (of_nat (length ?a + length ?b + length ?c + 1) :: u64) = length ?a + length ?b + length ?c + 1"
    by (rule unat_of_nat_u64) (use l(2) in simp)
  ultimately have tgt: "unat ?tgt \<le> 2 ^ 63" using l(2) by simp
  obtain tb where t: "CHECKED_REALLOC H5E_CANTALLOC ok ?tgt (fresh_text 512) = Some (Inr tb)"
    "holds tb []" "512 \<le> room tb"
    using grow_holds [where ok = ok, OF h tgt assms(5), of H5E_CANTALLOC] r by auto
  obtain tb' where p: "snprintf (buffer_size tb) (slab_format ?a ?b ?c) tb = Some (Inr tb' :: failure + text_buffer)"
    "holds tb' (slab_format ?a ?b ?c)" "buffer_size tb' = buffer_size tb"
    using snprintf_holds [OF t(2), of "slab_format ?a ?b ?c" "buffer_size tb"] l(1) t(3) by auto
  have "unat (of_nat (length (slab_format ?a ?b ?c)) :: u64) = length (slab_format ?a ?b ?c)"
    by (rule unat_of_nat_u64) (use l(1) in simp)
  then have fit: "\<not> of_nat (length (slab_format ?a ?b ?c)) \<ge> buffer_size tb'"
    unfolding word_le_nat_alt using l(1) t(3) p(3) by simp
  have nul: "CHR 0x00 \<notin> set (slab_format ?a ?b ?c)"
    using list_text_no_nul by (simp add: slab_format_def)
  have "hyperslab_JSON ok slabs (fresh_text 512) = Some (Inr tb')"
    unfolding hyperslab_JSON_def b andthen_simps prod.case option.case Let_def z
    using t(1) p(1) fit by (simp del: length_append list.size)
  with holds_c_string [OF p(2) nul] assms(1,2,5) show ?thesis
    by (cases dims)
      (auto simp: RV_convert_dataspace_selection_to_string_def DATASPACE_SELECTION_STRING_DEFAULT_SIZE_def)
qed

end
