(* ===== verification/Node_Split.thy ===== *)
theory Node_Split
  imports Text_Buffer "HOL-Library.Signed_Division"
begin

text \<open>
  The distribution of a read over several servers in \<open>src/vol-rest/src/rest_vol_dataset.c\<close>: the
  integer vectors, \<open>processInput\<close>, \<open>vector_to_string\<close>, \<open>splitRangeAndGetInfo\<close> and the part of
  \<open>RV_dataset_read\<close> that plans the requests (the lists of server addresses, the split dimension,
  the sizes per server and the positions of the response buffers).

  A C \<open>int\<close> is an \<open>int\<close> checked to be in the 32-bit range; a result \<open>None\<close> is an error return or
  undefined behaviour: an overflow, a value never set, an index out of range, a write outside a
  block or array, a NULL pointer.

  The header declares the elements of a vector as \<open>hsize_t\<close>, but \<open>pushBack\<close> allocates
  \<open>sizeof(int)\<close> bytes for each.  How many bytes of a block can be used is therefore a parameter:
  \<open>usable k\<close> is what \<open>malloc\<close> or \<open>realloc\<close> gives for a request of \<open>k\<close> bytes, at least \<open>k\<close> and, with the
  GNU allocator on 64 bits, at least 24; the contents of a block stay when it grows.
\<close>

section \<open>C integers\<close>

definition c_int :: "int \<Rightarrow> int option" where
  "c_int i = (if - (2 ^ 31) \<le> i \<and> i < 2 ^ 31 then Some i else None)"

definition c_atoi :: "string \<Rightarrow> int option" where
  "c_atoi s = c_int (atoi s)"

definition c_div :: "int \<Rightarrow> int \<Rightarrow> int option" where
  "c_div a b = (if b = 0 then None else c_int (a sdiv b))"

definition c_mod :: "int \<Rightarrow> int \<Rightarrow> int option" where
  "c_mod a b = (if b = 0 then None else c_int (a smod b))"

text \<open>The conversion of a \<open>hsize_t\<close> to \<open>int\<close>.\<close>

definition int_of :: "u64 \<Rightarrow> int" where
  "int_of v = sint (ucast v :: 32 word)"

section \<open>Vectors\<close>

text \<open>\<open>size\<close> is the length of \<open>data\<close>; \<open>block\<close> is the number of bytes that can be used at \<open>data\<close>.\<close>

record vector =
  data :: "u64 list"
  capacity :: u64
  block :: nat

definition createVector :: "bool \<Rightarrow> vector option" where
  "createVector malloc_ok = (if malloc_ok then Some \<lparr>data = [], capacity = 0, block = 0\<rparr> else None)"

text \<open>\<open>vec->data[vec->size++] = value\<close> with elements of eight bytes.\<close>

definition store :: "int \<Rightarrow> vector \<Rightarrow> vector option" where
  "store v vec = (if 8 * (length (data vec) + 1) \<le> block vec then Some (vec\<lparr>data := data vec @ [of_int v]\<rparr>) else None)"

text \<open>When \<open>realloc\<close> fails the value is dropped.\<close>

definition pushBack :: "(u64 \<Rightarrow> nat option) \<Rightarrow> int \<Rightarrow> vector \<Rightarrow> vector option" where
  "pushBack usable v vec =
     (if of_nat (length (data vec)) \<ge> capacity vec
      then
        let new_capacity = (if capacity vec = 0 then 1 else capacity vec * 2)
        in case usable (new_capacity * 4) of
             Some bytes \<Rightarrow> store v (vec\<lparr>capacity := new_capacity, block := bytes\<rparr>)
           | None \<Rightarrow> Some vec
      else store v vec)"

text \<open>One token: the first two numbers between colons; a missing one was never set.\<close>

definition pair_values :: "string \<Rightarrow> (int \<times> int) option" where
  "pair_values token =
     (case strtok_all '':'' token of
        a # b # _ \<Rightarrow> do { v1 \<leftarrow> c_atoi a; v2 \<leftarrow> c_atoi b; Some (v1, v2) }
      | _ \<Rightarrow> None)"

fun process_tokens :: "(u64 \<Rightarrow> nat option) \<Rightarrow> string list \<Rightarrow> vector \<times> vector \<Rightarrow> (vector \<times> vector) option" where
  "process_tokens usable [] rs = Some rs"
| "process_tokens usable (t # ts) (r1, r2) = do {
     (v1, v2) \<leftarrow> pair_values t;
     r1 \<leftarrow> pushBack usable v1 r1;
     r2 \<leftarrow> pushBack usable v2 r2;
     process_tokens usable ts (r1, r2)
   }"

definition processInput :: "(u64 \<Rightarrow> nat option) \<Rightarrow> bool \<Rightarrow> string \<Rightarrow> vector \<Rightarrow> vector \<Rightarrow> (vector \<times> vector) option" where
  "processInput usable strdup_ok inp result1 result2 =
     (if \<not> strdup_ok then None else process_tokens usable (strtok_all '','' inp) (result1, result2))"

section \<open>Printing a range\<close>

text \<open>The conversion \<open>"%d:%d:1"\<close>; an element is read as an \<open>int\<close>.\<close>

definition range_text :: "int \<Rightarrow> int \<Rightarrow> string" where
  "range_text a b = show_int a @ '':'' @ show_int b @ '':1''"

text \<open>
  The loop: \<open>sprintf\<close> into an array of 20 bytes, then \<open>strcat\<close> to the result block of \<open>len\<close>
  bytes.
\<close>

fun append_ranges :: "nat \<Rightarrow> int list \<Rightarrow> int list \<Rightarrow> string \<Rightarrow> string option" where
  "append_ranges len [] offs result = Some result"
| "append_ranges len (v # vs) [] result = None"
| "append_ranges len (v # vs) (a # offs) result =
     (let t = range_text a v;
          result = result @ t @ (if vs \<noteq> [] then '','' else [])
      in if 20 < length t + 1 then None
         else if len < length result + 1 then None
         else append_ranges len vs offs result)"

text \<open>The size that is estimated: brackets around every range, commas and the NUL.\<close>

definition estimated_length :: "int list \<Rightarrow> int list \<Rightarrow> nat" where
  "estimated_length vs offs = sum_list (map2 (\<lambda>v a. length (range_text a v) + 2) vs offs) + length vs"

definition vector_to_string :: "bool \<Rightarrow> vector \<Rightarrow> vector \<Rightarrow> string option" where
  "vector_to_string malloc_ok vec off =
     (let vs = map int_of (data vec); offs = map int_of (data off); len = estimated_length vs offs
      in if length offs < length vs \<or> \<not> malloc_ok \<or> len < 2 then None
         else do {
           result \<leftarrow> append_ranges len vs offs ''['';
           (if len < length result + 2 then None else Some (result @ '']''))
         })"

section \<open>Splitting a range\<close>

record split_state =
  node_size :: "u64 list"
  select_str :: "string option list"
  counts :: vector
  offsets :: vector

text \<open>The assignment \<open>xs[i] = v\<close>.\<close>

definition assign :: "nat \<Rightarrow> 'a \<Rightarrow> 'a list \<Rightarrow> 'a list option" where
  "assign i v xs = (if i < length xs then Some (xs[i := v]) else None)"

definition fetch :: "nat \<Rightarrow> 'a list \<Rightarrow> 'a option" where
  "fetch i xs = (if i < length xs then Some (xs ! i) else None)"

text \<open>
  The turns of the loop from \<open>i\<close> on; \<open>k\<close> of them are left.  \<open>ok\<close> is the success of \<open>malloc\<close>; the
  copy made by \<open>strdup\<close> is NULL (\<open>None\<close>) when it fails.
\<close>

fun split_loop ::
  "bool \<Rightarrow> bool \<Rightarrow> nat \<Rightarrow> int \<Rightarrow> int \<Rightarrow> int \<Rightarrow> nat \<Rightarrow> nat \<Rightarrow> int \<Rightarrow> split_state \<Rightarrow> split_state option" where
  "split_loop ok dup_ok j per_part remaining others i 0 current s = Some s"
| "split_loop ok dup_ok j per_part remaining others i (Suc k) current s = do {
     let elements = (if int i < remaining then per_part + 1 else per_part);
     current_end \<leftarrow> c_int (current + elements);
     cs \<leftarrow> assign j (of_int current_end) (data (counts s));
     os \<leftarrow> assign j (of_int current) (data (offsets s));
     n \<leftarrow> c_int ((current_end - current) * others);
     ns \<leftarrow> assign i (of_int n) (node_size s);
     let s = s\<lparr>counts := (counts s)\<lparr>data := cs\<rparr>, offsets := (offsets s)\<lparr>data := os\<rparr>, node_size := ns\<rparr>;
     tmp \<leftarrow> vector_to_string ok (counts s) (offsets s);
     sel \<leftarrow> assign i (if dup_ok then Some tmp else None) (select_str s);
     split_loop ok dup_ok j per_part remaining others (Suc i) k current_end (s\<lparr>select_str := sel\<rparr>)
   }"

definition splitRangeAndGetInfo ::
  "bool \<Rightarrow> bool \<Rightarrow> nat \<Rightarrow> int \<Rightarrow> int \<Rightarrow> split_state \<Rightarrow> split_state option" where
  "splitRangeAndGetInfo ok dup_ok j n others s = do {
     c \<leftarrow> fetch j (data (counts s));
     o0 \<leftarrow> fetch j (data (offsets s));
     let range_size = int_of (c - o0);
     per_part \<leftarrow> c_div range_size n;
     remaining \<leftarrow> c_mod range_size n;
     split_loop ok dup_ok j per_part remaining others 0 (nat n) (int_of o0) s
   }"

section \<open>The plan of a read\<close>

text \<open>
  \<open>SERVER_NUM\<close> and the server addresses, \<open>XRDMULTI_ENDPOINT\<close>: at most as many as there are
  servers, without leading blanks.  \<open>None\<close> in the list is an array element never set.
\<close>

definition server_count :: "string option \<Rightarrow> string option \<Rightarrow> nat option" where
  "server_count server_num endpoint =
     (case (server_num, endpoint) of
        (Some s, Some _) \<Rightarrow> if atoi s \<le> 0 \<or> atoi s > 10 then None else Some (nat (atoi s))
      | _ \<Rightarrow> None)"

definition server_urls :: "nat \<Rightarrow> string \<Rightarrow> string option list" where
  "server_urls n endpoint =
     (let urls = take n (map (dropWhile (\<lambda>c. c = CHR '' '')) (strtok_all ''{},'' endpoint))
      in map Some urls @ replicate (n - length urls) None)"

text \<open>The first dimension whose end is at least the number of servers, or the rank.\<close>

fun split_index :: "nat \<Rightarrow> u64 list \<Rightarrow> nat" where
  "split_index n [] = 0"
| "split_index n (c # cs) = (if c \<ge> of_nat n then 0 else Suc (split_index n cs))"

text \<open>The product of the extents of the other dimensions, narrowed to \<open>int\<close> at each step.\<close>

fun other_product :: "nat \<Rightarrow> nat \<Rightarrow> u64 list \<Rightarrow> u64 list \<Rightarrow> int \<Rightarrow> int option" where
  "other_product i j [] offs acc = Some acc"
| "other_product i j (c # cs) [] acc = None"
| "other_product i j (c # cs) (a # offs) acc =
     other_product i (Suc j) cs offs (if i \<noteq> j then int_of (of_int acc * (c - a)) else acc)"

text \<open>
  What the loop over the transfers keeps: the sizes and selections per server, the flag that
  a split was made, the allocated blocks by size, and per transfer the position of its
  response buffer, its size and its selection.
\<close>

record read_plan =
  sizes :: "u64 list"
  selects :: "string option list"
  flag_Node :: bool
  allocs :: "u64 list"
  positions :: "(nat \<times> u64) list"
  buffer_sizes :: "u64 list"
  requests :: "(string \<times> string option) list"

text \<open>The part under \<open>i % ServerNodeNum == 0 && selection_body\<close>; \<open>mok\<close> and \<open>dup_ok\<close> are
  the successes of \<open>malloc\<close> and \<open>strdup\<close>.\<close>

definition divide_selection :: "(u64 \<Rightarrow> nat option) \<Rightarrow> bool \<Rightarrow> bool \<Rightarrow> nat \<Rightarrow> string \<Rightarrow> read_plan \<Rightarrow> read_plan option" where
  "divide_selection usable mok dup_ok n body p =
     (if \<not> dup_ok \<or> body = [] \<or> length body < 2 then None
      else do {
        offset \<leftarrow> createVector mok;
        cnt \<leftarrow> createVector mok;
        (offset, cnt) \<leftarrow> processInput usable dup_ok (butlast (tl body)) offset cnt;
        let i = split_index n (data cnt);
        let flag = (flag_Node p \<or> i < length (data cnt));
        others \<leftarrow> other_product i 0 (data cnt) (data offset) 1;
        (if flag
         then do {
           s \<leftarrow> splitRangeAndGetInfo mok dup_ok i (int n) others
                  \<lparr>node_size = sizes p, select_str = selects p, counts = cnt, offsets = offset\<rparr>;
           Some (p\<lparr>sizes := node_size s, selects := select_str s, flag_Node := True\<rparr>)
         }
         else Some p)
      })"

text \<open>
  One transfer.  \<open>binary\<close> says that the transfer is binary and the selection is not one of points; only
  then the selection is a parameter of the request.
\<close>

fun read_step ::
  "(u64 \<Rightarrow> nat option) \<Rightarrow> bool \<Rightarrow> bool \<Rightarrow> nat \<Rightarrow> string option list \<Rightarrow> u64 \<Rightarrow> nat \<Rightarrow> bool \<times> string option \<Rightarrow> read_plan \<Rightarrow> read_plan option"
where
  "read_step usable mok dup_ok n urls type_size i (binary, body) p = do {
     p \<leftarrow> (if i mod n = 0 \<and> body \<noteq> None then divide_selection usable mok dup_ok n (the body) p else Some p);
     let total_size = sum_list (map (\<lambda>s. s * type_size) (sizes p));
     url \<leftarrow> (if n \<noteq> 1 then Option.bind (fetch i urls) (\<lambda>u. u) else Some []);
     p \<leftarrow> (if i mod n = 0
           then Some (p\<lparr>allocs := allocs p @ [total_size], positions := positions p @ [(length (allocs p), 0)]\<rparr>)
           else do {
             (b, pos) \<leftarrow> fetch (i mod n - 1) (positions p);
             sz \<leftarrow> fetch (i mod n - 1) (sizes p);
             Some (p\<lparr>positions := positions p @ [(b, pos + sz * type_size)]\<rparr>)
           });
     sz \<leftarrow> fetch (i mod n) (sizes p);
     sel \<leftarrow> (if body = None \<or> \<not> binary then Some None
             else if n > 1 then map_option Some (Option.bind (fetch (i mod n) (selects p)) (\<lambda>s. s))
             else Some body);
     Some (p\<lparr>buffer_sizes := buffer_sizes p @ [sz * type_size], requests := requests p @ [(url, sel)]\<rparr>)
   }"

fun read_loop ::
  "(u64 \<Rightarrow> nat option) \<Rightarrow> bool \<Rightarrow> bool \<Rightarrow> nat \<Rightarrow> string option list \<Rightarrow> u64 \<Rightarrow> nat \<Rightarrow> (bool \<times> string option) list \<Rightarrow> read_plan \<Rightarrow> read_plan option"
where
  "read_loop usable mok dup_ok n urls type_size i [] p = Some p"
| "read_loop usable mok dup_ok n urls type_size i (body # bodies) p =
     Option.bind (read_step usable mok dup_ok n urls type_size i body p)
       (read_loop usable mok dup_ok n urls type_size (Suc i) bodies)"

text \<open>The plan before the loop: \<open>node_size\<close> is zeroed, \<open>Select_Node\<close> is not.\<close>

definition initial_plan :: "nat \<Rightarrow> read_plan" where
  "initial_plan n =
     \<lparr>sizes = replicate n 0, selects = replicate n None, flag_Node = False, allocs = [], positions = [],
      buffer_sizes = [], requests = []\<rparr>"

section \<open>Printing and reading ranges\<close>

text \<open>Numbers of at most eight digits, whose ranges fit the array of 20 bytes.\<close>

definition eight_digits :: "int \<Rightarrow> bool" where
  "eight_digits a \<longleftrightarrow> 0 \<le> a \<and> a < 10 ^ 8"

lemma length_show_int: "eight_digits a \<Longrightarrow> length (show_int a) \<le> 8"
  using length_show_nat [of "nat a" 8] by (auto simp: eight_digits_def show_int_def)

lemma length_range_text: "eight_digits a \<Longrightarrow> eight_digits b \<Longrightarrow> length (range_text a b) \<le> 19"
  using length_show_int [of a] length_show_int [of b] by (simp add: range_text_def)

lemma c_int_eight: "eight_digits a \<Longrightarrow> c_int a = Some a"
  by (simp add: eight_digits_def c_int_def)

lemma int_of_of_int: "- (2 ^ 31) \<le> x \<Longrightarrow> x < 2 ^ 31 \<Longrightarrow> int_of (of_int x) = x"
  by (simp add: int_of_def unsigned_of_int signed_of_int signed_take_bit_take_bit signed_take_bit_int_eq_self)

lemma int_of_eight: "eight_digits a \<Longrightarrow> int_of (of_int a) = a"
  by (rule int_of_of_int) (simp_all add: eight_digits_def)

text \<open>The text of a box given by its ends and its starts.\<close>

definition box_text :: "int list \<Rightarrow> int list \<Rightarrow> string" where
  "box_text ends starts = ''['' @ join '','' (map2 range_text starts ends) @ '']''"

lemma estimated_length_eq:
  "length vs = length offs \<Longrightarrow> estimated_length vs offs
     = sum_list (map (\<lambda>t. length t + 1) (map2 range_text offs vs)) + 2 * length vs"
  unfolding estimated_length_def by (induction vs offs rule: list_induct2) auto

lemma length_join_comma: "length (join '','' ts) + 1 \<le> sum_list (map (\<lambda>t. length t + 1) ts) + (if ts = [] then 1 else 0)"
  by (induction "'',''" ts rule: join.induct) auto

lemma append_ranges_join:
  assumes "length vs = length offs"
    and "\<And>i. i < length vs \<Longrightarrow> length (range_text (offs ! i) (vs ! i)) \<le> 19"
    and "length acc + sum_list (map (\<lambda>t. length t + 1) (map2 range_text offs vs)) \<le> len"
  shows "append_ranges len vs offs acc = Some (acc @ join '','' (map2 range_text offs vs))"
  using assms
proof (induction vs offs arbitrary: acc rule: list_induct2)
  case (Cons v vs a offs)
  have 0: "length (range_text a v) \<le> 19" using Cons.prems(1) [of 0] by simp
  have 1: "\<And>i. i < length vs \<Longrightarrow> length (range_text (offs ! i) (vs ! i)) \<le> 19"
    using Cons.prems(1) [of "Suc _"] by simp
  show ?case
  proof (cases vs)
    case Nil
    then show ?thesis using Cons.hyps Cons.prems(2) 0 by simp
  next
    case (Cons w ws)
    then obtain b bs where offs: "offs = b # bs" using Cons.hyps by (cases offs) auto
    show ?thesis
      using Cons.IH [OF 1, of "acc @ range_text a v @ '',''"] Cons.prems(2) 0 Cons offs by simp
  qed
qed simp

lemma vector_to_string_box:
  assumes "length vs = length os" and "vs \<noteq> []"
    and vecs: "data vec = map of_int vs" "data off = map of_int os"
    and small: "\<And>i. i < length vs \<Longrightarrow> eight_digits (vs ! i) \<and> eight_digits (os ! i)"
  shows "vector_to_string True vec off = Some (box_text vs os)"
proof -
  define ts where "ts = map2 range_text os vs"
  have ints: "map int_of (data vec) = vs" "map int_of (data off) = os"
    using small assms(1) int_of_eight by (auto simp: vecs intro!: nth_equalityI)
  have ne: "ts \<noteq> []" "length ts = length vs" using assms(1,2) by (auto simp: ts_def)
  have est: "estimated_length vs os = sum_list (map (\<lambda>t. length t + 1) ts) + 2 * length ts"
    using estimated_length_eq [OF assms(1)] ne by (simp add: ts_def)
  have two: "2 \<le> 2 * length ts" using ne by (cases ts) auto
  have app: "append_ranges (estimated_length vs os) vs os ''['' = Some (''['' @ join '','' ts)"
    unfolding ts_def
  proof (rule append_ranges_join)
    fix i assume "i < length vs"
    then show "length (range_text (os ! i) (vs ! i)) \<le> 19"
      using small [of i] by (intro length_range_text) auto
  next
    show "length ''['' + sum_list (map (\<lambda>t. length t + 1) (map2 range_text os vs)) \<le> estimated_length vs os"
      using two by (simp add: est ts_def)
  qed (use assms in simp)
  have "length (join '','' ts) + 1 \<le> sum_list (map (\<lambda>t. length t + 1) ts)"
    using length_join_comma [of ts] ne by simp
  then show ?thesis
    using app est two assms(1) by (simp add: vector_to_string_def ints Let_def box_text_def ts_def [symmetric])
qed

text \<open>What the connector writes for a selection: triples of start, stop and step.\<close>

definition triple_token :: "int \<times> int \<times> nat \<Rightarrow> string" where
  "triple_token t = (case t of (a, b, st) \<Rightarrow> join '':'' [show_int a, show_int b, show_nat st])"

definition triples_text :: "(int \<times> int \<times> nat) list \<Rightarrow> string" where
  "triples_text ts = join '','' (map triple_token ts)"

lemma show_no_special:
  assumes "eight_digits a"
  shows "CHR '':'' \<notin> set (show_int a)" and "CHR '','' \<notin> set (show_int a)"
  using show_int_chars [of "CHR '':''" a] show_int_chars [of "CHR '',''" a] by (auto simp: is_digit_char_def)

lemma show_nat_no_special: "CHR '':'' \<notin> set (show_nat n)" "CHR '','' \<notin> set (show_nat n)"
  using show_nat_digits [of "CHR '':''" n] show_nat_digits [of "CHR '',''" n] by (auto simp: is_digit_char_def)

lemma pair_values_triple:
  assumes "eight_digits a" and "eight_digits b"
  shows "pair_values (triple_token (a, b, st)) = Some (a, b)"
proof -
  have "strtok_all '':'' (join '':'' [show_int a, show_int b, show_nat st]) = [show_int a, show_int b, show_nat st]"
    by (rule strtok_all_join) (use show_no_special(1) show_nat_no_special(1) assms in auto)
  moreover have "atoi (show_int a) = a" "atoi (show_int b) = b"
    using atoi_show_int [of "[]"] by simp_all
  ultimately show ?thesis
    using assms by (simp add: pair_values_def triple_token_def c_atoi_def c_int_eight del: join.simps)
qed

text \<open>An allocator whose blocks have at least 24 bytes: room for three elements.\<close>

definition roomy :: "(u64 \<Rightarrow> nat option) \<Rightarrow> bool" where
  "roomy usable \<longleftrightarrow> (\<forall>k. \<exists>b. usable k = Some b \<and> 24 \<le> b)"

definition has_room :: "vector \<Rightarrow> bool" where
  "has_room r \<longleftrightarrow> capacity r = 0 \<or> 24 \<le> block r"

lemma pushBack_roomy:
  assumes "roomy usable" and "has_room r" and "length (data r) < 3"
  shows "\<exists>r'. pushBack usable v r = Some r' \<and> data r' = data r @ [of_int v] \<and> has_room r'"
proof -
  have room: "24 \<le> block s \<Longrightarrow> data s = data r \<Longrightarrow> store v s = Some (s\<lparr>data := data r @ [of_int v]\<rparr>)" for s
    using assms(3) by (simp add: store_def)
  show ?thesis
  proof (cases "of_nat (length (data r)) \<ge> capacity r")
    case True
    obtain b where "usable ((if capacity r = 0 then 1 else capacity r * 2) * 4) = Some b" "24 \<le> b"
      using assms(1) unfolding roomy_def by blast
    then show ?thesis using True by (simp add: pushBack_def Let_def room has_room_def)
  next
    case False
    then have "24 \<le> block r" using assms(2) by (auto simp: has_room_def)
    then show ?thesis using False by (simp add: pushBack_def room has_room_def)
  qed
qed

lemma process_tokens_triples:
  assumes "\<forall>(a, b, st) \<in> set ts. eight_digits a \<and> eight_digits b" and "roomy usable"
    and "has_room r1" "has_room r2" "length (data r1) + length ts \<le> 3" "length (data r2) + length ts \<le> 3"
  shows "\<exists>r1' r2'. process_tokens usable (map triple_token ts) (r1, r2) = Some (r1', r2')
          \<and> data r1' = data r1 @ map (of_int \<circ> fst) ts \<and> data r2' = data r2 @ map (of_int \<circ> fst \<circ> snd) ts"
  using assms
proof (induction ts arbitrary: r1 r2)
  case (Cons t ts)
  obtain a b st where t: "t = (a, b, st)" by (cases t)
  have ab: "eight_digits a" "eight_digits b" and ts: "\<forall>(a, b, st) \<in> set ts. eight_digits a \<and> eight_digits b"
    using Cons.prems t by auto
  obtain r1' where r1': "pushBack usable a r1 = Some r1'" "data r1' = data r1 @ [of_int a]" "has_room r1'"
    using pushBack_roomy [of usable r1 a] Cons.prems by auto
  obtain r2' where r2': "pushBack usable b r2 = Some r2'" "data r2' = data r2 @ [of_int b]" "has_room r2'"
    using pushBack_roomy [of usable r2 b] Cons.prems by auto
  show ?case
    using Cons.IH [OF ts Cons.prems(2) r1'(3) r2'(3)] Cons.prems(5,6) pair_values_triple [OF ab] r1' r2'
    by (simp add: t)
qed simp

lemma processInput_triples:
  assumes "\<forall>(a, b, st) \<in> set ts. eight_digits a \<and> eight_digits b" and "roomy usable" and "length ts \<le> 3"
  shows "\<exists>r1' r2'. processInput usable True (triples_text ts) \<lparr>data = [], capacity = 0, block = 0\<rparr>
              \<lparr>data = [], capacity = 0, block = 0\<rparr> = Some (r1', r2')
          \<and> data r1' = map (of_int \<circ> fst) ts \<and> data r2' = map (of_int \<circ> fst \<circ> snd) ts"
proof -
  have "strtok_all '','' (triples_text ts) = map triple_token ts"
    unfolding triples_text_def
  proof (rule strtok_all_join)
    fix s assume "s \<in> set (map triple_token ts)"
    then obtain a b st where "(a, b, st) \<in> set ts" and s: "s = triple_token (a, b, st)" by auto
    then have "eight_digits a" "eight_digits b" using assms by auto
    then show "s \<noteq> [] \<and> CHR '','' \<notin> set s"
      using show_no_special(2) show_nat_no_special(2) by (simp add: s triple_token_def)
  qed
  then show ?thesis
    using process_tokens_triples [OF assms(1,2), of "\<lparr>data = [], capacity = 0, block = 0\<rparr>" "\<lparr>data = [], capacity = 0, block = 0\<rparr>"] assms(3)
    by (simp add: processInput_def has_room_def)
qed

text \<open>With blocks of the requested size the first value is already written past the end.\<close>

lemma first_push_overflows:
  assumes "\<And>k. usable k = Some (unat k)"
  shows "pushBack usable v \<lparr>data = [], capacity = 0, block = 0\<rparr> = None"
  using assms by (simp add: pushBack_def store_def)

section \<open>The parts of a range\<close>

text \<open>
  The parts of \<open>[a, b)\<close> among \<open>n\<close> servers: the first \<open>(b - a) mod n\<close> have one element more.
\<close>

definition part_start :: "int \<Rightarrow> int \<Rightarrow> nat \<Rightarrow> nat \<Rightarrow> int" where
  "part_start a b n m = a + int m * ((b - a) div int n) + min (int m) ((b - a) mod int n)"

lemma part_start_0 [simp]: "0 < n \<Longrightarrow> part_start a b n 0 = a"
  by (simp add: part_start_def)

lemma part_start_n: "0 < n \<Longrightarrow> part_start a b n n = b"
  using pos_mod_bound [of "int n" "b - a"] mult_div_mod_eq [of "int n" "b - a"]
  by (simp add: part_start_def min_absorb2 less_imp_le)

lemma part_start_Suc:
  "part_start a b n (Suc m) = part_start a b n m +
     (if int m < (b - a) mod int n then (b - a) div int n + 1 else (b - a) div int n)"
  by (auto simp: part_start_def min_def algebra_simps)

lemma part_start_step: "a \<le> b \<Longrightarrow> 0 < n \<Longrightarrow> part_start a b n m \<le> part_start a b n (Suc m)"
  using pos_imp_zdiv_nonneg_iff [of "int n" "b - a"] by (auto simp: part_start_Suc)

lemma part_start_mono:
  assumes "a \<le> b" and "0 < n" and "m \<le> m'"
  shows "part_start a b n m \<le> part_start a b n m'"
  using lift_Suc_mono_le [of "part_start a b n", OF part_start_step [OF assms(1,2)] assms(3)] .

lemma part_start_within:
  assumes "a \<le> b" and "0 < n" and "m \<le> n"
  shows "a \<le> part_start a b n m" and "part_start a b n m \<le> b"
  using part_start_mono [OF assms(1,2), of 0 m] part_start_mono [OF assms(1,2,3)] assms
  by (simp_all add: part_start_n)

lemma split_loop_parts:
  fixes cs os :: "int list" and a b others :: int and n :: nat
  defines "ps \<equiv> part_start a b n"
  assumes i: "i + k = n" and n: "0 < n" and j: "j < length cs" "length cs = length os"
    and ab: "eight_digits a" "eight_digits b" "a \<le> b"
    and small: "\<And>m. m < length cs \<Longrightarrow> eight_digits (cs ! m) \<and> eight_digits (os ! m)"
    and others: "0 \<le> others" "(b - a) * others < 2 ^ 31"
    and len: "length (node_size s) = n" "length (select_str s) = n"
    and vecs: "data (counts s) = map of_int (cs[j := cj])" "data (offsets s) = map of_int (os[j := oj])"
  shows "\<exists>s'. split_loop True True j ((b - a) div int n) ((b - a) mod int n) others i k (ps i) s = Some s'
    \<and> node_size s' = take i (node_size s) @ map (\<lambda>m. of_int ((ps (Suc m) - ps m) * others)) [i..<n]
    \<and> select_str s' = take i (select_str s) @ map (\<lambda>m. Some (box_text (cs[j := ps (Suc m)]) (os[j := ps m]))) [i..<n]"
  using i len vecs
proof (induction k arbitrary: i s cj oj)
  case 0
  then show ?case by simp
next
  case (Suc k)
  have bounds: "a \<le> ps i" "ps i \<le> ps (Suc i)" "ps (Suc i) \<le> b"
    using part_start_within [OF ab(3) n] part_start_step [OF ab(3) n] Suc.prems(1) by (auto simp: ps_def)
  then have eight: "eight_digits (ps i)" "eight_digits (ps (Suc i))"
    using ab by (auto simp: eight_digits_def)
  have next_start: "ps i + (if int i < (b - a) mod int n then (b - a) div int n + 1 else (b - a) div int n) = ps (Suc i)"
    by (simp add: ps_def part_start_Suc)
  have "0 \<le> (ps (Suc i) - ps i) * others" "(ps (Suc i) - ps i) * others \<le> (b - a) * others"
    using bounds others(1) by (auto intro: mult_right_mono)
  then have node: "c_int ((ps (Suc i) - ps i) * others) = Some ((ps (Suc i) - ps i) * others)"
    using others(2) by (simp add: c_int_def)
  define cv where "cv = (counts s)\<lparr>data := map of_int (cs[j := ps (Suc i)])\<rparr>"
  define ov where "ov = (offsets s)\<lparr>data := map of_int (os[j := ps i])\<rparr>"
  have upd: "(data (counts s))[j := of_int v] = map of_int (cs[j := v])"
    "(data (offsets s))[j := of_int v] = map of_int (os[j := v])" for v
    using Suc.prems(4,5) by (simp_all add: map_update)
  have printed: "vector_to_string True cv ov = Some (box_text (cs[j := ps (Suc i)]) (os[j := ps i]))"
  proof -
    have "eight_digits (cs[j := ps (Suc i)] ! m) \<and> eight_digits (os[j := ps i] ! m)" if "m < length cs" for m
      using small [OF that] eight that j by (simp add: nth_list_update)
    moreover have "cs \<noteq> []" using j by auto
    ultimately show ?thesis
      using vector_to_string_box [of "cs[j := ps (Suc i)]" "os[j := ps i]" cv ov] j by (simp add: cv_def ov_def)
  qed
  define s1 where "s1 = s\<lparr>counts := cv, offsets := ov,
    node_size := (node_size s)[i := of_int ((ps (Suc i) - ps i) * others)],
    select_str := (select_str s)[i := Some (box_text (cs[j := ps (Suc i)]) (os[j := ps i]))]\<rparr>"
  have lens: "j < length (data (counts s))" "j < length (data (offsets s))" "i < n"
    using j Suc.prems(1,4,5) by auto
  have "split_loop True True j ((b - a) div int n) ((b - a) mod int n) others i (Suc k) (ps i) s
      = split_loop True True j ((b - a) div int n) ((b - a) mod int n) others (Suc i) k (ps (Suc i)) s1"
    using lens Suc.prems(2,3) printed
    by (simp add: Let_def next_start c_int_eight [OF eight(2)] node assign_def upd s1_def cv_def ov_def)
  moreover have "\<exists>s'. split_loop True True j ((b - a) div int n) ((b - a) mod int n) others (Suc i) k (ps (Suc i)) s1 = Some s'
    \<and> node_size s' = take (Suc i) (node_size s1) @ map (\<lambda>m. of_int ((ps (Suc m) - ps m) * others)) [Suc i..<n]
    \<and> select_str s' = take (Suc i) (select_str s1) @ map (\<lambda>m. Some (box_text (cs[j := ps (Suc m)]) (os[j := ps m]))) [Suc i..<n]"
    using Suc.prems j by (intro Suc.IH [of _ _ "ps (Suc i)" "ps i"]) (simp_all add: s1_def cv_def ov_def)
  moreover have "take (Suc i) (xs[i := x]) = take i xs @ [x]" if "length xs = n" for x and xs :: "'z list"
    using that lens(3) by (simp add: take_Suc_conv_app_nth)
  ultimately show ?case
    using Suc.prems(2,3) lens(3) by (simp add: s1_def take_Suc_conv_app_nth upt_conv_Cons)
qed

lemma splitRange_parts:
  fixes n :: nat
  assumes n: "0 < n" and j: "j < length cs" "length cs = length os"
    and range: "os ! j \<le> cs ! j"
    and small: "\<And>m. m < length cs \<Longrightarrow> eight_digits (cs ! m) \<and> eight_digits (os ! m)"
    and others: "0 \<le> others" "(cs ! j - os ! j) * others < 2 ^ 31"
    and s: "length (node_size s) = n" "length (select_str s) = n" "data (counts s) = map of_int cs" "data (offsets s) = map of_int os"
    and n31: "int n < 2 ^ 31"
  defines "ps \<equiv> part_start (os ! j) (cs ! j) n"
  shows "\<exists>s'. splitRangeAndGetInfo True True j (int n) others s = Some s'
    \<and> node_size s' = map (\<lambda>m. of_int ((ps (Suc m) - ps m) * others)) [0..<n]
    \<and> select_str s' = map (\<lambda>m. Some (box_text (cs[j := ps (Suc m)]) (os[j := ps m]))) [0..<n]"
proof -
  let ?d = "cs ! j - os ! j"
  have d: "0 \<le> ?d" "?d < 10 ^ 8" using small [OF j(1)] range by (auto simp: eight_digits_def)
  have q: "0 \<le> ?d div int n" "?d div int n \<le> ?d"
    using d n zdiv_mono2 [of ?d 1 "int n"] by (simp_all add: pos_imp_zdiv_nonneg_iff)
  have r: "0 \<le> ?d mod int n" "?d mod int n < int n" using n by simp_all
  have o8: "eight_digits (os ! j)" using small [OF j(1)] by simp
  have dif: "int_of (of_int (cs ! j) - of_int (os ! j)) = ?d"
    using d int_of_of_int [of ?d] by simp
  have "c_div ?d (int n) = Some (?d div int n)"
    using d n q by (simp add: c_div_def c_int_def signed_divide_int_def sgn_if)
  moreover have "c_mod ?d (int n) = Some (?d mod int n)"
    using d n r n31 by (simp add: c_mod_def c_int_def signed_modulo_int_def signed_divide_int_def sgn_if minus_mult_div_eq_mod [symmetric] mult.commute)
  moreover have "\<exists>s'. split_loop True True j (?d div int n) (?d mod int n) others 0 n (ps 0) s = Some s'
    \<and> node_size s' = take 0 (node_size s) @ map (\<lambda>m. of_int ((ps (Suc m) - ps m) * others)) [0..<n]
    \<and> select_str s' = take 0 (select_str s) @ map (\<lambda>m. Some (box_text (cs[j := ps (Suc m)]) (os[j := ps m]))) [0..<n]"
    unfolding ps_def
  proof (rule split_loop_parts [where cj = "cs ! j" and oj = "os ! j"])
    show "eight_digits (os ! j)" "eight_digits (cs ! j)" using small [OF j(1)] by simp_all
  qed (use assms in simp_all)
  ultimately show ?thesis
    using n j s by (simp add: splitRangeAndGetInfo_def fetch_def ps_def Let_def dif int_of_eight [OF o8])
qed

section \<open>Dividing a selection\<close>

text \<open>The dimension to split.\<close>

definition split_dim :: "nat \<Rightarrow> int list \<Rightarrow> nat" where
  "split_dim n ends = length (takeWhile (\<lambda>c. c < int n) ends)"

lemma split_index_dim:
  assumes "n \<le> 10" and "\<And>m. m < length cs \<Longrightarrow> eight_digits (cs ! m)"
  shows "split_index n (map of_int cs) = split_dim n cs"
  using assms(2)
proof (induction cs)
  case (Cons c cs)
  have "eight_digits c" using Cons.prems [of 0] by simp
  then have "of_nat n \<le> (of_int c :: u64) \<longleftrightarrow> int n \<le> c"
    using assms(1) by (simp add: eight_digits_def word_le_def unsigned_of_int unsigned_of_nat take_bit_int_eq_self take_bit_nat_eq_self)
  moreover have "split_index n (map of_int cs) = split_dim n cs" using Cons.prems [of "Suc _"] by (intro Cons.IH) simp
  ultimately show ?case by (auto simp: split_dim_def)
qed (simp add: split_dim_def)

text \<open>The elements of a box in all dimensions but the \<open>i\<close>-th.\<close>

fun other_extents :: "nat \<Rightarrow> nat \<Rightarrow> int list \<Rightarrow> int list \<Rightarrow> int" where
  "other_extents i j (c # cs) (a # os) = (if i = j then 1 else c - a) * other_extents i (Suc j) cs os"
| "other_extents i j _ _ = 1"

lemma other_extents_pos:
  "(\<And>m. m < length cs \<Longrightarrow> m < length os \<Longrightarrow> os ! m < cs ! m) \<Longrightarrow> 0 < other_extents i j cs os"
proof (induction i j cs os rule: other_extents.induct)
  case (1 i j c cs a os)
  have "0 < other_extents i (Suc j) cs os" using 1(1) 1(2) [of "Suc _"] by simp
  moreover have "a < c" using 1(2) [of 0] by simp
  ultimately show ?case by simp
qed simp_all

lemma other_product_extents:
  assumes "length cs = length os" and "\<And>m. m < length cs \<Longrightarrow> os ! m < cs ! m \<and> eight_digits (cs ! m) \<and> eight_digits (os ! m)"
    and "0 < acc" and "acc * other_extents i j cs os < 2 ^ 31"
  shows "other_product i j (map of_int cs) (map of_int os) acc = Some (acc * other_extents i j cs os)"
  using assms
proof (induction cs os arbitrary: j acc rule: list_induct2)
  case (Cons c cs a os)
  have tl: "\<And>m. m < length cs \<Longrightarrow> os ! m < cs ! m \<and> eight_digits (cs ! m) \<and> eight_digits (os ! m)"
    using Cons.prems(1) [of "Suc _"] by simp
  have ca: "a < c" "eight_digits c" "eight_digits a" using Cons.prems(1) [of 0] by simp_all
  define acc' where "acc' = acc * (if i = j then 1 else c - a)"
  have rest: "0 < other_extents i (Suc j) cs os" by (rule other_extents_pos) (use tl in simp)
  have pos: "0 < acc'" using ca Cons.prems(2) by (simp add: acc'_def)
  have prod: "acc' * other_extents i (Suc j) cs os < 2 ^ 31"
    using Cons.prems(3) by (simp add: acc'_def mult.assoc)
  have "acc' * 1 \<le> acc' * other_extents i (Suc j) cs os" using pos rest by (intro mult_left_mono) auto
  then have "acc' < 2 ^ 31" using prod by linarith
  then have "int_of (of_int acc') = acc'" using pos by (intro int_of_of_int) simp_all
  then have "(if i \<noteq> j then int_of (of_int acc * (of_int c - of_int a)) else acc) = acc'"
    by (auto simp: acc'_def)
  then show ?case
    using Cons.IH [OF tl pos prod] by (simp add: acc'_def mult.assoc)
qed simp

text \<open>
  A selection the division handles: at most three dimensions, triples with at least one element and ends of at most eight digits,
  a dimension to split and, in \<open>int\<close>, a number of elements.
\<close>

definition starts_of :: "(int \<times> int \<times> nat) list \<Rightarrow> int list" where
  "starts_of ts = map fst ts"

definition ends_of :: "(int \<times> int \<times> nat) list \<Rightarrow> int list" where
  "ends_of ts = map (fst \<circ> snd) ts"

definition divisible :: "nat \<Rightarrow> (int \<times> int \<times> nat) list \<Rightarrow> bool" where
  "divisible n ts \<longleftrightarrow> length ts \<le> 3 \<and> (\<forall>(a, b, st) \<in> set ts. eight_digits a \<and> eight_digits b \<and> a < b)
     \<and> (let j = split_dim n (ends_of ts) in j < length ts
         \<and> (ends_of ts ! j - starts_of ts ! j) * other_extents j 0 (ends_of ts) (starts_of ts) < 2 ^ 31)"

text \<open>The start of part \<open>m\<close> in the dimension that is split, and the box of part \<open>m\<close>: its starts and its ends.\<close>

definition split_at :: "nat \<Rightarrow> (int \<times> int \<times> nat) list \<Rightarrow> nat \<Rightarrow> int" where
  "split_at n ts = (let j = split_dim n (ends_of ts) in part_start (starts_of ts ! j) (ends_of ts ! j) n)"

definition part_box :: "nat \<Rightarrow> (int \<times> int \<times> nat) list \<Rightarrow> nat \<Rightarrow> int list \<times> int list" where
  "part_box n ts m = (let j = split_dim n (ends_of ts)
     in ((starts_of ts)[j := split_at n ts m], (ends_of ts)[j := split_at n ts (Suc m)]))"

definition part_elements :: "nat \<Rightarrow> (int \<times> int \<times> nat) list \<Rightarrow> nat \<Rightarrow> int" where
  "part_elements n ts m = (split_at n ts (Suc m) - split_at n ts m)
     * other_extents (split_dim n (ends_of ts)) 0 (ends_of ts) (starts_of ts)"

lemma divisibleD:
  assumes "divisible n ts"
  shows "split_dim n (ends_of ts) < length ts"
    and "m < length ts \<Longrightarrow> eight_digits (ends_of ts ! m) \<and> eight_digits (starts_of ts ! m) \<and> starts_of ts ! m < ends_of ts ! m"
    and "(ends_of ts ! split_dim n (ends_of ts) - starts_of ts ! split_dim n (ends_of ts))
           * other_extents (split_dim n (ends_of ts)) 0 (ends_of ts) (starts_of ts) < 2 ^ 31"
proof -
  show "split_dim n (ends_of ts) < length ts"
    "(ends_of ts ! split_dim n (ends_of ts) - starts_of ts ! split_dim n (ends_of ts))
       * other_extents (split_dim n (ends_of ts)) 0 (ends_of ts) (starts_of ts) < 2 ^ 31"
    using assms unfolding divisible_def Let_def by blast+
  assume m: "m < length ts"
  obtain a b st where t: "ts ! m = (a, b, st)" by (cases "ts ! m")
  then have "(a, b, st) \<in> set ts" using m by (metis nth_mem)
  then have "eight_digits a \<and> eight_digits b \<and> a < b" using assms unfolding divisible_def by blast
  then show "eight_digits (ends_of ts ! m) \<and> eight_digits (starts_of ts ! m) \<and> starts_of ts ! m < ends_of ts ! m"
    using m t by (simp add: starts_of_def ends_of_def)
qed

lemma ends_starts_length [simp]: "length (ends_of ts) = length ts" "length (starts_of ts) = length ts"
  by (simp_all add: ends_of_def starts_of_def)

lemma divide_selection_parts:
  assumes room: "roomy usable" and d: "divisible n ts" and n: "0 < n" "n \<le> 10"
    and p: "length (sizes p) = n" "length (selects p) = n"
  shows "\<exists>p'. divide_selection usable True True n (''['' @ triples_text ts @ '']'') p = Some p'
    \<and> sizes p' = map (\<lambda>m. of_int (part_elements n ts m)) [0..<n]
    \<and> selects p' = map (\<lambda>m. Some (case part_box n ts m of (starts, ends) \<Rightarrow> box_text ends starts)) [0..<n]
    \<and> p' = p\<lparr>sizes := sizes p', selects := selects p', flag_Node := True\<rparr>"
proof -
  let ?j = "split_dim n (ends_of ts)" and ?v = "\<lparr>data = [], capacity = 0, block = 0\<rparr>"
  note dD = divisibleD [OF d]
  have "\<forall>(a, b, st) \<in> set ts. eight_digits a \<and> eight_digits b" "length ts \<le> 3" using d by (auto simp: divisible_def)
  from processInput_triples [OF this(1) room this(2)] obtain os cs
    where pi: "processInput usable True (triples_text ts) ?v ?v = Some (os, cs)"
      and os: "data os = map of_int (starts_of ts)" and cs: "data cs = map of_int (ends_of ts)"
    by (auto simp: starts_of_def ends_of_def comp_assoc)
  have dim: "split_index n (map of_int (ends_of ts)) = ?j"
    using n(2) dD(2) by (intro split_index_dim) simp_all
  have pos: "0 < other_extents ?j 0 (ends_of ts) (starts_of ts)"
    by (rule other_extents_pos) (use dD(2) in simp)
  have prod: "other_product ?j 0 (map of_int (ends_of ts)) (map of_int (starts_of ts)) 1 = Some (other_extents ?j 0 (ends_of ts) (starts_of ts))"
  proof -
    have "1 * other_extents ?j 0 (ends_of ts) (starts_of ts)
        \<le> (ends_of ts ! ?j - starts_of ts ! ?j) * other_extents ?j 0 (ends_of ts) (starts_of ts)"
      using dD(2) [OF dD(1)] pos by (intro mult_right_mono) auto
    then have "1 * other_extents ?j 0 (ends_of ts) (starts_of ts) < 2 ^ 31" using dD(3) by linarith
    then show ?thesis using other_product_extents [of "ends_of ts" "starts_of ts" 1 ?j 0] dD(2) by simp
  qed
  have n31: "int n < 2 ^ 31" using n by simp
  from splitRange_parts [of n ?j "ends_of ts" "starts_of ts" "other_extents ?j 0 (ends_of ts) (starts_of ts)"
      "\<lparr>node_size = sizes p, select_str = selects p, counts = cs, offsets = os\<rparr>"]
  obtain s' where s': "splitRangeAndGetInfo True True ?j (int n) (other_extents ?j 0 (ends_of ts) (starts_of ts))
      \<lparr>node_size = sizes p, select_str = selects p, counts = cs, offsets = os\<rparr> = Some s'"
    and ns: "node_size s' = map (\<lambda>m. of_int (part_elements n ts m)) [0..<n]"
    and sel: "select_str s' = map (\<lambda>m. Some (case part_box n ts m of (starts, ends) \<Rightarrow> box_text ends starts)) [0..<n]"
    using n dD(1,3) dD(2) p os cs pos n31
    by (auto simp: part_elements_def split_at_def part_box_def Let_def less_imp_le)
  have "butlast (triples_text ts @ '']'') = triples_text ts" by (simp add: butlast_append)
  then show ?thesis
    using pi prod s' ns sel os cs dD(1) dim
    by (simp add: divide_selection_def createVector_def Let_def)
qed

lemma split_at_props:
  assumes "divisible n ts" and "0 < n"
  shows "split_at n ts 0 = starts_of ts ! split_dim n (ends_of ts)"
    and "split_at n ts n = ends_of ts ! split_dim n (ends_of ts)"
    and "split_at n ts m \<le> split_at n ts (Suc m)"
  using part_start_step [of "starts_of ts ! split_dim n (ends_of ts)" "ends_of ts ! split_dim n (ends_of ts)" n m]
    divisibleD(2) [OF assms(1) divisibleD(1) [OF assms(1)]] assms(2)
  by (simp_all add: split_at_def part_start_n Let_def)

section \<open>The requests of the first dataset\<close>

text \<open>The elements before part \<open>m\<close>.\<close>

definition elements_before :: "nat \<Rightarrow> (int \<times> int \<times> nat) list \<Rightarrow> nat \<Rightarrow> int" where
  "elements_before n ts m = (split_at n ts m - split_at n ts 0)
     * other_extents (split_dim n (ends_of ts)) 0 (ends_of ts) (starts_of ts)"

lemma elements_before_0 [simp]: "elements_before n ts 0 = 0"
  by (simp add: elements_before_def)

lemma elements_before_Suc: "elements_before n ts (Suc m) = elements_before n ts m + part_elements n ts m"
  by (simp add: elements_before_def part_elements_def algebra_simps)

lemma sum_part_elements:
  "sum_list (map (\<lambda>m. of_int (part_elements n ts m) * ts' :: u64) [0..<k]) = of_int (elements_before n ts k) * ts'"
  by (induction k) (simp_all add: elements_before_Suc algebra_simps)

text \<open>The request of part \<open>m\<close>.\<close>

definition part_request :: "nat \<Rightarrow> string option list \<Rightarrow> (int \<times> int \<times> nat) list \<Rightarrow> nat \<Rightarrow> string \<times> string option" where
  "part_request n urls ts m =
     ((if n = 1 then [] else the (urls ! m)),
      (if n = 1 then Some (''['' @ triples_text ts @ '']'')
       else Some (case part_box n ts m of (starts, ends) \<Rightarrow> box_text ends starts)))"

text \<open>The plan after the first \<open>i\<close> transfers.\<close>

definition plan_after :: "nat \<Rightarrow> string option list \<Rightarrow> u64 \<Rightarrow> (int \<times> int \<times> nat) list \<Rightarrow> nat \<Rightarrow> read_plan" where
  "plan_after n urls type_size ts i =
     \<lparr>sizes = map (\<lambda>m. of_int (part_elements n ts m)) [0..<n],
      selects = map (\<lambda>m. Some (case part_box n ts m of (starts, ends) \<Rightarrow> box_text ends starts)) [0..<n],
      flag_Node = True,
      allocs = [of_int (elements_before n ts n) * type_size],
      positions = map (\<lambda>m. (0, of_int (elements_before n ts m) * type_size)) [0..<i],
      buffer_sizes = map (\<lambda>m. of_int (part_elements n ts m) * type_size) [0..<i],
      requests = map (part_request n urls ts) [0..<i]\<rparr>"

lemma read_step_first:
  assumes room: "roomy usable" and d: "divisible n ts" and n: "0 < n" "n \<le> 10" and urls: "length urls = n" "None \<notin> set urls"
  shows "read_step usable True True n urls type_size 0 (True, Some (''['' @ triples_text ts @ '']'')) (initial_plan n)
    = Some (plan_after n urls type_size ts 1)"
proof -
  obtain p' where p': "divide_selection usable True True n (''['' @ triples_text ts @ '']'') (initial_plan n) = Some p'"
    and sz: "sizes p' = map (\<lambda>m. of_int (part_elements n ts m)) [0..<n]"
    and sel: "selects p' = map (\<lambda>m. Some (case part_box n ts m of (starts, ends) \<Rightarrow> box_text ends starts)) [0..<n]"
    and eq: "p' = initial_plan n\<lparr>sizes := sizes p', selects := selects p', flag_Node := True\<rparr>"
    using divide_selection_parts [OF room d n, of "initial_plan n"] by (auto simp: initial_plan_def)
  have fields: "allocs p' = []" "positions p' = []" "buffer_sizes p' = []" "requests p' = []" "flag_Node p'"
    by (subst eq, simp add: initial_plan_def)+
  obtain u where u: "urls ! 0 = Some u" using urls n by (metis nth_mem not_None_eq)
  have total: "sum_list (map (\<lambda>s. s * type_size) (sizes p')) = of_int (elements_before n ts n) * type_size"
    using sum_part_elements [of n ts type_size n] by (simp add: sz comp_def)
  have "map_option Some (Option.bind (fetch 0 (selects p')) (\<lambda>s. s)) = Some (snd (part_request n urls ts 0))" if "n > 1"
    using that by (simp add: fetch_def sel part_request_def)
  then show ?thesis
    using p' n urls(1) u total
    using sz sel fields
    by (cases "n = 1"; cases p') (simp_all add: fetch_def plan_after_def part_request_def Let_def)
qed

lemma read_step_later:
  assumes n: "0 < i" "i < n" and urls: "length urls = n" "None \<notin> set urls"
  shows "read_step usable mok dup_ok n urls type_size i (True, Some body) (plan_after n urls type_size ts i)
    = Some (plan_after n urls type_size ts (Suc i))"
proof -
  obtain u where "urls ! i = Some u" using urls n by (metis nth_mem not_None_eq)
  moreover have "of_int (elements_before n ts (i - 1)) * type_size + of_int (part_elements n ts (i - 1)) * type_size
      = of_int (elements_before n ts i) * type_size"
    using n elements_before_Suc [of n ts "i - 1"] by (simp add: algebra_simps)
  ultimately show ?thesis
    using n urls(1) by (simp add: fetch_def plan_after_def part_request_def Let_def)
qed

lemma replicate_Suc_snoc: "replicate (Suc k) x = replicate k x @ [x]"
  by (simp add: replicate_append_same)

lemma read_loop_append:
  "read_loop usable mok dup_ok n urls type_size i (xs @ ys) p
     = Option.bind (read_loop usable mok dup_ok n urls type_size i xs p) (read_loop usable mok dup_ok n urls type_size (i + length xs) ys)"
  by (induction xs arbitrary: i p) (auto split: bind_split)

lemma read_loop_first_dataset:
  assumes room: "roomy usable" and d: "divisible n ts" and n: "0 < n" "n \<le> 10" and urls: "length urls = n" "None \<notin> set urls"
  defines "body \<equiv> (True, Some (''['' @ triples_text ts @ '']''))"
  shows "k < n \<Longrightarrow> read_loop usable True True n urls type_size 0 (replicate (Suc k) body) (initial_plan n)
    = Some (plan_after n urls type_size ts (Suc k))"
proof (induction k)
  case 0
  then show ?case using read_step_first [OF room d n urls] by (simp add: body_def)
next
  case (Suc k)
  then show ?case
    using read_step_later [of "Suc k" n urls usable True True type_size "''['' @ triples_text ts @ '']''" ts] urls
    by (simp add: read_loop_append replicate_Suc_snoc [of "Suc k"] body_def del: replicate_Suc)
qed

text \<open>
  C7: the requests of one dataset divide it among the servers. For a selection of at most three
  triples with numbers of at most eight digits and at most \<open>INT_MAX\<close> elements, and an allocator whose
  blocks have at least 24 bytes, one block is allocated for all
  elements, the response buffer of server \<open>m\<close> starts where the elements of the servers before it
  end and is as long as its own elements, its request carries the selection with the split
  dimension narrowed to the \<open>m\<close>-th of \<open>n\<close> consecutive intervals, and the intervals together
  are the selected range. The step of the selection is not carried over: it is always 1.
\<close>

theorem read_plan_partition:
  assumes "roomy usable" and "divisible n ts" and "0 < n" and "n \<le> 10" and "length urls = n" and "None \<notin> set urls"
  shows "\<exists>p. read_loop usable True True n urls type_size 0
          (replicate n (True, Some (''['' @ triples_text ts @ '']''))) (initial_plan n) = Some p
    \<and> allocs p = [of_int (elements_before n ts n) * type_size]
    \<and> positions p = map (\<lambda>m. (0, of_int (elements_before n ts m) * type_size)) [0..<n]
    \<and> buffer_sizes p = map (\<lambda>m. of_int (part_elements n ts m) * type_size) [0..<n]
    \<and> requests p = map (part_request n urls ts) [0..<n]
    \<and> (\<forall>m < n. elements_before n ts (Suc m) = elements_before n ts m + part_elements n ts m
          \<and> 0 \<le> part_elements n ts m)
    \<and> split_at n ts 0 = starts_of ts ! split_dim n (ends_of ts)
    \<and> split_at n ts n = ends_of ts ! split_dim n (ends_of ts)"
proof -
  have "0 \<le> part_elements n ts m" for m
  proof -
    have "0 < other_extents (split_dim n (ends_of ts)) 0 (ends_of ts) (starts_of ts)"
      by (rule other_extents_pos) (use divisibleD(2) [OF assms(2)] in simp)
    then show ?thesis using split_at_props(3) [OF assms(2,3), of m] by (simp add: part_elements_def)
  qed
  then show ?thesis
    using read_loop_first_dataset [OF assms, of "n - 1"] assms(3) split_at_props [OF assms(2,3)]
    by (simp add: plan_after_def elements_before_Suc)
qed

lemma read_plan_partition_witness:
  "\<exists>p. read_loop (\<lambda>k. Some (max 24 (unat k))) True True 2 [Some ''u0'', Some ''u1''] 4 0
      (replicate 2 (True, Some ''[0:1:1,2:7:1]'')) (initial_plan 2) = Some p
    \<and> allocs p = [20] \<and> positions p = [(0, 0), (0, 12)] \<and> buffer_sizes p = [12, 8]
    \<and> requests p = [(''u0'', Some ''[0:1:1,2:5:1]''), (''u1'', Some ''[0:1:1,5:7:1]'')]"
proof -
  let ?ts = "[(0, 1, 1), (2, 7, 1)] :: (int \<times> int \<times> nat) list"
  have d: "divisible 2 ?ts" by code_simp
  have b: "''['' @ triples_text ?ts @ '']'' = ''[0:1:1,2:7:1]''" by code_simp
  have c: "[of_int (elements_before 2 ?ts 2) * (4 :: u64)] = [20]"
    "map (\<lambda>m. (0, of_int (elements_before 2 ?ts m) * (4 :: u64))) [0..<2] = [(0 :: nat, 0), (0, 12)]"
    "map (\<lambda>m. of_int (part_elements 2 ?ts m) * (4 :: u64)) [0..<2] = [12, 8]"
    "map (part_request 2 [Some ''u0'', Some ''u1''] ?ts) [0..<2]
       = [(''u0'', Some ''[0:1:1,2:5:1]''), (''u1'', Some ''[0:1:1,5:7:1]'')]"
    by code_simp+
  have "roomy (\<lambda>k. Some (max 24 (unat k)))" by (simp add: roomy_def)
  then show ?thesis using read_plan_partition [OF _ d, of "\<lambda>k. Some (max 24 (unat k))" "[Some ''u0'', Some ''u1'']" 4] unfolding b c by auto
qed

section \<open>Reads that are not divided\<close>

definition plan_all :: "nat \<Rightarrow> string option list \<Rightarrow> nat \<Rightarrow> read_plan" where
  "plan_all n urls i =
     \<lparr>sizes = replicate n 0, selects = replicate n None, flag_Node = False,
      allocs = (if i = 0 then [] else [0]), positions = replicate i (0, 0), buffer_sizes = replicate i 0,
      requests = map (\<lambda>m. (if n = 1 then [] else the (urls ! m), None)) [0..<i]\<rparr>"

lemma read_step_all:
  assumes "i < n" and "length urls = n" and "None \<notin> set urls"
  shows "read_step usable mok dup_ok n urls type_size i (b, None) (plan_all n urls i) = Some (plan_all n urls (Suc i))"
proof -
  obtain u where u: "urls ! i = Some u" using assms by (metis nth_mem not_None_eq)
  have "sum_list (map (\<lambda>s. s * type_size) (replicate n 0)) = (0 :: u64)" by (induction n) simp_all
  then show ?thesis
    using assms u by (auto simp: replicate_Suc_snoc plan_all_def fetch_def Let_def simp del: replicate_Suc)
qed

lemma read_loop_all:
  assumes "length urls = n" and "None \<notin> set urls"
  shows "k \<le> n \<Longrightarrow> read_loop usable mok dup_ok n urls type_size 0 (replicate k (b, None)) (initial_plan n) = Some (plan_all n urls k)"
proof (induction k)
  case 0
  then show ?case by (simp add: initial_plan_def plan_all_def)
next
  case (Suc k)
  then show ?case
    using read_step_all [of k n urls usable mok dup_ok type_size b] assms
    by (simp add: read_loop_append replicate_Suc_snoc del: replicate_Suc read_step.simps)
qed

text \<open>
  A read without a selection (\<open>H5S_ALL\<close> for the file space) has no room for the response.
  \<open>node_size\<close> is only set when a selection is divided, so the block and every response buffer have
  size 0, and with several servers every server is asked for the whole dataset.
\<close>

lemma read_all_has_empty_buffers:
  assumes "length urls = n" and "None \<notin> set urls" and "0 < n"
  shows "\<exists>p. read_loop usable mok dup_ok n urls type_size 0 (replicate n (b, None)) (initial_plan n) = Some p
    \<and> allocs p = [0] \<and> positions p = replicate n (0, 0) \<and> buffer_sizes p = replicate n 0
    \<and> map snd (requests p) = replicate n None"
  using read_loop_all [OF assms(1,2), of n usable mok dup_ok type_size b] assms(3)
  by (simp add: plan_all_def comp_def map_replicate_const)

lemma read_step_second:
  assumes "n \<noteq> 1" and "length urls \<le> i"
  shows "read_step usable mok dup_ok n urls type_size i x p = None"
proof (cases x)
  case (Pair b body)
  have "fetch i urls = None" using assms(2) by (simp add: fetch_def)
  then show ?thesis using assms(1) unfolding Pair by (auto simp: Let_def split: bind_split)
qed

text \<open>
  With several servers only one dataset can be read. The address of the server is indexed by
  the number of the transfer, not by its number modulo the servers, so the first transfer of a second
  dataset reads outside of the array.
\<close>

lemma read_of_two_datasets:
  assumes "n \<noteq> 1" and "length urls = n" and "n < length bodies"
  shows "read_loop usable mok dup_ok n urls type_size 0 bodies p = None"
proof -
  have "bodies = take n bodies @ bodies ! n # drop (Suc n) bodies" using assms(3) by (simp add: id_take_nth_drop)
  then have "read_loop usable mok dup_ok n urls type_size 0 bodies p
      = read_loop usable mok dup_ok n urls type_size 0 (take n bodies @ bodies ! n # drop (Suc n) bodies) p" by simp
  also have "\<dots> = None"
    unfolding read_loop_append using assms read_step_second [of n urls n] by (simp split: bind_split)
  finally show ?thesis .
qed

section \<open>The order of the elements\<close>

text \<open>The elements of a box in row-major order, and the order of the rows.\<close>

definition elements :: "int list \<times> int list \<Rightarrow> int list list" where
  "elements box = (case box of (starts, ends) \<Rightarrow> product_lists (map2 (\<lambda>a b. [a..b - 1]) starts ends))"

fun row_less :: "int list \<Rightarrow> int list \<Rightarrow> bool" where
  "row_less (x # xs) (y # ys) \<longleftrightarrow> x < y \<or> x = y \<and> row_less xs ys"
| "row_less _ _ \<longleftrightarrow> False"

lemma elements_Nil [simp]: "elements ([], []) = [[]]"
  by (simp add: elements_def)

lemma elements_Cons [simp]:
  "elements (a # as, b # bs) = concat (map (\<lambda>x. map ((#) x) (elements (as, bs))) [a..b - 1])"
  by (simp add: elements_def)

lemma two_parts:
  assumes "2 \<le> n" and "2 \<le> b - a"
  shows "part_start a b n 0 < part_start a b n 1" and "part_start a b n 1 < part_start a b n 2"
proof -
  define q where "q = (b - a) div int n"
  define r where "r = (b - a) mod int n"
  have q: "0 \<le> q" using assms by (simp add: q_def pos_imp_zdiv_nonneg_iff)
  have r: "0 \<le> r" using assms by (simp add: r_def)
  have "q = 0 \<Longrightarrow> 2 \<le> r" using assms minus_mult_div_eq_mod [of "b - a" "int n"] by (simp add: q_def r_def)
  then have "q = 0 \<and> 2 \<le> r \<or> 1 \<le> q \<and> 0 \<le> r" using q r by auto
  then show "part_start a b n 0 < part_start a b n 1" "part_start a b n 1 < part_start a b n 2"
    unfolding part_start_def q_def [symmetric] r_def [symmetric] by (auto simp: min_def)
qed

lemma elements_sorted: "length as = length bs \<Longrightarrow> sorted_wrt row_less (elements (as, bs))"
proof (induction as bs rule: list_induct2)
  case (Cons a as b bs)
  have s: "sorted_wrt row_less (concat (map (\<lambda>x. map ((#) x) (elements (as, bs))) xs))"
    if "sorted_wrt (<) xs" for xs :: "int list"
    using that Cons.IH
    by (induction xs) (auto simp: sorted_wrt_append sorted_wrt_map)
  then show ?case by simp
qed simp

lemma set_elements:
  "length as = length bs \<Longrightarrow> xs \<in> set (elements (as, bs)) \<longleftrightarrow>
     length xs = length as \<and> (\<forall>m < length as. as ! m \<le> xs ! m \<and> xs ! m < bs ! m)"
proof (induction as bs arbitrary: xs rule: list_induct2)
  case (Cons a as b bs)
  show ?case
  proof (cases xs)
    case Nil
    then show ?thesis by auto
  next
    case (Cons x ys)
    then show ?thesis using Cons.IH [of ys] by (auto simp: nth_Cons less_Suc_eq_0_disj split: nat.splits)
  qed
qed simp

lemma length_elements_Cons:
  "a \<le> b \<Longrightarrow> int (length (elements (a # as, b # bs))) = (b - a) * int (length (elements (as, bs)))"
proof -
  have "length (concat (map (\<lambda>x. map ((#) x) ys) xs)) = length xs * length ys" for xs :: "int list" and ys
    by (induction xs) simp_all
  then show "a \<le> b \<Longrightarrow> ?thesis" by simp
qed

lemma other_extents_all:
  "length as = length bs \<Longrightarrow> (\<And>m. m < length as \<Longrightarrow> as ! m \<le> bs ! m) \<Longrightarrow> i < k
    \<Longrightarrow> other_extents i k bs as = int (length (elements (as, bs)))"
proof (induction as bs arbitrary: k rule: list_induct2)
  case (Cons a as b bs)
  then show ?case
    using Cons.prems(1) [of 0] Cons.prems(1) [of "Suc _"] length_elements_Cons [of a b as bs] by simp
qed simp

lemma length_part_elements:
  "length as = length bs \<Longrightarrow> (\<And>m. m < length as \<Longrightarrow> as ! m \<le> bs ! m) \<Longrightarrow> k \<le> i \<Longrightarrow> i < k + length as \<Longrightarrow> x \<le> y
    \<Longrightarrow> int (length (elements (as[i - k := x], bs[i - k := y]))) = (y - x) * other_extents i k bs as"
proof (induction as bs arbitrary: k rule: list_induct2)
  case (Cons a as b bs)
  have le: "a \<le> b" "\<And>m. m < length as \<Longrightarrow> as ! m \<le> bs ! m"
    using Cons.prems(1) [of 0] Cons.prems(1) [of "Suc _"] by simp_all
  show ?case
  proof (cases "i = k")
    case True
    then show ?thesis
      using length_elements_Cons [OF Cons.prems(4), of as bs] other_extents_all [OF Cons.hyps le(2), of k "Suc k"] by simp
  next
    case False
    then have "i - k = Suc (i - Suc k)" using Cons.prems(2) by simp
    then show ?thesis
      using Cons.IH [OF le(2), of "Suc k"] Cons.prems(2-4) False le(1) length_elements_Cons [of a b] by simp
  qed
qed simp

lemma concat_upto_parts:
  fixes ps :: "nat \<Rightarrow> int"
  assumes "\<And>m. ps m \<le> ps (Suc m)"
  shows "concat (map (\<lambda>m. [ps m..ps (Suc m) - 1]) [0..<k]) = [ps 0..ps k - 1]"
proof (induction k)
  case (Suc k)
  have "ps 0 \<le> ps k" using lift_Suc_mono_le [of ps 0 k] assms by simp
  then show ?case
    using Suc assms [of k] upto_split1 [of "ps 0" "ps k" "ps (Suc k) - 1"] by (cases "ps k = ps (Suc k)") auto
qed simp

lemma concat_map_concat:
  "concat (map (\<lambda>m. concat (map F (g m))) ms) = concat (map F (concat (map g ms)))"
  by (induction ms) simp_all

lemma concat_elements_parts:
  assumes "length as = length bs" and "j < length as" and "\<And>d. d < j \<Longrightarrow> bs ! d - as ! d = 1"
    and ps: "\<And>m. ps m \<le> ps (Suc m)"
  shows "concat (map (\<lambda>m. elements (as[j := ps m], bs[j := ps (Suc m)])) [0..<k])
    = elements (as[j := ps 0], bs[j := ps k])"
  using assms(1-3)
proof (induction as bs arbitrary: j rule: list_induct2)
  case (Cons a as b bs)
  show ?case
  proof (cases j)
    case 0
    have c: "concat (map (\<lambda>m. concat (map F [ps m..ps (Suc m) - 1])) [0..<k]) = concat (map F [ps 0..ps k - 1])"
      for F :: "int \<Rightarrow> int list list"
      unfolding concat_upto_parts [of ps, OF ps, symmetric] by (rule concat_map_concat)
    show ?thesis using c [of "\<lambda>x. map ((#) x) (elements (as, bs))"] by (simp add: 0)
  next
    case (Suc j')
    have b: "b = a + 1" using Cons.prems(2) [of 0] Suc by simp
    have "concat (map (\<lambda>m. elements (as[j' := ps m], bs[j' := ps (Suc m)])) [0..<k]) = elements (as[j' := ps 0], bs[j' := ps k])"
      by (rule Cons.IH) (use Cons.prems(1) Cons.prems(2) [of "Suc _"] Suc in simp_all)
    then have "concat (map (\<lambda>m. map ((#) a) (elements (as[j' := ps m], bs[j' := ps (Suc m)]))) [0..<k])
        = map ((#) a) (elements (as[j' := ps 0], bs[j' := ps k]))"
      by (simp add: map_concat comp_def flip: \<open>_ = elements _\<close>)
    then show ?thesis by (simp add: Suc b)
  qed
qed simp

lemma not_row_less:
  "d < length xs \<Longrightarrow> length xs = length ys \<Longrightarrow> (\<And>m. m < d \<Longrightarrow> xs ! m = ys ! m) \<Longrightarrow> ys ! d < xs ! d \<Longrightarrow> \<not> row_less xs ys"
proof (induction xs ys arbitrary: d rule: row_less.induct)
  case (1 x xs y ys)
  show ?case
  proof (cases d)
    case 0
    then show ?thesis using 1 by simp
  next
    case (Suc d')
    moreover have "x = y" using 1(4) [of 0] Suc by simp
    ultimately show ?thesis using 1(1) [of d'] 1(2,3,5) 1(4) [of "Suc _"] by simp
  qed
qed simp_all

text \<open>With a single element in the dimension, the first part is all and the others are empty.\<close>

lemma split_at_single:
  assumes "ends_of ts ! split_dim n (ends_of ts) = starts_of ts ! split_dim n (ends_of ts) + 1"
    and "m < n"
  shows "split_at n ts (Suc m) = ends_of ts ! split_dim n (ends_of ts)"
proof (cases "n = 1")
  case True
  then show ?thesis using assms by (simp add: split_at_def part_start_def Let_def)
next
  case False
  then have "(1 :: int) div int n = 0" "(1 :: int) mod int n = 1" using assms(2) by simp_all
  then show ?thesis using assms(1) by (simp add: split_at_def part_start_def Let_def)
qed

lemma elements_empty:
  "length as = length bs \<Longrightarrow> j < length as \<Longrightarrow> bs ! j \<le> as ! j \<Longrightarrow> elements (as, bs) = []"
  using set_elements [of as bs "hd (elements (as, bs))"] by (cases "elements (as, bs)") force+

lemma parts_order_enough:
  assumes d: "divisible n ts" and n: "0 < n"
  defines "j \<equiv> split_dim n (ends_of ts)"
  assumes "n = 1 \<or> ends_of ts ! j - starts_of ts ! j = 1 \<or> (\<forall>d < j. ends_of ts ! d - starts_of ts ! d = 1)"
  shows "concat (map (\<lambda>m. elements (part_box n ts m)) [0..<n]) = elements (starts_of ts, ends_of ts)"
proof -
  let ?as = "starts_of ts" and ?bs = "ends_of ts" and ?s = "split_at n ts"
  note sp = split_at_props [OF d n, folded j_def]
  have jl: "j < length ts" using divisibleD(1) [OF d] by (simp add: j_def)
  have box: "part_box n ts m = (?as[j := ?s m], ?bs[j := ?s (Suc m)])" for m by (simp add: part_box_def Let_def j_def)
  have whole: "?as[j := ?s 0] = ?as" "?bs[j := ?s n] = ?bs" using sp by simp_all
  consider "n = 1" | "?bs ! j = ?as ! j + 1" | "\<forall>d < j. ?bs ! d - ?as ! d = 1" using assms(4) by force
  then show ?thesis
  proof cases
    case 1
    then have "part_box n ts 0 = (?as, ?bs)" using whole box [of 0] by simp
    then show ?thesis using 1 by simp
  next
    case 2
    then have s: "m < n \<Longrightarrow> ?s (Suc m) = ?bs ! j" for m using split_at_single by (simp add: j_def)
    have "elements (part_box n ts (Suc m)) = []" if "m < n - 1" for m
      unfolding box by (rule elements_empty [of _ _ j]) (use jl s [of m] s [of "Suc m"] that in simp_all)
    then have "concat (map (\<lambda>m. elements (part_box n ts (Suc m))) [0..<n - 1]) = []" by simp
    moreover have "[0..<n] = 0 # map Suc [0..<n - 1]" using n by (simp add: upt_conv_Cons map_Suc_upt)
    moreover have "part_box n ts 0 = (?as, ?bs)" using whole(1) s [of 0] n by (simp add: box)
    ultimately show ?thesis by (simp only: list.map map_map comp_def concat.simps append_Nil2)
  next
    case 3
    then show ?thesis
      using concat_elements_parts [of ?as ?bs j ?s n] sp(3) jl whole by (simp add: box)
  qed
qed

lemma parts_order_needed:
  assumes d: "divisible n ts" and n: "2 \<le> n"
  defines "j \<equiv> split_dim n (ends_of ts)"
  assumes two: "2 \<le> ends_of ts ! j - starts_of ts ! j"
    and order: "concat (map (\<lambda>m. elements (part_box n ts m)) [0..<n]) = elements (starts_of ts, ends_of ts)"
    and e: "e < j"
  shows "ends_of ts ! e - starts_of ts ! e = 1"
proof (rule ccontr)
  let ?as = "starts_of ts" and ?bs = "ends_of ts" and ?s = "split_at n ts"
  assume "?bs ! e - ?as ! e \<noteq> 1"
  have n0: "0 < n" using n by simp
  have jl: "j < length ts" using divisibleD(1) [OF d] by (simp add: j_def)
  have lt: "m < length ts \<Longrightarrow> ?as ! m < ?bs ! m" for m using divisibleD(2) [OF d] by simp
  have wide: "?as ! e + 1 < ?bs ! e" using \<open>?bs ! e - ?as ! e \<noteq> 1\<close> lt [of e] e jl by simp
  have s: "?s 0 = ?as ! j" using split_at_props(1) [OF d n0] by (simp add: j_def)
  have ne: "?s 0 < ?s 1" "?s 1 < ?s 2"
    using two_parts [OF n two] by (simp_all add: split_at_def Let_def j_def)
  define x where "x = ?as[e := ?as ! e + 1]"
  define y where "y = ?as[j := ?s 1]"
  have "x \<in> set (elements (part_box n ts 0))"
    using lt wide e jl s ne by (auto simp: part_box_def Let_def j_def [symmetric] set_elements x_def nth_list_update)
  moreover have "y \<in> set (elements (part_box n ts 1))"
    using lt e jl s ne by (auto simp: part_box_def Let_def j_def [symmetric] set_elements y_def nth_list_update numeral_2_eq_2)
  moreover have "[0..<n] = 0 # 1 # [2..<n]" using n by (simp add: upt_conv_Cons numeral_2_eq_2)
  then have "sorted_wrt row_less (elements (part_box n ts 0) @ elements (part_box n ts 1)
      @ concat (map (\<lambda>m. elements (part_box n ts m)) [2..<n]))"
    using order elements_sorted [of ?as ?bs] by simp
  ultimately have "row_less x y" by (auto simp: sorted_wrt_append)
  moreover have "\<not> row_less x y"
    by (rule not_row_less [of e]) (use e jl in \<open>auto simp: x_def y_def nth_list_update\<close>)
  ultimately show False by simp
qed

lemma parts_order:
  assumes d: "divisible n ts" and n: "0 < n"
  defines "j \<equiv> split_dim n (ends_of ts)"
  shows "concat (map (\<lambda>m. elements (part_box n ts m)) [0..<n]) = elements (starts_of ts, ends_of ts)
    \<longleftrightarrow> n = 1 \<or> ends_of ts ! j - starts_of ts ! j = 1 \<or> (\<forall>d < j. ends_of ts ! d - starts_of ts ! d = 1)"
    (is "?order \<longleftrightarrow> ?cond")
proof
  assume ?order
  moreover have "starts_of ts ! j < ends_of ts ! j" using divisibleD(2) [OF d divisibleD(1) [OF d]] by (simp add: j_def)
  ultimately show ?cond using parts_order_needed [OF d, folded j_def] n by force
qed (use parts_order_enough [OF d n, folded j_def] in blast)


section \<open>The blocks of the vectors\<close>



end
