(* ===== verification/Transfers.thy ===== *)
theory Transfers
  imports Node_Split Responses
begin

text \<open>
  The transfers of \<open>RV_dataset_read\<close> and \<open>RV_dataset_write\<close>: the header callback
  \<open>write_header_callback\<close> of \<open>rest_vol_dataset.c\<close>, and of \<open>rest_vol.c\<close> the handle lookup, the
  decompression, the loops \<open>RV_curl_multi_perform\<close> and \<open>RV_curl_multi_perform_multithreading\<close>, and
  the delivery of the responses of several servers into one block.

  A transfer is a record of the fields of \<open>dataset_transfer_info\<close> the loops use; an easy handle
  is a number.  What cURL does in one turn of the loop is a record \<open>turn\<close>: whether its calls succeed,
  how many transfers are still running, the finished ones as messages and the clock.  The
  decompressors are the record \<open>codec\<close>, the post-processing of a dataset the predicate \<open>success\<close>.
  A result \<open>None\<close> is an access outside an array or through a NULL pointer.
\<close>

section \<open>Header lines\<close>

record header_info =
  content_length :: u64
  content_encoding :: string

definition CURL_ERROR_SIZE :: nat where
  "CURL_ERROR_SIZE = 256"

definition tolower :: "char \<Rightarrow> char" where
  "tolower c = (if 65 \<le> (of_char c :: nat) \<and> (of_char c :: nat) \<le> 90 then char_of (of_char c + 32 :: nat) else c)"

definition strncasecmp_eq :: "string \<Rightarrow> string \<Rightarrow> nat \<Rightarrow> bool" where
  "strncasecmp_eq a b n \<longleftrightarrow> map tolower (take n a) = map tolower (take n b)"

definition strncmp_eq :: "string \<Rightarrow> string \<Rightarrow> nat \<Rightarrow> bool" where
  "strncmp_eq a b n \<longleftrightarrow> take n a = take n b"

text \<open>The header line is the C string \<open>contents\<close>; the result is the number of bytes taken.\<close>

definition write_header_callback :: "string \<Rightarrow> header_info \<Rightarrow> nat \<times> header_info" where
  "write_header_callback header s =
     (if strncasecmp_eq header ''Content-Length:'' 15
      then
        let lengthStr = dropWhile (\<lambda>c. c \<in> {CHR '' '', CHR 0x09, CHR 0x0D, CHR 0x0A}) (drop 15 header)
        in (length header, s\<lparr>content_length := of_int (atoi lengthStr)\<rparr>)
      else if strncmp_eq header ''Content-Encoding:'' 17
      then (length header,
            s\<lparr>content_encoding := takeWhile (\<lambda>c. c \<notin> {CHR 0x0D, CHR 0x0A}) (take (CURL_ERROR_SIZE - 1) (drop 17 header))\<rparr>)
      else (length header, s))"

text \<open>What the array holds after \<open>strtrim\<close>, which cuts the end in place and skips the start.\<close>

definition strtrim_array :: "string \<Rightarrow> string" where
  "strtrim_array s =
     (if dropWhile is_space_char s = [] then s else takeWhile is_space_char s @ strtrim s)"

section \<open>Decompression\<close>

text \<open>
  The libraries: data, its length and the length of the output block give the decompressed data or
  an error.  \<open>lz4\<close> takes its lengths as \<open>int\<close>.
\<close>

record codec =
  zstd :: "string \<Rightarrow> u64 \<Rightarrow> u64 \<Rightarrow> string option"
  zlib :: "string \<Rightarrow> u64 \<Rightarrow> u64 \<Rightarrow> string option"
  lz4 :: "string \<Rightarrow> int \<Rightarrow> int \<Rightarrow> string option"

definition decompress_data :: "codec \<Rightarrow> bool \<Rightarrow> string \<Rightarrow> u64 \<Rightarrow> u64 \<Rightarrow> string option" where
  "decompress_data lib malloc_ok inp compressed_size original_size =
     (if \<not> malloc_ok then None else zstd lib inp compressed_size original_size)"

definition decompress_data_zlib :: "codec \<Rightarrow> bool \<Rightarrow> string \<Rightarrow> u64 \<Rightarrow> u64 \<Rightarrow> string option" where
  "decompress_data_zlib lib malloc_ok inp compressed_size original_size =
     (if \<not> malloc_ok then None else zlib lib inp compressed_size original_size)"

definition decompress_data_lz4 :: "codec \<Rightarrow> bool \<Rightarrow> string \<Rightarrow> u64 \<Rightarrow> u64 \<Rightarrow> string option" where
  "decompress_data_lz4 lib malloc_ok inp compressed_size original_size =
     (if \<not> malloc_ok then None else lz4 lib inp (int_of compressed_size) (int_of original_size))"

section \<open>Transfers\<close>

datatype transfer_type = UNINIT | READ | WRITE

record transfer = header_info +
  curl_easy_handle :: "nat option"
  transfer_type :: transfer_type
  bytes_sent :: u64
  resp_curr :: nat
  resp_buffer :: "string option"
  resp_buffer_size :: u64
  write_body :: "string option"
  base64_encoded_values :: "string option"
  request_url :: "string option"
  time_of_fail :: u64
  current_backoff_duration :: u64

text \<open>
  The state of a loop: the transfers, the handles to try again, those in the multi handle, the messages not
  yet read, and, in order, the transfers that were post-processed and the handles cleaned up.
\<close>

record message =
  easy_handle :: nat
  is_done :: bool
  response_code :: "int option"
  remove_ok :: bool
  now :: u64
  jitter :: "u64 \<Rightarrow> u64"
  out_ok :: bool

record multi =
  transfer_info :: "transfer list"
  failed_handles_to_retry :: "nat option list"
  active :: "nat list"
  queue :: "message list"
  served :: "nat list"
  cleaned :: "nat list"

record turn =
  timeout_ok :: bool
  fdset_ok :: bool
  perform_ok :: bool
  num_still_running :: int
  arrived :: "message list"
  curr_time_ns :: u64
  add_ok :: "nat \<Rightarrow> bool"

datatype transfer_failure =
    TransferCantAlloc | TransferCantGet | TransferWriteError | TransferReadError | TransferHttp http_error

text \<open>\<open>RV_get_index_of_matching_handle\<close>, the loop from \<open>i\<close> over the first \<open>count\<close> transfers.\<close>

fun matching_handle :: "transfer list \<Rightarrow> nat \<Rightarrow> nat \<Rightarrow> nat \<Rightarrow> nat option" where
  "matching_handle [] count i h = None"
| "matching_handle (t # ts) count i h =
     (if count \<le> i then None
      else if curl_easy_handle t = Some h then Some i
      else matching_handle ts count (Suc i) h)"

definition RV_get_index_of_matching_handle :: "transfer list \<Rightarrow> nat \<Rightarrow> nat \<Rightarrow> nat" where
  "RV_get_index_of_matching_handle ts count h =
     (case matching_handle ts count 0 h of Some i \<Rightarrow> i | None \<Rightarrow> count + 1)"

definition BACKOFF_INITIAL_DURATION :: u64 where
  "BACKOFF_INITIAL_DURATION = 10000000"

definition BACKOFF_MAX_BEFORE_FAIL :: u64 where
  "BACKOFF_MAX_BEFORE_FAIL = 3000000000"

text \<open>\<open>(size_t)((double)d * 1.5)\<close>, exact for the durations below \<open>2^52\<close>.\<close>

definition backoff_scaled :: "u64 \<Rightarrow> u64" where
  "backoff_scaled d = of_nat (unat d * 3 div 2)"

text \<open>The branch for 503.  \<open>jitter\<close> is the random factor between one and two.\<close>

definition deny :: "nat \<Rightarrow> message \<Rightarrow> multi \<Rightarrow> (transfer_failure + multi) option" where
  "deny count m s = do {
     let i = RV_get_index_of_matching_handle (transfer_info s) count (easy_handle m);
     t \<leftarrow> fetch i (transfer_info s);
     let t = t\<lparr>bytes_sent := (if transfer_type t = WRITE then 0 else bytes_sent t), resp_curr := 0\<rparr>;
     (if \<not> remove_ok m then Some (Inl TransferWriteError)
      else do {
        r \<leftarrow> assign i (Some (easy_handle m)) (failed_handles_to_retry s);
        let d = (if current_backoff_duration t = 0 then BACKOFF_INITIAL_DURATION
                 else backoff_scaled (current_backoff_duration t));
        let d = jitter m d;
        let t = t\<lparr>time_of_fail := now m, current_backoff_duration := d\<rparr>;
        Some (if d \<ge> BACKOFF_MAX_BEFORE_FAIL then Inl TransferWriteError
              else Inr (s\<lparr>transfer_info := (transfer_info s)[i := t], failed_handles_to_retry := r,
                          active := remove1 (easy_handle m) (active s)\<rparr>))
      })
   }"

text \<open>The decompression in the branch for 200: the new buffer, NULL after an error.\<close>

definition inflate :: "codec \<Rightarrow> bool \<Rightarrow> transfer \<Rightarrow> transfer option" where
  "inflate lib malloc_ok t =
     (let trimmed = strtrim (content_encoding t);
          t = t\<lparr>content_encoding := strtrim_array (content_encoding t)\<rparr>;
          run = (\<lambda>f. map_option (\<lambda>b. t\<lparr>resp_buffer := f b (content_length t) (resp_buffer_size t)\<rparr>) (resp_buffer t))
      in if trimmed = ''zstd'' then run (decompress_data lib malloc_ok)
         else if trimmed = ''zlib'' then run (decompress_data_zlib lib malloc_ok)
         else if trimmed = ''lz4'' then run (decompress_data_lz4 lib malloc_ok)
         else Some t)"

text \<open>The branch for 200 of \<open>RV_curl_multi_perform\<close>.\<close>

definition accept :: "codec \<Rightarrow> (transfer \<Rightarrow> bool) \<Rightarrow> nat \<Rightarrow> message \<Rightarrow> multi \<Rightarrow> (transfer_failure + multi) option" where
  "accept lib success count m s = do {
     let i = RV_get_index_of_matching_handle (transfer_info s) count (easy_handle m);
     t \<leftarrow> fetch i (transfer_info s);
     t \<leftarrow> inflate lib (out_ok m) t;
     Some (if \<not> success t then Inl TransferReadError
           else if \<not> remove_ok m then Inl TransferWriteError
           else
             let t = t\<lparr>curl_easy_handle := None,
                       write_body := (if transfer_type t = WRITE then None else write_body t),
                       base64_encoded_values := (if transfer_type t = WRITE then None else base64_encoded_values t),
                       request_url := None, resp_buffer := None\<rparr>
             in Inr (s\<lparr>transfer_info := (transfer_info s)[i := t], active := remove1 (easy_handle m) (active s),
                       served := served s @ [i], cleaned := cleaned s @ [easy_handle m]\<rparr>))
   }"

text \<open>The same branch of \<open>RV_curl_multi_perform_multithreading\<close>.\<close>

definition accept_threaded :: "message \<Rightarrow> multi \<Rightarrow> (transfer_failure + multi) option" where
  "accept_threaded m s =
     Some (if \<not> remove_ok m then Inl TransferWriteError
           else Inr (s\<lparr>active := remove1 (easy_handle m) (active s), cleaned := cleaned s @ [easy_handle m]\<rparr>))"

definition handle_message ::
  "(message \<Rightarrow> multi \<Rightarrow> (transfer_failure + multi) option) \<Rightarrow> nat \<Rightarrow> message \<Rightarrow> multi \<Rightarrow> (transfer_failure + multi) option"
where
  "handle_message accepted count m s =
     (if \<not> is_done m then Some (Inr s)
      else
        case response_code m of
          None \<Rightarrow> Some (Inl TransferWriteError)
        | Some code \<Rightarrow>
            if code = 503 then deny count m s
            else if code = 200 then accepted m s
            else (case HANDLE_RESPONSE code of
                    Inl e \<Rightarrow> Some (Inl (TransferHttp e))
                  | Inr _ \<Rightarrow> Some (Inr s)))"

text \<open>The loop over the messages: they are read only when the number of running transfers changed.\<close>

definition read_messages ::
  "(message \<Rightarrow> multi \<Rightarrow> (transfer_failure + multi) option) \<Rightarrow> nat \<Rightarrow> int \<Rightarrow> int \<Rightarrow> multi \<Rightarrow> (transfer_failure + multi) option"
where
  "read_messages accepted count num_prev num_still s =
     (if num_prev = num_still then Some (Inr s)
      else each (handle_message accepted count) (queue s) (s\<lparr>queue := []\<rparr>))"

text \<open>The loop that adds the denied handles again once their time is over.\<close>

definition retry_handle :: "turn \<Rightarrow> nat \<Rightarrow> multi \<Rightarrow> (transfer_failure + multi) option" where
  "retry_handle e i s = do {
     r \<leftarrow> fetch i (failed_handles_to_retry s);
     t \<leftarrow> fetch i (transfer_info s);
     Some (case r of
             None \<Rightarrow> Inr s
           | Some h \<Rightarrow>
               if curr_time_ns e - time_of_fail t \<ge> current_backoff_duration t
               then (if \<not> add_ok e h then Inl TransferWriteError
                     else Inr (s\<lparr>active := active s @ [h],
                                 failed_handles_to_retry := (failed_handles_to_retry s)[i := None]\<rparr>))
               else Inr s)
   }"

definition perform_turn ::
  "(message \<Rightarrow> multi \<Rightarrow> (transfer_failure + multi) option) \<Rightarrow> nat \<Rightarrow> turn \<Rightarrow> int \<Rightarrow> multi \<Rightarrow> (transfer_failure + multi) option"
where
  "perform_turn accepted count e num_prev s =
     (if \<not> timeout_ok e then Some (Inl TransferCantGet)
      else if \<not> fdset_ok e then Some (Inl TransferCantGet)
      else if \<not> perform_ok e then Some (Inl TransferWriteError)
      else andthen (read_messages accepted count num_prev (num_still_running e) (s\<lparr>queue := queue s @ arrived e\<rparr>))
             (\<lambda>s. each (retry_handle e) [0..<count] s))"

text \<open>How a loop stands after the turns of a list.\<close>

datatype outcome = Running int multi | Done multi | Failed transfer_failure

fun perform_loop ::
  "(message \<Rightarrow> multi \<Rightarrow> (transfer_failure + multi) option) \<Rightarrow> nat \<Rightarrow> turn list \<Rightarrow> int \<Rightarrow> multi \<Rightarrow> outcome option"
where
  "perform_loop accepted count [] num_prev s = Some (Running num_prev s)"
| "perform_loop accepted count (e # es) num_prev s =
     (case perform_turn accepted count e num_prev s of
        None \<Rightarrow> None
      | Some (Inl f) \<Rightarrow> Some (Failed f)
      | Some (Inr s) \<Rightarrow> if num_still_running e > 0 then perform_loop accepted count es (num_still_running e) s
                       else Some (Done s))"

definition RV_curl_multi_perform ::
  "codec \<Rightarrow> (transfer \<Rightarrow> bool) \<Rightarrow> bool \<Rightarrow> nat \<Rightarrow> turn list \<Rightarrow> multi \<Rightarrow> outcome option" where
  "RV_curl_multi_perform lib success calloc_ok count es s =
     (if \<not> calloc_ok then Some (Failed TransferCantAlloc)
      else perform_loop (accept lib success count) count es 0 (s\<lparr>failed_handles_to_retry := replicate count None\<rparr>))"

text \<open>
  The loop of a worker; it returns nothing, so whatever the outcome, the task counts as
  completed: the new value of \<open>tasks_completed\<close>.
\<close>

definition RV_curl_multi_perform_multithreading ::
  "bool \<Rightarrow> nat \<Rightarrow> turn list \<Rightarrow> multi \<Rightarrow> nat \<Rightarrow> (outcome \<times> nat) option" where
  "RV_curl_multi_perform_multithreading calloc_ok count es s tasks_completed =
     (case (if \<not> calloc_ok then Some (Failed TransferCantAlloc)
            else perform_loop accept_threaded count es 0 (s\<lparr>failed_handles_to_retry := replicate count None\<rparr>)) of
        None \<Rightarrow> None
      | Some (Running n s) \<Rightarrow> Some (Running n s, tasks_completed)
      | Some out \<Rightarrow> Some (out, tasks_completed + 1))"

section \<open>Several servers, one block\<close>

text \<open>
  The block of a divided read and the positions of its servers, as offsets from the start of the block.  Each server
  writes through \<open>H5_rest_curl_write_data_callback_no_global\<close>.
\<close>

record merging =
  shared :: "char option list"
  cursors :: "nat list"

definition deliver_part :: "nat \<times> string \<Rightarrow> merging \<Rightarrow> merging option" where
  "deliver_part d m = (case d of (i, contents) \<Rightarrow> do {
     c \<leftarrow> fetch i (cursors m);
     (n, rb) \<leftarrow> H5_rest_curl_write_data_callback_no_global contents
                 \<lparr>buffer = shared m, curr = c, buffer_size = 0\<rparr>;
     Some \<lparr>shared = buffer rb, cursors = (cursors m)[i := curr rb]\<rparr>
   })"

fun deliver_parts :: "(nat \<times> string) list \<Rightarrow> merging \<Rightarrow> merging option" where
  "deliver_parts [] m = Some m"
| "deliver_parts (d # ds) m = Option.bind (deliver_part d m) (deliver_parts ds)"

section \<open>Results that keep a predicate\<close>

definition keeps :: "('s \<Rightarrow> bool) \<Rightarrow> ('e + 's) option \<Rightarrow> bool" where
  "keeps P r \<longleftrightarrow> (case r of None \<Rightarrow> False | Some (Inl e) \<Rightarrow> True | Some (Inr s) \<Rightarrow> P s)"

lemma keeps_simps [simp]:
  "\<not> keeps P None" "keeps P (Some (Inl e))" "keeps P (Some (Inr s)) \<longleftrightarrow> P s"
  by (simp_all add: keeps_def)

lemma keeps_andthen: "keeps P r \<Longrightarrow> (\<And>s. P s \<Longrightarrow> keeps Q (f s)) \<Longrightarrow> keeps Q (andthen r f)"
  unfolding keeps_def by (cases r) (auto simp: andthen_def split: sum.splits)

lemma keeps_weaken: "keeps P r \<Longrightarrow> (\<And>s. P s \<Longrightarrow> Q s) \<Longrightarrow> keeps Q r"
  by (auto simp: keeps_def split: option.splits sum.splits)

lemma each_keeps:
  assumes "\<And>x xs s. I (x # xs) s \<Longrightarrow> keeps (I xs) (f x s)" and "I xs s"
  shows "keeps (I []) (each f xs s)"
  using assms(2) by (induction xs arbitrary: s) (auto intro!: keeps_andthen assms(1))

section \<open>Where every transfer is\<close>

text \<open>
  A transfer is under way, waits for another attempt, or has been post-processed; \<open>hs\<close> are
  the handles the transfers started with.
\<close>

definition under_way :: "nat \<Rightarrow> nat \<Rightarrow> multi \<Rightarrow> bool" where
  "under_way i h s \<longleftrightarrow> curl_easy_handle (transfer_info s ! i) = Some h \<and> h \<in> set (active s)
     \<and> failed_handles_to_retry s ! i = None \<and> resp_buffer (transfer_info s ! i) \<noteq> None \<and> i \<notin> set (served s)"

definition waiting :: "nat \<Rightarrow> nat \<Rightarrow> multi \<Rightarrow> bool" where
  "waiting i h s \<longleftrightarrow> curl_easy_handle (transfer_info s ! i) = Some h \<and> h \<notin> set (active s)
     \<and> failed_handles_to_retry s ! i = Some h \<and> resp_buffer (transfer_info s ! i) \<noteq> None \<and> i \<notin> set (served s)"

definition finished :: "nat \<Rightarrow> nat \<Rightarrow> multi \<Rightarrow> bool" where
  "finished i h s \<longleftrightarrow> curl_easy_handle (transfer_info s ! i) = None \<and> h \<notin> set (active s)
     \<and> failed_handles_to_retry s ! i = None \<and> resp_buffer (transfer_info s ! i) = None
     \<and> request_url (transfer_info s ! i) = None \<and> i \<in> set (served s)"

definition accounted :: "nat list \<Rightarrow> multi \<Rightarrow> bool" where
  "accounted hs s \<longleftrightarrow> length (transfer_info s) = length hs \<and> length (failed_handles_to_retry s) = length hs
     \<and> (\<forall>i < length hs. under_way i (hs ! i) s \<or> waiting i (hs ! i) s \<or> finished i (hs ! i) s)
     \<and> distinct (active s) \<and> set (active s) \<subseteq> set hs
     \<and> distinct (served s) \<and> set (served s) \<subseteq> {0..<length hs}
     \<and> cleaned s = map ((!) hs) (served s)"

text \<open>Messages of cURL: about handles that are in the multi handle, one for each.\<close>

definition pending :: "message list \<Rightarrow> multi \<Rightarrow> bool" where
  "pending ms s \<longleftrightarrow> distinct (map easy_handle ms) \<and> easy_handle ` set ms \<subseteq> set (active s)"

lemma matching_handle_Some:
  assumes "distinct hs" and "\<And>i. i < length hs \<Longrightarrow> curl_easy_handle (ts ! i) \<in> {None, Some (hs ! i)}"
    and "length ts = length hs" and "i < length hs" and "curl_easy_handle (ts ! i) = Some (hs ! i)"
    and "k + length hs \<le> count"
  shows "matching_handle ts count k (hs ! i) = Some (k + i)"
  using assms
proof (induction ts arbitrary: hs i k)
  case (Cons t ts)
  obtain g gs where hs: "hs = g # gs" using Cons.prems(3) by (cases hs) auto
  have t: "curl_easy_handle t \<in> {None, Some g}" using Cons.prems(2) [of 0] hs by simp
  show ?case
  proof (cases i)
    case 0
    then show ?thesis using Cons.prems(5,6) hs by simp
  next
    case (Suc j)
    have "gs ! j \<noteq> g" using Cons.prems(1,4) hs Suc by (auto simp: in_set_conv_nth)
    moreover have "matching_handle ts count (Suc k) (gs ! j) = Some (Suc k + j)"
      by (rule Cons.IH) (use Cons.prems hs Suc in \<open>force+\<close>)
    ultimately show ?thesis using t Cons.prems(6) hs Suc by auto
  qed
qed simp

lemma accounted_handle:
  assumes "accounted hs s" and "i < length hs"
  shows "curl_easy_handle (transfer_info s ! i) \<in> {None, Some (hs ! i)}"
  using assms by (auto simp: accounted_def under_way_def waiting_def finished_def)

lemma active_index:
  assumes "accounted hs s" and "distinct hs" and "h \<in> set (active s)"
  shows "\<exists>i < length hs. h = hs ! i \<and> under_way i h s
    \<and> RV_get_index_of_matching_handle (transfer_info s) (length hs) h = i"
proof -
  obtain i where i: "i < length hs" "h = hs ! i"
    using assms(1,3) unfolding accounted_def by (metis in_set_conv_nth subsetD)
  then have u: "under_way i h s"
    using assms by (auto simp: accounted_def waiting_def finished_def)
  have "matching_handle (transfer_info s) (length hs) 0 (hs ! i) = Some (0 + i)"
    by (rule matching_handle_Some)
      (use assms accounted_handle [OF assms(1)] i u in \<open>auto simp: accounted_def under_way_def\<close>)
  then show ?thesis using i u by (auto simp: RV_get_index_of_matching_handle_def)
qed

text \<open>One transfer moves, the others stay where they are.\<close>

lemma accounted_move:
  assumes "accounted hs s" and "distinct hs" and i: "i < length hs"
    and "length (transfer_info s') = length hs" "length (failed_handles_to_retry s') = length hs"
    and "\<And>j. j < length hs \<Longrightarrow> j \<noteq> i \<Longrightarrow> transfer_info s' ! j = transfer_info s ! j
       \<and> failed_handles_to_retry s' ! j = failed_handles_to_retry s ! j \<and> (j \<in> set (served s') \<longleftrightarrow> j \<in> set (served s))
       \<and> (hs ! j \<in> set (active s') \<longleftrightarrow> hs ! j \<in> set (active s))"
    and "under_way i (hs ! i) s' \<or> waiting i (hs ! i) s' \<or> finished i (hs ! i) s'"
    and "distinct (active s')" "set (active s') \<subseteq> set hs" "distinct (served s')" "set (served s') \<subseteq> {0..<length hs}"
    and "cleaned s' = map ((!) hs) (served s')"
  shows "accounted hs s'"
proof -
  have "under_way j (hs ! j) s' \<or> waiting j (hs ! j) s' \<or> finished j (hs ! j) s'" if j: "j < length hs" for j
  proof (cases "j = i")
    case False
    then show ?thesis
      using assms(1) assms(6) [OF j False] j
      by (auto simp: accounted_def under_way_def waiting_def finished_def)
  qed (use assms in simp)
  then show ?thesis using assms by (simp add: accounted_def)
qed

lemma nth_distinct_eq: "distinct hs \<Longrightarrow> i < length hs \<Longrightarrow> j < length hs \<Longrightarrow> hs ! i = hs ! j \<longleftrightarrow> i = j"
  by (simp add: nth_eq_iff_index_eq)

lemma deny_accounted:
  assumes a: "accounted hs s" and d: "distinct hs" and m: "easy_handle m \<in> set (active s)"
  shows "keeps (\<lambda>s'. accounted hs s' \<and> active s' = remove1 (easy_handle m) (active s) \<and> queue s' = queue s
           \<and> served s' = served s) (deny (length hs) m s)"
proof -
  obtain i where i: "i < length hs" "easy_handle m = hs ! i" "under_way i (hs ! i) s"
    and idx: "RV_get_index_of_matching_handle (transfer_info s) (length hs) (hs ! i) = i"
    using active_index [OF a d m] by auto
  have len: "length (transfer_info s) = length hs" "length (failed_handles_to_retry s) = length hs" "distinct (active s)"
    using a by (simp_all add: accounted_def)
  have acc: "accounted hs (s\<lparr>transfer_info := (transfer_info s)[i := (transfer_info s ! i)
        \<lparr>bytes_sent := b, resp_curr := 0, time_of_fail := t, current_backoff_duration := dd\<rparr>],
      failed_handles_to_retry := (failed_handles_to_retry s)[i := Some (hs ! i)], active := remove1 (hs ! i) (active s)\<rparr>)"
    for b t dd
    by (rule accounted_move [OF a d i(1)])
      (use a i len nth_distinct_eq [OF d] in \<open>auto simp: accounted_def under_way_def waiting_def dest: in_set_remove1\<close>)
  show ?thesis
    using i len acc by (simp add: deny_def idx fetch_def assign_def Let_def)
qed

lemma inflate_Some: "resp_buffer t = Some b \<Longrightarrow> \<exists>t'. inflate lib malloc_ok t = Some t'"
  by (simp add: inflate_def Let_def)

lemma accept_accounted:
  assumes a: "accounted hs s" and d: "distinct hs" and m: "easy_handle m \<in> set (active s)"
  shows "keeps (\<lambda>s'. accounted hs s' \<and> active s' = remove1 (easy_handle m) (active s) \<and> queue s' = queue s
           \<and> (\<exists>i. served s' = served s @ [i])
           \<and> failed_handles_to_retry s' = failed_handles_to_retry s) (accept lib success (length hs) m s)"
proof -
  obtain i where i: "i < length hs" "easy_handle m = hs ! i" "under_way i (hs ! i) s"
    and idx: "RV_get_index_of_matching_handle (transfer_info s) (length hs) (hs ! i) = i"
    using active_index [OF a d m] by auto
  have len: "length (transfer_info s) = length hs" "length (failed_handles_to_retry s) = length hs" "distinct (active s)"
    using a by (simp_all add: accounted_def)
  obtain t where t: "inflate lib (out_ok m) (transfer_info s ! i) = Some t"
    using i(3) inflate_Some [of "transfer_info s ! i"] by (fastforce simp: under_way_def)
  have acc: "accounted hs (s\<lparr>transfer_info := (transfer_info s)[i := t\<lparr>curl_easy_handle := None, write_body := w,
        base64_encoded_values := b, request_url := None, resp_buffer := None\<rparr>],
      active := remove1 (hs ! i) (active s), served := served s @ [i], cleaned := cleaned s @ [hs ! i]\<rparr>)" for w b
    by (rule accounted_move [OF a d i(1)])
      (use a i len nth_distinct_eq [OF d] in \<open>auto simp: accounted_def under_way_def finished_def dest: in_set_remove1\<close>)
  show ?thesis
    using i len acc by (simp add: accept_def idx fetch_def Let_def t)
qed

lemma retry_accounted:
  assumes a: "accounted hs s" and d: "distinct hs" and i: "i < length hs"
  shows "keeps (\<lambda>s'. accounted hs s' \<and> set (active s) \<subseteq> set (active s') \<and> queue s' = queue s \<and> served s' = served s)
           (retry_handle e i s)"
proof -
  have len: "length (transfer_info s) = length hs" "length (failed_handles_to_retry s) = length hs" "distinct (active s)"
    using a by (simp_all add: accounted_def)
  show ?thesis
  proof (cases "failed_handles_to_retry s ! i")
    case None
    then show ?thesis using a i len by (simp add: retry_handle_def fetch_def)
  next
    case (Some h)
    then have w: "waiting i (hs ! i) s" "h = hs ! i"
      using a i by (auto simp: accounted_def under_way_def waiting_def finished_def)
    have "accounted hs (s\<lparr>active := active s @ [hs ! i], failed_handles_to_retry := (failed_handles_to_retry s)[i := None]\<rparr>)"
      by (rule accounted_move [OF a d i])
        (use a i len w nth_distinct_eq [OF d] in \<open>auto simp: accounted_def under_way_def waiting_def\<close>)
    then show ?thesis using a i len Some w by (auto simp: retry_handle_def fetch_def)
  qed
qed

lemma accounted_queue [simp]: "accounted hs (s\<lparr>queue := q\<rparr>) \<longleftrightarrow> accounted hs s"
  by (simp add: accounted_def under_way_def waiting_def finished_def)

lemma handle_message_accounted:
  assumes "accounted hs s" and "distinct hs" and "pending (m # ms) s"
  shows "keeps (\<lambda>s'. accounted hs s' \<and> pending ms s' \<and> queue s' = queue s)
           (handle_message (accept lib success (length hs)) (length hs) m s)"
proof -
  have m: "easy_handle m \<in> set (active s)" using assms(3) by (auto simp: pending_def)
  have da: "distinct (active s)" using assms(1) by (simp add: accounted_def)
  have p: "active s' = remove1 (easy_handle m) (active s) \<Longrightarrow> pending ms s'" for s'
    using assms(3) da by (auto simp: pending_def) (metis image_eqI)
  have k: "pending ms s" using assms(3) by (auto simp: pending_def)
  show ?thesis
    using keeps_weaken [OF deny_accounted [OF assms(1,2) m]] keeps_weaken [OF accept_accounted [OF assms(1,2) m]] p k assms(1)
    by (auto simp: handle_message_def split: option.splits sum.splits)
qed

lemma perform_turn_accounted:
  assumes "accounted hs s" and "distinct hs" and "pending (queue s @ arrived e) s"
  shows "keeps (accounted hs) (perform_turn (accept lib success (length hs)) (length hs) e num_prev s)"
proof -
  let ?s = "s\<lparr>queue := queue s @ arrived e\<rparr>"
  have a: "accounted hs ?s" "accounted hs (?s\<lparr>queue := []\<rparr>)" using assms(1) by simp_all
  have "keeps (\<lambda>s'. accounted hs s' \<and> pending [] s')
      (each (handle_message (accept lib success (length hs)) (length hs)) (queue ?s) (?s\<lparr>queue := []\<rparr>))"
  proof (rule each_keeps [where I = "\<lambda>ms s. accounted hs s \<and> pending ms s"])
    fix x xs s1 assume I: "accounted hs s1 \<and> pending (x # xs) s1"
    show "keeps (\<lambda>s. accounted hs s \<and> pending xs s) (handle_message (accept lib success (length hs)) (length hs) x s1)"
      by (rule keeps_weaken [OF handle_message_accounted [where ms = xs]]) (use I assms(2) in simp_all)
  qed (use a assms(3) in \<open>simp add: pending_def\<close>)
  then have "keeps (accounted hs) (read_messages (accept lib success (length hs)) (length hs) num_prev (num_still_running e) ?s)"
    using a by (simp add: read_messages_def keeps_weaken)
  moreover have "keeps (accounted hs) (each (retry_handle e) [0..<length hs] s1)" if s1: "accounted hs s1" for s1
  proof -
    have "keeps (\<lambda>s'. accounted hs s' \<and> set ([] :: nat list) \<subseteq> {0..<length hs}) (each (retry_handle e) [0..<length hs] s1)"
      by (rule each_keeps [where I = "\<lambda>is s. accounted hs s \<and> set is \<subseteq> {0..<length hs}"])
        (use s1 assms(2) in \<open>auto intro!: keeps_weaken [OF retry_accounted [of hs]]\<close>)
    then show ?thesis by simp
  qed
  ultimately show ?thesis
    by (simp add: perform_turn_def keeps_andthen)
qed

text \<open>
  What cURL promises about its messages along a run: each is about a handle that is in the
  multi handle, and there is at most one for each.
\<close>

fun messages_valid :: "(message \<Rightarrow> multi \<Rightarrow> (transfer_failure + multi) option) \<Rightarrow> nat \<Rightarrow> turn list \<Rightarrow> int \<Rightarrow> multi \<Rightarrow> bool"
where
  "messages_valid accepted count [] num_prev s \<longleftrightarrow> True"
| "messages_valid accepted count (e # es) num_prev s \<longleftrightarrow>
     pending (queue s @ arrived e) s
     \<and> (case perform_turn accepted count e num_prev s of
          Some (Inr s) \<Rightarrow> messages_valid accepted count es (num_still_running e) s
        | _ \<Rightarrow> True)"

lemma perform_loop_accounted:
  assumes "accounted hs s" and "distinct hs"
    and "messages_valid (accept lib success (length hs)) (length hs) es num_prev s"
  shows "\<exists>out. perform_loop (accept lib success (length hs)) (length hs) es num_prev s = Some out
    \<and> (\<forall>n s'. out = Running n s' \<or> out = Done s' \<longrightarrow> accounted hs s')"
  using assms
proof (induction es arbitrary: num_prev s)
  case (Cons e es)
  show ?case
    using perform_turn_accounted [OF Cons.prems(1,2), of e lib success num_prev] Cons.prems Cons.IH
    by (auto simp: keeps_def split: option.splits sum.splits)
qed auto

text \<open>The state before the loop.\<close>

definition fresh_multi :: "nat list \<Rightarrow> multi \<Rightarrow> bool" where
  "fresh_multi hs s \<longleftrightarrow> distinct hs \<and> map curl_easy_handle (transfer_info s) = map Some hs
     \<and> (\<forall>t \<in> set (transfer_info s). resp_buffer t \<noteq> None)
     \<and> active s = hs \<and> queue s = [] \<and> served s = [] \<and> cleaned s = []"

lemma fresh_accounted:
  assumes "fresh_multi hs s"
  shows "accounted hs (s\<lparr>failed_handles_to_retry := replicate (length hs) None\<rparr>)"
proof -
  have len: "length (transfer_info s) = length hs"
    using assms by (metis fresh_multi_def length_map)
  moreover have "curl_easy_handle (transfer_info s ! i) = Some (hs ! i)" if "i < length hs" for i
    using assms that len by (metis fresh_multi_def nth_map)
  ultimately show ?thesis
    using assms by (auto simp: accounted_def under_way_def fresh_multi_def)
qed


section \<open>When all transfers are served\<close>

text \<open>A message that ends a transfer well, and the number cURL gives for the running transfers.\<close>

definition good :: "message \<Rightarrow> bool" where
  "good m \<longleftrightarrow> is_done m \<and> response_code m = Some 200 \<and> remove_ok m"

fun smooth :: "(message \<Rightarrow> multi \<Rightarrow> (transfer_failure + multi) option) \<Rightarrow> nat \<Rightarrow> turn list \<Rightarrow> int \<Rightarrow> multi \<Rightarrow> bool"
where
  "smooth accepted count [] num_prev s \<longleftrightarrow> True"
| "smooth accepted count (e # es) num_prev s \<longleftrightarrow>
     timeout_ok e \<and> fdset_ok e \<and> perform_ok e \<and> (\<forall>m \<in> set (arrived e). good m)
     \<and> num_still_running e + int (length (queue s @ arrived e)) = int (length (active s))
     \<and> (case perform_turn accepted count e num_prev s of
          Some (Inr s) \<Rightarrow> smooth accepted count es (num_still_running e) s
        | _ \<Rightarrow> True)"

lemma good_message:
  assumes "accounted hs s" and "distinct hs" and m: "easy_handle m \<in> set (active s)" and "good m"
  shows "\<exists>s'. handle_message (accept lib (\<lambda>_. True) (length hs)) (length hs) m s = Some (Inr s') \<and> accounted hs s'
    \<and> active s' = remove1 (easy_handle m) (active s) \<and> queue s' = queue s
    \<and> failed_handles_to_retry s' = failed_handles_to_retry s"
proof -
  have "accept lib (\<lambda>_. True) (length hs) m s \<noteq> Some (Inl f)" for f
    using assms(4) by (auto simp: accept_def good_def Let_def split: bind_splits)
  then show ?thesis
    using accept_accounted [OF assms(1,2) m, of lib "\<lambda>_. True"] assms(4)
    by (auto simp: handle_message_def good_def keeps_def split: option.splits sum.splits)
qed

lemma good_messages:
  assumes "accounted hs s" and "distinct hs" and "pending ms s" and "\<forall>m \<in> set ms. good m"
  shows "\<exists>s'. each (handle_message (accept lib (\<lambda>_. True) (length hs)) (length hs)) ms s = Some (Inr s') \<and> accounted hs s'
    \<and> set (active s') = set (active s) - easy_handle ` set ms \<and> queue s' = queue s
    \<and> failed_handles_to_retry s' = failed_handles_to_retry s"
  using assms
proof (induction ms arbitrary: s)
  case (Cons m ms)
  have m: "easy_handle m \<in> set (active s)" and d: "distinct (active s)"
    using Cons.prems(1,3) by (auto simp: pending_def accounted_def)
  obtain s1 where s1: "handle_message (accept lib (\<lambda>_. True) (length hs)) (length hs) m s = Some (Inr s1)" "accounted hs s1"
    "active s1 = remove1 (easy_handle m) (active s)" "queue s1 = queue s"
    "failed_handles_to_retry s1 = failed_handles_to_retry s"
    using good_message [OF Cons.prems(1,2) m, of lib] Cons.prems(4) by auto
  have "pending ms s1"
    using Cons.prems(3) d s1(3) by (auto simp: pending_def) (metis image_eqI)
  then show ?case
    using Cons.IH [of s1] Cons.prems(2,4) s1 d by auto
qed simp

lemma no_retries:
  assumes "failed_handles_to_retry s = replicate n None" and "length (transfer_info s) = n" and "set is \<subseteq> {0..<n}"
  shows "each (retry_handle e) is s = Some (Inr s)"
  using assms(3)
proof (induction "is")
  case (Cons i "is")
  then have "retry_handle e i s = Some (Inr s)" using assms(1,2) by (simp add: retry_handle_def fetch_def)
  then show ?case using Cons by simp
qed simp

text \<open>What holds between the turns of a run without errors.\<close>

definition calm :: "nat list \<Rightarrow> multi \<Rightarrow> bool" where
  "calm hs s \<longleftrightarrow> accounted hs s \<and> failed_handles_to_retry s = replicate (length hs) None \<and> (\<forall>m \<in> set (queue s). good m)"

lemma calm_turn:
  assumes c: "calm hs s" and d: "distinct hs"
    and p: "pending (queue s @ arrived e) s" and good: "\<forall>m \<in> set (arrived e). good m"
    and ok: "timeout_ok e" "fdset_ok e" "perform_ok e"
  shows "\<exists>s'. perform_turn (accept lib (\<lambda>_. True) (length hs)) (length hs) e num_prev s = Some (Inr s') \<and> calm hs s'
    \<and> (num_prev \<noteq> num_still_running e \<longrightarrow> set (active s') = set (active s) - easy_handle ` set (queue s @ arrived e))"
proof -
  let ?s = "s\<lparr>queue := queue s @ arrived e\<rparr>"
  have a: "accounted hs ?s" "accounted hs (?s\<lparr>queue := []\<rparr>)"
    using c by (simp_all add: calm_def)
  obtain s1 where s1: "read_messages (accept lib (\<lambda>_. True) (length hs)) (length hs) num_prev (num_still_running e) ?s = Some (Inr s1)"
    and c1: "calm hs s1"
    and act: "num_prev \<noteq> num_still_running e \<longrightarrow> set (active s1) = set (active s) - easy_handle ` set (queue s @ arrived e)"
  proof (cases "num_prev = num_still_running e")
    case True
    then show ?thesis using that [of ?s] a c good by (auto simp: read_messages_def calm_def)
  next
    case False
    have "pending (queue s @ arrived e) (?s\<lparr>queue := []\<rparr>)" "\<forall>m \<in> set (queue s @ arrived e). good m"
      using p c good by (auto simp: pending_def calm_def)
    from good_messages [OF a(2) d this, of lib] obtain s1
      where "each (handle_message (accept lib (\<lambda>_. True) (length hs)) (length hs)) (queue s @ arrived e) (?s\<lparr>queue := []\<rparr>) = Some (Inr s1)"
        and "accounted hs s1" "queue s1 = []" "failed_handles_to_retry s1 = failed_handles_to_retry s"
        and "set (active s1) = set (active s) - easy_handle ` set (queue s @ arrived e)"
      by auto
    then show ?thesis using that [of s1] False c by (simp add: read_messages_def calm_def)
  qed
  have "each (retry_handle e) [0..<length hs] s1 = Some (Inr s1)"
    using c1 by (intro no_retries) (auto simp: calm_def accounted_def)
  then show ?thesis using s1 c1 act ok by (simp add: perform_turn_def)
qed

lemma pending_all:
  assumes "pending ms s" and "distinct (active s)" and "length ms = length (active s)"
  shows "easy_handle ` set ms = set (active s)"
proof -
  have "card (easy_handle ` set ms) = card (set (active s))"
    using assms distinct_card [of "map easy_handle ms"] distinct_card [of "active s"] by (simp add: pending_def)
  then show ?thesis using assms(1) by (simp add: pending_def card_subset_eq)
qed

lemma calm_loop:
  assumes "calm hs s" and "distinct hs"
    and "messages_valid (accept lib (\<lambda>_. True) (length hs)) (length hs) es num_prev s"
    and "smooth (accept lib (\<lambda>_. True) (length hs)) (length hs) es num_prev s"
    and "0 < num_prev \<or> (\<forall>e \<in> set (take 1 es). num_still_running e \<noteq> num_prev)"
  shows "\<exists>out. perform_loop (accept lib (\<lambda>_. True) (length hs)) (length hs) es num_prev s = Some out
    \<and> (case out of Running n s' \<Rightarrow> True | Done s' \<Rightarrow> calm hs s' \<and> active s' = [] | Failed f \<Rightarrow> False)"
  using assms
proof (induction es arbitrary: num_prev s)
  case (Cons e es)
  obtain s1 where s1: "perform_turn (accept lib (\<lambda>_. True) (length hs)) (length hs) e num_prev s = Some (Inr s1)" "calm hs s1"
    and act: "num_prev \<noteq> num_still_running e \<Longrightarrow> set (active s1) = set (active s) - easy_handle ` set (queue s @ arrived e)"
    using calm_turn [OF Cons.prems(1,2), of e lib num_prev] Cons.prems(3,4) by auto
  show ?case
  proof (cases "num_still_running e > 0")
    case True
    have "messages_valid (accept lib (\<lambda>_. True) (length hs)) (length hs) es (num_still_running e) s1"
      "smooth (accept lib (\<lambda>_. True) (length hs)) (length hs) es (num_still_running e) s1"
      using Cons.prems(3,4) s1(1) by simp_all
    from Cons.IH [OF s1(2) Cons.prems(2) this] show ?thesis using True s1(1) by simp
  next
    case False
    have p: "pending (queue s @ arrived e) s" "distinct (active s)"
      using Cons.prems(1,3) by (simp_all add: calm_def accounted_def)
    have "length (queue s @ arrived e) \<le> length (active s)"
    proof -
      have "length (map easy_handle (queue s @ arrived e)) \<le> card (set (active s))"
        using p(1) distinct_card [of "map easy_handle (queue s @ arrived e)"]
        by (metis List.finite_set card_mono pending_def set_map)
      then show ?thesis using p(2) by (simp add: distinct_card)
    qed
    moreover have n: "num_still_running e + int (length (queue s @ arrived e)) = int (length (active s))"
      using Cons.prems(4) by simp
    ultimately have "length (queue s @ arrived e) = length (active s)" and z: "num_still_running e = 0"
      using False by linarith+
    then have "easy_handle ` set (queue s @ arrived e) = set (active s)" using pending_all p by blast
    moreover have "num_prev \<noteq> num_still_running e" using Cons.prems(5) z by auto
    ultimately have "active s1 = []" using act by simp
    then show ?thesis using s1 False by simp
  qed
qed simp


text \<open>A read of one dataset, its answer in the second turn.\<close>

definition example_transfer :: "nat \<Rightarrow> transfer" where
  "example_transfer h =
     \<lparr>content_length = 0, content_encoding = [], curl_easy_handle = Some h, transfer_type = READ, bytes_sent = 0,
      resp_curr = 0, resp_buffer = Some ''data'', resp_buffer_size = 4, write_body = None,
      base64_encoded_values = None, request_url = Some ''url'', time_of_fail = 0, current_backoff_duration = 0\<rparr>"

definition example_multi :: "nat list \<Rightarrow> multi" where
  "example_multi hs =
     \<lparr>transfer_info = map example_transfer hs, failed_handles_to_retry = [], active = hs, queue = [], served = [], cleaned = []\<rparr>"

definition example_message :: "nat \<Rightarrow> int \<Rightarrow> message" where
  "example_message h code =
     \<lparr>easy_handle = h, is_done = True, response_code = Some code, remove_ok = True, now = 5, jitter = (\<lambda>d. d), out_ok = True\<rparr>"

definition example_turn :: "int \<Rightarrow> message list \<Rightarrow> turn" where
  "example_turn n ms =
     \<lparr>timeout_ok = True, fdset_ok = True, perform_ok = True, num_still_running = n, arrived = ms, curr_time_ns = 6,
      add_ok = (\<lambda>_. True)\<rparr>"

definition example_codec :: codec where
  "example_codec = \<lparr>zstd = (\<lambda>b _ _. Some b), zlib = (\<lambda>b _ _. Some b), lz4 = (\<lambda>b _ _. Some b)\<rparr>"



section \<open>Data that never comes\<close>

lemma not_due:
  assumes "length (failed_handles_to_retry s) = n" and "length (transfer_info s) = n" and "set is \<subseteq> {0..<n}"
    and "\<And>j. j < n \<Longrightarrow> failed_handles_to_retry s ! j = None
       \<or> curr_time_ns e - time_of_fail (transfer_info s ! j) < current_backoff_duration (transfer_info s ! j)"
  shows "each (retry_handle e) is s = Some (Inr s)"
  using assms(3)
proof (induction "is")
  case (Cons i "is")
  then have "i < n" by simp
  then have "retry_handle e i s = Some (Inr s)"
    using assms(1,2) assms(4) [of i] by (auto simp: retry_handle_def fetch_def split: option.splits)
  then show ?case using Cons by simp
qed simp

text \<open>
  Transfers that are over in the first turn go unnoticed. The messages are read only when
  the number of running transfers differs from the last one, which starts as 0; if it is 0 after
  the first turn the loop reports success, with the messages unread and nothing post-processed.
\<close>

lemma first_turn_unread:
  assumes "timeout_ok e" and "fdset_ok e" and "perform_ok e" and "num_still_running e = 0"
    and "length (transfer_info s) = count"
  shows "RV_curl_multi_perform lib success True count (e # es) s
    = Some (Done (s\<lparr>failed_handles_to_retry := replicate count None, queue := queue s @ arrived e\<rparr>))"
proof -
  have "each (retry_handle e) [0..<count] (s\<lparr>failed_handles_to_retry := replicate count None, queue := queue s @ arrived e\<rparr>)
      = Some (Inr (s\<lparr>failed_handles_to_retry := replicate count None, queue := queue s @ arrived e\<rparr>))"
    by (rule no_retries [of _ count]) (use assms in simp_all)
  then show ?thesis
    using assms by (simp add: RV_curl_multi_perform_def perform_turn_def read_messages_def)
qed

text \<open>
  A transfer denied with status 503 in the last turn is dropped. It is noted for another attempt, but
  the loop ends when no transfer is running, and reports success, without waiting for the time to try again.
\<close>

lemma denied_transfer_dropped:
  assumes "calm hs s" and "distinct hs" and "i < length hs" and "hs ! i \<in> set (active s)" and "queue s = []"
    and "timeout_ok e" and "fdset_ok e" and "perform_ok e" and "num_still_running e = 0" and "arrived e = [m]"
    and "easy_handle m = hs ! i" and "is_done m" and "response_code m = Some 503" and "remove_ok m"
    and "0 < num_prev" and "current_backoff_duration (transfer_info s ! i) = 0"
    and "curr_time_ns e - now m < jitter m BACKOFF_INITIAL_DURATION"
    and "jitter m BACKOFF_INITIAL_DURATION < BACKOFF_MAX_BEFORE_FAIL"
  shows "\<exists>s'. perform_loop (accept lib success (length hs)) (length hs) (e # es) num_prev s = Some (Done s')
    \<and> served s' = served s \<and> waiting i (hs ! i) s'"
proof -
  let ?s = "s\<lparr>queue := []\<rparr>"
  have acc: "accounted hs s" "accounted hs ?s" using assms(1) by (simp_all add: calm_def)
  have len: "length (transfer_info s) = length hs" "distinct (active s)"
    and ret: "failed_handles_to_retry s = replicate (length hs) None"
    using assms(1) by (simp_all add: calm_def accounted_def)
  obtain t where t: "deny (length hs) m ?s = Some (Inr (?s\<lparr>transfer_info := (transfer_info s)[i := t],
        failed_handles_to_retry := (failed_handles_to_retry s)[i := Some (hs ! i)], active := remove1 (hs ! i) (active s)\<rparr>))"
    (is "_ = Some (Inr ?s1)")
    and tt: "time_of_fail t = now m" "current_backoff_duration t = jitter m BACKOFF_INITIAL_DURATION"
  proof -
    have "RV_get_index_of_matching_handle (transfer_info ?s) (length hs) (hs ! i) = i"
      using active_index [OF acc(2) assms(2), of "hs ! i"] assms(3,4) nth_distinct_eq [OF assms(2)] by fastforce
    then show ?thesis
      using that assms(3,11,14,16,18) len ret by (simp add: deny_def fetch_def assign_def Let_def not_le)
  qed
  have w: "waiting i (hs ! i) ?s1 \<and> served ?s1 = served s"
    using deny_accounted [OF acc(2) assms(2), of m] assms(3,4,11) t len ret
    by (auto simp: keeps_def accounted_def under_way_def waiting_def finished_def)
  have "each (retry_handle e) [0..<length hs] ?s1 = Some (Inr ?s1)"
    by (rule not_due [of _ "length hs"]) (use len ret tt assms(3,17) in \<open>auto simp: nth_list_update\<close>)
  moreover have "read_messages (accept lib success (length hs)) (length hs) num_prev 0 (s\<lparr>queue := [m]\<rparr>) = Some (Inr ?s1)"
    using t assms(12,13,15) by (simp add: read_messages_def handle_message_def)
  ultimately show ?thesis
    using w assms(5-10) by (simp add: perform_turn_def)
qed

section \<open>Workers\<close>

text \<open>
  A worker cannot handle status 503 for the servers after the first ones. It looks for the
  handle among as many transfers as there are datasets, and when it is not there writes
  outside the array of handles to try again.
\<close>

lemma denied_worker_out_of_range:
  assumes "matching_handle (transfer_info s) count 0 (easy_handle m) = None"
    and "length (failed_handles_to_retry s) = count" and "queue s = []" and "num_still_running e \<noteq> num_prev"
    and "timeout_ok e" and "fdset_ok e" and "perform_ok e" and "arrived e = m # ms"
    and "is_done m" and "response_code m = Some 503" and "remove_ok m"
  shows "perform_turn accept_threaded count e num_prev s = None"
proof -
  have "deny count m (s\<lparr>queue := []\<rparr>) = None"
    using assms(1,2,11) by (auto simp: deny_def RV_get_index_of_matching_handle_def fetch_def assign_def Let_def)
  then show ?thesis
    using assms by (simp add: perform_turn_def read_messages_def handle_message_def)
qed

section \<open>The block after all deliveries\<close>

definition part_offset :: "nat list \<Rightarrow> nat \<Rightarrow> nat" where
  "part_offset szs i = sum_list (take i szs)"

definition sent :: "nat \<Rightarrow> (nat \<times> string) list \<Rightarrow> string" where
  "sent i ds = concat (map snd (filter (\<lambda>d. fst d = i) ds))"

text \<open>A delivery of server \<open>i\<close> completes its part after server \<open>i + 1\<close> has delivered something.\<close>

definition completed_late :: "nat list \<Rightarrow> nat \<Rightarrow> (nat \<times> string) list \<Rightarrow> bool" where
  "completed_late szs i ds \<longleftrightarrow> (\<exists>k < length ds. fst (ds ! k) = i
     \<and> length (sent i (take (Suc k) ds)) = szs ! i \<and> sent (Suc i) (take k ds) \<noteq> [])"

definition start_merging :: "nat list \<Rightarrow> char option list \<Rightarrow> merging" where
  "start_merging szs b = \<lparr>shared = b, cursors = map (part_offset szs) [0..<length szs]\<rparr>"

lemma part_offset_Suc: "i < length szs \<Longrightarrow> part_offset szs (Suc i) = part_offset szs i + szs ! i"
  by (simp add: part_offset_def take_Suc_conv_app_nth)

lemma part_offset_mono: "i \<le> j \<Longrightarrow> part_offset szs i \<le> part_offset szs j"
proof -
  have "part_offset szs k \<le> part_offset szs (Suc k)" for k
    by (cases "k < length szs") (simp_all add: part_offset_Suc, simp add: part_offset_def)
  then show "i \<le> j \<Longrightarrow> ?thesis" using lift_Suc_mono_le [of "part_offset szs"] by blast
qed

lemma part_offset_total: "part_offset szs (length szs) = sum_list szs"
  by (simp add: part_offset_def)

lemma sent_snoc: "sent i (ds @ [(j, c)]) = sent i ds @ (if j = i then c else [])"
  by (simp add: sent_def)

lemma completed_late_snoc:
  "completed_late szs i (ds @ [(j, c)]) \<longleftrightarrow> completed_late szs i ds
     \<or> j = i \<and> length (sent i (ds @ [(j, c)])) = szs ! i \<and> sent (Suc i) ds \<noteq> []"
proof -
  let ?P = "\<lambda>ds k. fst (ds ! k) = i \<and> length (sent i (take (Suc k) ds)) = szs ! i \<and> sent (Suc i) (take k ds) \<noteq> []"
  have old: "?P (ds @ [(j, c)]) k = ?P ds k" if "k < length ds" for k
    using that by (simp add: nth_append Suc_le_eq)
  have new: "?P (ds @ [(j, c)]) (length ds) = (j = i \<and> length (sent i (ds @ [(j, c)])) = szs ! i \<and> sent (Suc i) ds \<noteq> [])"
    by simp
  have "completed_late szs i (ds @ [(j, c)]) \<longleftrightarrow> ?P (ds @ [(j, c)]) (length ds) \<or> (\<exists>k < length ds. ?P (ds @ [(j, c)]) k)"
    unfolding completed_late_def length_append_singleton Ex_less_Suc ..
  also have "(\<exists>k < length ds. ?P (ds @ [(j, c)]) k) \<longleftrightarrow> completed_late szs i ds"
    unfolding completed_late_def by (rule ex_cong1, rule conj_cong [OF refl], rule old)
  finally show ?thesis unfolding new by (simp only: disj_commute)
qed

lemma not_completed_late: "sent (Suc i) ds = [] \<Longrightarrow> \<not> completed_late szs i ds"
proof -
  have "sent (Suc i) (take k ds) \<noteq> [] \<Longrightarrow> sent (Suc i) ds \<noteq> []" for k
    by (subst append_take_drop_id [of k ds, symmetric], subst sent_def, simp only: filter_append map_append concat_append)
      (simp add: sent_def)
  then show "sent (Suc i) ds = [] \<Longrightarrow> ?thesis" unfolding completed_late_def by blast
qed

lemma deliver_parts_snoc: "deliver_parts (ds @ [d]) m = Option.bind (deliver_parts ds m) (deliver_part d)"
  by (induction ds arbitrary: m) (auto split: bind_split)

text \<open>One delivery: the bytes, then a NUL.\<close>

lemma deliver_part_bytes:
  assumes "i < length (cursors m)" and "cursors m ! i + length c < length (shared m)"
  shows "\<exists>b. deliver_part (i, c) m = Some \<lparr>shared = b, cursors = (cursors m)[i := cursors m ! i + length c]\<rparr>
    \<and> length b = length (shared m)
    \<and> (\<forall>x < length b. b ! x = (if x < cursors m ! i \<or> cursors m ! i + length c < x then shared m ! x
          else if x = cursors m ! i + length c then Some (CHR 0x00) else Some (c ! (x - cursors m ! i))))"
proof -
  let ?p = "cursors m ! i"
  define b1 where "b1 = take ?p (shared m) @ map Some c @ drop (?p + length c) (shared m)"
  define b where "b = take (?p + length c) b1 @ [Some (CHR 0x00)] @ drop (?p + length c + 1) b1"
  have l1: "length b1 = length (shared m)" using assms by (simp add: b1_def)
  have l: "length b = length (shared m)" using assms l1 by (simp add: b_def)
  have n1: "b1 ! x = (if x < ?p \<or> ?p + length c \<le> x then shared m ! x else Some (c ! (x - ?p)))"
    if "x < length (shared m)" for x
    using that assms by (auto simp: b1_def nth_append min_def)
  have n: "b ! x = (if x = ?p + length c then Some (CHR 0x00) else b1 ! x)" if "x < length (shared m)" for x
    using that assms l1 by (auto simp: b_def nth_append min_def nth_Cons')
  have "deliver_part (i, c) m = Some \<lparr>shared = b, cursors = (cursors m)[i := ?p + length c]\<rparr>"
    using assms l1
    by (simp add: deliver_part_def fetch_def H5_rest_curl_write_data_callback_no_global_def write_bytes_def Let_def
        b1_def [symmetric] b_def)
  then show ?thesis using l n1 n by auto
qed

text \<open>Where a delivery ending at \<open>q\<close> in part \<open>i\<close> stands to a byte of a later part.\<close>

lemma later_byte:
  assumes "\<forall>s \<in> set szs. 0 < s" and "i < j" and "j < length szs" and q: "q \<le> part_offset szs (Suc i)"
  shows "q \<le> part_offset szs j + k"
    and "part_offset szs j + k = q \<longleftrightarrow> j = Suc i \<and> k = 0 \<and> q = part_offset szs (Suc i)"
proof -
  have mono: "part_offset szs (Suc i) \<le> part_offset szs j" using assms(2) by (intro part_offset_mono) simp
  then show "q \<le> part_offset szs j + k" using q by simp
  have far: "part_offset szs (Suc i) < part_offset szs j" if "j \<noteq> Suc i"
  proof -
    have "part_offset szs (Suc (Suc i)) \<le> part_offset szs j" "Suc i < length szs"
      using assms(2,3) that part_offset_mono [of "Suc (Suc i)" j szs] by auto
    moreover have "0 < szs ! Suc i" using assms(1) \<open>Suc i < length szs\<close> by simp
    ultimately show ?thesis by (simp add: part_offset_Suc)
  qed
  show "part_offset szs j + k = q \<longleftrightarrow> j = Suc i \<and> k = 0 \<and> q = part_offset szs (Suc i)"
    using mono q far by fastforce
qed

lemma deliver_parts_block:
  assumes "\<forall>s \<in> set szs. 0 < s" and "sum_list szs < length b"
    and "\<And>d. d \<in> set ds \<Longrightarrow> fst d < length szs" and "\<And>i. i < length szs \<Longrightarrow> length (sent i ds) \<le> szs ! i"
  shows "\<exists>m. deliver_parts ds (start_merging szs b) = Some m \<and> length (shared m) = length b
    \<and> cursors m = map (\<lambda>i. part_offset szs i + length (sent i ds)) [0..<length szs]
    \<and> (\<forall>i < length szs. \<forall>k < length (sent i ds). shared m ! (part_offset szs i + k)
          = Some (if k = 0 \<and> 0 < i \<and> completed_late szs (i - 1) ds then CHR 0x00 else sent i ds ! k))"
  using assms(3,4)
proof (induction ds rule: rev_induct)
  case Nil
  then show ?case by (simp add: start_merging_def sent_def)
next
  case (snoc d ds)
  obtain i c where d: "d = (i, c)" by (cases d)
  have i: "i < length szs" using snoc.prems(1) [of d] d by simp
  have le: "length (sent j ds) \<le> szs ! j" if "j < length szs" for j
    using snoc.prems(2) [OF that] d by (simp add: sent_snoc)
  obtain m where m: "deliver_parts ds (start_merging szs b) = Some m" "length (shared m) = length b"
    "cursors m = map (\<lambda>i. part_offset szs i + length (sent i ds)) [0..<length szs]"
    and bytes: "\<And>j k. j < length szs \<Longrightarrow> k < length (sent j ds) \<Longrightarrow> shared m ! (part_offset szs j + k)
          = Some (if k = 0 \<and> 0 < j \<and> completed_late szs (j - 1) ds then CHR 0x00 else sent j ds ! k)"
    using snoc.IH snoc.prems(1) le by auto
  define p where "p = part_offset szs i + length (sent i ds)"
  have p: "cursors m ! i = p" using m(3) i by (simp add: p_def)
  have fits: "length (sent i ds) + length c \<le> szs ! i" using snoc.prems(2) [OF i] d by (simp add: sent_snoc)
  have inside: "part_offset szs j + szs ! j < length b" if "j < length szs" for j
    using part_offset_mono [of "Suc j" "length szs" szs] that assms(2) by (simp add: part_offset_Suc part_offset_total)
  have room: "p + length c < length (shared m)" using fits inside [OF i] m(2) by (simp add: p_def)
  obtain b' where b': "deliver_part (i, c) m = Some \<lparr>shared = b', cursors = (cursors m)[i := p + length c]\<rparr>"
    "length b' = length b"
    and val: "\<And>x. x < length b \<Longrightarrow> b' ! x = (if x < p \<or> p + length c < x then shared m ! x
          else if x = p + length c then Some (CHR 0x00) else Some (c ! (x - p)))"
    using deliver_part_bytes [of i m c] i room m(2,3) p by auto
  have cur: "(cursors m)[i := p + length c] = map (\<lambda>j. part_offset szs j + length (sent j (ds @ [d]))) [0..<length szs]"
    using i m(3) by (intro nth_equalityI) (auto simp: nth_list_update sent_snoc d p_def)
  have "b' ! (part_offset szs j + k)
      = Some (if k = 0 \<and> 0 < j \<and> completed_late szs (j - 1) (ds @ [d]) then CHR 0x00 else sent j (ds @ [d]) ! k)"
    if j: "j < length szs" and k: "k < length (sent j (ds @ [d]))" for j k
  proof -
    have x: "part_offset szs j + k < length b" and kj: "k < szs ! j"
      using inside [OF j] k snoc.prems(2) [OF j] by simp_all
    show ?thesis
    proof (cases "j = i")
      case True
      show ?thesis
      proof (cases "k < length (sent i ds)")
        case True
        then show ?thesis
          using \<open>j = i\<close> val [OF x] bytes [OF i True]
          by (cases i) (simp_all add: p_def d sent_snoc completed_late_snoc nth_append)
      next
        case False
        moreover from this have "k = 0 \<Longrightarrow> sent i ds = []" by simp
        ultimately show ?thesis
          using \<open>j = i\<close> val [OF x] k not_completed_late [of "i - 1" ds szs]
          by (auto simp: p_def d sent_snoc completed_late_snoc nth_append)
      qed
    next
      case False
      then have k': "k < length (sent j ds)" using k by (simp add: d sent_snoc)
      note old = bytes [OF j k']
      show ?thesis
      proof (cases "j < i")
        case True
        then have "part_offset szs j + k < p"
          using part_offset_mono [of "Suc j" i szs] kj j by (simp add: part_offset_Suc p_def)
        then show ?thesis using val [OF x] old True by (cases j) (simp_all add: d sent_snoc completed_late_snoc)
      next
        case gt: False
        with False have ij: "i < j" by simp
        have q: "p + length c \<le> part_offset szs (Suc i)" "p + length c = part_offset szs (Suc i) \<longleftrightarrow> length (sent i ds) + length c = szs ! i"
          using fits i by (auto simp: part_offset_Suc p_def)
        show ?thesis
          using val [OF x] old later_byte [OF assms(1) ij j q(1), of k] q(2) ij k'
          by (auto simp: d completed_late_snoc sent_snoc)
      qed
    qed
  qed
  then show ?case using m(1) b' cur by (simp add: deliver_parts_snoc d)
qed


end
