(* ===== verification/Object_References.thy ===== *)
theory Object_References
  imports Responses "HOL-Library.Monad_Syntax"
begin

text \<open>
  Object references on their way to the server and back: \<open>RV_convert_obj_refs_to_buffer\<close> and
  \<open>RV_convert_buffer_to_obj_refs\<close> of \<open>rest_vol_dataset.c\<close>.  A reference is a slot of 48 bytes with a prefix for
  the type of the object and its URI; the URI of a committed datatype does not fit.
\<close>

section \<open>References\<close>

definition OBJECT_REF_STRING_LEN :: nat where
  "OBJECT_REF_STRING_LEN = 48"

datatype reference_type = H5R_OBJECT | H5R_DATASET_REGION

text \<open>What is not written is \<open>None\<close>; the URI is an array of 256 characters.\<close>

record rv_obj_ref_t =
  ref_type :: "reference_type option"
  ref_obj_type :: "object_type option"
  ref_obj_URI :: "char option list"

definition REF_URI_LENGTH :: nat where
  "REF_URI_LENGTH = 256"

definition unset_ref :: rv_obj_ref_t where
  "unset_ref = \<lparr>ref_type = None, ref_obj_type = None, ref_obj_URI = replicate REF_URI_LENGTH None\<rparr>"

section \<open>To a buffer\<close>

definition prefix_table :: "string list" where
  "prefix_table = [''groups'', ''datatypes'', ''datasets'']"

definition ref_prefix :: "object_type \<Rightarrow> string option" where
  "ref_prefix t =
     (if t = H5I_FILE \<or> t = H5I_GROUP then Some (prefix_table ! 0)
      else if t = H5I_DATATYPE then Some (prefix_table ! 1)
      else if t = H5I_DATASET then Some (prefix_table ! 2)
      else None)"

text \<open>One slot: cleared, and printed into with \<open>snprintf\<close>, whose result may be the size of the slot.\<close>

definition put_ref :: "nat \<Rightarrow> rv_obj_ref_t \<Rightarrow> char option list \<Rightarrow> (failure + char option list) option" where
  "put_ref pos r out = do {
     out \<leftarrow> write_bytes pos (replicate OBJECT_REF_STRING_LEN (CHR 0x00)) out;
     URI \<leftarrow> c_string (ref_obj_URI r);
     (if URI = [] then Some (Inr out)
      else do {
        t \<leftarrow> ref_obj_type r;
        (case ref_prefix t of
           None \<Rightarrow> Some (Inl H5E_BADVALUE)
         | Some p \<Rightarrow> do {
             let s = p @ ''/'' @ URI;
             out \<leftarrow> write_bytes pos (take (OBJECT_REF_STRING_LEN - 1) s @ [CHR 0x00]) out;
             (if length s \<ge> OBJECT_REF_STRING_LEN + 1 then Some (Inl H5E_SYSERRSTR) else Some (Inr out))
           })
      })
   }"

fun put_refs :: "nat \<Rightarrow> rv_obj_ref_t list \<Rightarrow> char option list \<Rightarrow> (failure + char option list) option" where
  "put_refs pos [] out = Some (Inr out)"
| "put_refs pos (r # rs) out = andthen (put_ref pos r out) (put_refs (pos + OBJECT_REF_STRING_LEN) rs)"

text \<open>The pointers for the results are given or null.\<close>

definition RV_convert_obj_refs_to_buffer ::
  "(u64 \<Rightarrow> bool) \<Rightarrow> rv_obj_ref_t list option \<Rightarrow> bool \<Rightarrow> bool \<Rightarrow> (failure + char option list \<times> u64) option" where
  "RV_convert_obj_refs_to_buffer ok ref_array buf_out buf_out_len =
     (case ref_array of
        None \<Rightarrow> Some (Inl H5E_BADVALUE)
      | Some refs \<Rightarrow>
          if \<not> buf_out \<or> \<not> buf_out_len \<or> refs = [] then Some (Inl H5E_BADVALUE)
          else
            let out_len = of_nat (length refs) * of_nat OBJECT_REF_STRING_LEN :: u64
            in if \<not> ok out_len then Some (Inl H5E_CANTALLOC)
               else andthen (put_refs 0 refs (replicate (unat out_len) None)) (\<lambda>out. Some (Inr (out, out_len))))"

section \<open>From a buffer\<close>

text \<open>\<open>while (*URI_start && *URI_start != '/')\<close>\<close>

fun skip_prefix :: "char option list \<Rightarrow> char option list option" where
  "skip_prefix [] = None"
| "skip_prefix (None # b) = None"
| "skip_prefix (Some c # b) = (if c = CHR 0x00 \<or> c = CHR ''/'' then Some (Some c # b) else skip_prefix b)"

text \<open>The bytes that \<open>strncpy\<close> writes for \<open>n\<close>, from a block in memory.\<close>

fun strncpy_from :: "nat \<Rightarrow> char option list \<Rightarrow> string option" where
  "strncpy_from 0 b = Some []"
| "strncpy_from (Suc n) [] = None"
| "strncpy_from (Suc n) (None # b) = None"
| "strncpy_from (Suc n) (Some c # b) =
     (if c = CHR 0x00 then Some (replicate (Suc n) (CHR 0x00)) else map_option ((#) c) (strncpy_from n b))"

definition ref_type_of :: "char \<Rightarrow> object_type" where
  "ref_type_of c =
     (if c = CHR ''g'' then H5I_GROUP
      else if c = CHR ''t'' then H5I_DATATYPE
      else if c = CHR ''d'' then H5I_DATASET
      else H5I_BADID)"

definition take_ref :: "char option list \<Rightarrow> rv_obj_ref_t option" where
  "take_ref slot = do {
     let r = unset_ref\<lparr>ref_type := Some H5R_OBJECT\<rparr>;
     URI_start \<leftarrow> skip_prefix slot;
     (case URI_start of
        Some c # b \<Rightarrow>
          if c = CHR 0x00
          then map_option (\<lambda>u. r\<lparr>ref_obj_URI := u\<rparr>) (write_bytes 0 [CHR 0x00] (ref_obj_URI r))
          else do {
            bytes \<leftarrow> strncpy_from OBJECT_REF_STRING_LEN b;
            u \<leftarrow> write_bytes 0 bytes (ref_obj_URI r);
            Some (r\<lparr>ref_obj_URI := u, ref_obj_type := Some (ref_type_of (hd bytes))\<rparr>)
          }
      | _ \<Rightarrow> None)
   }"

fun take_refs :: "nat \<Rightarrow> char option list \<Rightarrow> rv_obj_ref_t list option" where
  "take_refs 0 b = Some []"
| "take_refs (Suc n) b = do {
     r \<leftarrow> take_ref b;
     rs \<leftarrow> take_refs n (drop OBJECT_REF_STRING_LEN b);
     Some (r # rs)
   }"

text \<open>\<open>sizeof (rv_obj_ref_t)\<close>: two enumerations and the URI.\<close>

definition sizeof_ref :: u64 where
  "sizeof_ref = 264"

definition RV_convert_buffer_to_obj_refs ::
  "(u64 \<Rightarrow> bool) \<Rightarrow> char option list option \<Rightarrow> nat \<Rightarrow> bool \<Rightarrow> bool \<Rightarrow> (failure + rv_obj_ref_t list \<times> u64) option" where
  "RV_convert_buffer_to_obj_refs ok ref_buf ref_buf_len buf_out buf_out_len =
     (case ref_buf of
        None \<Rightarrow> Some (Inl H5E_BADVALUE)
      | Some b \<Rightarrow>
          if \<not> buf_out \<or> \<not> buf_out_len \<or> ref_buf_len = 0 then Some (Inl H5E_BADVALUE)
          else
            let out_len = of_nat ref_buf_len * sizeof_ref
            in if \<not> ok out_len then Some (Inl H5E_CANTALLOC)
               else map_option (\<lambda>rs. Inr (rs, out_len)) (take_refs ref_buf_len b))"

section \<open>Slots\<close>

text \<open>The text of a reference, empty for an empty one, and its slot.\<close>

definition ref_text :: "rv_obj_ref_t \<Rightarrow> string" where
  "ref_text r =
     (let URI = the (c_string (ref_obj_URI r))
      in if URI = [] then [] else the (ref_prefix (the (ref_obj_type r))) @ ''/'' @ URI)"

definition slot_of :: "string \<Rightarrow> string" where
  "slot_of s = take 47 s @ CHR 0x00 # replicate (47 - length (take 47 s)) (CHR 0x00)"

lemma length_slot [simp]: "length (slot_of s) = 48"
  by (simp add: slot_of_def)

lemma slot_of_empty: "slot_of [] = replicate 48 (CHR 0x00)"
  by (simp add: slot_of_def numeral_eq_Suc)

text \<open>A reference that can be sent.\<close>

definition sendable :: "rv_obj_ref_t \<Rightarrow> bool" where
  "sendable r \<longleftrightarrow>
     (\<exists>URI. c_string (ref_obj_URI r) = Some URI \<and>
        (URI \<noteq> [] \<longrightarrow> (\<exists>t p. ref_obj_type r = Some t \<and> ref_prefix t = Some p \<and> length p + 1 + length URI \<le> 48)))"

lemma put_ref_slot:
  assumes "sendable r" and "length pre = pos"
  shows "put_ref pos r (pre @ replicate 48 None @ rest) = Some (Inr (pre @ map Some (slot_of (ref_text r)) @ rest))"
proof -
  have w: "write_bytes pos bs (pre @ mid @ rest) = Some (pre @ map Some bs @ drop (length bs) mid @ rest)"
    if "length bs \<le> length mid" for bs mid
    using that assms(2) by (simp add: write_bytes_def)
  obtain URI where URI: "c_string (ref_obj_URI r) = Some URI"
    "URI \<noteq> [] \<longrightarrow> (\<exists>t p. ref_obj_type r = Some t \<and> ref_prefix t = Some p \<and> length p + 1 + length URI \<le> 48)"
    using assms(1) by (auto simp: sendable_def)
  show ?thesis
  proof (cases "URI = []")
    case True
    then show ?thesis
      by (simp add: put_ref_def URI(1) OBJECT_REF_STRING_LEN_def w ref_text_def slot_of_empty)
  next
    case False
    then obtain t p where t: "ref_obj_type r = Some t" "ref_prefix t = Some p" "length p + 1 + length URI \<le> 48"
      using URI(2) by blast
    let ?s = "p @ ''/'' @ URI"
    have "length (take 47 ?s @ [CHR 0x00]) \<le> length (map Some (replicate 48 (CHR 0x00)))" by simp
    from w [OF this] show ?thesis
      using False t w [of "replicate 48 (CHR 0x00)" "replicate 48 None"]
      by (simp add: put_ref_def URI(1) OBJECT_REF_STRING_LEN_def ref_text_def slot_of_def Let_def
          replicate_add [symmetric] map_replicate_const)
  qed
qed


lemma put_refs_slots:
  "list_all sendable rs \<Longrightarrow> length pre = pos \<Longrightarrow>
    put_refs pos rs (pre @ replicate (48 * length rs) None) =
      Some (Inr (pre @ map Some (concat (map (\<lambda>r. slot_of (ref_text r)) rs))))"
proof (induction rs arbitrary: pos pre)
  case (Cons r rs)
  have "replicate (48 * length (r # rs)) (None :: char option) = replicate 48 None @ replicate (48 * length rs) None"
    by (simp add: replicate_add [symmetric])
  moreover have "put_refs (pos + 48) rs ((pre @ map Some (slot_of (ref_text r))) @ replicate (48 * length rs) None) =
      Some (Inr ((pre @ map Some (slot_of (ref_text r))) @ map Some (concat (map (\<lambda>r. slot_of (ref_text r)) rs))))"
    by (rule Cons.IH) (use Cons.prems in simp_all)
  ultimately show ?case
    using put_ref_slot [of r pre pos "replicate (48 * length rs) None"] Cons.prems
    by (simp add: OBJECT_REF_STRING_LEN_def)
qed simp

section \<open>Reading slots\<close>

lemma skip_prefix_at:
  "CHR 0x00 \<notin> set p \<Longrightarrow> CHR ''/'' \<notin> set p \<Longrightarrow> skip_prefix (map Some (p @ CHR ''/'' # s) @ b) = Some (map Some (CHR ''/'' # s) @ b)"
  by (induction p) auto

lemma strncpy_from_at:
  "CHR 0x00 \<notin> set s \<Longrightarrow> length s < n \<Longrightarrow>
    strncpy_from n (map Some s @ Some (CHR 0x00) # b) = Some (s @ CHR 0x00 # replicate (n - length s - 1) (CHR 0x00))"
proof (induction s arbitrary: n)
  case Nil
  then show ?case by (cases n) simp_all
next
  case (Cons c s)
  then show ?case by (cases n) auto
qed

text \<open>
  What is read: the URI cut to the room behind the prefix, and the type its first character says.
\<close>

definition received_URI :: "rv_obj_ref_t \<Rightarrow> string" where
  "received_URI r =
     (let URI = the (c_string (ref_obj_URI r))
      in if URI = [] then [] else take (46 - length (the (ref_prefix (the (ref_obj_type r))))) URI)"

lemma ref_prefix_plain:
  "ref_prefix t = Some p \<Longrightarrow> CHR 0x00 \<notin> set p \<and> CHR ''/'' \<notin> set p \<and> length p \<le> 9"
  by (auto simp: ref_prefix_def prefix_table_def split: if_splits)

lemma c_string_no_nul: "c_string b = Some s \<Longrightarrow> CHR 0x00 \<notin> set s"
  by (induction b arbitrary: s rule: c_string.induct) (auto split: if_splits)

lemma take_ref_slot:
  assumes "sendable r"
  shows "\<exists>r'. take_ref (map Some (slot_of (ref_text r)) @ b) = Some r' \<and> ref_type r' = Some H5R_OBJECT \<and>
    c_string (ref_obj_URI r') = Some (received_URI r) \<and>
    ref_obj_type r' = (if received_URI r = [] then None else Some (ref_type_of (hd (received_URI r))))"
proof -
  obtain URI where URI: "c_string (ref_obj_URI r) = Some URI"
    "URI \<noteq> [] \<longrightarrow> (\<exists>t p. ref_obj_type r = Some t \<and> ref_prefix t = Some p \<and> length p + 1 + length URI \<le> 48)"
    using assms by (auto simp: sendable_def)
  show ?thesis
  proof (cases "URI = []")
    case True
    then show ?thesis
      by (simp add: ref_text_def URI(1) slot_of_def take_ref_def unset_ref_def write_bytes_def REF_URI_LENGTH_def received_URI_def)
  next
    case False
    then obtain t p where t: "ref_obj_type r = Some t" "ref_prefix t = Some p" using URI(2) by blast
    note p = ref_prefix_plain [OF t(2)]
    let ?u = "take (46 - length p) URI"
    have u: "?u \<noteq> []" "CHR 0x00 \<notin> set ?u" "length ?u < 48"
      using False p c_string_no_nul [OF URI(1)] by (auto dest: in_set_takeD)
    obtain pad where pad: "slot_of (ref_text r) = p @ CHR ''/'' # ?u @ CHR 0x00 # pad"
      using False URI(1) t p by (simp add: slot_of_def ref_text_def take_Cons')
    have "strncpy_from 48 (map Some ?u @ Some (CHR 0x00) # map Some pad @ b) =
        Some (?u @ CHR 0x00 # replicate (48 - length ?u - 1) (CHR 0x00))"
      by (rule strncpy_from_at [OF u(2,3)])
    moreover have "c_string (map Some (?u @ CHR 0x00 # replicate (48 - length ?u - 1) (CHR 0x00)) @ x) = Some ?u" for x
      using c_string_terminated [OF u(2)] by simp
    moreover have "received_URI r = ?u" using False URI(1) t by (simp add: received_URI_def)
    ultimately show ?thesis
      using skip_prefix_at [of p "?u @ CHR 0x00 # pad" b] p u
      by (auto simp: take_ref_def pad unset_ref_def write_bytes_def REF_URI_LENGTH_def OBJECT_REF_STRING_LEN_def hd_append)
  qed
qed

lemma take_refs_slots:
  "list_all sendable rs \<Longrightarrow>
    \<exists>rs'. take_refs (length rs) (map Some (concat (map (\<lambda>r. slot_of (ref_text r)) rs))) = Some rs' \<and>
      map ref_type rs' = replicate (length rs) (Some H5R_OBJECT) \<and>
      map (\<lambda>r. c_string (ref_obj_URI r)) rs' = map (\<lambda>r. Some (received_URI r)) rs \<and>
      map ref_obj_type rs' =
        map (\<lambda>r. if received_URI r = [] then None else Some (ref_type_of (hd (received_URI r)))) rs"
proof (induction rs)
  case (Cons r rs)
  let ?b = "map Some (concat (map (\<lambda>r. slot_of (ref_text r)) rs))"
  obtain r' where 1: "take_ref (map Some (slot_of (ref_text r)) @ ?b) = Some r'" "ref_type r' = Some H5R_OBJECT"
    "c_string (ref_obj_URI r') = Some (received_URI r)"
    "ref_obj_type r' = (if received_URI r = [] then None else Some (ref_type_of (hd (received_URI r))))"
    using take_ref_slot [of r ?b] Cons.prems by auto
  obtain rs' where "take_refs (length rs) ?b = Some rs'" "map ref_type rs' = replicate (length rs) (Some H5R_OBJECT)"
      "map (\<lambda>r. c_string (ref_obj_URI r)) rs' = map (\<lambda>r. Some (received_URI r)) rs"
      "map ref_obj_type rs' =
        map (\<lambda>r. if received_URI r = [] then None else Some (ref_type_of (hd (received_URI r)))) rs"
    using Cons by auto
  with 1 show ?case by (auto simp: OBJECT_REF_STRING_LEN_def)
qed simp

definition sample_refs :: "rv_obj_ref_t list" where
  "sample_refs =
     [\<lparr>ref_type = Some H5R_OBJECT, ref_obj_type = Some H5I_FILE, ref_obj_URI = map Some (''g-1'' @ [CHR 0x00])\<rparr>,
      \<lparr>ref_type = None, ref_obj_type = None, ref_obj_URI = [Some (CHR 0x00)]\<rparr>,
      \<lparr>ref_type = Some H5R_OBJECT, ref_obj_type = Some H5I_DATATYPE,
       ref_obj_URI = map Some (''t-01234567-89ab-cdef-0123-456789abcdef'' @ [CHR 0x00])\<rparr>]"

section \<open>Properties\<close>

text \<open>
  C33: References that are sent and received: every one comes back as an object reference with the same URI, empty
  ones included, and the type that the first character of the URI stands for.  A prefix with its URI may have 48
  characters but only 47 are kept: the last character is cut off, which \<open>received_URI\<close> says.  This is the case
  of every committed datatype, whose URI has 38 characters.
\<close>

theorem references_round_trip:
  assumes "list_all sendable refs" and "refs \<noteq> []" and "length refs < 2 ^ 50" and "\<And>n. ok n"
  shows "\<exists>b refs' n. RV_convert_obj_refs_to_buffer ok (Some refs) True True =
      Some (Inr (b, of_nat (48 * length refs))) \<and> length b = 48 * length refs \<and>
    RV_convert_buffer_to_obj_refs ok (Some b) (length refs) True True = Some (Inr (refs', n)) \<and>
    map ref_type refs' = replicate (length refs) (Some H5R_OBJECT) \<and>
    map (\<lambda>r. c_string (ref_obj_URI r)) refs' = map (\<lambda>r. Some (received_URI r)) refs \<and>
    map ref_obj_type refs' =
      map (\<lambda>r. if received_URI r = [] then None else Some (ref_type_of (hd (received_URI r)))) refs"
proof -
  have "unat (of_nat (length refs * 48) :: u64) = length refs * 48"
    by (rule unat_of_nat_u64) (use assms(3) in simp)
  then have u: "unat (of_nat (length refs) * 48 :: u64) = length refs * 48" by simp
  let ?b = "map Some (concat (map (\<lambda>r. slot_of (ref_text r)) refs))"
  have "length ?b = 48 * length refs" by (induction refs) simp_all
  moreover obtain refs' where "take_refs (length refs) ?b = Some refs'"
      "map ref_type refs' = replicate (length refs) (Some H5R_OBJECT)"
      "map (\<lambda>r. c_string (ref_obj_URI r)) refs' = map (\<lambda>r. Some (received_URI r)) refs"
      "map ref_obj_type refs' =
        map (\<lambda>r. if received_URI r = [] then None else Some (ref_type_of (hd (received_URI r)))) refs"
    using take_refs_slots [OF assms(1)] by blast
  moreover have "RV_convert_obj_refs_to_buffer ok (Some refs) True True = Some (Inr (?b, of_nat (48 * length refs)))"
    using put_refs_slots [OF assms(1), of "[]" 0] assms(2,4)
    by (simp add: RV_convert_obj_refs_to_buffer_def u Let_def OBJECT_REF_STRING_LEN_def mult.commute)
  ultimately show ?thesis
    using assms(2,4) by (simp add: RV_convert_buffer_to_obj_refs_def)
qed

theorem references_round_trip_witness:
  "\<exists>b refs' n. RV_convert_obj_refs_to_buffer (\<lambda>_. True) (Some sample_refs) True True = Some (Inr (b, 144)) \<and>
    RV_convert_buffer_to_obj_refs (\<lambda>_. True) (Some b) 3 True True = Some (Inr (refs', n)) \<and>
    map (\<lambda>r. c_string (ref_obj_URI r)) refs' = [Some ''g-1'', Some [], Some ''t-01234567-89ab-cdef-0123-456789abcde''] \<and>
    map ref_obj_type refs' = [Some H5I_GROUP, None, Some H5I_DATATYPE]"
proof -
  note d = sample_refs_def ref_prefix_def prefix_table_def
  have s: "list_all sendable sample_refs" by (simp add: sendable_def d)
  have l: "length sample_refs = 3" "sample_refs \<noteq> []" "(3 :: nat) < 2 ^ 50" by (simp_all add: d)
  have u: "map received_URI sample_refs = [''g-1'', [], ''t-01234567-89ab-cdef-0123-456789abcde'']"
    by (simp add: received_URI_def d)
  have m: "map (\<lambda>r. Some (received_URI r)) sample_refs = map Some (map received_URI sample_refs)"
    "map (\<lambda>r. if received_URI r = [] then None else Some (ref_type_of (hd (received_URI r)))) sample_refs =
       map (\<lambda>u. if u = [] then None else Some (ref_type_of (hd u))) (map received_URI sample_refs)" by simp_all
  have n: "(of_nat (48 * 3) :: u64) = 144" by simp
  have t: "map (\<lambda>u. if u = [] then None else Some (ref_type_of (hd u)))
      [''g-1'', [], ''t-01234567-89ab-cdef-0123-456789abcde''] = [Some H5I_GROUP, None, Some H5I_DATATYPE]"
    "map Some [''g-1'', [], ''t-01234567-89ab-cdef-0123-456789abcde''] =
      [Some ''g-1'', Some [], Some ''t-01234567-89ab-cdef-0123-456789abcde'']"
    by (simp_all add: ref_type_of_def)
  from references_round_trip [OF s l(2), of "\<lambda>_. True", unfolded l(1) m u t n, OF l(3) TrueI] show ?thesis
    by (elim exE conjE) (intro exI conjI, assumption+)
qed

text \<open>
  A slot of 48 characters, as a server fills it for a committed datatype, has no end: the reader goes on into the
  slot behind it or, after the last one, behind the buffer.
\<close>

lemma full_slot_overruns:
  assumes "CHR 0x00 \<notin> set (p @ u)" and "CHR ''/'' \<notin> set p" and "length u < 48"
  shows "take_ref (map Some (p @ CHR ''/'' # u)) = None"
proof -
  have "strncpy_from n (map Some u) = None" if "CHR 0x00 \<notin> set u" "length u < n" for n u
    using that
  proof (induction u arbitrary: n)
    case Nil
    then show ?case by (cases n) simp_all
  next
    case (Cons c u)
    then show ?case by (cases n) auto
  qed
  with assms skip_prefix_at [of p u "[]"] show ?thesis by (simp add: take_ref_def OBJECT_REF_STRING_LEN_def)
qed

end
