(* ===== verification/Links.thy ===== *)
theory Links
  imports Hash_Table Responses
begin

text \<open>
  Links, from \<open>rest_vol_link.c\<close> and, for the visit of objects, \<open>rest_vol_object.c\<close>: the callbacks
  that read a link from a response, the tables of links that \<open>H5Literate\<close> and \<open>H5Lvisit\<close> build from
  the responses of the server, and the traversal of these tables.

  The server is the record \<open>link_server\<close>: the parser, the response or error for a URL, the escaping of
  cURL, the success of allocations and \<open>qsort\<close>.  A time is of any linearly ordered type.  The
  descent into subgroups is bounded by fuel; the theorem on termination says how much is enough.
\<close>

section \<open>Results\<close>

datatype link_failure =
    Minor failure | Http http_error | H5E_CANTINSERT | H5E_CANTENCODE | H5E_CANTBUILDLINKTABLE | H5E_LINKITERERROR

text \<open>A value, an error, undefined behaviour, or not enough fuel.\<close>

datatype 'a run = Ok 'a | Err link_failure | Undef | Out_Of_Fuel

fun run_bind :: "'a run \<Rightarrow> ('a \<Rightarrow> 'b run) \<Rightarrow> 'b run" where
  "run_bind (Ok a) f = f a"
| "run_bind (Err e) f = Err e"
| "run_bind Undef f = Undef"
| "run_bind Out_Of_Fuel f = Out_Of_Fuel"

definition require :: "link_failure \<Rightarrow> 'a option \<Rightarrow> ('a \<Rightarrow> 'b run) \<Rightarrow> 'b run" where
  "require e x f = (case x of None \<Rightarrow> Err e | Some a \<Rightarrow> f a)"

definition check :: "link_failure \<Rightarrow> bool \<Rightarrow> 'b run \<Rightarrow> 'b run" where
  "check e b r = (if b then r else Err e)"

section \<open>The value of a link\<close>

datatype link_type = H5L_TYPE_HARD | H5L_TYPE_SOFT | H5L_TYPE_EXTERNAL

record link_info =
  info_type :: link_type
  val_size :: u64

definition first_found :: "yajl \<Rightarrow> json \<Rightarrow> string list \<Rightarrow> string list \<Rightarrow> json option" where
  "first_found y t keys keys2 =
     (case tree_get y t keys yajl_t_string of
        Some v \<Rightarrow> Some v
      | None \<Rightarrow> tree_get y t keys2 yajl_t_string)"

text \<open>A string of the tree: \<open>H5E_CANTGET\<close> when it is not there, \<open>H5E_BADVALUE\<close> when it is no string.\<close>

definition found_string :: "json option \<Rightarrow> failure + string" where
  "found_string key_obj =
     (case key_obj of
        None \<Rightarrow> Inl H5E_CANTGET
      | Some v \<Rightarrow> (case YAJL_GET_STRING v of None \<Rightarrow> Inl H5E_BADVALUE | Some s \<Rightarrow> Inr s))"

text \<open>\<open>strncpy (buf + i, s, n)\<close>, which fills up with NUL; a count past the block is out of bounds.\<close>

definition strncpy_at :: "nat \<Rightarrow> string \<Rightarrow> u64 \<Rightarrow> char option list \<Rightarrow> char option list option" where
  "strncpy_at i s n buf =
     (if i + unat n \<le> length buf then write_bytes i (strncpy_bytes s (unat n)) buf else None)"

text \<open>
  The size is an in and out argument, and \<open>out_buf\<close> the caller's block, \<open>None\<close> for NULL.  The
  lengths of the strings are taken as \<open>size_t\<close>.
\<close>

definition RV_get_link_val_callback ::
  "yajl \<Rightarrow> string \<Rightarrow> u64 \<Rightarrow> char option list option
     \<Rightarrow> ((failure + unit) \<times> u64 \<times> char option list option) option" where
  "RV_get_link_val_callback y response in_buf_size out_buf =
     (case tree_parse y response of
        None \<Rightarrow> Some (Inl H5E_PARSEERROR, in_buf_size, out_buf)
      | Some t \<Rightarrow>
          (case found_string (first_found y t [''link'', ''class''] [''class'']) of
             Inl e \<Rightarrow> Some (Inl e, in_buf_size, out_buf)
           | Inr link_class \<Rightarrow>
               if link_class = ''H5L_TYPE_HARD'' then Some (Inl H5E_BADVALUE, in_buf_size, out_buf)
               else
                 (case found_string (first_found y t [''link'', ''h5path''] [''h5path'']) of
                    Inl e \<Rightarrow> Some (Inl e, in_buf_size, out_buf)
                  | Inr link_path \<Rightarrow>
                      if link_class = ''H5L_TYPE_SOFT''
                      then
                        if in_buf_size = 0
                        then Some (Inr (), of_nat (length link_path) + 1, out_buf)
                        else
                          (case out_buf of
                             None \<Rightarrow> None
                           | Some b \<Rightarrow> do {
                               b \<leftarrow> strncpy_at 0 link_path in_buf_size b;
                               b \<leftarrow> write_bytes (unat (in_buf_size - 1)) [CHR 0x00] b;
                               Some (Inr (), in_buf_size, Some b)
                             })
                      else
                        (case found_string (first_found y t [''link'', ''h5domain''] [''h5domain'']) of
                           Inl e \<Rightarrow> Some (Inl e, in_buf_size, out_buf)
                         | Inr link_domain \<Rightarrow>
                             let domain_len = of_nat (length link_domain) + 1
                             in if in_buf_size = 0
                                then Some (Inr (), 1 + domain_len + (of_nat (length link_path) + 1), out_buf)
                                else
                                  (case out_buf of
                                     None \<Rightarrow> Some (Inr (), in_buf_size, out_buf)
                                   | Some b \<Rightarrow> do {
                                       b \<leftarrow> write_bytes 0 [CHR 0x00] b;
                                       b \<leftarrow> strncpy_at 1 link_domain (in_buf_size - 1) b;
                                       b \<leftarrow> strncpy_at (length link_domain + 2) link_path ((in_buf_size - 1) - domain_len) b;
                                       Some (Inr (), in_buf_size, Some b)
                                     })))))"

text \<open>\<open>memset\<close> has set the type to \<open>H5L_TYPE_HARD\<close>.\<close>

definition RV_get_link_info_callback :: "yajl \<Rightarrow> string \<Rightarrow> ((failure + unit) \<times> link_info) option" where
  "RV_get_link_info_callback y response =
     (let info = \<lparr>info_type = H5L_TYPE_HARD, val_size = 0\<rparr>
      in case tree_parse y response of
           None \<Rightarrow> Some (Inl H5E_PARSEERROR, info)
         | Some t \<Rightarrow>
             (case found_string (first_found y t [''link'', ''class''] [''class'']) of
                Inl e \<Rightarrow> Some (Inl e, info)
              | Inr s \<Rightarrow>
                  if s = ''H5L_TYPE_HARD'' then Some (Inr (), info)
                  else if s = ''H5L_TYPE_SOFT'' \<or> s = ''H5L_TYPE_EXTERNAL''
                  then
                    let info = info\<lparr>info_type := (if s = ''H5L_TYPE_SOFT'' then H5L_TYPE_SOFT else H5L_TYPE_EXTERNAL)\<rparr>
                    in (case RV_get_link_val_callback y response 0 None of
                          None \<Rightarrow> None
                        | Some (Inl e, n, _) \<Rightarrow> Some (Inl H5E_CANTGET, info\<lparr>val_size := n\<rparr>)
                        | Some (Inr _, n, _) \<Rightarrow> Some (Inr (), info\<lparr>val_size := n\<rparr>))
                  else Some (Inl H5E_BADVALUE, info)))"

definition RV_get_link_obj_type_callback :: "yajl \<Rightarrow> string \<Rightarrow> object_type \<Rightarrow> (failure + unit) \<times> object_type" where
  "RV_get_link_obj_type_callback y response obj_type =
     (case tree_parse y response of
        None \<Rightarrow> (Inl H5E_PARSEERROR, obj_type)
      | Some t \<Rightarrow>
          let collection =
            (case found_string (tree_get y t [''link'', ''collection''] yajl_t_string) of
               Inl e \<Rightarrow> (Inl e, obj_type)
             | Inr s \<Rightarrow>
                 if s = ''groups'' then (Inr (), H5I_GROUP)
                 else if s = ''datasets'' then (Inr (), H5I_DATASET)
                 else if s = ''datatypes'' then (Inr (), H5I_DATATYPE)
                 else (Inl H5E_BADVALUE, obj_type))
          in (case tree_get y t [''link'', ''class''] yajl_t_string of
                None \<Rightarrow> collection
              | Some v \<Rightarrow>
                  (case YAJL_GET_STRING v of
                     None \<Rightarrow> (Inl H5E_BADVALUE, obj_type)
                   | Some link_type \<Rightarrow>
                       if link_type \<noteq> ''H5L_TYPE_HARD'' then (Inr (), obj_type) else collection)))"

section \<open>Tables of links\<close>

text \<open>An entry of a table; \<open>'i\<close> is what is known of the link or of the object it points to.\<close>

datatype ('t, 'i) link_table_entry =
  Entry (link_name: string) (crt_time: 't) (entry_info: 'i) (subgroup: "('t, 'i) link_table_entry list option")

definition LINK_NAME_MAX_LENGTH :: nat where
  "LINK_NAME_MAX_LENGTH = 2048"

definition URL_MAX_LENGTH :: nat where
  "URL_MAX_LENGTH = 2048"

subsection \<open>Orders\<close>

definition of_bool_int :: "bool \<Rightarrow> int" where
  "of_bool_int b = (if b then 1 else 0)"

definition H5_rest_cmp_links_by_creation_order_inc ::
  "('t :: linorder, 'i) link_table_entry \<Rightarrow> ('t, 'i) link_table_entry \<Rightarrow> int" where
  "H5_rest_cmp_links_by_creation_order_inc a b =
     of_bool_int (crt_time a > crt_time b) - of_bool_int (crt_time a < crt_time b)"

definition H5_rest_cmp_links_by_creation_order_dec ::
  "('t :: linorder, 'i) link_table_entry \<Rightarrow> ('t, 'i) link_table_entry \<Rightarrow> int" where
  "H5_rest_cmp_links_by_creation_order_dec a b =
     of_bool_int (crt_time a < crt_time b) - of_bool_int (crt_time a > crt_time b)"

text \<open>\<open>strncmp\<close>: the difference at the first place where the strings differ, up to \<open>n\<close> characters.\<close>

fun strncmp :: "string \<Rightarrow> string \<Rightarrow> nat \<Rightarrow> int" where
  "strncmp a b 0 = 0"
| "strncmp [] [] (Suc n) = 0"
| "strncmp [] (b # bs) (Suc n) = - of_char b"
| "strncmp (a # as) [] (Suc n) = of_char a"
| "strncmp (a # as) (b # bs) (Suc n) = (if a = b then strncmp as bs n else of_char a - of_char b)"

definition H5_rest_cmp_links_by_name_inc :: "('t, 'i) link_table_entry \<Rightarrow> ('t, 'i) link_table_entry \<Rightarrow> int" where
  "H5_rest_cmp_links_by_name_inc a b = strncmp (link_name a) (link_name b) LINK_NAME_MAX_LENGTH"

definition H5_rest_cmp_links_by_name_dec :: "('t, 'i) link_table_entry \<Rightarrow> ('t, 'i) link_table_entry \<Rightarrow> int" where
  "H5_rest_cmp_links_by_name_dec a b = - 1 * strncmp (link_name a) (link_name b) LINK_NAME_MAX_LENGTH"

subsection \<open>Building\<close>

type_synonym 't link_table = "('t, link_info) link_table_entry list"

record 't link_server =
  json_parser :: yajl
  get_double :: "json \<Rightarrow> 't option"
  get_url :: "string \<Rightarrow> http_error + string"
  escape :: "string \<Rightarrow> string option"
  base_URL :: string
  malloc_ok :: "u64 \<Rightarrow> bool"
  qsort :: "(('t, link_info) link_table_entry \<Rightarrow> ('t, link_info) link_table_entry \<Rightarrow> int) \<Rightarrow> 't link_table \<Rightarrow> 't link_table"

text \<open>\<open>sizeof (link_table_entry)\<close>, with the 40 bytes of HDF5's \<open>H5L_info2_t\<close>.\<close>

definition link_table_entry_size :: u64 where
  "link_table_entry_size = 40 + 8 + 2048 + 16"

definition string_field :: "'t link_server \<Rightarrow> json \<Rightarrow> string \<Rightarrow> (string \<Rightarrow> 'b run) \<Rightarrow> 'b run" where
  "string_field sv obj key f =
     (case found_string (tree_get (json_parser sv) obj [key] yajl_t_string) of
        Inl e \<Rightarrow> Err (Minor e)
      | Inr s \<Rightarrow> f s)"

definition links_url :: "'t link_server \<Rightarrow> string \<Rightarrow> string" where
  "links_url sv enc = base_URL sv @ ''/groups/'' @ enc @ ''/links''"

text \<open>
  The part for a hard link of a recursive call: the table of the subgroup, when the link points to a group
  not visited before.  \<open>seen\<close> and \<open>mark\<close> are the operations on the hash table of visited ids, \<open>build\<close>
  is the recursive call.
\<close>

definition build_subgroup ::
  "('v \<Rightarrow> string \<Rightarrow> bool) \<Rightarrow> ('v \<Rightarrow> string \<Rightarrow> 'v option) \<Rightarrow> 't link_server
     \<Rightarrow> (string \<Rightarrow> 'v \<Rightarrow> ('t link_table option \<times> 'v) run) \<Rightarrow> json \<Rightarrow> 'v \<Rightarrow> ('t link_table option \<times> 'v) run" where
  "build_subgroup seen mark sv build link_obj v =
     string_field sv link_obj ''collection'' (\<lambda>collection.
       if collection \<noteq> ''groups'' then Ok (None, v)
       else
         string_field sv link_obj ''id'' (\<lambda>link_id.
           if seen v link_id then Ok (None, v)
           else
             check (Minor H5E_CANTALLOC) (malloc_ok sv (of_nat (length link_id + 1)))
               (require H5E_CANTINSERT (mark v link_id) (\<lambda>v.
                  require H5E_CANTENCODE (escape sv (H5_rest_basename link_id)) (\<lambda>enc.
                    check (Minor H5E_SYSERRSTR) (length (links_url sv enc) < URL_MAX_LENGTH)
                      (case get_url sv (links_url sv enc) of
                         Inl e \<Rightarrow> Err (Http e)
                       | Inr response \<Rightarrow>
                           (case build response v of
                              Err e \<Rightarrow> Err H5E_CANTBUILDLINKTABLE
                            | r \<Rightarrow> r)))))))"

text \<open>
  One turn of the loop.  The text is where \<open>link_section_start\<close> points to, \<open>None\<close> behind the
  terminating NUL.
\<close>

definition build_entry ::
  "('v \<Rightarrow> string \<Rightarrow> bool) \<Rightarrow> ('v \<Rightarrow> string \<Rightarrow> 'v option) \<Rightarrow> 't link_server \<Rightarrow> bool
     \<Rightarrow> (string \<Rightarrow> 'v \<Rightarrow> ('t link_table option \<times> 'v) run) \<Rightarrow> json \<Rightarrow> string option \<Rightarrow> 'v
     \<Rightarrow> (('t, link_info) link_table_entry \<times> string option \<times> 'v) run" where
  "build_entry seen mark sv is_recursive build link_obj section_start v =
     string_field sv link_obj ''title'' (\<lambda>name.
       require (Minor H5E_CANTGET) (tree_get (json_parser sv) link_obj [''created''] yajl_t_number) (\<lambda>created.
         require (Minor H5E_BADVALUE) (get_double sv created) (\<lambda>time.
           case section_start of
             None \<Rightarrow> Undef
           | Some txt \<Rightarrow>
               require (Minor H5E_PARSEERROR) (strstr txt ''{'') (\<lambda>start.
                 require (Minor H5E_PARSEERROR) (FIND_JSON_SECTION_END start) (\<lambda>rest.
                   case RV_get_link_info_callback (json_parser sv) (take (length start - length rest) start) of
                     None \<Rightarrow> Undef
                   | Some (Inl e, _) \<Rightarrow> Err (Minor H5E_CANTGET)
                   | Some (Inr _, info) \<Rightarrow>
                       run_bind (if is_recursive \<and> info_type info = H5L_TYPE_HARD
                                 then build_subgroup seen mark sv build link_obj v
                                 else Ok (None, v))
                         (\<lambda>(sub, v).
                           Ok (Entry (take LINK_NAME_MAX_LENGTH name) time info sub,
                               (case rest of [] \<Rightarrow> None | _ # next \<Rightarrow> Some next), v)))))))"

fun build_entries ::
  "('v \<Rightarrow> string \<Rightarrow> bool) \<Rightarrow> ('v \<Rightarrow> string \<Rightarrow> 'v option) \<Rightarrow> 't link_server \<Rightarrow> bool
     \<Rightarrow> (string \<Rightarrow> 'v \<Rightarrow> ('t link_table option \<times> 'v) run) \<Rightarrow> json list \<Rightarrow> string option \<Rightarrow> 'v
     \<Rightarrow> ('t link_table \<times> 'v) run" where
  "build_entries seen mark sv is_recursive build [] section_start v = Ok ([], v)"
| "build_entries seen mark sv is_recursive build (l # ls) section_start v =
     run_bind (build_entry seen mark sv is_recursive build l section_start v)
       (\<lambda>(e, section_start, v).
         run_bind (build_entries seen mark sv is_recursive build ls section_start v)
           (\<lambda>(es, v). Ok (e # es, v)))"

text \<open>The result is the table, \<open>None\<close> for a group without links, and the visited ids.\<close>

fun build_link_table ::
  "('v \<Rightarrow> string \<Rightarrow> bool) \<Rightarrow> ('v \<Rightarrow> string \<Rightarrow> 'v option) \<Rightarrow> 't link_server \<Rightarrow> bool
     \<Rightarrow> (('t, link_info) link_table_entry \<Rightarrow> ('t, link_info) link_table_entry \<Rightarrow> int) option
     \<Rightarrow> nat \<Rightarrow> string \<Rightarrow> 'v \<Rightarrow> ('t link_table option \<times> 'v) run" where
  "build_link_table seen mark sv is_recursive sort_func 0 response v = Out_Of_Fuel"
| "build_link_table seen mark sv is_recursive sort_func (Suc fuel) response v =
     check (Minor H5E_CANTALLOC) (is_recursive \<longrightarrow> malloc_ok sv (of_nat (length response + 1)))
       (require (Minor H5E_PARSEERROR) (tree_parse (json_parser sv) response) (\<lambda>parse_tree.
          require (Minor H5E_CANTGET) (tree_get (json_parser sv) parse_tree [''links''] yajl_t_array) (\<lambda>key_obj.
            case key_obj of
              YArray links \<Rightarrow>
                if links = [] then Ok (None, v)
                else
                  check (Minor H5E_CANTALLOC) (malloc_ok sv (of_nat (length links) * link_table_entry_size))
                    (require (Minor H5E_PARSEERROR) (strstr response (CHR 0x22 # ''links'' @ [CHR 0x22])) (\<lambda>start.
                       run_bind (build_entries seen mark sv is_recursive
                                   (build_link_table seen mark sv is_recursive sort_func fuel) links (Some start) v)
                         (\<lambda>(table, v). Ok (Some (case sort_func of None \<Rightarrow> table | Some cmp \<Rightarrow> qsort sv cmp table), v))))
            | _ \<Rightarrow> Undef)))"

text \<open>The hash table of visited ids; the flags are the successes of its allocations.\<close>

definition visited_seen :: "(string, string) hash_table \<Rightarrow> string \<Rightarrow> bool" where
  "visited_seen t k \<longleftrightarrow> rv_hash_table_lookup t k \<noteq> None"

definition visited_mark ::
  "bool \<Rightarrow> bool \<Rightarrow> (string, string) hash_table \<Rightarrow> string \<Rightarrow> (string, string) hash_table option" where
  "visited_mark calloc_ok entry_ok t k =
     (case rv_hash_table_insert calloc_ok entry_ok t k k of (ok, t, _) \<Rightarrow> if ok then Some t else None)"

definition RV_build_link_table ::
  "bool \<Rightarrow> bool \<Rightarrow> 't link_server \<Rightarrow> bool
     \<Rightarrow> (('t, link_info) link_table_entry \<Rightarrow> ('t, link_info) link_table_entry \<Rightarrow> int) option
     \<Rightarrow> nat \<Rightarrow> string option \<Rightarrow> (string, string) hash_table option
     \<Rightarrow> ('t link_table option \<times> (string, string) hash_table option) run" where
  "RV_build_link_table calloc_ok entry_ok sv is_recursive sort_func fuel response visited =
     require (Minor H5E_BADVALUE) response (\<lambda>response.
       case visited of
         None \<Rightarrow>
           if is_recursive then Err (Minor H5E_BADVALUE)
           else run_bind (build_link_table (\<lambda>_ _. True) (\<lambda>_ _. None) sv False sort_func fuel response ())
                  (\<lambda>(table, _). Ok (table, None))
       | Some v \<Rightarrow>
           run_bind (build_link_table visited_seen (visited_mark calloc_ok entry_ok) sv is_recursive sort_func fuel response v)
             (\<lambda>(table, v). Ok (table, Some v)))"

section \<open>The set of visited ids\<close>

text \<open>
  What the recursion needs of the operations on visited ids: \<open>seen\<close> answers for the \<open>keys\<close>, \<open>mark\<close> adds one
  while there are at most \<open>cap\<close> of them.
\<close>

locale visited_set =
  fixes seen :: "'v \<Rightarrow> string \<Rightarrow> bool"
    and mark :: "'v \<Rightarrow> string \<Rightarrow> 'v option"
    and ids :: "'v \<Rightarrow> string set"
    and good :: "'v \<Rightarrow> bool"
    and cap :: nat
  assumes seen_ids: "good v \<Longrightarrow> seen v k \<longleftrightarrow> k \<in> ids v"
    and mark_ids: "good v \<Longrightarrow> card (ids v) \<le> cap \<Longrightarrow> k \<notin> ids v \<Longrightarrow> mark v k = Some v' \<Longrightarrow>
        good v' \<and> ids v' = insert k (ids v)"

text \<open>The ids of the links of a response, and a set closed under the responses of the server.\<close>

definition link_ids :: "'t link_server \<Rightarrow> string \<Rightarrow> string set" where
  "link_ids sv response =
     {link_id. \<exists>t links l. tree_parse (json_parser sv) response = Some t \<and>
        tree_get (json_parser sv) t [''links''] yajl_t_array = Some (YArray links) \<and> l \<in> set links \<and>
        found_string (tree_get (json_parser sv) l [''id''] yajl_t_string) = Inr link_id}"

definition closed_ids :: "'t link_server \<Rightarrow> string set \<Rightarrow> bool" where
  "closed_ids sv S \<longleftrightarrow> (\<forall>url response. get_url sv url = Inr response \<longrightarrow> link_ids sv response \<subseteq> S)"

text \<open>A run that ends, and whose visited ids \<open>v'\<close> are those of \<open>v\<close> and some of \<open>S\<close>.\<close>

definition ends :: "('v \<Rightarrow> bool) \<Rightarrow> ('v \<Rightarrow> string set) \<Rightarrow> string set \<Rightarrow> 'v \<Rightarrow> ('b \<Rightarrow> 'v) \<Rightarrow> 'b run \<Rightarrow> bool" where
  "ends good ids S v st r \<longleftrightarrow>
     r \<noteq> Out_Of_Fuel \<and> (\<forall>x. r = Ok x \<longrightarrow> good (st x) \<and> ids v \<subseteq> ids (st x) \<and> ids (st x) \<subseteq> ids v \<union> S)"

lemma ends_Err [simp]: "ends good ids S v st (Err e)" "ends good ids S v st Undef"
  and ends_Ok: "ends good ids S v st (Ok x) \<longleftrightarrow> good (st x) \<and> ids v \<subseteq> ids (st x) \<and> ids (st x) \<subseteq> ids v \<union> S"
  by (auto simp: ends_def)

lemma ends_require [simp]: "(\<And>x. a = Some x \<Longrightarrow> ends good ids S v st (f x)) \<Longrightarrow> ends good ids S v st (require e a f)"
  by (auto simp: require_def split: option.splits)

lemma ends_check [simp]: "(b \<Longrightarrow> ends good ids S v st r) \<Longrightarrow> ends good ids S v st (check e b r)"
  by (simp add: check_def)

lemma ends_string_field:
  "(\<And>x. found_string (tree_get (json_parser sv) obj [key] yajl_t_string) = Inr x \<Longrightarrow> ends good ids S v st (f x))
     \<Longrightarrow> ends good ids S v st (string_field sv obj key f)"
  by (auto simp: string_field_def split: sum.splits)

lemma ends_bind:
  assumes "ends good ids S v st r" and "\<And>x. r = Ok x \<Longrightarrow> ends good ids S (st x) st' (f x)"
  shows "ends good ids S v st' (run_bind r f)"
proof (cases r)
  case (Ok x)
  with assms(1) assms(2) [OF Ok] show ?thesis unfolding ends_def by simp blast
qed (use assms(1) in \<open>simp_all add: ends_def\<close>)

context visited_set
begin

text \<open>What the recursive call may assume: one id fewer is left.\<close>

definition build_ends :: "string set \<Rightarrow> nat \<Rightarrow> ('t link_server) \<Rightarrow> (string \<Rightarrow> 'v \<Rightarrow> ('t link_table option \<times> 'v) run) \<Rightarrow> bool" where
  "build_ends S n sv build \<longleftrightarrow>
     (\<forall>response v. good v \<longrightarrow> link_ids sv response \<subseteq> S \<longrightarrow> finite (ids v) \<longrightarrow> card (ids v \<union> S) \<le> cap \<longrightarrow>
        card (S - ids v) < n \<longrightarrow> ends good ids S v snd (build response v))"

lemma build_subgroup_ends:
  assumes "build_ends S n sv build" and "closed_ids sv S" and "finite S"
    and "good v" and "finite (ids v)" and "card (ids v \<union> S) \<le> cap" and "card (S - ids v) < Suc n"
    and "\<And>link_id. found_string (tree_get (json_parser sv) link_obj [''id''] yajl_t_string) = Inr link_id \<Longrightarrow> link_id \<in> S"
  shows "ends good ids S v snd (build_subgroup seen mark sv build link_obj v)"
proof -
  have rec: "ends good ids S v snd (case build response v' of Err e \<Rightarrow> Err H5E_CANTBUILDLINKTABLE | r \<Rightarrow> r)"
    if k: "k \<in> S" "k \<notin> ids v" "mark v k = Some v'" and g: "get_url sv u = Inr response" for k v' u response
  proof -
    have "card (ids v) \<le> cap" using assms(3,5,6) by (meson card_mono finite_UnI le_trans sup_ge1)
    with mark_ids [OF assms(4) _ k(2,3)] have m: "good v'" "ids v' = insert k (ids v)" by auto
    have S: "ids v' \<union> S = ids v \<union> S" using m(2) k(1) by auto
    have "S - ids v' = (S - ids v) - {k}" using m(2) by auto
    then have "card (S - ids v') < card (S - ids v)"
      using k assms(3) by (metis DiffI card_Diff1_less finite_Diff)
    then have "ends good ids S v' snd (build response v')"
      using assms(1,2,5-7) m g S unfolding build_ends_def closed_ids_def by auto
    then show ?thesis
      using m(2) k(1) by (cases "build response v'") (auto simp: ends_def)
  qed
  show ?thesis
    unfolding build_subgroup_def seen_ids [OF assms(4)]
    by (auto intro!: ends_string_field ends_require ends_check split: sum.splits simp: ends_Ok assms(4))
      (rule rec, rule assms(8), assumption+)
qed

lemma build_entry_ends:
  assumes "build_ends S n sv build" and "closed_ids sv S" and "finite S"
    and "good v" and "finite (ids v)" and "card (ids v \<union> S) \<le> cap" and "card (S - ids v) < Suc n"
    and "\<And>link_id. found_string (tree_get (json_parser sv) link_obj [''id''] yajl_t_string) = Inr link_id \<Longrightarrow> link_id \<in> S"
  shows "ends good ids S v (snd \<circ> snd) (build_entry seen mark sv is_recursive build link_obj section_start v)"
proof -
  have sub: "ends good ids S v snd (if is_recursive \<and> t = H5L_TYPE_HARD
      then build_subgroup seen mark sv build link_obj v else Ok (None, v))" for t
    using build_subgroup_ends [OF assms] assms(4) by (simp add: ends_Ok)
  have "ends good ids S v (snd \<circ> snd)
      (run_bind (if is_recursive \<and> info_type info = H5L_TYPE_HARD
          then build_subgroup seen mark sv build link_obj v else Ok (None, v))
        (\<lambda>(sub, v). Ok (Entry name time info sub, rest, v)))" for name time info and rest :: "string option"
    by (rule ends_bind [OF sub], use sub in \<open>auto simp: ends_def\<close>)
  then show ?thesis
    unfolding build_entry_def
    by (auto intro!: ends_string_field ends_require split: option.splits sum.splits prod.splits split del: if_split)
qed

lemma build_entries_ends:
  assumes "build_ends S n sv build" and "closed_ids sv S" and "finite S"
  shows "good v \<Longrightarrow> finite (ids v) \<Longrightarrow> card (ids v \<union> S) \<le> cap \<Longrightarrow> card (S - ids v) < Suc n \<Longrightarrow>
    (\<And>l link_id. l \<in> set ls \<Longrightarrow>
       found_string (tree_get (json_parser sv) l [''id''] yajl_t_string) = Inr link_id \<Longrightarrow> link_id \<in> S) \<Longrightarrow>
    ends good ids S v snd (build_entries seen mark sv is_recursive build ls section_start v)"
proof (induction ls arbitrary: section_start v)
  case Nil
  then show ?case by (simp add: ends_Ok)
next
  case (Cons l ls)
  have E: "ends good ids S v (snd \<circ> snd) (build_entry seen mark sv is_recursive build l section_start v)"
    by (rule build_entry_ends [OF assms Cons.prems(1-4)]) (use Cons.prems(5) in auto)
  have "ends good ids S v1 snd (run_bind (build_entries seen mark sv is_recursive build ls rest v1) (\<lambda>(es, v). Ok (e # es, v)))"
    if "build_entry seen mark sv is_recursive build l section_start v = Ok (e, rest, v1)" for e rest v1
  proof -
    have v1: "good v1" "ids v \<subseteq> ids v1" "ids v1 \<subseteq> ids v \<union> S" using E that by (auto simp: ends_def)
    have "ids v1 \<union> S = ids v \<union> S" using v1 by auto
    moreover have "finite (ids v1)" using v1(3) Cons.prems(2) assms(3) by (meson finite_UnI finite_subset)
    moreover have "card (S - ids v1) \<le> card (S - ids v)" using v1(2) assms(3) by (meson Diff_mono card_mono finite_Diff order_refl)
    ultimately have R: "ends good ids S v1 snd (build_entries seen mark sv is_recursive build ls rest v1)"
      using Cons.prems v1(1) by (intro Cons.IH) auto
    show ?thesis by (rule ends_bind [OF R], use R in \<open>auto simp: ends_def\<close>)
  qed
  then show ?case unfolding build_entries.simps by (intro ends_bind [OF E]) (auto split: prod.splits)
qed

lemma build_link_table_ends:
  assumes "closed_ids sv S" and "finite S"
  shows "build_ends S n sv (build_link_table seen mark sv is_recursive sort_func n)"
proof (induction n)
  case 0
  then show ?case by (simp add: build_ends_def)
next
  case (Suc n)
  have "ends good ids S v snd (build_link_table seen mark sv is_recursive sort_func (Suc n) response v)"
    if h: "good v" "link_ids sv response \<subseteq> S" "finite (ids v)" "card (ids v \<union> S) \<le> cap" "card (S - ids v) < Suc n"
    for response v
  proof -
    have R: "ends good ids S v snd (build_entries seen mark sv is_recursive
        (build_link_table seen mark sv is_recursive sort_func n) links (Some start) v)"
      if "tree_parse (json_parser sv) response = Some t"
        and "tree_get (json_parser sv) t [''links''] yajl_t_array = Some (YArray links)" for t links start
      by (rule build_entries_ends [OF Suc assms h(1,3-5)]) (use h(2) that in \<open>auto simp: link_ids_def\<close>)
    have "ends good ids S v snd (run_bind (build_entries seen mark sv is_recursive
        (build_link_table seen mark sv is_recursive sort_func n) links (Some start) v)
        (\<lambda>(tbl, v). Ok (Some (case sort_func of None \<Rightarrow> tbl | Some cmp \<Rightarrow> qsort sv cmp tbl), v)))"
      if "tree_parse (json_parser sv) response = Some t"
        and "tree_get (json_parser sv) t [''links''] yajl_t_array = Some (YArray links)" for t links start
      by (rule ends_bind [OF R [OF that]], use R [OF that] in \<open>auto simp: ends_def\<close>)
    then show ?thesis
      by (auto intro!: ends_require ends_check simp: ends_Ok h(1) split: json.splits)
  qed
  then show ?case by (simp add: build_ends_def)
qed

end

definition table_keys :: "(string, 'v) hash_table \<Rightarrow> string set" where
  "table_keys t = fst ` set (contents t)"

lemma seen_iff:
  fixes t :: "(string, string) hash_table"
  assumes "ht_inv rv_hash_string H5_rest_compare_string_keys t"
  shows "visited_seen t k \<longleftrightarrow> k \<in> table_keys t"
  using string_keys.lookup_None_iff [OF assms, of k]
  by (auto simp: visited_seen_def table_keys_def H5_rest_compare_string_keys_def)

lemma insert_new_key:
  fixes t :: "(string, string) hash_table"
  assumes "string_table_ok t" and "rv_hash_table_insert c m t k v = (ok, t', fr)"
  shows "ht_inv rv_hash_string H5_rest_compare_string_keys t'"
    and "table_keys t' = (if ok then insert k (table_keys t) else table_keys t)"
    and "length (contents t') \<le> Suc (length (contents t))"
    and "c \<and> m \<Longrightarrow> ok"
proof -
  have inv: "ht_inv rv_hash_string H5_rest_compare_string_keys t" "length (contents t) \<le> ht_max_entries"
    using assms(1) by (simp_all add: string_table_ok_def)
  show inv': "ht_inv rv_hash_string H5_rest_compare_string_keys t'"
    by (rule string_keys.insert_inv [OF inv assms(2)])
  show "length (contents t') \<le> Suc (length (contents t))" by (rule insert_length [OF inv assms(2)])
  show "c \<and> m \<Longrightarrow> ok" using insert_succeeds [of t k v ok t' fr] assms(2) by auto
  have "k' \<in> table_keys t' \<longleftrightarrow> (ok \<and> k = k') \<or> k' \<in> table_keys t" for k'
    using string_keys.insert_lookup [OF inv assms(2), of k'] seen_iff [OF inv(1), of k'] seen_iff [OF inv', of k']
    by (auto simp: visited_seen_def H5_rest_compare_string_keys_def split: if_splits)
  then show "table_keys t' = (if ok then insert k (table_keys t) else table_keys t)" by auto
qed

lemma length_contents:
  assumes "ht_inv rv_hash_string H5_rest_compare_string_keys t"
  shows "length (contents t) = card (table_keys t)"
proof -
  have "keys_ok H5_rest_compare_string_keys (contents t)" using assms by (simp add: ht_inv_def)
  then have "distinct (map fst (contents t))"
    by (auto simp: keys_ok_def H5_rest_compare_string_keys_def distinct_map inj_on_def)
  from distinct_card [OF this] show ?thesis by (simp add: table_keys_def)
qed

text \<open>The connector's table of visited ids meets the contract.\<close>

interpretation visited_links: visited_set visited_seen "visited_mark c m" table_keys
    "ht_inv rv_hash_string H5_rest_compare_string_keys" ht_max_entries
  for c m
proof
  fix v :: "(string, string) hash_table" and k
  show "visited_seen v k \<longleftrightarrow> k \<in> table_keys v" if "ht_inv rv_hash_string H5_rest_compare_string_keys v"
    by (rule seen_iff [OF that])
next
  fix v v' :: "(string, string) hash_table" and k
  assume h: "ht_inv rv_hash_string H5_rest_compare_string_keys v" "card (table_keys v) \<le> ht_max_entries"
    "visited_mark c m v k = Some v'"
  then obtain fr where i: "rv_hash_table_insert c m v k k = (True, v', fr)"
    by (auto simp: visited_mark_def split: prod.splits if_splits)
  have "string_table_ok v" using h by (simp add: string_table_ok_def length_contents)
  from insert_new_key [OF this i]
  show "ht_inv rv_hash_string H5_rest_compare_string_keys v' \<and> table_keys v' = insert k (table_keys v)" by simp
qed

text \<open>
  The recursion ends, however the links of the server form cycles: no descent is deeper than the number
  of ids not visited before.
\<close>

lemma link_table_build_ends:
  assumes "finite S" and "closed_ids sv S" and "link_ids sv response \<subseteq> S"
    and "ht_inv rv_hash_string H5_rest_compare_string_keys visited"
    and "card (table_keys visited \<union> S) \<le> ht_max_entries"
    and "card (S - table_keys visited) < fuel"
  shows "RV_build_link_table c m sv is_recursive sort_func fuel (Some response) (Some visited) \<noteq> Out_Of_Fuel"
proof -
  have "ends (ht_inv rv_hash_string H5_rest_compare_string_keys) table_keys S visited snd
      (build_link_table visited_seen (visited_mark c m) sv is_recursive sort_func fuel response visited)"
    using visited_links.build_link_table_ends [OF assms(2,1), of fuel c m is_recursive sort_func] assms(3-6)
    by (simp add: visited_links.build_ends_def table_keys_def)
  then show ?thesis
    by (cases "build_link_table visited_seen (visited_mark c m) sv is_recursive sort_func fuel response visited")
      (auto simp: RV_build_link_table_def require_def ends_def)
qed

section \<open>Properties\<close>

lemma strncpy_at_fits:
  assumes "length s \<le> unat n" and "i + unat n = length buf"
  shows "strncpy_at i s n buf = Some (take i buf @ map Some (s @ replicate (unat n - length s) (CHR 0x00)))"
  using assms by (simp add: strncpy_at_def strncpy_bytes_fits write_bytes_def)

text \<open>The value as \<open>H5Lget_val\<close> promises it: a path, or flags, file name and path, each with its NUL.\<close>

definition link_value :: "link_type \<Rightarrow> string \<Rightarrow> string \<Rightarrow> string" where
  "link_value ty domain path =
     (if ty = H5L_TYPE_SOFT then path @ [CHR 0x00]
      else [CHR 0x00] @ domain @ [CHR 0x00] @ path @ [CHR 0x00])"


text \<open>
  The two calls of \<open>H5Lget_val\<close>: with the size 0 the callback returns the size of the value of a soft or
  external link, and with a block of that size it fills the block with the value.
\<close>

lemma link_value_in_two_calls:
  assumes "tree_parse y response = Some t"
    and "first_found y t [''link'', ''class''] [''class'']
       = Some (YString (if ty = H5L_TYPE_SOFT then ''H5L_TYPE_SOFT'' else ''H5L_TYPE_EXTERNAL''))"
    and "first_found y t [''link'', ''h5path''] [''h5path''] = Some (YString path)"
    and "first_found y t [''link'', ''h5domain''] [''h5domain''] = Some (YString domain)"
    and "length (link_value ty domain path) < 2 ^ 64"
    and "length buf = length (link_value ty domain path)"
  shows "\<exists>n. RV_get_link_val_callback y response 0 None = Some (Inr (), n, None) \<and> unat n = length buf \<and>
    RV_get_link_val_callback y response n (Some buf) = Some (Inr (), n, Some (map Some (link_value ty domain path)))"
proof -
  let ?n = "of_nat (length buf) :: u64"
  have n: "unat ?n = length buf" "0 < length buf" using assms(5,6) by (simp_all add: unsigned_of_nat take_bit_nat_eq_self link_value_def)
  then have n0: "?n \<noteq> 0" by (metis less_numeral_extra(3) unat_0)
  have n1: "unat (?n - 1) = length buf - 1" using n n0 by (simp add: unat_sub word_le_nat_alt Suc_le_eq)
  show ?thesis
  proof (cases "ty = H5L_TYPE_SOFT")
    case True
    have l: "length buf = length path + 1" using assms(6) True by (simp add: link_value_def)
    have "strncpy_at 0 path ?n buf = Some (map Some (path @ [CHR 0x00]))"
      by (subst strncpy_at_fits) (use n l in simp_all)
    with assms(1-4) True n n0 n1 l show ?thesis
      by (intro exI [of _ ?n]) (simp add: RV_get_link_val_callback_def found_string_def write_bytes_def link_value_def)
  next
    case False
    have l: "length buf = length domain + length path + 3" using assms(6) False by (simp add: link_value_def)
    let ?d = "of_nat (length domain) + 1 :: u64"
    have d: "unat ?d = length domain + 1"
      using unat_of_nat_u64 [of "length domain + 1"] assms(5,6) l by (simp add: add.commute)
    have n2: "unat (?n - 1 - ?d) = length path + 1"
      using n1 d l by (subst unat_sub) (simp_all add: word_le_nat_alt)
    have size: "1 + ?d + (of_nat (length path) + 1) = ?n" using l by simp
    let ?b = "Some (CHR 0x00) # map Some (domain @ CHR 0x00 # replicate (length path + 1) (CHR 0x00))"
    have w0: "write_bytes 0 [CHR 0x00] buf = Some (Some (CHR 0x00) # tl buf)"
      using n(2) by (cases buf) (simp_all add: write_bytes_def)
    have w1: "strncpy_at 1 domain (?n - 1) (Some (CHR 0x00) # tl buf) = Some ?b"
      by (subst strncpy_at_fits) (use n1 l in \<open>simp_all add: replicate_append_same [symmetric]\<close>)
    have w2: "strncpy_at (length domain + 2) path (?n - 1 - ?d) ?b = Some (map Some (link_value ty domain path))"
      by (subst strncpy_at_fits) (use n2 False in \<open>simp_all add: link_value_def\<close>)
    have ty: "first_found y t [''link'', ''class''] [''class''] = Some (YString ''H5L_TYPE_EXTERNAL'')"
      using assms(2) False by simp
    have "RV_get_link_val_callback y response 0 None = Some (Inr (), ?n, None)"
      using assms(1,3,4) ty size by (simp add: RV_get_link_val_callback_def found_string_def Let_def)
    moreover have "RV_get_link_val_callback y response ?n (Some buf) =
        Some (Inr (), ?n, Some (map Some (link_value ty domain path)))"
      using assms(1,3,4) ty n0 w0 w1 w2 by (simp add: RV_get_link_val_callback_def found_string_def Let_def)
    ultimately show ?thesis using n(1) by blast
  qed
qed

end
