(* ===== verification/Link_Visits.thy ===== *)
theory Link_Visits
  imports Links "HOL-Library.Sublist"
begin

text \<open>
  The traversal of the tables of links, from \<open>rest_vol_link.c\<close> and \<open>rest_vol_object.c\<close>: one loop, whose
  body for an entry is the step of \<open>RV_traverse_link_table\<close> (call the user's function) or the one of
  \<open>RV_traverse_object_table\<close> (call it for a hard link to an object not visited before), and the callbacks
  of \<open>H5Literate\<close>, \<open>H5Lvisit\<close> and \<open>H5Lget_name_by_idx\<close> that build and traverse a table.
\<close>

section \<open>The loop\<close>

text \<open>
  The state of an iteration: what the user's function works on, the index \<open>*idx_p\<close> (\<open>None\<close> for a null
  pointer) and the static \<open>depth\<close>.
\<close>

record 'u walk =
  user :: 'u
  idx_p :: "u64 option"
  depth :: u64

definition FAIL :: int where
  "FAIL = - 1"

definition SUCCEED :: int where
  "SUCCEED = 0"

definition rel_path_len :: "string option \<Rightarrow> nat" where
  "rel_path_len cur = (case cur of None \<Rightarrow> 0 | Some p \<Rightarrow> length p) + LINK_NAME_MAX_LENGTH + 2"

definition rel_path :: "string option \<Rightarrow> string \<Rightarrow> string" where
  "rel_path cur name = (case cur of None \<Rightarrow> name | Some p \<Rightarrow> p @ ''/'' @ name)"

text \<open>
  Where the loop starts and the entries from there on: \<open>Some None\<close> for an unknown order, \<open>None\<close> for a
  start behind the table when counting down.
\<close>

definition first_index :: "iter_order \<Rightarrow> u64 option \<Rightarrow> nat \<Rightarrow> nat option option" where
  "first_index ord ix num_entries =
     (if ord = H5_ITER_NATIVE \<or> ord = H5_ITER_INC then Some (Some (case ix of None \<Rightarrow> 0 | Some i \<Rightarrow> unat i))
      else if ord = H5_ITER_DEC
      then
        let last_idx = (case ix of None \<Rightarrow> num_entries - 1 | Some i \<Rightarrow> unat i)
        in if last_idx < num_entries then Some (Some last_idx) else None
      else Some None)"

definition entries_from :: "iter_order \<Rightarrow> nat \<Rightarrow> 'e list \<Rightarrow> 'e list" where
  "entries_from ord i tbl = (if ord = H5_ITER_DEC then rev (take (Suc i) tbl) else drop i tbl)"

text \<open>Counting down stops at 0 with the index 0.\<close>

definition next_index :: "iter_order \<Rightarrow> nat \<Rightarrow> nat" where
  "next_index ord i = (if ord = H5_ITER_DEC then i - 1 else Suc i)"

text \<open>What happens at \<open>done\<close>.\<close>

definition leave_table :: "int \<times> nat \<times> 'u walk \<Rightarrow> int \<times> 'u walk" where
  "leave_table res =
     (case res of (ret, last_idx, w) \<Rightarrow>
        (ret, if idx_p w \<noteq> None \<and> ret \<ge> 0 \<and> depth w = 0 then w\<lparr>idx_p := Some (of_nat last_idx)\<rparr> else w))"

lemma entries_from_size [termination_simp]:
  "size_list size (entries_from ord i tbl) \<le> size_list size tbl"
proof -
  have "size_list size (drop i tbl) \<le> size_list size tbl" for i and tbl :: "'a list"
    by (induction i arbitrary: tbl) (simp, case_tac tbl, auto intro: le_SucI trans_le_add2)
  moreover have "size_list size (take i tbl) \<le> size_list size tbl" for i and tbl :: "'a list"
    by (induction i arbitrary: tbl) (simp, case_tac tbl, auto)
  moreover have "size_list size (rev tbl) = size_list size tbl" for tbl :: "'a list"
    by (induction tbl) auto
  ultimately show ?thesis by (simp add: entries_from_def)
qed

text \<open>
  The loop of the two traversals; \<open>visit\<close> is the step for an entry with its path, and returns the number
  the user's function or the step returned.  A name that fills its block has no end: \<open>None\<close>.
\<close>

function traverse_table ::
  "(u64 \<Rightarrow> bool) \<Rightarrow> ('i \<Rightarrow> string \<Rightarrow> 'u \<Rightarrow> int \<times> 'u) \<Rightarrow> iter_order
     \<Rightarrow> ('t, 'i) link_table_entry list \<Rightarrow> string option \<Rightarrow> 'u walk \<Rightarrow> (int \<times> 'u walk) option"
and traverse_entries ::
  "(u64 \<Rightarrow> bool) \<Rightarrow> ('i \<Rightarrow> string \<Rightarrow> 'u \<Rightarrow> int \<times> 'u) \<Rightarrow> iter_order
     \<Rightarrow> ('t, 'i) link_table_entry list \<Rightarrow> nat \<Rightarrow> string option \<Rightarrow> 'u walk \<Rightarrow> (int \<times> nat \<times> 'u walk) option" where
  "traverse_table alloc visit ord tbl cur w =
     (if \<not> alloc (of_nat (rel_path_len cur)) then Some (FAIL, w)
      else
        (case first_index ord (idx_p w) (length tbl) of
           None \<Rightarrow> None
         | Some None \<Rightarrow> Some (FAIL, w)
         | Some (Some i) \<Rightarrow>
             map_option leave_table
               (traverse_entries alloc visit ord (entries_from ord i tbl) i cur w)))"
| "traverse_entries alloc visit ord [] last_idx cur w = Some (SUCCEED, last_idx, w)"
| "traverse_entries alloc visit ord (Entry name time info sub # es) last_idx cur w =
     (if length name \<ge> LINK_NAME_MAX_LENGTH then None
      else if length (rel_path cur name) \<ge> rel_path_len cur then Some (FAIL, last_idx, w)
      else
        (case visit info (rel_path cur name) (user w) of
           (callback_ret, u) \<Rightarrow>
             if callback_ret \<noteq> 0 then Some (callback_ret, last_idx, w\<lparr>user := u\<rparr>)
             else
               (case sub of
                  None \<Rightarrow> traverse_entries alloc visit ord es (next_index ord last_idx) cur (w\<lparr>user := u\<rparr>)
                | Some tbl \<Rightarrow>
                    (case traverse_table alloc visit ord tbl (Some (rel_path cur name))
                            (w\<lparr>user := u, depth := depth w + 1\<rparr>) of
                       None \<Rightarrow> None
                     | Some (ret, w) \<Rightarrow>
                         if ret < 0 then Some (FAIL, last_idx, w)
                         else
                           traverse_entries alloc visit ord es (next_index ord last_idx) cur
                             (w\<lparr>depth := depth w - 1\<rparr>)))))"
  by pat_completeness auto

termination
  by (relation "measure (\<lambda>x. case x of
       Inl (_, _, _, tbl, _, _) \<Rightarrow> Suc (2 * size_list size tbl)
     | Inr (_, _, _, es, _, _, _) \<Rightarrow> 2 * size_list size es)")
    (auto simp: less_Suc_eq_le entries_from_size)

section \<open>Links\<close>

text \<open>The user's function gets the path of the link, its info and \<open>op_data\<close>.\<close>

definition RV_traverse_link_table ::
  "(u64 \<Rightarrow> bool) \<Rightarrow> (string \<Rightarrow> link_info \<Rightarrow> 'u \<Rightarrow> int \<times> 'u) \<Rightarrow> iter_order
     \<Rightarrow> 't link_table \<Rightarrow> string option \<Rightarrow> 'u walk \<Rightarrow> (int \<times> 'u walk) option" where
  "RV_traverse_link_table alloc link_iter_op = traverse_table alloc (\<lambda>info path. link_iter_op path info)"

datatype index_type = H5_INDEX_NAME | H5_INDEX_CRT_ORDER

text \<open>
  The allocations of the hash table: of the table and its first chains, of larger chains, of entries.
\<close>

record table_allocs =
  table_ok :: bool
  chains_ok :: bool
  grow_ok :: bool
  entry_ok :: bool

definition new_visited_table :: "table_allocs \<Rightarrow> (string, string) hash_table option" where
  "new_visited_table a =
     map_option (\<lambda>t. rv_hash_table_register_free_functions t True False)
       (rv_hash_table_new (table_ok a) (chains_ok a) rv_hash_string H5_rest_compare_string_keys)"

definition iterate_table ::
  "(u64 \<Rightarrow> bool) \<Rightarrow> (string \<Rightarrow> link_info \<Rightarrow> 'u \<Rightarrow> int \<times> 'u) \<Rightarrow> iter_order
     \<Rightarrow> 't link_table option \<Rightarrow> 'u walk \<Rightarrow> ((link_failure + unit) \<times> 'u walk) run" where
  "iterate_table alloc link_iter_op ord tbl w =
     (case tbl of
        None \<Rightarrow> Ok (Inr (), w)
      | Some tbl \<Rightarrow>
          (case RV_traverse_link_table alloc link_iter_op ord tbl None w of
             None \<Rightarrow> Undef
           | Some (ret, w) \<Rightarrow> Ok (if ret < 0 then Inl H5E_LINKITERERROR else Inr (), w)))"

definition RV_link_iter_callback ::
  "table_allocs \<Rightarrow> ('t :: linorder) link_server \<Rightarrow> (string \<Rightarrow> link_info \<Rightarrow> 'u \<Rightarrow> int \<times> 'u) \<Rightarrow> bool
     \<Rightarrow> index_type \<Rightarrow> iter_order \<Rightarrow> nat \<Rightarrow> string option \<Rightarrow> 'u walk
     \<Rightarrow> ((link_failure + unit) \<times> 'u walk) run" where
  "RV_link_iter_callback a sv link_iter_op is_recursive index ord fuel response w =
     (case response of
        None \<Rightarrow> Ok (Inl (Minor H5E_BADVALUE), w)
      | Some r \<Rightarrow>
          let visited = (if is_recursive then new_visited_table a else None)
          in if is_recursive \<and> visited = None then Ok (Inl (Minor H5E_CANTALLOC), w)
             else
               (case RV_build_link_table (grow_ok a) (entry_ok a) sv is_recursive
                       (if index = H5_INDEX_CRT_ORDER then Some H5_rest_cmp_links_by_creation_order_inc else None)
                       fuel (Some r) visited of
                  Undef \<Rightarrow> Undef
                | Out_Of_Fuel \<Rightarrow> Out_Of_Fuel
                | Err e \<Rightarrow> Ok (Inl H5E_CANTBUILDLINKTABLE, w)
                | Ok (tbl, _) \<Rightarrow> iterate_table (malloc_ok sv) link_iter_op ord tbl w))"

definition name_sort_func ::
  "index_type \<Rightarrow> iter_order \<Rightarrow> ('t :: linorder, 'i) link_table_entry \<Rightarrow> ('t, 'i) link_table_entry \<Rightarrow> int" where
  "name_sort_func index ord =
     (if index = H5_INDEX_NAME
      then (if ord = H5_ITER_INC \<or> ord = H5_ITER_NATIVE then H5_rest_cmp_links_by_name_inc
            else H5_rest_cmp_links_by_name_dec)
      else (if ord = H5_ITER_INC \<or> ord = H5_ITER_NATIVE then H5_rest_cmp_links_by_creation_order_inc
            else H5_rest_cmp_links_by_creation_order_dec))"

text \<open>
  The name of the link at an index: its length, and the caller's block (\<open>None\<close> for NULL) with the name
  in it.  The recursive case fails, since there is no table of visited ids.  For a group without links
  no table is stored, and no index is below its length.
\<close>

definition RV_get_link_name_by_idx_callback ::
  "('t :: linorder) link_server \<Rightarrow> bool \<Rightarrow> index_type \<Rightarrow> iter_order \<Rightarrow> u64 \<Rightarrow> string option \<Rightarrow> u64
     \<Rightarrow> char option list option \<Rightarrow> (u64 \<times> char option list option) run" where
  "RV_get_link_name_by_idx_callback sv is_recursive index ord idx response name_len name_buf =
     require (Minor H5E_BADVALUE) response (\<lambda>response.
       case RV_build_link_table True True sv is_recursive (Some (name_sort_func index ord)) 1 (Some response) None of
         Undef \<Rightarrow> Undef
       | Out_Of_Fuel \<Rightarrow> Out_Of_Fuel
       | Err e \<Rightarrow> Err H5E_CANTBUILDLINKTABLE
       | Ok (tbl, _) \<Rightarrow>
           let tbl = (case tbl of None \<Rightarrow> [] | Some t \<Rightarrow> t)
           in if unat idx \<ge> length tbl then Err (Minor H5E_BADVALUE)
              else
                let name = link_name (tbl ! unat idx)
                in if length name \<ge> LINK_NAME_MAX_LENGTH then Undef
                   else
                     (case name_buf of
                        None \<Rightarrow> Ok (of_nat (length name), None)
                      | Some b \<Rightarrow>
                          if name_len = 0 then Ok (of_nat (length name), Some b)
                          else
                            (case do {
                               b \<leftarrow> strncpy_at 0 name name_len b;
                               write_bytes (unat name_len - 1) [CHR 0x00] b
                             } of
                               None \<Rightarrow> Undef
                             | Some b \<Rightarrow> Ok (of_nat (length name), Some b))))"

section \<open>Objects\<close>

text \<open>What a table of objects holds of a link; \<open>'o\<close> is the info of the object.\<close>

record 'o object_entry =
  entry_type :: link_type
  object_info :: 'o
  object_URI :: string

text \<open>
  The step for an entry: the user's function is called and the URI noted for a hard link to an object not
  visited before.  The state is the table of visited URIs and \<open>op_data\<close>.
\<close>

definition visit_object ::
  "(u64 \<Rightarrow> bool) \<Rightarrow> table_allocs \<Rightarrow> (string \<Rightarrow> 'o \<Rightarrow> 'u \<Rightarrow> int \<times> 'u) \<Rightarrow> 'o object_entry \<Rightarrow> string
     \<Rightarrow> (string, string) hash_table \<times> 'u \<Rightarrow> int \<times> (string, string) hash_table \<times> 'u" where
  "visit_object alloc a object_iter_op e path st =
     (case st of (visited, u) \<Rightarrow>
        if entry_type e = H5L_TYPE_HARD \<and> \<not> visited_seen visited (object_URI e)
        then
          (case object_iter_op path (object_info e) u of
             (callback_ret, u) \<Rightarrow>
               if callback_ret \<noteq> 0 then (callback_ret, visited, u)
               else if \<not> alloc (of_nat (length (object_URI e) + 1)) then (FAIL, visited, u)
               else
                 (case rv_hash_table_insert (grow_ok a) (entry_ok a) visited (object_URI e) (object_URI e) of
                    (ok, visited, _) \<Rightarrow> if ok then (0, visited, u) else (FAIL, visited, u)))
        else (0, visited, u))"

definition RV_traverse_object_table ::
  "(u64 \<Rightarrow> bool) \<Rightarrow> table_allocs \<Rightarrow> (string \<Rightarrow> 'o \<Rightarrow> 'u \<Rightarrow> int \<times> 'u) \<Rightarrow> iter_order
     \<Rightarrow> ('t, 'o object_entry) link_table_entry list \<Rightarrow> string option
     \<Rightarrow> ((string, string) hash_table \<times> 'u) walk \<Rightarrow> (int \<times> ((string, string) hash_table \<times> 'u) walk) option" where
  "RV_traverse_object_table alloc a object_iter_op =
     traverse_table alloc (visit_object alloc a object_iter_op)"

section \<open>The order of the visits\<close>

text \<open>The paths and infos of a table and its subgroups, a group before what it holds.\<close>

definition in_order :: "iter_order \<Rightarrow> 'e list \<Rightarrow> 'e list" where
  "in_order ord tbl = (if ord = H5_ITER_DEC then rev tbl else tbl)"

lemma in_order_size [termination_simp]: "size_list size (in_order ord tbl) = size_list size tbl"
proof -
  have "size_list size (rev tbl) = size_list size tbl" for tbl :: "'a list"
    by (induction tbl) auto
  then show ?thesis by (simp add: in_order_def)
qed

fun preorder :: "iter_order \<Rightarrow> string option \<Rightarrow> ('t, 'i) link_table_entry list \<Rightarrow> (string \<times> 'i) list" where
  "preorder ord cur [] = []"
| "preorder ord cur (Entry name time info sub # es) =
     (rel_path cur name, info)
       # (case sub of None \<Rightarrow> [] | Some tbl \<Rightarrow> preorder ord (Some (rel_path cur name)) (in_order ord tbl))
       @ preorder ord cur es"

text \<open>Every name has its terminating NUL, and no subgroup has an empty table.\<close>

fun well_formed :: "('t, 'i) link_table_entry list \<Rightarrow> bool" where
  "well_formed [] = True"
| "well_formed (Entry name time info sub # es) \<longleftrightarrow>
     length name < LINK_NAME_MAX_LENGTH \<and>
     (case sub of None \<Rightarrow> True | Some tbl \<Rightarrow> tbl \<noteq> [] \<and> well_formed tbl) \<and> well_formed es"

lemma well_formed_append [simp]: "well_formed (xs @ ys) \<longleftrightarrow> well_formed xs \<and> well_formed ys"
proof (induction xs)
  case (Cons e xs)
  then show ?case by (cases e) auto
qed simp

lemma well_formed_rev [simp]: "well_formed (rev xs) = well_formed xs"
proof (induction xs)
  case (Cons e xs)
  then show ?case by (cases e) auto
qed simp

lemma well_formed_in_order [simp]: "well_formed (in_order ord tbl) = well_formed tbl"
  by (simp add: in_order_def)

lemma first_index_all:
  assumes "tbl \<noteq> []" and "ord \<in> {H5_ITER_INC, H5_ITER_NATIVE, H5_ITER_DEC}"
  obtains i where "first_index ord None (length tbl) = Some (Some i)" and "entries_from ord i tbl = in_order ord tbl"
  using assms
  by (auto simp: first_index_def entries_from_def in_order_def Let_def Suc_diff_1 [OF length_greater_0_conv [THEN iffD2]])

text \<open>The calls in their order, up to the first that does not return 0.\<close>

fun call_all :: "('i \<Rightarrow> string \<Rightarrow> 'u \<Rightarrow> int \<times> 'u) \<Rightarrow> (string \<times> 'i) list \<Rightarrow> 'u \<Rightarrow> int \<times> 'u" where
  "call_all visit [] u = (0, u)"
| "call_all visit ((path, info) # xs) u =
     (case visit info path u of (ret, u) \<Rightarrow> if ret \<noteq> 0 then (ret, u) else call_all visit xs u)"

lemma call_all_append:
  "call_all visit (xs @ ys) u =
     (case call_all visit xs u of (ret, u) \<Rightarrow> if ret \<noteq> 0 then (ret, u) else call_all visit ys u)"
  by (induction visit xs u rule: call_all.induct) (auto split: prod.splits)

lemma call_all_nonpos:
  assumes "\<And>info path u. fst (visit info path u) \<le> 0"
  shows "fst (call_all visit xs u) \<le> 0"
  using assms
proof (induction visit xs u rule: call_all.induct)
  case (2 visit path info xs u)
  obtain ret u' where v: "visit info path u = (ret, u')" by fastforce
  show ?case
  proof (cases "ret = 0")
    case True
    with v "2.IH" [OF v [symmetric]] "2.prems" show ?thesis by simp
  next
    case False
    with v "2.prems" [of info path u] show ?thesis by simp
  qed
qed simp

lemma path_fits: "length name < LINK_NAME_MAX_LENGTH \<Longrightarrow> length (rel_path cur name) < rel_path_len cur"
  by (cases cur) (simp_all add: rel_path_def rel_path_len_def)

text \<open>What the traversal does to the state, given what the calls return.\<close>

definition follows_calls :: "int \<times> 'u \<Rightarrow> 'u walk \<Rightarrow> (int \<times> 'u walk) option \<Rightarrow> bool" where
  "follows_calls c w res \<longleftrightarrow>
     (if fst c < 0 then \<exists>ret d. ret < 0 \<and> res = Some (ret, w\<lparr>user := snd c, depth := d\<rparr>)
      else res = Some (0, w\<lparr>user := snd c\<rparr>))"

lemma follows_calls_user [simp]: "follows_calls c (w\<lparr>user := u\<rparr>) res = follows_calls c w res"
  by (cases "fst c < 0") (simp_all add: follows_calls_def)

definition no_index :: "int \<times> nat \<times> 'u walk \<Rightarrow> int \<times> 'u walk" where
  "no_index res = (fst res, snd (snd res))"

lemma traversal_follows_calls:
  fixes tbl es :: "('t, 'i) link_table_entry list"
  assumes "\<And>info path u. fst (visit info path u) \<le> 0" and "alloc = (\<lambda>_. True)"
    and "ord \<in> {H5_ITER_INC, H5_ITER_NATIVE, H5_ITER_DEC}"
  shows "well_formed tbl \<Longrightarrow> tbl \<noteq> [] \<Longrightarrow> idx_p w = None \<Longrightarrow>
      follows_calls (call_all visit (preorder ord cur (in_order ord tbl)) (user w)) w
        (traverse_table alloc visit ord tbl cur w)"
    and "well_formed es \<Longrightarrow> idx_p w' = None \<Longrightarrow>
      follows_calls (call_all visit (preorder ord cur' es) (user w')) w'
        (map_option no_index (traverse_entries alloc visit ord es i cur' w'))"
  using assms
proof (induction alloc visit ord tbl cur w and alloc visit ord es i cur' w' rule: traverse_table_traverse_entries.induct)
  case (1 alloc visit ord tbl cur w)
  obtain i where i: "first_index ord None (length tbl) = Some (Some i)" "entries_from ord i tbl = in_order ord tbl"
    using first_index_all [OF "1.prems"(2) "1.prems"(6)] by blast
  have fi: "first_index ord (idx_p w) (length tbl) = Some (Some i)" using i(1) "1.prems"(3) by simp
  have F: "follows_calls (call_all visit (preorder ord cur (in_order ord tbl)) (user w)) w
      (map_option no_index (traverse_entries alloc visit ord (in_order ord tbl) i cur w))"
    using "1.prems"(1,3-6) by (intro "1.IH" [OF _ fi refl, unfolded i(2)]) simp_all
  then have "map_option leave_table (traverse_entries alloc visit ord (in_order ord tbl) i cur w)
      = map_option no_index (traverse_entries alloc visit ord (in_order ord tbl) i cur w)"
    using "1.prems"(3)
    by (auto simp: follows_calls_def no_index_def leave_table_def split: if_splits)
  with F show ?case using "1.prems"(3,5) i by simp
next
  case (2 alloc visit ord last_idx cur w)
  then show ?case by (simp add: follows_calls_def no_index_def SUCCEED_def)
next
  case (3 alloc visit ord name time info sub es last_idx cur w)
  obtain ret u where v: "visit info (rel_path cur name) (user w) = (ret, u)" by fastforce
  have neg: "ret \<le> 0" using "3.prems"(3) [of info "rel_path cur name" "user w"] v by simp
  have fits: "length name < LINK_NAME_MAX_LENGTH" and wf: "well_formed es" using "3.prems"(1) by auto
  note E = fits path_fits [OF fits, of cur] v
  show ?case
  proof (cases "ret < 0")
    case True
    with E show ?thesis by (auto simp: follows_calls_def no_index_def intro: exI [of _ "depth w"])
  next
    case False
    with neg have r: "ret = 0" by simp
    show ?thesis
    proof (cases sub)
      case None
      have "follows_calls (call_all visit (preorder ord cur es) u) (w\<lparr>user := u\<rparr>)
          (map_option no_index (traverse_entries alloc visit ord es (next_index ord last_idx) cur (w\<lparr>user := u\<rparr>)))"
        using "3.IH"(1) [OF _ _ v [symmetric] _ None] E r wf "3.prems" by simp
      with E r None show ?thesis by simp
    next
      case (Some tbl)
      have wft: "well_formed tbl" "tbl \<noteq> []" using "3.prems"(1) Some by auto
      let ?w = "w\<lparr>user := u, depth := depth w + 1\<rparr>"
      let ?c = "call_all visit (preorder ord (Some (rel_path cur name)) (in_order ord tbl)) u"
      have T: "follows_calls ?c ?w (traverse_table alloc visit ord tbl (Some (rel_path cur name)) ?w)"
        using "3.IH"(2) [OF _ _ v [symmetric] _ Some] E r wft "3.prems" by simp
      show ?thesis
      proof (cases "fst ?c < 0")
        case True
        with T obtain ret' d where t: "ret' < 0" "traverse_table alloc visit ord tbl (Some (rel_path cur name)) ?w
            = Some (ret', ?w\<lparr>user := snd ?c, depth := d\<rparr>)"
          unfolding follows_calls_def by auto
        have "call_all visit (preorder ord cur (Entry name time info sub # es)) (user w) = ?c"
          using E r Some True by (auto simp: call_all_append split: prod.splits)
        with E r Some True t show ?thesis
          by (auto simp: follows_calls_def no_index_def FAIL_def simp del: preorder.simps)
      next
        case False
        with T have t: "traverse_table alloc visit ord tbl (Some (rel_path cur name)) ?w
            = Some (0, ?w\<lparr>user := snd ?c\<rparr>)"
          unfolding follows_calls_def by auto
        have z: "fst ?c = 0" using False call_all_nonpos [of visit] "3.prems"(3) by (meson antisym_conv1 not_less)
        have "follows_calls (call_all visit (preorder ord cur es) (snd ?c)) (w\<lparr>user := snd ?c\<rparr>)
            (map_option no_index (traverse_entries alloc visit ord es (next_index ord last_idx) cur (w\<lparr>user := snd ?c\<rparr>)))"
          using "3.IH"(3) [OF _ _ v [symmetric] _ Some t refl] E r wf "3.prems" by simp
        moreover have "call_all visit (preorder ord cur (Entry name time info sub # es)) (user w)
            = call_all visit (preorder ord cur es) (snd ?c)"
          using E r Some z by (auto simp: call_all_append split: prod.splits)
        ultimately show ?thesis using E r Some t by (simp del: preorder.simps)
      qed
    qed
  qed
qed

section \<open>Objects are visited once\<close>

text \<open>The hard links of a list of entries to objects not seen, each object once.\<close>

fun first_objects :: "string set \<Rightarrow> (string \<times> 'o object_entry) list \<Rightarrow> (string \<times> 'o object_entry) list" where
  "first_objects seen [] = []"
| "first_objects seen ((path, e) # xs) =
     (if entry_type e = H5L_TYPE_HARD \<and> object_URI e \<notin> seen
      then (path, e) # first_objects (insert (object_URI e) seen) xs
      else first_objects seen xs)"

definition hard_URIs :: "(string \<times> 'o object_entry) list \<Rightarrow> string set" where
  "hard_URIs xs = {object_URI e | path e. (path, e) \<in> set xs \<and> entry_type e = H5L_TYPE_HARD}"

lemma hard_URIs_simps [simp]:
  "hard_URIs [] = {}"
  "hard_URIs ((path, e) # xs) =
     (if entry_type e = H5L_TYPE_HARD then insert (object_URI e) (hard_URIs xs) else hard_URIs xs)"
  by (auto simp: hard_URIs_def)

lemma first_objects_once:
  "distinct (map (object_URI \<circ> snd) (first_objects seen xs)) \<and>
   (object_URI \<circ> snd) ` set (first_objects seen xs) = hard_URIs xs - seen"
  by (induction seen xs rule: first_objects.induct) auto

lemma first_objects_subset: "set (first_objects seen xs) \<subseteq> set xs"
  by (induction seen xs rule: first_objects.induct) auto

text \<open>The calls of the step on a list of entries.\<close>

lemma visit_objects:
  assumes "\<And>path info u. fst (op path info u) = 0" and "grow_ok a" and "entry_ok a"
  shows "ht_inv rv_hash_string H5_rest_compare_string_keys v \<Longrightarrow>
    length (contents v) + length xs \<le> ht_max_entries \<Longrightarrow>
    \<exists>v'. call_all (visit_object (\<lambda>_. True) a op) xs (v, u) =
      (0, v', fold (\<lambda>(path, e) u. snd (op path (object_info e) u)) (first_objects (table_keys v) xs) u)"
proof (induction "table_keys v" xs arbitrary: v u rule: first_objects.induct)
  case 1
  then show ?case by simp
next
  case (2 path e xs)
  have ok: "string_table_ok v" using "2.prems" by (simp add: string_table_ok_def)
  show ?case
  proof (cases "entry_type e = H5L_TYPE_HARD \<and> object_URI e \<notin> table_keys v")
    case True
    obtain r u' where o: "op path (object_info e) u = (r, u')" by fastforce
    have r: "r = 0" using assms(1) [of path "object_info e" u] o by simp
    obtain k v' fr where i: "rv_hash_table_insert (grow_ok a) (entry_ok a) v (object_URI e) (object_URI e) = (k, v', fr)"
      by (metis prod_cases3)
    note I = insert_new_key [OF ok i]
    have k: "k" using I(4) assms by simp
    show ?thesis
      using "2.hyps"(1) [of v' u'] True I(1-3) k r o i "2.prems"
      by (simp add: visit_object_def seen_iff)
  next
    case False
    then show ?thesis
      using "2.hyps"(2) [of v u] "2.prems" by (auto simp: visit_object_def seen_iff)
  qed
qed

section \<open>Properties\<close>

lemma first_objects_subseq: "subseq (first_objects seen xs) xs"
  by (induction seen xs rule: first_objects.induct) auto

lemma new_visited_empty:
  assumes "new_visited_table a = Some v"
  shows "ht_inv rv_hash_string H5_rest_compare_string_keys v" and "contents v = []"
  using assms string_keys.new_inv
  by (fastforce simp: new_visited_table_def rv_hash_table_register_free_functions_def ht_inv_def)+

text \<open>Without recursion the table is built in one pass.\<close>

lemma build_entries_flat:
  "build_entries seen mark sv False build ls section_start v \<noteq> Out_Of_Fuel"
proof (induction ls arbitrary: section_start v)
  case (Cons l ls)
  have "build_entry seen mark sv False build l section_start v \<noteq> Out_Of_Fuel"
    by (auto simp: build_entry_def string_field_def require_def split: sum.splits option.splits)
  with Cons show ?case
    by (cases "build_entry seen mark sv False build l section_start v") (auto split: prod.splits run.splits elim!: run_bind.elims)
qed simp

lemma build_table_flat:
  assumes "0 < fuel"
  shows "build_link_table seen mark sv False sort_func fuel response v \<noteq> Out_Of_Fuel"
proof -
  obtain n where "fuel = Suc n" using assms by (cases fuel) auto
  then show ?thesis
    by (auto simp: build_entries_flat check_def require_def split: option.splits json.splits elim!: run_bind.elims)
qed

lemma iteration_ends_if_build_ends:
  assumes "\<And>sort_func visited. is_recursive \<longrightarrow> visited \<noteq> None \<Longrightarrow> visited = (if is_recursive then new_visited_table a else None) \<Longrightarrow>
      RV_build_link_table (grow_ok a) (entry_ok a) sv is_recursive sort_func fuel (Some response) visited \<noteq> Out_Of_Fuel"
  shows "RV_link_iter_callback a sv link_iter_op is_recursive index ord fuel (Some response) w \<noteq> Out_Of_Fuel"
proof -
  have "iterate_table alloc link_iter_op ord tbl w \<noteq> Out_Of_Fuel" for alloc and tbl :: "'a link_table option"
    by (auto simp: iterate_table_def split: option.splits)
  then have "(case r of Undef \<Rightarrow> Undef | Out_Of_Fuel \<Rightarrow> Out_Of_Fuel | Err e \<Rightarrow> Ok (Inl H5E_CANTBUILDLINKTABLE, w)
      | Ok (tbl, x) \<Rightarrow> iterate_table alloc link_iter_op ord tbl w) \<noteq> Out_Of_Fuel"
    if "r \<noteq> Out_Of_Fuel" for alloc and r :: "('a link_table option \<times> 'c) run"
    using that by (cases r) auto
  note key = this
  show ?thesis
    unfolding RV_link_iter_callback_def Let_def option.case
  proof (split if_split, intro conjI impI)
    assume "\<not> (is_recursive \<and> (if is_recursive then new_visited_table a else None) = None)"
    then show "(case RV_build_link_table (grow_ok a) (entry_ok a) sv is_recursive
        (if index = H5_INDEX_CRT_ORDER then Some H5_rest_cmp_links_by_creation_order_inc else None) fuel (Some response)
        (if is_recursive then new_visited_table a else None) of
          Ok (tbl, x) \<Rightarrow> iterate_table (malloc_ok sv) link_iter_op ord tbl w
        | Err e \<Rightarrow> Ok (Inl H5E_CANTBUILDLINKTABLE, w) | Undef \<Rightarrow> Undef | Out_Of_Fuel \<Rightarrow> Out_Of_Fuel) \<noteq> Out_Of_Fuel"
      by (intro key assms) auto
  qed simp
qed

text \<open>
  C8: \<open>H5Lvisit\<close> ends, however the links on the server form cycles: when the ids that the responses
  of the server name are in a finite set, the recursion of \<open>RV_build_link_table\<close> is no deeper than
  the size of this set, whatever the memory, the order and the user's function do.
\<close>

theorem link_iteration_ends:
  assumes "finite S" and "card S \<le> ht_max_entries" and "closed_ids sv S" and "link_ids sv response \<subseteq> S"
    and "card S < fuel"
  shows "RV_link_iter_callback a sv link_iter_op is_recursive index ord fuel (Some response) w \<noteq> Out_Of_Fuel"
proof (rule iteration_ends_if_build_ends)
  fix sort_func visited
  assume v: "is_recursive \<longrightarrow> visited \<noteq> None" "visited = (if is_recursive then new_visited_table a else None)"
  show "RV_build_link_table (grow_ok a) (entry_ok a) sv is_recursive sort_func fuel (Some response) visited \<noteq> Out_Of_Fuel"
  proof (cases is_recursive)
    case True
    with v obtain t where t: "new_visited_table a = Some t" "visited = Some t" by auto
    show ?thesis
      unfolding t(2)
      using assms(2,5)
      by (intro link_table_build_ends [OF assms(1,3,4) new_visited_empty(1) [OF t(1)]])
        (simp_all add: table_keys_def new_visited_empty(2) [OF t(1)] del: set_concat)
  next
    case False
    have "0 < fuel" using assms(5) by simp
    with v False show ?thesis
      by (auto simp: RV_build_link_table_def require_def build_table_flat elim!: run_bind.elims)
  qed
qed

theorem link_iteration_ends_witness:
  "\<forall>a index ord w. RV_link_iter_callback a
     \<lparr>json_parser = \<lparr>tree_parse = \<lambda>s. Some YNull,
        tree_get = \<lambda>t ks ty. if ks = [''links''] then Some (YArray [YNull])
          else Some (YString (if ks = [''id''] then ''g-1'' else if ks = [''collection''] then ''groups''
            else if ks = [''title''] then ''again'' else ''H5L_TYPE_HARD''))\<rparr>,
      get_double = \<lambda>t. Some (0::nat), get_url = \<lambda>url. Inr (CHR 0x22 # ''links'' @ [CHR 0x22] @ '': [{}]''),
      escape = Some, base_URL = ''http://h'', malloc_ok = \<lambda>n. True, qsort = \<lambda>cmp es. es\<rparr>
     (\<lambda>path info n. (0, Suc n)) True index ord 2 (Some (CHR 0x22 # ''links'' @ [CHR 0x22] @ '': [{}]'')) w \<noteq> Out_Of_Fuel"
proof -
  let ?sv = "\<lparr>json_parser = \<lparr>tree_parse = \<lambda>s. Some YNull,
        tree_get = \<lambda>t ks ty. if ks = [''links''] then Some (YArray [YNull])
          else Some (YString (if ks = [''id''] then ''g-1'' else if ks = [''collection''] then ''groups''
            else if ks = [''title''] then ''again'' else ''H5L_TYPE_HARD''))\<rparr>,
      get_double = \<lambda>t. Some (0::nat), get_url = \<lambda>url. Inr (CHR 0x22 # ''links'' @ [CHR 0x22] @ '': [{}]''),
      escape = Some, base_URL = ''http://h'', malloc_ok = \<lambda>n. True, qsort = \<lambda>cmp es. es\<rparr>"
  have i: "link_ids ?sv r \<subseteq> {''g-1''}" for r by (auto simp: link_ids_def found_string_def)
  then have c: "closed_ids ?sv {''g-1''}" unfolding closed_ids_def by blast
  show ?thesis
    by (intro allI link_iteration_ends [OF _ _ c i]) (simp_all add: ht_max_entries_def)
qed

text \<open>
  C16: while the user's function does not return a positive number, \<open>RV_traverse_link_table\<close> calls it for
  the links of a table and its subgroups in preorder (in the reverse order of every table for
  \<open>H5_ITER_DEC\<close>), with the path of the link, up to the first call that fails, and fails when that call does.
\<close>

theorem links_visited_in_preorder:
  assumes "\<And>path info u. fst (link_iter_op path info u) \<le> 0" and "\<And>n. alloc n"
    and "ord \<in> {H5_ITER_INC, H5_ITER_NATIVE, H5_ITER_DEC}"
    and "well_formed tbl" and "tbl \<noteq> []" and "idx_p w = None"
    and "call_all (\<lambda>info path. link_iter_op path info) (preorder ord cur (in_order ord tbl)) (user w) = (ret, u)"
  shows "(ret = 0 \<longrightarrow>
       RV_traverse_link_table alloc link_iter_op ord tbl cur w = Some (0, w\<lparr>user := u\<rparr>)) \<and>
    (ret < 0 \<longrightarrow>
       (\<exists>r d. r < 0 \<and> RV_traverse_link_table alloc link_iter_op ord tbl cur w = Some (r, w\<lparr>user := u, depth := d\<rparr>)))"
proof -
  have "alloc = (\<lambda>_. True)" using assms(2) by auto
  with traversal_follows_calls(1) [where visit = "\<lambda>info path. link_iter_op path info" and cur = cur, OF _ _ assms(3-6)] assms(1)
  have "follows_calls (ret, u) w (RV_traverse_link_table alloc link_iter_op ord tbl cur w)"
    by (simp add: RV_traverse_link_table_def assms(7))
  then show ?thesis by (simp add: follows_calls_def split: if_splits)
qed

theorem links_visited_in_preorder_witness:
  "\<exists>r d. r < 0 \<and> RV_traverse_link_table (\<lambda>_. True)
     (\<lambda>path info u. (if path = ''g/b'' then - 1 else 0, u @ [(path, info_type info)])) H5_ITER_DEC
     [Entry ''a'' (0::nat) \<lparr>info_type = H5L_TYPE_SOFT, val_size = 3\<rparr> None,
      Entry ''g'' 1 \<lparr>info_type = H5L_TYPE_HARD, val_size = 0\<rparr>
        (Some [Entry ''b'' 2 \<lparr>info_type = H5L_TYPE_HARD, val_size = 0\<rparr> None,
               Entry ''c'' 3 \<lparr>info_type = H5L_TYPE_SOFT, val_size = 2\<rparr> None])] None
     \<lparr>user = [], idx_p = None, depth = 0\<rparr>
   = Some (r, \<lparr>user = [(''g'', H5L_TYPE_HARD), (''g/c'', H5L_TYPE_SOFT), (''g/b'', H5L_TYPE_HARD)],
               idx_p = None, depth = d\<rparr>)"
  using links_visited_in_preorder [of "\<lambda>path info u. (if path = ''g/b'' then - 1 else 0, u @ [(path, info_type info)])"
      "\<lambda>_. True" H5_ITER_DEC
      "[Entry ''a'' (0::nat) \<lparr>info_type = H5L_TYPE_SOFT, val_size = 3\<rparr> None,
        Entry ''g'' 1 \<lparr>info_type = H5L_TYPE_HARD, val_size = 0\<rparr>
          (Some [Entry ''b'' 2 \<lparr>info_type = H5L_TYPE_HARD, val_size = 0\<rparr> None,
                 Entry ''c'' 3 \<lparr>info_type = H5L_TYPE_SOFT, val_size = 2\<rparr> None])]"
      "\<lparr>user = [], idx_p = None, depth = 0\<rparr>" None "- 1"
      "[(''g'', H5L_TYPE_HARD), (''g/c'', H5L_TYPE_SOFT), (''g/b'', H5L_TYPE_HARD)]"]
  by (simp add: LINK_NAME_MAX_LENGTH_def in_order_def rel_path_def)



end
