(* ===== verification/Datatypes.thy ===== *)
theory Datatypes
  imports Responses
begin

text \<open>
  Datatypes and their conversion, from \<open>rest_vol_datatype.c\<close>: whether a transfer needs a type conversion
  (\<open>RV_need_tconv\<close>), whether the conversion needs a background buffer and whether this has to be filled
  first (\<open>RV_need_bkg\<close>), and the buffers of a conversion (\<open>RV_tconv_init\<close>).

  The datatypes themselves are objects of HDF5.  A datatype is modelled by what HDF5's queries answer
  for it: \<open>h5t\<close> has a constructor for each class, with the size, the members, and so on.  The queries
  succeed on a valid datatype; \<open>H5T_NO_CLASS\<close> stands for an invalid one.
\<close>

section \<open>Datatypes\<close>

datatype byte_order = H5T_ORDER_LE | H5T_ORDER_BE | H5T_ORDER_VAX | H5T_ORDER_MIXED | H5T_ORDER_NONE

datatype number_sign = H5T_SGN_NONE | H5T_SGN_2

text \<open>
  The flag of a string says that its length is variable, the one of a reference that it refers to an
  object.  The values of an enumeration are bytes of the base type.  A committed datatype has a URI.
\<close>

datatype h5t =
    H5T_INTEGER u64 byte_order number_sign
  | H5T_FLOAT u64 byte_order
  | H5T_TIME u64
  | H5T_BITFIELD u64
  | H5T_OPAQUE u64
  | H5T_STRING bool u64
  | H5T_COMPOUND u64 "h5t_member list"
  | H5T_ENUM h5t "(string \<times> u8 list) list"
  | H5T_ARRAY h5t "u64 list"
  | H5T_REFERENCE bool u64
  | H5T_VLEN h5t u64
  | Committed string h5t
  | H5T_NO_CLASS
and h5t_member = Member (member_name: string) (member_offset: u64) (member_type: h5t)

fun H5Tget_size :: "h5t \<Rightarrow> u64" where
  "H5Tget_size (H5T_INTEGER n _ _) = n"
| "H5Tget_size (H5T_FLOAT n _) = n"
| "H5Tget_size (H5T_TIME n) = n"
| "H5Tget_size (H5T_BITFIELD n) = n"
| "H5Tget_size (H5T_OPAQUE n) = n"
| "H5Tget_size (H5T_STRING _ n) = n"
| "H5Tget_size (H5T_COMPOUND n _) = n"
| "H5Tget_size (H5T_ENUM base _) = H5Tget_size base"
| "H5Tget_size (H5T_ARRAY base dims) = prod_list dims * H5Tget_size base"
| "H5Tget_size (H5T_REFERENCE _ n) = n"
| "H5Tget_size (H5T_VLEN _ n) = n"
| "H5Tget_size (Committed _ t) = H5Tget_size t"
| "H5Tget_size H5T_NO_CLASS = 0"

text \<open>\<open>H5Tget_super\<close>, and \<open>H5Tget_member_index\<close> with \<open>H5Tget_member_type\<close>.\<close>

fun H5Tget_super :: "h5t \<Rightarrow> h5t option" where
  "H5Tget_super (H5T_ENUM base _) = Some base"
| "H5Tget_super (H5T_ARRAY base _) = Some base"
| "H5Tget_super (H5T_VLEN base _) = Some base"
| "H5Tget_super (Committed _ t) = H5Tget_super t"
| "H5Tget_super _ = None"

text \<open>
  The outer option says whether there is a member of this name, the inner one is its type: members of
  an enumeration have none.
\<close>

fun named_member :: "h5t \<Rightarrow> string \<Rightarrow> h5t option option" where
  "named_member (H5T_COMPOUND _ ms) name =
     map_option (\<lambda>m. Some (member_type m)) (find (\<lambda>m. member_name m = name) ms)"
| "named_member (H5T_ENUM _ vs) name = (if name \<in> fst ` set vs then Some None else None)"
| "named_member (Committed _ t) name = named_member t name"
| "named_member _ name = None"

section \<open>Need for a conversion\<close>

datatype type_failure =
    Minor failure | H5E_CANTINIT | H5E_CANTCONVERT | H5E_BADTYPE | H5E_CANTINSERT | H5E_CANTCOPY | H5E_CANTSET
  | H5E_CANTENCODE | H5E_CANTDECODE

fun RV_detect_vl_vlstr_ref :: "h5t \<Rightarrow> type_failure + bool"
and detect_members :: "h5t_member list \<Rightarrow> type_failure + bool" where
  "RV_detect_vl_vlstr_ref (H5T_STRING is_variable _) = Inr is_variable"
| "RV_detect_vl_vlstr_ref (H5T_COMPOUND _ ms) = detect_members ms"
| "RV_detect_vl_vlstr_ref (H5T_ARRAY base _) =
     (case RV_detect_vl_vlstr_ref base of Inl e \<Rightarrow> Inl H5E_CANTINIT | Inr b \<Rightarrow> Inr b)"
| "RV_detect_vl_vlstr_ref (H5T_REFERENCE _ _) = Inr True"
| "RV_detect_vl_vlstr_ref (H5T_VLEN _ _) = Inr True"
| "RV_detect_vl_vlstr_ref (Committed _ t) = RV_detect_vl_vlstr_ref t"
| "RV_detect_vl_vlstr_ref H5T_NO_CLASS = Inl (Minor H5E_CANTGET)"
| "RV_detect_vl_vlstr_ref _ = Inr False"
| "detect_members [] = Inr False"
| "detect_members (Member _ _ t # ms) =
     (case RV_detect_vl_vlstr_ref t of
        Inl e \<Rightarrow> Inl H5E_CANTINIT
      | Inr b \<Rightarrow> if b then Inr True else detect_members ms)"

text \<open>\<open>H5Tequal\<close> is an argument.\<close>

definition RV_need_tconv :: "(h5t \<Rightarrow> h5t \<Rightarrow> bool) \<Rightarrow> h5t \<Rightarrow> h5t \<Rightarrow> type_failure + bool" where
  "RV_need_tconv H5Tequal src dst =
     (if H5Tequal src dst
      then (case RV_detect_vl_vlstr_ref src of Inl e \<Rightarrow> Inl H5E_CANTINIT | Inr b \<Rightarrow> Inr b)
      else Inr True)"

section \<open>The background buffer\<close>

text \<open>
  The result is whether a buffer is needed, and \<open>fill_bkg\<close>, an in and out argument; the size that is
  returned as well is the one of the destination.  \<open>bkg_members\<close> is the loop over the members, with the
  size used so far.  The recursion is on the destination.
\<close>

fun RV_need_bkg :: "bool \<Rightarrow> h5t \<Rightarrow> h5t \<Rightarrow> bool \<Rightarrow> type_failure + bool \<times> bool"
and bkg_members :: "bool \<Rightarrow> h5t \<Rightarrow> h5t_member list \<Rightarrow> u64 \<Rightarrow> u64 \<Rightarrow> bool \<Rightarrow> type_failure + bool \<times> bool"
and bkg_class :: "bool \<Rightarrow> h5t \<Rightarrow> h5t \<Rightarrow> bool \<Rightarrow> type_failure + bool \<times> bool" where
  "RV_need_bkg dst_file src dst fill_bkg =
     (if H5Tget_size dst = 0 then Inl (Minor H5E_CANTGET) else bkg_class dst_file src dst fill_bkg)"
| "bkg_class dst_file src (H5T_REFERENCE _ _) fill_bkg = Inr (if dst_file then (True, True) else (False, fill_bkg))"
| "bkg_class dst_file src (H5T_VLEN _ _) fill_bkg = Inr (if dst_file then (True, True) else (False, fill_bkg))"
| "bkg_class dst_file src (H5T_COMPOUND n ms) fill_bkg = bkg_members dst_file src ms n 0 fill_bkg"
| "bkg_class dst_file src (H5T_ARRAY base _) fill_bkg =
     (case H5Tget_super src of
        None \<Rightarrow> Inl (Minor H5E_CANTGET)
      | Some src \<Rightarrow>
          (case RV_need_bkg dst_file src base fill_bkg of Inl e \<Rightarrow> Inl H5E_CANTINIT | Inr r \<Rightarrow> Inr r))"
| "bkg_class dst_file src (Committed _ t) fill_bkg = bkg_class dst_file src t fill_bkg"
| "bkg_class dst_file src H5T_NO_CLASS fill_bkg = Inl (Minor H5E_CANTGET)"
| "bkg_class dst_file src _ fill_bkg = Inr (False, fill_bkg)"
| "bkg_members dst_file src [] n size_used fill_bkg = Inr (True, if size_used \<noteq> n then True else fill_bkg)"
| "bkg_members dst_file src (Member name _ t # ms) n size_used fill_bkg =
     (case named_member src name of
        None \<Rightarrow> Inr (True, True)
      | Some None \<Rightarrow> Inl (Minor H5E_CANTGET)
      | Some (Some src_member) \<Rightarrow>
          (case RV_need_bkg dst_file src_member t fill_bkg of
             Inl e \<Rightarrow> Inl H5E_CANTINIT
           | Inr (_, fill_bkg) \<Rightarrow>
               if fill_bkg then Inr (True, True)
               else bkg_members dst_file src ms n (size_used + H5Tget_size t) fill_bkg))"

section \<open>The buffers of a conversion\<close>

datatype RV_tconv_reuse = RV_TCONV_REUSE_NONE | RV_TCONV_REUSE_TCONV | RV_TCONV_REUSE_BKG

text \<open>
  The out arguments: the sizes, the blocks by their sizes (with a flag for a block filled with zeros), the
  reuse of the destination (\<open>None\<close> when it cannot be reused, for a null pointer) and the flag.
\<close>

record conversion =
  src_type_size :: u64
  dst_type_size :: u64
  tconv_buf :: "(u64 \<times> bool) option"
  bkg_buf :: "(u64 \<times> bool) option"
  reuse :: "RV_tconv_reuse option"
  fill_bkg :: bool

definition no_conversion :: "bool \<Rightarrow> conversion" where
  "no_conversion may_reuse =
     \<lparr>src_type_size = 0, dst_type_size = 0, tconv_buf = None, bkg_buf = None,
      reuse = (if may_reuse then Some RV_TCONV_REUSE_NONE else None), fill_bkg = False\<rparr>"

text \<open>What happens at \<open>done\<close> after an error.\<close>

definition tconv_cleanup :: "conversion \<Rightarrow> conversion" where
  "tconv_cleanup c =
     c\<lparr>tconv_buf := None, bkg_buf := None, reuse := map_option (\<lambda>_. RV_TCONV_REUSE_NONE) (reuse c)\<rparr>"

definition choose_reuse :: "bool \<Rightarrow> u64 \<Rightarrow> u64 \<Rightarrow> RV_tconv_reuse \<Rightarrow> RV_tconv_reuse" where
  "choose_reuse need_bkg src_size dst_size r =
     (if dst_size \<ge> src_size then RV_TCONV_REUSE_TCONV else if need_bkg then RV_TCONV_REUSE_BKG else r)"

definition RV_tconv_init ::
  "(u64 \<Rightarrow> bool) \<Rightarrow> h5t \<Rightarrow> h5t \<Rightarrow> u64 \<Rightarrow> bool \<Rightarrow> bool \<Rightarrow> bool \<Rightarrow> (type_failure + unit) \<times> conversion" where
  "RV_tconv_init alloc src dst num_elem clear_tconv_buf dst_file may_reuse =
     (let c = no_conversion may_reuse
      in if num_elem = 0 then (Inr (), c)
         else if H5Tget_size src = 0 then (Inl (Minor H5E_CANTGET), tconv_cleanup c)
         else
           let c = c\<lparr>src_type_size := H5Tget_size src, dst_type_size := H5Tget_size dst\<rparr>
           in case RV_need_bkg dst_file src dst False of
                Inl e \<Rightarrow> (Inl H5E_CANTINIT, tconv_cleanup c)
              | Inr (need_bkg, fill) \<Rightarrow>
                  let c = c\<lparr>fill_bkg := fill,
                       reuse := map_option (choose_reuse need_bkg (src_type_size c) (dst_type_size c)) (reuse c)\<rparr>;
                      tconv_size = num_elem * max (src_type_size c) (dst_type_size c);
                      new_tconv = reuse c \<noteq> Some RV_TCONV_REUSE_TCONV;
                      new_bkg = need_bkg \<and> reuse c \<noteq> Some RV_TCONV_REUSE_BKG;
                      bkg_size = num_elem * dst_type_size c
                  in if new_tconv \<and> \<not> alloc tconv_size then (Inl (Minor H5E_CANTALLOC), tconv_cleanup c)
                     else
                       let c = c\<lparr>tconv_buf := (if new_tconv then Some (tconv_size, clear_tconv_buf) else None)\<rparr>
                       in if new_bkg \<and> \<not> alloc bkg_size then (Inl (Minor H5E_CANTALLOC), tconv_cleanup c)
                          else (Inr (), c\<lparr>bkg_buf := (if new_bkg then Some (bkg_size, True) else None)\<rparr>))"

section \<open>What the code promises\<close>

text \<open>The types at the leaves of a compound or array, and those that always need a conversion.\<close>

fun leaf_types :: "h5t \<Rightarrow> h5t list" and member_leaves :: "h5t_member list \<Rightarrow> h5t list" where
  "leaf_types (H5T_COMPOUND _ ms) = member_leaves ms"
| "leaf_types (H5T_ARRAY base _) = leaf_types base"
| "leaf_types (Committed _ t) = leaf_types t"
| "leaf_types t = [t]"
| "member_leaves [] = []"
| "member_leaves (Member _ _ t # ms) = leaf_types t @ member_leaves ms"

fun in_memory :: "h5t \<Rightarrow> bool" where
  "in_memory (H5T_STRING is_variable _) = is_variable"
| "in_memory (H5T_REFERENCE _ _) = True"
| "in_memory (H5T_VLEN _ _) = True"
| "in_memory _ = False"

lemma detect_leaves:
  "H5T_NO_CLASS \<notin> set (leaf_types t) \<Longrightarrow> RV_detect_vl_vlstr_ref t = Inr (\<exists>l\<in>set (leaf_types t). in_memory l)"
  "H5T_NO_CLASS \<notin> set (member_leaves ms) \<Longrightarrow> detect_members ms = Inr (\<exists>l\<in>set (member_leaves ms). in_memory l)"
  by (induction t and ms rule: leaf_types_member_leaves.induct) auto

text \<open>
  The offsets of the destination that a conversion writes: all of a simple type, for a compound those of
  the members with a member of the same name in the source.
\<close>

fun written :: "h5t \<Rightarrow> h5t \<Rightarrow> nat set" and written_members :: "h5t \<Rightarrow> h5t_member list \<Rightarrow> nat set" where
  "written src (H5T_COMPOUND n ms) = written_members src ms"
| "written src (H5T_ARRAY base dims) =
     (case H5Tget_super src of
        None \<Rightarrow> {}
      | Some s \<Rightarrow> (\<Union>k<unat (prod_list dims). (\<lambda>i. k * unat (H5Tget_size base) + i) ` written s base))"
| "written src (Committed _ t) = written src t"
| "written src t = {..<unat (H5Tget_size t)}"
| "written_members src [] = {}"
| "written_members src (Member name off t # ms) =
     (case named_member src name of
        Some (Some s) \<Rightarrow> (\<lambda>i. unat off + i) ` written s t
      | _ \<Rightarrow> {}) \<union> written_members src ms"

text \<open>The place of a member in its compound, and layouts as HDF5 makes them.\<close>

definition member_extent :: "h5t_member \<Rightarrow> nat set" where
  "member_extent m = {unat (member_offset m)..<unat (member_offset m) + unat (H5Tget_size (member_type m))}"

fun laid_out :: "h5t \<Rightarrow> bool" and members_laid_out :: "nat \<Rightarrow> h5t_member list \<Rightarrow> bool" where
  "laid_out (H5T_COMPOUND n ms) \<longleftrightarrow> members_laid_out (unat n) ms"
| "laid_out (H5T_ARRAY base dims) \<longleftrightarrow>
     laid_out base \<and> unat (prod_list dims) * unat (H5Tget_size base) < 2 ^ 64"
| "laid_out (Committed _ t) \<longleftrightarrow> laid_out t"
| "laid_out t \<longleftrightarrow> True"
| "members_laid_out n [] \<longleftrightarrow> True"
| "members_laid_out n (Member name off t # ms) \<longleftrightarrow>
     laid_out t \<and> member_extent (Member name off t) \<subseteq> {..<n} \<and>
     (\<forall>m\<in>set ms. member_extent (Member name off t) \<inter> member_extent m = {}) \<and> members_laid_out n ms"

lemma members_laid_out_Cons:
  "members_laid_out n (m # ms) \<longleftrightarrow>
     laid_out (member_type m) \<and> member_extent m \<subseteq> {..<n} \<and>
     (\<forall>m'\<in>set ms. member_extent m \<inter> member_extent m' = {}) \<and> members_laid_out n ms"
  by (cases m) simp

definition extents :: "h5t_member list \<Rightarrow> nat set" where
  "extents ms = (\<Union>m\<in>set ms. member_extent m)"

lemma extents_simps [simp]: "extents [] = {}" "extents (m # ms) = member_extent m \<union> extents ms"
  by (simp_all add: extents_def)

lemma extents_layout:
  assumes "members_laid_out n ms"
  shows "extents ms \<subseteq> {..<n}" and "card (extents ms) = (\<Sum>m\<leftarrow>ms. unat (H5Tget_size (member_type m)))"
proof -
  have "extents ms \<subseteq> {..<n} \<and> finite (extents ms) \<and>
      card (extents ms) = (\<Sum>m\<leftarrow>ms. unat (H5Tget_size (member_type m)))"
    using assms
  proof (induction ms)
    case (Cons m ms)
    note L = Cons.prems [unfolded members_laid_out_Cons]
    with Cons.IH have I: "extents ms \<subseteq> {..<n}" "finite (extents ms)"
      "card (extents ms) = (\<Sum>m\<leftarrow>ms. unat (H5Tget_size (member_type m)))" by simp_all
    have "member_extent m \<inter> extents ms = {}" using L by (auto simp: extents_def)
    then have "card (extents (m # ms)) = card (member_extent m) + card (extents ms)"
      using I(2) by (simp add: card_Un_disjoint member_extent_def)
    with I L show ?case by (simp add: member_extent_def)
  qed simp
  then show "extents ms \<subseteq> {..<n}" "card (extents ms) = (\<Sum>m\<leftarrow>ms. unat (H5Tget_size (member_type m)))" by auto
qed

lemma image_plus: "(\<lambda>i. a + i) ` {..<n} = {a..<a + n}" for a n :: nat
proof (intro set_eqI iffI)
  fix x assume "x \<in> {a..<a + n}"
  then have "x = a + (x - a)" "x - a \<in> {..<n}" by auto
  then show "x \<in> (\<lambda>i. a + i) ` {..<n}" by blast
qed auto

lemma unat_sum_list: "(\<Sum>x\<leftarrow>xs. unat (f x)) < 2 ^ 64 \<Longrightarrow> unat (\<Sum>x\<leftarrow>xs. f x :: u64) = (\<Sum>x\<leftarrow>xs. unat (f x))"
proof -
  have "(\<Sum>x\<leftarrow>xs. f x) = of_nat (\<Sum>x\<leftarrow>xs. unat (f x))" by (induction xs) simp_all
  then show "(\<Sum>x\<leftarrow>xs. unat (f x)) < 2 ^ 64 \<Longrightarrow> unat (\<Sum>x\<leftarrow>xs. f x) = (\<Sum>x\<leftarrow>xs. unat (f x))"
    by (simp only: unat_of_nat_u64)
qed

lemma array_blocks: "(\<Union>k<m. (\<lambda>i. k * n + i) ` {..<n}) = {..<m * n}" for m n :: nat
proof (induction m)
  case (Suc m)
  have "{..<Suc m} = insert m {..<m}" by auto
  then have "(\<Union>k<Suc m. (\<lambda>i. k * n + i) ` {..<n}) = {m * n..<m * n + n} \<union> {..<m * n}"
    using Suc by (simp add: image_plus)
  also have "\<dots> = {..<Suc m * n}" by auto
  finally show ?case .
qed simp

lemma unfilled_written:
  "RV_need_bkg dst_file src dst fill = Inr (b, False) \<Longrightarrow> \<not> dst_file \<Longrightarrow> laid_out dst \<Longrightarrow>
     written src dst = {..<unat (H5Tget_size dst)}"
  "bkg_members dst_file src ms n u fill = Inr (b', False) \<Longrightarrow> \<not> dst_file \<Longrightarrow> members_laid_out N ms \<Longrightarrow>
     written_members src ms = extents ms \<and> n = u + (\<Sum>m\<leftarrow>ms. H5Tget_size (member_type m))"
  "bkg_class dst_file src t fill = Inr (b'', False) \<Longrightarrow> \<not> dst_file \<Longrightarrow> laid_out t \<Longrightarrow>
     written src t = {..<unat (H5Tget_size t)}"
proof (induction dst_file src dst fill and dst_file src ms n u fill and dst_file src t fill
    arbitrary: b and b' N and b'' rule: RV_need_bkg_bkg_members_bkg_class.induct)
  case (1 dst_file src dst fill_bkg)
  then show ?case by (simp split: if_splits)
next
  case (4 dst_file src n ms fill_bkg)
  let ?sum = "\<Sum>m\<leftarrow>ms. unat (H5Tget_size (member_type m))"
  have W: "written_members src ms = extents ms" "n = (\<Sum>m\<leftarrow>ms. H5Tget_size (member_type m))"
    using "4.IH" [of b'' "unat n"] "4.prems" by auto
  note E = extents_layout [of "unat n" ms]
  have "?sum \<le> unat n" using E "4.prems"(3) card_mono [of "{..<unat n}" "extents ms"] by simp
  moreover have "unat n < 2 ^ LENGTH(64)" by (rule unsigned_less)
  ultimately have "?sum < 2 ^ 64" by simp
  then have "card (extents ms) = card {..<unat n}" using E(2) "4.prems"(3) W(2) by (simp add: unat_sum_list)
  then have "extents ms = {..<unat n}" using E(1) "4.prems"(3) by (intro card_subset_eq) auto
  with W(1) show ?case by simp
next
  case (5 dst_file src base dims fill_bkg)
  then obtain s where s: "H5Tget_super src = Some s" "RV_need_bkg dst_file s base fill_bkg = Inr (b'', False)"
    by (auto split: option.splits sum.splits)
  have "written s base = {..<unat (H5Tget_size base)}" using "5.IH" [OF s] "5.prems" by simp
  moreover have "unat (prod_list dims * H5Tget_size base) = unat (prod_list dims) * unat (H5Tget_size base)"
    using "5.prems"(3) unat_mult_lem [of "prod_list dims" "H5Tget_size base"] by simp
  ultimately show ?case using s(1) by (simp add: array_blocks)
next
  case (10 dst_file src name off t ms n size_used fill_bkg)
  obtain s x where s: "named_member src name = Some (Some s)" "RV_need_bkg dst_file s t fill_bkg = Inr (x, False)"
    and r: "bkg_members dst_file src ms n (size_used + H5Tget_size t) False = Inr (b', False)"
    using "10.prems"(1) by (auto split: option.splits sum.splits prod.splits if_splits)
  have "written s t = {..<unat (H5Tget_size t)}" using "10.IH"(1) [OF s(1) refl s(2)] "10.prems" by simp
  moreover have "written_members src ms = extents ms \<and>
      n = size_used + H5Tget_size t + (\<Sum>m\<leftarrow>ms. H5Tget_size (member_type m))"
    using "10.IH"(2) [where N = N, OF s(1) refl s(2) refl _ r] "10.prems"(2,3) by simp
  ultimately show ?case using s(1) by (simp add: image_plus member_extent_def)
qed (auto split: if_splits)

section \<open>Properties\<close>

text \<open>
  C39: \<open>RV_need_tconv\<close> asks for a conversion exactly when the types differ or some part of them - a member,
  a member of a member, an array element - is a string of variable length, a reference or a sequence.
\<close>

theorem conversion_needed_iff:
  assumes "H5T_NO_CLASS \<notin> set (leaf_types src)"
  shows "RV_need_tconv H5Tequal src dst = Inr (\<not> H5Tequal src dst \<or> (\<exists>l\<in>set (leaf_types src). in_memory l))"
  using detect_leaves(1) [OF assms] by (simp add: RV_need_tconv_def)

theorem conversion_needed_iff_witness:
  "RV_need_tconv (=) (H5T_COMPOUND 12 [Member ''a'' 0 (H5T_INTEGER 4 H5T_ORDER_LE H5T_SGN_2),
       Member ''b'' 4 (H5T_ARRAY (H5T_STRING True 8) [1])])
     (H5T_COMPOUND 12 [Member ''a'' 0 (H5T_INTEGER 4 H5T_ORDER_LE H5T_SGN_2),
       Member ''b'' 4 (H5T_ARRAY (H5T_STRING True 8) [1])]) = Inr True"
  using conversion_needed_iff [of "H5T_COMPOUND 12 [Member ''a'' 0 (H5T_INTEGER 4 H5T_ORDER_LE H5T_SGN_2),
       Member ''b'' 4 (H5T_ARRAY (H5T_STRING True 8) [1])]" "(=)"] by simp



text \<open>
  \<open>RV_tconv_init\<close> provides the conversion with room: when the sizes do not overflow and memory is
  available, \<open>n\<close> elements of either type fit the conversion buffer, or the destination is used for it and
  is at least as large, and there is a background buffer of \<open>n\<close> elements, zeroed or the destination, when one
  is needed; on an error there is no block to free.
\<close>

lemma conversion_buffers:
  assumes "RV_tconv_init alloc src dst n clear dst_file may_reuse = (r, c)"
    and "n \<noteq> 0" and "unat n * max (unat (H5Tget_size src)) (unat (H5Tget_size dst)) < 2 ^ 64"
  shows "(case r of
      Inl e \<Rightarrow> tconv_buf c = None \<and> bkg_buf c = None \<and> reuse c \<in> {None, Some RV_TCONV_REUSE_NONE}
    | Inr _ \<Rightarrow>
        src_type_size c = H5Tget_size src \<and> dst_type_size c = H5Tget_size dst \<and>
        (\<exists>need. RV_need_bkg dst_file src dst False = Inr (need, fill_bkg c) \<and>
          (case tconv_buf c of
             Some (m, z) \<Rightarrow> z = clear \<and> unat n * unat (H5Tget_size src) \<le> unat m \<and> unat n * unat (H5Tget_size dst) \<le> unat m
           | None \<Rightarrow> reuse c = Some RV_TCONV_REUSE_TCONV \<and> H5Tget_size src \<le> H5Tget_size dst) \<and>
          (case bkg_buf c of
             Some (m, z) \<Rightarrow> need \<and> z \<and> unat m = unat n * unat (H5Tget_size dst) \<and> reuse c \<noteq> Some RV_TCONV_REUSE_BKG
           | None \<Rightarrow> need \<longrightarrow> reuse c = Some RV_TCONV_REUSE_BKG)))"
proof -
  have m: "unat (n * max (H5Tget_size src) (H5Tget_size dst)) = unat n * max (unat (H5Tget_size src)) (unat (H5Tget_size dst))"
    using assms(3) unat_mult_lem [of n "max (H5Tget_size src) (H5Tget_size dst)"]
    by (simp add: max_def word_le_nat_alt split: if_splits)
  have le: "unat n * unat (H5Tget_size src) \<le> unat n * max (unat (H5Tget_size src)) (unat (H5Tget_size dst))"
    "unat n * unat (H5Tget_size dst) \<le> unat n * max (unat (H5Tget_size src)) (unat (H5Tget_size dst))"
    by (simp_all add: mult_le_mono2)
  have b: "unat (n * H5Tget_size dst) = unat n * unat (H5Tget_size dst)"
    "unat (n * H5Tget_size src) = unat n * unat (H5Tget_size src)"
    using unat_mult_lem [of n "H5Tget_size dst"] le_less_trans [OF le(2) assms(3)]
      unat_mult_lem [of n "H5Tget_size src"] le_less_trans [OF le(1) assms(3)] by simp_all
  show ?thesis
    using assms(1,2) le
    by (auto simp: RV_tconv_init_def no_conversion_def tconv_cleanup_def choose_reuse_def Let_def m b word_le_nat_alt
        split: sum.splits if_splits prod.splits)
qed

end
