(* ===== verification/Datatype_JSON.thy ===== *)
theory Datatype_JSON
  imports Datatypes Text_Buffer
begin

text \<open>
  The JSON text of a datatype, from \<open>rest_vol_datatype.c\<close>: \<open>RV_convert_predefined_datatype_to_string\<close> and
  \<open>RV_convert_datatype_to_JSON\<close>, with its buffers: the growing output buffer, the one of the mapping of an
  enumeration and the one of the shape of an array.  \<open>type_text\<close> is the text that the code means to
  print; the property says that it does, for the datatypes it supports.
\<close>

section \<open>Names of predefined datatypes\<close>

definition PREDEFINED_DATATYPE_NAME_MAX_LENGTH :: nat where
  "PREDEFINED_DATATYPE_NAME_MAX_LENGTH = 20"

fun class_is_integer :: "h5t \<Rightarrow> bool" where
  "class_is_integer (H5T_INTEGER _ _ _) = True"
| "class_is_integer (Committed _ t) = class_is_integer t"
| "class_is_integer _ = False"

fun class_is_float :: "h5t \<Rightarrow> bool" where
  "class_is_float (H5T_FLOAT _ _) = True"
| "class_is_float (Committed _ t) = class_is_float t"
| "class_is_float _ = False"

text \<open>The queries for the order and the sign; a class without an order answers \<open>H5T_ORDER_NONE\<close>.\<close>

fun H5Tget_order :: "h5t \<Rightarrow> byte_order" where
  "H5Tget_order (H5T_INTEGER _ ord _) = ord"
| "H5Tget_order (H5T_FLOAT _ ord) = ord"
| "H5Tget_order (H5T_ENUM base _) = H5Tget_order base"
| "H5Tget_order (Committed _ t) = H5Tget_order t"
| "H5Tget_order _ = H5T_ORDER_NONE"

fun H5Tget_sign :: "h5t \<Rightarrow> number_sign option" where
  "H5Tget_sign (H5T_INTEGER _ _ sig) = Some sig"
| "H5Tget_sign (H5T_ENUM base _) = H5Tget_sign base"
| "H5Tget_sign (Committed _ t) = H5Tget_sign t"
| "H5Tget_sign _ = None"

definition predefined_name :: "bool \<Rightarrow> bool \<Rightarrow> bool \<Rightarrow> u64 \<Rightarrow> bool \<Rightarrow> string" where
  "predefined_name is_integer is_float is_unsigned sz little =
     ''H5T_'' @ (if is_integer then ''STD'' else ''IEEE'') @ ''_''
       @ (if is_float then ''F'' else if is_unsigned then ''U'' else ''I'')
       @ show_nat (unat (sz * 8)) @ (if little then ''LE'' else ''BE'')"

definition RV_convert_predefined_datatype_to_string :: "h5t \<Rightarrow> string option" where
  "RV_convert_predefined_datatype_to_string t =
     (if t = H5T_NO_CLASS \<or> H5Tget_size t = 0 then None
      else
        let type_sign = (if class_is_integer t then H5Tget_sign t else Some H5T_SGN_NONE)
        in case type_sign of
             None \<Rightarrow> None
           | Some sig \<Rightarrow>
               let type_name = predefined_name (class_is_integer t) (class_is_float t) (sig = H5T_SGN_NONE)
                     (H5Tget_size t) (H5Tget_order t = H5T_ORDER_LE)
               in if length type_name \<ge> PREDEFINED_DATATYPE_NAME_MAX_LENGTH then None else Some type_name)"

section \<open>Formats\<close>

definition quoted :: "string \<Rightarrow> string" where
  "quoted s = CHR 0x22 # s @ [CHR 0x22]"

definition field :: "string \<Rightarrow> string \<Rightarrow> string" where
  "field k v = quoted k @ '': '' @ v"

definition leading_string :: string where
  "leading_string = quoted ''type'' @ '': ''"

definition class_format :: "string \<Rightarrow> string \<Rightarrow> string" where
  "class_format c base = ''{'' @ field ''class'' (quoted c) @ '', '' @ field ''base'' (quoted base) @ ''}''"

definition string_format :: "string \<Rightarrow> string \<Rightarrow> string \<Rightarrow> string" where
  "string_format char_set str_pad len =
     ''{'' @ field ''class'' (quoted ''H5T_STRING'') @ '', '' @ field ''charSet'' (quoted char_set) @ '', ''
       @ field ''strPad'' (quoted str_pad) @ '', '' @ field ''length'' len @ ''}''"

definition compound_type_leading_string :: string where
  "compound_type_leading_string =
     ''{'' @ field ''class'' (quoted ''H5T_COMPOUND'') @ '', '' @ field ''fields'' ''[''"

definition member_format :: "string \<Rightarrow> string \<Rightarrow> string \<Rightarrow> string" where
  "member_format name type_string sep = ''{'' @ field ''name'' (quoted name) @ '', '' @ type_string @ ''}'' @ sep"

definition mapping_format :: "string \<Rightarrow> string \<Rightarrow> string \<Rightarrow> string" where
  "mapping_format name num sep = field name num @ sep"

definition enum_format :: "string \<Rightarrow> string \<Rightarrow> string" where
  "enum_format base mapping =
     ''{'' @ field ''class'' (quoted ''H5T_ENUM'') @ '', '' @ field ''base'' (class_format ''H5T_INTEGER'' base)
       @ '', '' @ field ''mapping'' (''{'' @ mapping @ ''}'') @ ''}''"

definition array_format :: "string \<Rightarrow> string \<Rightarrow> string" where
  "array_format base dims =
     ''{'' @ field ''class'' (quoted ''H5T_ARRAY'') @ '', '' @ field ''base'' base @ '', '' @ field ''dims'' dims @ ''}''"

definition reference_format :: "string \<Rightarrow> string" where
  "reference_format base =
     ''{'' @ field ''class'' (quoted ''H5T_REFERENCE'') @ '','' @ field ''base'' (quoted base) @ ''}''"

section \<open>Printing\<close>

definition DATATYPE_BODY_DEFAULT_SIZE :: u64 where
  "DATATYPE_BODY_DEFAULT_SIZE = 2048"

definition ENUM_MAPPING_DEFAULT_SIZE :: u64 where
  "ENUM_MAPPING_DEFAULT_SIZE = 4096"

definition MAX_NUM_LENGTH :: nat where
  "MAX_NUM_LENGTH = 20"

text \<open>A block from \<open>malloc\<close>.\<close>

definition malloc_text :: "u64 \<Rightarrow> text_buffer" where
  "malloc_text n = \<lparr>buffer = replicate (unat n) None, curr = 0, buffer_size = n\<rparr>"

text \<open>\<open>snprintf\<close> with both checks of its result.\<close>

definition checked_snprintf :: "u64 \<Rightarrow> string \<Rightarrow> text_buffer \<Rightarrow> (type_failure + text_buffer) option" where
  "checked_snprintf n t tb =
     (if length t \<ge> 2 ^ 31 then Some (Inl (Minor H5E_SYSERRSTR))
      else
        andthen (snprintf n t tb)
          (\<lambda>tb. Some (if length t \<ge> unat n then Inl (Minor H5E_SYSERRSTR) else Inr tb)))"

text \<open>Room for \<open>bytes_to_print\<close> more bytes, and the text with what is left of the block as its limit.\<close>

definition print_grown ::
  "(u64 \<Rightarrow> bool) \<Rightarrow> nat \<Rightarrow> string \<Rightarrow> text_buffer \<Rightarrow> (type_failure + text_buffer) option" where
  "print_grown ok bytes_to_print t tb =
     (let buf_ptrdiff = of_nat (curr tb)
      in andthen (CHECKED_REALLOC (Minor H5E_CANTALLOC) ok (buf_ptrdiff + of_nat bytes_to_print) tb)
           (\<lambda>tb. checked_snprintf (buffer_size tb - buf_ptrdiff) t tb))"

text \<open>
  The block of the output and its leading string, which \<open>strncpy\<close> pads with NULs to the end of the block.
\<close>

definition start_type :: "(u64 \<Rightarrow> bool) \<Rightarrow> bool \<Rightarrow> (type_failure + text_buffer) option" where
  "start_type ok nested =
     (if \<not> ok DATATYPE_BODY_DEFAULT_SIZE then Some (Inl (Minor H5E_CANTALLOC))
      else
        andthen (CHECKED_REALLOC (Minor H5E_CANTALLOC) ok (of_nat (length leading_string) + 1)
                  (malloc_text DATATYPE_BODY_DEFAULT_SIZE))
          (\<lambda>tb. if nested then Some (Inr tb)
                else map_option (\<lambda>b. Inr (tb\<lparr>buffer := b, curr := length leading_string\<rparr>))
                       (write_bytes 0 (strncpy_bytes leading_string (unat (buffer_size tb))) (buffer tb))))"

text \<open>
  A string is printed with \<open>out_string_len - leading_string_len\<close> as its limit, nested or not.
\<close>

definition print_string :: "(u64 \<Rightarrow> bool) \<Rightarrow> bool \<Rightarrow> u64 \<Rightarrow> text_buffer \<Rightarrow> (type_failure + text_buffer) option" where
  "print_string ok is_vlen type_size tb =
     (let buf_ptrdiff = of_nat (curr tb);
          pad = (if is_vlen then ''H5T_STR_NULLTERM'' else ''H5T_STR_NULLPAD'');
          len = (if is_vlen then quoted ''H5T_VARIABLE'' else show_nat (unat type_size));
          bytes_to_print =
            (if is_vlen then length (string_format [] [] len) else length (string_format [] [] []) + MAX_NUM_LENGTH)
              + length ''H5T_CSET_ASCII'' + length pad + 1
      in andthen (CHECKED_REALLOC (Minor H5E_CANTALLOC) ok (buf_ptrdiff + of_nat bytes_to_print) tb)
           (\<lambda>tb. checked_snprintf (buffer_size tb - of_nat (length leading_string))
                   (string_format ''H5T_CSET_ASCII'' pad len) tb))"

text \<open>
  The value of a member of an enumeration, written by HDF5 into a zeroed \<open>long long\<close> on a little-endian
  machine.  A value of more than 8 bytes does not fit: \<open>None\<close>.
\<close>

definition enum_value :: "u8 list \<Rightarrow> u64 option" where
  "enum_value bs =
     (if length bs > 8 then None else Some (of_nat (foldr (\<lambda>b n. unat b + 256 * n) bs 0)))"

definition enum_number :: "bool \<Rightarrow> u64 \<Rightarrow> string" where
  "enum_number is_unsigned v = (if is_unsigned then show_nat (unat v) else show_int (sint v))"

fun print_mapping ::
  "(u64 \<Rightarrow> bool) \<Rightarrow> bool \<Rightarrow> (string \<times> u8 list) list \<Rightarrow> text_buffer \<Rightarrow> (type_failure + text_buffer) option" where
  "print_mapping ok is_unsigned [] tb = Some (Inr tb)"
| "print_mapping ok is_unsigned ((name, bs) # vs) tb =
     (case enum_value bs of
        None \<Rightarrow> None
      | Some v \<Rightarrow>
          let sep = (if vs = [] then [] else '', '')
          in andthen
               (print_grown ok (length name + MAX_NUM_LENGTH + length (mapping_format [] [] []) + length sep + 1)
                 (mapping_format name (enum_number is_unsigned v) sep) tb)
               (print_mapping ok is_unsigned vs))"

definition print_enum ::
  "(u64 \<Rightarrow> bool) \<Rightarrow> h5t \<Rightarrow> (string \<times> u8 list) list \<Rightarrow> text_buffer \<Rightarrow> (type_failure + text_buffer) option" where
  "print_enum ok base vs tb =
     (case H5Tget_sign base of
        None \<Rightarrow> Some (Inl (Minor H5E_CANTGET))
      | Some sig \<Rightarrow>
          if \<not> ok 8 \<or> \<not> ok ENUM_MAPPING_DEFAULT_SIZE then Some (Inl (Minor H5E_CANTALLOC))
          else
            andthen (print_mapping ok (sig = H5T_SGN_NONE) vs (malloc_text ENUM_MAPPING_DEFAULT_SIZE))
              (\<lambda>mb.
                 case RV_convert_predefined_datatype_to_string base of
                   None \<Rightarrow> Some (Inl (Minor H5E_BADVALUE))
                 | Some base_type_name \<Rightarrow>
                     (case c_string (buffer mb) of
                        None \<Rightarrow> None
                      | Some enum_mapping \<Rightarrow>
                          print_grown ok (length base_type_name + length enum_mapping + length (enum_format [] []) + 1)
                            (enum_format base_type_name enum_mapping) tb)))"

text \<open>The shape of an array; every number is printed with the limit \<open>MAX_NUM_LENGTH\<close>.\<close>

definition print_dim :: "u64 list \<Rightarrow> nat \<Rightarrow> text_buffer \<Rightarrow> (type_failure + text_buffer) option" where
  "print_dim dims i =
     checked_snprintf (of_nat MAX_NUM_LENGTH) ((if i > 0 then '','' else []) @ show_nat (unat (dims ! i)))"

definition print_shape :: "(u64 \<Rightarrow> bool) \<Rightarrow> u64 list \<Rightarrow> (type_failure + text_buffer) option" where
  "print_shape ok dims =
     (let ndims = length dims; n = of_nat (ndims * MAX_NUM_LENGTH + ndims + 3)
      in if ndims = 0 then Some (Inl (Minor H5E_BADVALUE))
         else if \<not> ok n \<or> \<not> ok (of_nat ndims * 8) then Some (Inl (Minor H5E_CANTALLOC))
         else
           andthen (strcat_advance ''['' (fresh_text n))
             (\<lambda>tb. andthen (each (print_dim dims) [0..<ndims] tb) (strcat '']'')))"

text \<open>
  The conversion; \<open>print_members\<close> is the loop over the members of a compound.  The text of a member is read
  as a string from its block, the text of the base of an array by its length, and printed as a string.
\<close>

fun RV_convert_datatype_to_JSON :: "(u64 \<Rightarrow> bool) \<Rightarrow> bool \<Rightarrow> h5t \<Rightarrow> (type_failure + text_buffer) option"
and print_class :: "(u64 \<Rightarrow> bool) \<Rightarrow> h5t \<Rightarrow> text_buffer \<Rightarrow> (type_failure + text_buffer) option"
and print_members :: "(u64 \<Rightarrow> bool) \<Rightarrow> h5t_member list \<Rightarrow> text_buffer \<Rightarrow> (type_failure + text_buffer) option" where
  "RV_convert_datatype_to_JSON ok nested t = andthen (start_type ok nested) (print_class ok t)"
| "print_class ok (Committed URI t) tb = print_grown ok (length URI + 2) (quoted URI) tb"
| "print_class ok (H5T_INTEGER n ord sig) tb =
     (if n = 0 then Some (Inl (Minor H5E_BADVALUE))
      else
        (case RV_convert_predefined_datatype_to_string (H5T_INTEGER n ord sig) of
           None \<Rightarrow> Some (Inl (Minor H5E_BADVALUE))
         | Some type_name \<Rightarrow>
             print_grown ok (length ''H5T_INTEGER'' + length type_name + length (class_format [] []) + 1)
               (class_format ''H5T_INTEGER'' type_name) tb))"
| "print_class ok (H5T_FLOAT n ord) tb =
     (if n = 0 then Some (Inl (Minor H5E_BADVALUE))
      else
        (case RV_convert_predefined_datatype_to_string (H5T_FLOAT n ord) of
           None \<Rightarrow> Some (Inl (Minor H5E_BADVALUE))
         | Some type_name \<Rightarrow>
             print_grown ok (length ''H5T_FLOAT'' + length type_name + length (class_format [] []) + 1)
               (class_format ''H5T_FLOAT'' type_name) tb))"
| "print_class ok (H5T_STRING is_vlen n) tb =
     (if n = 0 then Some (Inl (Minor H5E_BADVALUE)) else print_string ok is_vlen n tb)"
| "print_class ok (H5T_COMPOUND n ms) tb =
     (if n = 0 then Some (Inl (Minor H5E_BADVALUE))
      else if \<not> ok (of_nat (length ms + 1) * 8) then Some (Inl (Minor H5E_CANTALLOC))
      else
        andthen
          (CHECKED_REALLOC (Minor H5E_CANTALLOC) ok
            (of_nat (curr tb) + of_nat (length compound_type_leading_string) + 1) tb)
          (\<lambda>tb. case write_bytes (curr tb) compound_type_leading_string (buffer tb) of
             None \<Rightarrow> None
           | Some b \<Rightarrow>
               andthen
                 (print_members ok ms (tb\<lparr>buffer := b, curr := curr tb + length compound_type_leading_string\<rparr>))
                 (\<lambda>tb. andthen (CHECKED_REALLOC (Minor H5E_CANTALLOC) ok (of_nat (curr tb) + 3) tb)
                    (strcat_advance '']}''))))"
| "print_class ok (H5T_ENUM base vs) tb =
     (if H5Tget_size base = 0 then Some (Inl (Minor H5E_BADVALUE)) else print_enum ok base vs tb)"
| "print_class ok (H5T_ARRAY base dims) tb =
     (if prod_list dims * H5Tget_size base = 0 then Some (Inl (Minor H5E_BADVALUE))
      else
        andthen (print_shape ok dims) (\<lambda>sb.
          (case RV_convert_datatype_to_JSON ok True base of
             None \<Rightarrow> None
           | Some (Inl e) \<Rightarrow> Some (Inl H5E_CANTCONVERT)
           | Some (Inr bb) \<Rightarrow>
               (case (c_string (buffer sb), c_string (buffer bb)) of
                  (Some array_shape, Some array_base_type) \<Rightarrow>
                    print_grown ok (curr bb + length array_shape + length (array_format [] []) + 1)
                      (array_format array_base_type array_shape) tb
                | _ \<Rightarrow> None))))"
| "print_class ok (H5T_REFERENCE is_obj_ref n) tb =
     (if n = 0 then Some (Inl (Minor H5E_BADVALUE))
      else
        let base = (if is_obj_ref then ''H5T_STD_REF_OBJ'' else ''H5T_STD_REF_DSETREG'')
        in print_grown ok (length (reference_format []) + length base + 1) (reference_format base) tb)"
| "print_class ok H5T_NO_CLASS tb = Some (Inl (Minor H5E_BADVALUE))"
| "print_class ok t tb =
     Some (Inl (Minor (if H5Tget_size t = 0 then H5E_BADVALUE else H5E_UNSUPPORTED)))"
| "print_members ok [] tb = Some (Inr tb)"
| "print_members ok (Member name off t # ms) tb =
     (case RV_convert_datatype_to_JSON ok False t of
        None \<Rightarrow> None
      | Some (Inl e) \<Rightarrow> Some (Inl H5E_CANTCONVERT)
      | Some (Inr mb) \<Rightarrow>
          (case c_string (buffer mb) of
             None \<Rightarrow> None
           | Some type_string \<Rightarrow>
               let sep = (if ms = [] then [] else '', '')
               in andthen
                    (print_grown ok (length name + length type_string + length (member_format [] [] []) + length sep + 1)
                      (member_format name type_string sep) tb)
                    (print_members ok ms)))"

section \<open>What is printed\<close>

lemma unat_less_u64: "unat (x :: u64) < 2 ^ 64"
proof -
  have "unat x < 2 ^ LENGTH(64)" by (rule unsigned_less)
  then show ?thesis by simp
qed

lemma unat_of_nat_plus: "a + b < 2 ^ 64 \<Longrightarrow> unat (of_nat a + of_nat b :: u64) = a + b"
  using unat_of_nat_u64 [of "a + b"] by simp

text \<open>The part before the position is written, the rest may not be.\<close>

definition starts :: "text_buffer \<Rightarrow> string \<Rightarrow> bool" where
  "starts tb s \<longleftrightarrow>
     length (buffer tb) = room tb \<and> curr tb = length s \<and> length s \<le> room tb \<and> 0 < room tb \<and>
     take (length s) (buffer tb) = map Some s"

lemma holds_starts: "holds tb s \<Longrightarrow> starts tb s"
  by (auto simp: holds_def starts_def)

lemma grow_starts:
  assumes "starts tb s" and "unat target \<le> 2 ^ 63" and "\<And>n. ok n"
  shows "\<exists>tb'. CHECKED_REALLOC e ok target tb = Some (Inr tb') \<and> starts tb' s \<and>
    unat target \<le> room tb' \<and> room tb \<le> room tb'"
proof -
  have h: "length (buffer tb) = room tb" "0 < room tb" "length s \<le> room tb" using assms(1) by (simp_all add: starts_def)
  obtain tb' where g: "CHECKED_REALLOC e ok target tb = Some (Inr tb')" "take (room tb) (buffer tb') = buffer tb"
    "length (buffer tb') = room tb'" "curr tb' = curr tb" "unat target \<le> room tb'" "room tb \<le> room tb'"
    using grow_extends [OF h(1,2) assms(2), of ok e] assms(3) by auto
  have "take (length s) (buffer tb') = take (length s) (buffer tb)"
    using h(3) unfolding g(2) [symmetric] by simp
  with g assms(1) show ?thesis by (auto simp: starts_def)
qed

lemma snprintf_starts:
  assumes "starts tb s" and "length s + length t < room tb" and "length t < unat n" and "length t < 2 ^ 31"
  shows "\<exists>tb'. checked_snprintf n t tb = Some (Inr tb') \<and> holds tb' (s @ t) \<and> buffer_size tb' = buffer_size tb"
proof -
  have n: "n \<noteq> 0" "take (unat n - 1) t = t" using assms(3) by auto
  have l: "length s + length t < length (buffer tb)" "curr tb = length s" "take (length s) (buffer tb) = map Some s"
    "length (buffer tb) = room tb"
    using assms(1,2) by (simp_all add: starts_def)
  obtain b where b: "write_bytes (length s) (t @ [CHR 0x00]) (buffer tb) = Some b"
    using l by (simp add: write_bytes_def)
  then have b': "b = map Some (s @ t) @ Some (CHR 0x00) # drop (length s + length t + 1) (buffer tb)"
    using l by (simp add: write_bytes_def)
  then have "length b = length (buffer tb)" using l(1) by simp
  then have "holds (tb\<lparr>buffer := b, curr := length s + length t\<rparr>) (s @ t)"
    using l by (simp add: holds_def b' nth_append)
  with b n l assms(3,4) show ?thesis by (simp add: checked_snprintf_def snprintf_def)
qed

lemma room_left:
  assumes "starts tb s"
  shows "unat (buffer_size tb - of_nat (length s)) = room tb - length s"
proof -
  have l: "length s \<le> room tb" using assms by (simp add: starts_def)
  then have u: "unat (of_nat (length s) :: u64) = length s"
    by (intro unat_of_nat_u64 le_less_trans [OF l] unat_less_u64)
  show ?thesis using l by (subst unat_sub) (simp_all add: word_le_nat_alt u)
qed

lemma print_grown_ok:
  assumes "starts tb s" and "length t < bytes \<or> length s + length t < room tb"
    and "length s + bytes \<le> 2 ^ 62" and "length t < 2 ^ 31" and "\<And>n. ok n"
  shows "\<exists>tb'. print_grown ok bytes t tb = Some (Inr tb') \<and> holds tb' (s @ t) \<and> room tb \<le> room tb'"
proof -
  have c: "curr tb = length s" using assms(1) by (simp add: starts_def)
  have u: "unat (of_nat (length s) + of_nat bytes :: u64) = length s + bytes"
    using unat_of_nat_u64 [of "length s + bytes"] assms(3) by simp
  obtain tb1 where g: "CHECKED_REALLOC (Minor H5E_CANTALLOC) ok (of_nat (length s) + of_nat bytes) tb = Some (Inr tb1)"
    "starts tb1 s" "length s + bytes \<le> room tb1" "room tb \<le> room tb1"
    using grow_starts [OF assms(1), of "of_nat (length s) + of_nat bytes" ok "Minor H5E_CANTALLOC"] assms(3,5)
    unfolding u by auto
  have r: "length s + length t < room tb1" using assms(2) g(3,4) by auto
  then have "length t < unat (buffer_size tb1 - of_nat (length s))" unfolding room_left [OF g(2)] by simp
  from snprintf_starts [OF g(2) r this assms(4)] obtain tb' where
    "checked_snprintf (buffer_size tb1 - of_nat (length s)) t tb1 = Some (Inr tb')" "holds tb' (s @ t)"
    "buffer_size tb' = buffer_size tb1" by blast
  with g show ?thesis by (simp add: print_grown_def c)
qed

lemma start_type_ok:
  assumes "\<And>n. ok n"
  shows "\<exists>tb. start_type ok nested = Some (Inr tb) \<and> starts tb (if nested then [] else leading_string) \<and> 2048 \<le> room tb"
proof -
  have m: "starts (malloc_text 2048) []" by (simp add: malloc_text_def starts_def)
  have g: "CHECKED_REALLOC (Minor H5E_CANTALLOC) ok (of_nat (length leading_string) + 1) (malloc_text 2048)
      = Some (Inr (malloc_text 2048))"
    by (subst CHECKED_REALLOC_def, subst grow.simps) (simp add: malloc_text_def leading_string_def quoted_def)
  show ?thesis
    using assms m
    by (auto simp: start_type_def DATATYPE_BODY_DEFAULT_SIZE_def g)
      (simp_all add: malloc_text_def write_bytes_def strncpy_bytes_def starts_def leading_string_def quoted_def)
qed

text \<open>The texts.\<close>

definition type_name :: "h5t \<Rightarrow> string" where
  "type_name t = (case RV_convert_predefined_datatype_to_string t of None \<Rightarrow> [] | Some s \<Rightarrow> s)"

fun mapping_text :: "bool \<Rightarrow> (string \<times> u8 list) list \<Rightarrow> string" where
  "mapping_text is_unsigned [] = []"
| "mapping_text is_unsigned ((name, bs) # vs) =
     mapping_format name (enum_number is_unsigned (case enum_value bs of None \<Rightarrow> 0 | Some v \<Rightarrow> v))
       (if vs = [] then [] else '', '')
     @ mapping_text is_unsigned vs"

definition dims_text :: "u64 list \<Rightarrow> string" where
  "dims_text dims = ''['' @ join '','' (map (\<lambda>d. show_nat (unat d)) dims) @ '']''"

fun type_text :: "h5t \<Rightarrow> string" and members_text :: "h5t_member list \<Rightarrow> string" where
  "type_text (Committed URI t) = quoted URI"
| "type_text (H5T_INTEGER n ord sig) = class_format ''H5T_INTEGER'' (type_name (H5T_INTEGER n ord sig))"
| "type_text (H5T_FLOAT n ord) = class_format ''H5T_FLOAT'' (type_name (H5T_FLOAT n ord))"
| "type_text (H5T_STRING is_vlen n) =
     string_format ''H5T_CSET_ASCII'' (if is_vlen then ''H5T_STR_NULLTERM'' else ''H5T_STR_NULLPAD'')
       (if is_vlen then quoted ''H5T_VARIABLE'' else show_nat (unat n))"
| "type_text (H5T_COMPOUND n ms) = compound_type_leading_string @ members_text ms @ '']}''"
| "type_text (H5T_ENUM base vs) =
     enum_format (type_name base) (mapping_text (H5Tget_sign base = Some H5T_SGN_NONE) vs)"
| "type_text (H5T_ARRAY base dims) = array_format (type_text base) (dims_text dims)"
| "type_text (H5T_REFERENCE is_obj_ref n) =
     reference_format (if is_obj_ref then ''H5T_STD_REF_OBJ'' else ''H5T_STD_REF_DSETREG'')"
| "type_text t = []"
| "members_text [] = []"
| "members_text (Member name off t # ms) =
     member_format name (leading_string @ type_text t) (if ms = [] then [] else '', '') @ members_text ms"

text \<open>The datatypes that are printed.\<close>

fun printable :: "h5t \<Rightarrow> bool" and members_printable :: "h5t_member list \<Rightarrow> bool" where
  "printable (Committed URI t) \<longleftrightarrow> length URI < 256"
| "printable (H5T_INTEGER n ord sig) \<longleftrightarrow> RV_convert_predefined_datatype_to_string (H5T_INTEGER n ord sig) \<noteq> None"
| "printable (H5T_FLOAT n ord) \<longleftrightarrow> RV_convert_predefined_datatype_to_string (H5T_FLOAT n ord) \<noteq> None"
| "printable (H5T_STRING is_vlen n) \<longleftrightarrow> n \<noteq> 0"
| "printable (H5T_COMPOUND n ms) \<longleftrightarrow> n \<noteq> 0 \<and> ms \<noteq> [] \<and> members_printable ms"
| "printable (H5T_ENUM base vs) \<longleftrightarrow>
     RV_convert_predefined_datatype_to_string base \<noteq> None \<and> H5Tget_sign base \<noteq> None \<and> vs \<noteq> [] \<and>
     list_all (\<lambda>(name, bs). length bs \<le> 8) vs"
| "printable (H5T_ARRAY base dims) \<longleftrightarrow>
     prod_list dims * H5Tget_size base \<noteq> 0 \<and> dims \<noteq> [] \<and> length dims \<le> 32 \<and>
     list_all (\<lambda>d. unat d < 10 ^ 18) dims \<and> printable base"
| "printable (H5T_REFERENCE is_obj_ref n) \<longleftrightarrow> n \<noteq> 0"
| "printable t \<longleftrightarrow> False"
| "members_printable [] \<longleftrightarrow> True"
| "members_printable (Member name off t # ms) \<longleftrightarrow> printable t \<and> members_printable ms"

lemma length_enum_number: "length (enum_number is_unsigned v) \<le> 20"
proof -
  have u: "length (show_nat (unat v)) \<le> 20"
    by (rule length_show_nat) (use unat_less_u64 [of v] in simp_all)
  have s: "- (2 ^ 63) \<le> sint v" "sint v < 2 ^ 63"
    using sint_ge [of v] sint_lt [of v] by simp_all
  then have "length (show_nat (nat (- sint v))) \<le> 19" "length (show_nat (nat (sint v))) \<le> 19"
    by (auto intro!: length_show_nat)
  with u show ?thesis by (simp add: enum_number_def show_int_def)
qed

lemma print_mapping_ok:
  assumes "ok = (\<lambda>_. True)"
  shows "starts tb s \<Longrightarrow> list_all (\<lambda>(name, bs). length bs \<le> 8) vs \<Longrightarrow>
    length s + length (mapping_text u vs) \<le> 2 ^ 30 \<Longrightarrow>
    \<exists>tb'. print_mapping ok u vs tb = Some (Inr tb') \<and> starts tb' (s @ mapping_text u vs) \<and>
      (vs \<noteq> [] \<longrightarrow> holds tb' (s @ mapping_text u vs))"
proof (induction vs arbitrary: tb s)
  case Nil
  then show ?case by simp
next
  case (Cons v vs)
  obtain name bs where v: "v = (name, bs)" by fastforce
  obtain x where x: "enum_value bs = Some x" using Cons.prems(2) v by (auto simp: enum_value_def)
  let ?sep = "if vs = [] then [] else '', ''"
  let ?t = "mapping_format name (enum_number u x) ?sep"
  let ?n = "length name + MAX_NUM_LENGTH + length (mapping_format [] [] []) + length ?sep + 1"
  have t: "length ?t < ?n" using length_enum_number [of u x] by (simp add: mapping_format_def field_def quoted_def MAX_NUM_LENGTH_def)
  have len: "length s + length ?t + length (mapping_text u vs) \<le> 2 ^ 30" using Cons.prems(3) v x by simp
  have n: "?n \<le> length ?t + 30" by (simp add: mapping_format_def field_def quoted_def MAX_NUM_LENGTH_def)
  obtain tb1 where 1: "print_grown ok ?n ?t tb = Some (Inr tb1)" "holds tb1 (s @ ?t)"
    using print_grown_ok [OF Cons.prems(1), of ?t ?n ok] t len n assms by auto
  have "\<exists>tb'. print_mapping ok u vs tb1 = Some (Inr tb') \<and> starts tb' ((s @ ?t) @ mapping_text u vs) \<and>
      (vs \<noteq> [] \<longrightarrow> holds tb' ((s @ ?t) @ mapping_text u vs))"
    by (rule Cons.IH [OF holds_starts [OF 1(2)]]) (use Cons.prems(2) len in simp_all)
  with 1 v x show ?case by (auto simp: Let_def)
qed

lemma print_shape_ok:
  assumes "ok = (\<lambda>_. True)" and "dims \<noteq> []" and "length dims \<le> 32" and "list_all (\<lambda>d. unat d < 10 ^ 18) dims"
  shows "\<exists>tb. print_shape ok dims = Some (Inr tb) \<and> c_string (buffer tb) = Some (dims_text dims)"
proof -
  let ?n = "of_nat (length dims * MAX_NUM_LENGTH + length dims + 3) :: u64"
  let ?f = "\<lambda>i. (if i > 0 then '','' else []) @ show_nat (unat (dims ! i))"
  have n: "unat ?n = length dims * 21 + 3"
    using assms(3) by (subst unat_of_nat_u64) (simp_all add: MAX_NUM_LENGTH_def)
  then have n0: "?n \<noteq> 0" by (metis add_gr_0 less_numeral_extra(3) unat_0 zero_less_numeral)
  have short: "length (?f i) \<le> 19" if "i < length dims" for i
    using that assms(4) length_show_nat [of "unat (dims ! i)" 18] by (auto simp: list_all_length)
  have texts: "length (texts ?f k) \<le> k * 19" if "k \<le> length dims" for k
    using that short by (intro length_texts) auto
  obtain tb0 where 0: "strcat_advance ''['' (fresh_text ?n) = Some (Inr tb0 :: type_failure + text_buffer)"
    "holds tb0 ''[''" "buffer_size tb0 = ?n"
    using strcat_holds [OF holds_fresh [OF n0], of "''[''"] n by (auto simp: fresh_text_def)
  define I where "I = (\<lambda>k tb. holds tb (''['' @ texts ?f k) \<and> buffer_size tb = ?n)"
  have "\<exists>tb. each (print_dim dims) [0..<length dims] tb0 = Some (Inr tb) \<and> I (length [0..<length dims]) tb"
  proof (rule each_inv)
    fix k tb assume k: "k < length [0..<length dims]" and i: "I k tb"
    have h: "holds tb (''['' @ texts ?f k)" and sz: "buffer_size tb = ?n" using i by (simp_all add: I_def)
    have l: "length (''['' @ texts ?f k) + length (?f k) < room tb"
      using texts [of k] short [of k] k n unfolding sz by simp
    have "\<exists>tb'. checked_snprintf (of_nat MAX_NUM_LENGTH) (?f k) tb = Some (Inr tb') \<and>
        holds tb' ((''['' @ texts ?f k) @ ?f k) \<and> buffer_size tb' = buffer_size tb"
      by (rule snprintf_starts [OF holds_starts [OF h] l]) (use short [of k] k in \<open>simp_all add: MAX_NUM_LENGTH_def\<close>)
    then show "\<exists>tb'. print_dim dims ([0..<length dims] ! k) tb = Some (Inr tb') \<and> I (Suc k) tb'"
      using k sz by (auto simp: print_dim_def I_def)
  qed (use 0 in \<open>simp add: I_def\<close>)
  then obtain tb1 where 1: "each (print_dim dims) [0..<length dims] tb0 = Some (Inr tb1)"
    "holds tb1 (''['' @ texts ?f (length dims))" "buffer_size tb1 = ?n" by (auto simp: I_def)
  have l: "length (''['' @ texts ?f (length dims)) + length '']'' < room tb1"
    using texts [of "length dims"] n unfolding 1(3) by simp
  obtain tb2 where 2: "strcat_advance '']'' tb1 = Some (Inr tb2 :: type_failure + text_buffer)"
    "holds tb2 ((''['' @ texts ?f (length dims)) @ '']'')"
    using strcat_holds [OF 1(2) l] by auto
  obtain tb where tb: "strcat '']'' tb1 = Some (Inr tb :: type_failure + text_buffer)" "buffer tb2 = buffer tb"
    using 2(1) by (auto simp: strcat_advance_def andthen_def advance_def split: option.splits sum.splits)
  have d: "dims_text dims = (''['' @ texts ?f (length dims)) @ '']''"
    using join_indexed [of "'',''" "\<lambda>d. show_nat (unat d)" dims] by (simp add: dims_text_def texts_def)
  have "\<not> is_digit_char (CHR 0x00)" by code_simp
  then have "CHR 0x00 \<notin> set (show_nat n)" for n using show_nat_digits by blast
  then have "CHR 0x00 \<notin> set (join '','' (map (\<lambda>d. show_nat (unat d)) dims))" by (intro not_in_join) auto
  then have "CHR 0x00 \<notin> set (dims_text dims)" by (simp add: dims_text_def)
  then have "c_string (buffer tb) = Some (dims_text dims)"
    using holds_c_string [OF 2(2)] unfolding d tb(2) by simp
  then show ?thesis using 0 1(1) tb(1) assms(1,2) by (simp add: print_shape_def Let_def)
qed

lemma print_string_ok:
  assumes "ok = (\<lambda>_. True)" and "starts tb s" and "2048 \<le> room tb" and "length s \<le> length leading_string"
  shows "\<exists>tb'. print_string ok is_vlen n tb = Some (Inr tb') \<and> holds tb' (s @ type_text (H5T_STRING is_vlen n))"
proof -
  let ?t = "type_text (H5T_STRING is_vlen n)"
  let ?bytes = "(if is_vlen then length (string_format [] [] (quoted ''H5T_VARIABLE''))
      else length (string_format [] [] []) + MAX_NUM_LENGTH)
      + length ''H5T_CSET_ASCII'' + length (if is_vlen then ''H5T_STR_NULLTERM'' else ''H5T_STR_NULLPAD'') + 1"
  have num: "length (show_nat (unat n)) \<le> 20" by (rule length_show_nat) (use unat_less_u64 [of n] in simp_all)
  have t: "length ?t < ?bytes" "?bytes \<le> 300"
    using num by (simp_all add: string_format_def field_def quoted_def MAX_NUM_LENGTH_def)
  have s: "length s \<le> 8" using assms(4) by (simp add: leading_string_def quoted_def)
  have u: "unat (of_nat (length s) + of_nat ?bytes :: u64) = length s + ?bytes"
    by (rule unat_of_nat_plus) (use t s in simp)
  obtain tb1 where g: "CHECKED_REALLOC (Minor H5E_CANTALLOC) ok (of_nat (length s) + of_nat ?bytes) tb = Some (Inr tb1)"
    "starts tb1 s" "room tb \<le> room tb1"
    using grow_starts [OF assms(2), of "of_nat (length s) + of_nat ?bytes" ok "Minor H5E_CANTALLOC"] assms(1) t s
    unfolding u by auto
  have r: "unat (buffer_size tb1 - of_nat (length leading_string)) = room tb1 - 8"
    using g(3) assms(3) by (subst unat_sub) (simp_all add: word_le_nat_alt leading_string_def quoted_def)
  have lim: "length s + length ?t < room tb1" "length ?t < unat (buffer_size tb1 - of_nat (length leading_string))" "length ?t < 2 ^ 31"
    using t s g(3) assms(3) unfolding r by auto
  from snprintf_starts [OF g(2) lim] obtain tb' where
    "checked_snprintf (buffer_size tb1 - of_nat (length leading_string)) ?t tb1 = Some (Inr tb')" "holds tb' (s @ ?t)" by blast
  moreover have "curr tb = length s" using assms(2) by (simp add: starts_def)
  ultimately show ?thesis using g(1) by (cases is_vlen) (simp_all add: print_string_def Let_def)
qed

lemma starts_write:
  assumes "starts tb s" and "length s + length t \<le> room tb"
  shows "\<exists>b. write_bytes (curr tb) t (buffer tb) = Some b \<and>
    starts (tb\<lparr>buffer := b, curr := curr tb + length t\<rparr>) (s @ t)"
  using assms by (auto simp: starts_def write_bytes_def)

lemma print_reads:
  assumes "holds tb (s @ t)" and "CHR 0x00 \<notin> set s" and "CHR 0x00 \<notin> set t"
  shows "c_string (buffer tb) = Some (s @ t)"
  using holds_c_string [OF assms(1)] assms(2,3) by simp

lemma leading_NUL: "CHR 0x00 \<notin> set leading_string"
  by (simp add: leading_string_def quoted_def)

lemma datatype_printed_ok:
  assumes "ok = (\<lambda>_. True)"
  shows "printable t \<Longrightarrow> CHR 0x00 \<notin> set (type_text t) \<Longrightarrow> length (type_text t) \<le> 2 ^ 28 \<Longrightarrow>
      \<exists>tb. RV_convert_datatype_to_JSON ok nested t = Some (Inr tb) \<and>
        holds tb ((if nested then [] else leading_string) @ type_text t)"
    and "printable t' \<Longrightarrow> CHR 0x00 \<notin> set (type_text t') \<Longrightarrow> length (type_text t') \<le> 2 ^ 28 \<Longrightarrow>
      starts tb s \<Longrightarrow> 2048 \<le> room tb \<Longrightarrow> length s \<le> length leading_string \<Longrightarrow>
      \<exists>tb'. print_class ok t' tb = Some (Inr tb') \<and> holds tb' (s @ type_text t')"
    and "members_printable ms \<Longrightarrow> CHR 0x00 \<notin> set (members_text ms) \<Longrightarrow> length (members_text ms) \<le> 2 ^ 28 \<Longrightarrow>
      length s + length (members_text ms) \<le> 2 ^ 29 \<Longrightarrow> starts tb s \<Longrightarrow>
      \<exists>tb'. print_members ok ms tb = Some (Inr tb') \<and> starts tb' (s @ members_text ms) \<and>
        (ms \<noteq> [] \<longrightarrow> holds tb' (s @ members_text ms)) \<and> room tb \<le> room tb'"
  using assms
proof (induction ok nested t and ok t' tb and ok ms tb arbitrary: s and s and s rule:
    RV_convert_datatype_to_JSON_print_class_print_members.induct)
  case (1 ok nested t)
  obtain tb where tb: "start_type ok nested = Some (Inr tb)" "starts tb (if nested then [] else leading_string)"
    "2048 \<le> room tb"
    using start_type_ok [of ok nested] "1.prems"(4) by auto
  show ?case
    using "1.IH" [OF tb(1) "1.prems"(1-3) tb(2,3) _ "1.prems"(4)] tb(1) by (cases nested) auto
next
  case (2 ok URI t tb)
  then show ?case
    using print_grown_ok [OF "2.prems"(4), of "quoted URI" "length URI + 2" ok]
    by (auto simp: quoted_def leading_string_def)
next
  case (3 ok n ord sig tb)
  then obtain nm where n: "RV_convert_predefined_datatype_to_string (H5T_INTEGER n ord sig) = Some nm" by auto
  then have "n \<noteq> 0" by (auto simp: RV_convert_predefined_datatype_to_string_def)
  then show ?case
    using print_grown_ok [OF "3.prems"(4), of "class_format ''H5T_INTEGER'' nm"
        "length ''H5T_INTEGER'' + length nm + length (class_format [] []) + 1" ok] "3.prems" n
    by (auto simp: type_name_def class_format_def field_def quoted_def leading_string_def)
next
  case (4 ok n ord tb)
  then obtain nm where n: "RV_convert_predefined_datatype_to_string (H5T_FLOAT n ord) = Some nm" by auto
  then have "n \<noteq> 0" by (auto simp: RV_convert_predefined_datatype_to_string_def)
  then show ?case
    using print_grown_ok [OF "4.prems"(4), of "class_format ''H5T_FLOAT'' nm"
        "length ''H5T_FLOAT'' + length nm + length (class_format [] []) + 1" ok] "4.prems" n
    by (auto simp: type_name_def class_format_def field_def quoted_def leading_string_def)
next
  case (5 ok is_vlen n tb)
  then show ?case using print_string_ok [OF "5.prems"(7,4-6)] by simp
next
  case (6 ok n ms tb)
  have c: "curr tb = length s" using "6.prems"(4) by (simp add: starts_def)
  let ?l = compound_type_leading_string
  have len: "length s \<le> 8" "length ?l \<le> 100" "length (members_text ms) \<le> 2 ^ 28"
    using "6.prems"(3,6) by (simp_all add: leading_string_def compound_type_leading_string_def field_def quoted_def)
  have u: "unat (of_nat (length s) + of_nat (length ?l) + 1 :: u64) = length s + length ?l + 1"
  proof -
    have "of_nat (length s) + of_nat (length ?l) + 1 = (of_nat (length s + length ?l + 1) :: u64)" by simp
    also have "unat \<dots> = length s + length ?l + 1" by (rule unat_of_nat_u64) (use len(1,2) in simp)
    finally show ?thesis .
  qed
  obtain tb1 where 1: "CHECKED_REALLOC (Minor H5E_CANTALLOC) ok (of_nat (curr tb) + of_nat (length ?l) + 1) tb = Some (Inr tb1)"
    "starts tb1 s" "length s + length ?l + 1 \<le> room tb1"
    using grow_starts [OF "6.prems"(4), of "of_nat (length s) + of_nat (length ?l) + 1" ok "Minor H5E_CANTALLOC"]
      "6.prems"(7) len(1,2) unfolding u c by auto
  obtain b where 2: "write_bytes (curr tb1) ?l (buffer tb1) = Some b"
    "starts (tb1\<lparr>buffer := b, curr := curr tb1 + length ?l\<rparr>) (s @ ?l)"
    using starts_write [OF 1(2), of ?l] 1(3) by auto
  obtain tb2 where 3: "print_members ok ms (tb1\<lparr>buffer := b, curr := curr tb1 + length ?l\<rparr>) = Some (Inr tb2)"
    "holds tb2 ((s @ ?l) @ members_text ms)"
    using "6.IH" [OF _ _ 1(1) 2(1) _ _ _ _ 2(2) "6.prems"(7)] "6.prems"(1,2,7) len by auto
  have c2: "curr tb2 = length ((s @ ?l) @ members_text ms)" using 3(2) by (simp add: holds_def)
  have u2: "unat (of_nat (curr tb2) + 3 :: u64) = curr tb2 + 3"
    using unat_of_nat_plus [of "curr tb2" 3] len unfolding c2 by simp
  have cl: "curr tb2 + 3 \<le> 2 ^ 63" using len unfolding c2 by simp
  obtain tb3 where 4: "CHECKED_REALLOC (Minor H5E_CANTALLOC) ok (of_nat (curr tb2) + 3) tb2 = Some (Inr tb3)"
    "holds tb3 ((s @ ?l) @ members_text ms)" "curr tb2 + 3 \<le> room tb3"
    using grow_holds [OF 3(2), of "of_nat (curr tb2) + 3" ok "Minor H5E_CANTALLOC", unfolded u2, OF cl] "6.prems"(7)
    by auto
  obtain tb4 where 5: "strcat_advance '']}'' tb3 = Some (Inr tb4 :: type_failure + text_buffer)"
    "holds tb4 (((s @ ?l) @ members_text ms) @ '']}'')"
    using strcat_holds [OF 4(2), of "'']}''"] 4(3) unfolding c2 by auto
  show ?case using "6.prems"(1,7) 1(1) 2(1) 3(1) 4(1) 5 by simp
next
  case (7 ok base vs tb)
  obtain nm sig where n: "RV_convert_predefined_datatype_to_string base = Some nm" "H5Tget_sign base = Some sig"
    using "7.prems"(1) by auto
  then have sz: "H5Tget_size base \<noteq> 0" by (auto simp: RV_convert_predefined_datatype_to_string_def)
  let ?m = "mapping_text (sig = H5T_SGN_NONE) vs"
  have t: "type_text (H5T_ENUM base vs) = enum_format nm ?m" using n by (simp add: type_name_def)
  have m: "CHR 0x00 \<notin> set ?m" "length ?m \<le> 2 ^ 28"
    using "7.prems"(2,3) unfolding t by (simp_all add: enum_format_def field_def)
  have "starts (malloc_text 4096) []" by (simp add: malloc_text_def starts_def)
  from print_mapping_ok [OF "7.prems"(7) this, of vs "sig = H5T_SGN_NONE"] "7.prems"(1) m(2)
  obtain mb where 1: "print_mapping ok (sig = H5T_SGN_NONE) vs (malloc_text 4096) = Some (Inr mb)" "holds mb ?m"
    by auto
  have r: "c_string (buffer mb) = Some ?m" by (rule holds_c_string [OF 1(2) m(1)])
  have l: "length (enum_format nm ?m) < length nm + length ?m + length (enum_format [] []) + 1"
    by (simp add: enum_format_def class_format_def field_def quoted_def)
  obtain tb' where "print_grown ok (length nm + length ?m + length (enum_format [] []) + 1) (enum_format nm ?m) tb
      = Some (Inr tb')" "holds tb' (s @ enum_format nm ?m)"
    using print_grown_ok [OF "7.prems"(4) disjI1 [OF l], of ok] "7.prems"(3,6,7) unfolding t
    by (auto simp: enum_format_def class_format_def field_def quoted_def leading_string_def)
  then show ?case using n sz 1(1) r "7.prems"(7)
    unfolding t by (simp add: print_enum_def ENUM_MAPPING_DEFAULT_SIZE_def)
next
  case (8 ok base dims tb)
  obtain sb where 1: "print_shape ok dims = Some (Inr sb)" "c_string (buffer sb) = Some (dims_text dims)"
    using print_shape_ok [OF "8.prems"(7), of dims] "8.prems"(1) by auto
  have b: "CHR 0x00 \<notin> set (type_text base)" "length (type_text base) \<le> 2 ^ 28"
    using "8.prems"(2,3) by (simp_all add: array_format_def field_def)
  obtain bb where 2: "RV_convert_datatype_to_JSON ok True base = Some (Inr bb)" "holds bb (type_text base)"
    using "8.IH" [OF _ 1(1) _ b "8.prems"(7)] "8.prems"(1) by auto
  have r: "c_string (buffer bb) = Some (type_text base)" by (rule holds_c_string [OF 2(2) b(1)])
  have c: "curr bb = length (type_text base)" using 2(2) by (simp add: holds_def)
  let ?t = "array_format (type_text base) (dims_text dims)"
  have l: "length ?t < length (type_text base) + length (dims_text dims) + length (array_format [] []) + 1"
    by (simp add: array_format_def field_def quoted_def)
  obtain tb' where "print_grown ok (length (type_text base) + length (dims_text dims) + length (array_format [] []) + 1) ?t tb
      = Some (Inr tb')" "holds tb' (s @ ?t)"
    using print_grown_ok [OF "8.prems"(4) disjI1 [OF l], of ok] "8.prems"(3,6,7)
    by (auto simp: array_format_def field_def quoted_def leading_string_def)
  then show ?case using 1 2(1) r c "8.prems"(1) by simp
next
  case (9 ok is_obj_ref n tb)
  then show ?case
    using print_grown_ok [OF "9.prems"(4), of "type_text (H5T_REFERENCE is_obj_ref n)"
        "length (reference_format []) + length (if is_obj_ref then ''H5T_STD_REF_OBJ'' else ''H5T_STD_REF_DSETREG'') + 1" ok]
    by (auto simp: reference_format_def field_def quoted_def leading_string_def Let_def)
next
  case (13 ok name off t ms tb)
  have b: "CHR 0x00 \<notin> set (type_text t)" "length (type_text t) \<le> 2 ^ 28"
    using "13.prems"(2,3) by (simp_all add: member_format_def)
  obtain mb where 1: "RV_convert_datatype_to_JSON ok False t = Some (Inr mb)" "holds mb (leading_string @ type_text t)"
    using "13.IH"(1) [OF _ b "13.prems"(6)] "13.prems"(1) by auto
  have r: "c_string (buffer mb) = Some (leading_string @ type_text t)"
    by (rule print_reads [OF 1(2) leading_NUL b(1)])
  let ?sep = "if ms = [] then [] else '', ''"
  let ?t = "member_format name (leading_string @ type_text t) ?sep"
  let ?n = "length name + length (leading_string @ type_text t) + length (member_format [] [] []) + length ?sep + 1"
  have l: "length ?t < ?n" by (simp add: member_format_def field_def quoted_def)
  obtain tb1 where 2: "print_grown ok ?n ?t tb = Some (Inr tb1)" "holds tb1 (s @ ?t)" "room tb \<le> room tb1"
    using print_grown_ok [OF "13.prems"(5) disjI1 [OF l], of ok] "13.prems"(3,4,6)
    by (auto simp: member_format_def field_def quoted_def)
  have "\<exists>tb'. print_members ok ms tb1 = Some (Inr tb') \<and> starts tb' ((s @ ?t) @ members_text ms) \<and>
      (ms \<noteq> [] \<longrightarrow> holds tb' ((s @ ?t) @ members_text ms)) \<and> room tb1 \<le> room tb'"
    using "13.IH"(2) [OF 1(1) refl r refl 2(1) _ _ _ _ holds_starts [OF 2(2)] "13.prems"(6)] "13.prems"(1-4) by simp
  then show ?case using 1(1) r 2 by (auto simp: Let_def)
qed simp_all

text \<open>
  C27: A datatype that the connector supports is printed completely.
\<close>

theorem datatype_printed:
  assumes "printable t" and "CHR 0x00 \<notin> set (type_text t)" and "length (type_text t) \<le> 2 ^ 28" and "\<And>n. ok n"
  shows "\<exists>tb. RV_convert_datatype_to_JSON ok nested t = Some (Inr tb) \<and>
    c_string (buffer tb) = Some ((if nested then [] else leading_string) @ type_text t) \<and>
    curr tb = length ((if nested then [] else leading_string) @ type_text t)"
proof -
  have "ok = (\<lambda>_. True)" using assms(4) by auto
  from datatype_printed_ok(1) [OF this assms(1-3), of nested] obtain tb where
    tb: "RV_convert_datatype_to_JSON ok nested t = Some (Inr tb)"
      "holds tb ((if nested then [] else leading_string) @ type_text t)" by blast
  then show ?thesis using print_reads [OF tb(2) _ assms(2)] leading_NUL by (auto simp: holds_def)
qed

definition sample_type :: h5t where
  "sample_type = H5T_COMPOUND 20
     [Member ''a'' 0 (H5T_INTEGER 4 H5T_ORDER_LE H5T_SGN_2),
      Member ''b'' 4 (H5T_ARRAY (H5T_FLOAT 8 H5T_ORDER_BE) [2])]"

lemma sample_names:
  "RV_convert_predefined_datatype_to_string (H5T_INTEGER 4 H5T_ORDER_LE H5T_SGN_2) = Some ''H5T_STD_I32LE''"
  "RV_convert_predefined_datatype_to_string (H5T_FLOAT 8 H5T_ORDER_BE) = Some ''H5T_IEEE_F64BE''"
  "dims_text [2] = ''[2]''"
  by (simp_all add: RV_convert_predefined_datatype_to_string_def predefined_name_def
      PREDEFINED_DATATYPE_NAME_MAX_LENGTH_def dims_text_def show_nat.simps digit_char_def char_of_def bit_0)

lemma sample_type_text:
  "type_text sample_type =
     ''{\"class\": \"H5T_COMPOUND\", \"fields\": ['' @
     ''{\"name\": \"a\", \"type\": {\"class\": \"H5T_INTEGER\", \"base\": \"H5T_STD_I32LE\"}}, '' @
     ''{\"name\": \"b\", \"type\": {\"class\": \"H5T_ARRAY\", \"base\": {\"class\": \"H5T_FLOAT\", \"base\": \"H5T_IEEE_F64BE\"}, '' @
     ''\"dims\": [2]}}]}''"
  by (simp add: sample_type_def sample_names type_name_def compound_type_leading_string_def member_format_def leading_string_def
      class_format_def array_format_def field_def quoted_def)

theorem datatype_printed_witness:
  "\<exists>tb. RV_convert_datatype_to_JSON (\<lambda>_. True) False sample_type = Some (Inr tb) \<and>
    c_string (buffer tb) = Some (leading_string @ type_text sample_type)"
proof -
  have "printable sample_type" by (simp add: sample_type_def sample_names)
  moreover have "CHR 0x00 \<notin> set (type_text sample_type)" "length (type_text sample_type) \<le> 2 ^ 28"
    unfolding sample_type_text by simp_all
  ultimately show ?thesis using datatype_printed [of sample_type "\<lambda>_. True" False] by auto
qed
end
