(* ===== verification/Datatype_Roundtrip.thy ===== *)
theory Datatype_Roundtrip
  imports Datatype_Parse
begin

text \<open>
  Printing a datatype and reading it back: \<open>RV_convert_datatype_to_JSON\<close> against
  \<open>RV_parse_datatype\<close>.  The parser and HDF5 are arguments; what the property asks of them are the hypotheses
  \<open>parses\<close>, \<open>looks_up\<close> and \<open>buildable\<close>.
\<close>

section \<open>Datatypes that are read back\<close>

definition plain :: "string \<Rightarrow> bool" where
  "plain s \<longleftrightarrow> CHR 0x22 \<notin> set s \<and> CHR 0x5C \<notin> set s \<and> CHR 0x00 \<notin> set s"

definition enum_int :: "bool \<Rightarrow> u64 \<Rightarrow> int" where
  "enum_int is_unsigned v = (if is_unsigned then uint v else sint v)"

text \<open>A value of an enumeration whose number fits a \<open>long long\<close> and is converted back to it.\<close>

definition value_readable :: "h5_types \<Rightarrow> h5t \<Rightarrow> string \<times> u8 list \<Rightarrow> bool" where
  "value_readable lib base nv \<longleftrightarrow>
     plain (fst nv) \<and>
     (case enum_value (snd nv) of
        None \<Rightarrow> False
      | Some v \<Rightarrow>
          let i = enum_int (H5Tget_sign base = Some H5T_SGN_NONE) v
          in i < 2 ^ 63 \<and> convert_llong lib base i = Some (snd nv))"

text \<open>
  Compounds are packed, and no member is named \<open>type\<close>; committed datatypes are not among the parts.
\<close>

fun readable :: "h5_types \<Rightarrow> h5t \<Rightarrow> bool"
and members_readable :: "h5_types \<Rightarrow> u64 \<Rightarrow> h5t_member list \<Rightarrow> bool" where
  "readable lib (H5T_INTEGER n ord sig) \<longleftrightarrow> n \<in> {1, 2, 4, 8} \<and> ord \<in> {H5T_ORDER_LE, H5T_ORDER_BE}"
| "readable lib (H5T_FLOAT n ord) \<longleftrightarrow> n \<in> {4, 8} \<and> ord \<in> {H5T_ORDER_LE, H5T_ORDER_BE}"
| "readable lib (H5T_STRING is_vlen n) \<longleftrightarrow> n \<noteq> 0 \<and> (if is_vlen then n = var_str_size lib else unat n < 2 ^ 63)"
| "readable lib (H5T_COMPOUND n ms) \<longleftrightarrow>
     n \<noteq> 0 \<and> ms \<noteq> [] \<and> n = sum_list (map (\<lambda>m. H5Tget_size (member_type m)) ms) \<and> members_readable lib 0 ms"
| "readable lib (H5T_ENUM (H5T_INTEGER n ord sig) vs) \<longleftrightarrow>
     n \<in> {1, 2, 4, 8} \<and> ord \<in> {H5T_ORDER_LE, H5T_ORDER_BE} \<and> vs \<noteq> [] \<and>
     list_all (value_readable lib (H5T_INTEGER n ord sig)) vs"
| "readable lib (H5T_ARRAY base dims) \<longleftrightarrow>
     prod_list dims * H5Tget_size base \<noteq> 0 \<and> dims \<noteq> [] \<and> length dims \<le> 32 \<and>
     list_all (\<lambda>d. unat d < 10 ^ 18) dims \<and> readable lib base"
| "readable lib (H5T_REFERENCE is_obj_ref n) \<longleftrightarrow>
     n \<noteq> 0 \<and> n = (if is_obj_ref then obj_ref_size lib else reg_ref_size lib)"
| "readable lib t \<longleftrightarrow> False"
| "members_readable lib off [] \<longleftrightarrow> True"
| "members_readable lib off (Member name moff t # ms) \<longleftrightarrow>
     plain name \<and> name \<noteq> ''type'' \<and> moff = off \<and> readable lib t \<and> members_readable lib (off + H5Tget_size t) ms"

section \<open>What is asked of the libraries\<close>

definition number :: "int \<Rightarrow> json" where
  "number i = YNumber (show_int i) (Some i)"

definition mapping_json :: "bool \<Rightarrow> (string \<times> u8 list) list \<Rightarrow> json" where
  "mapping_json is_unsigned vs =
     YObject (map (\<lambda>(name, bs). (name, number (enum_int is_unsigned (the (enum_value bs))))) vs)"

text \<open>The value that the text of a datatype denotes.\<close>

fun type_json :: "h5t \<Rightarrow> (string \<times> json) list" and members_json :: "h5t_member list \<Rightarrow> json list" where
  "type_json (H5T_INTEGER n ord sig) =
     [(''class'', YString ''H5T_INTEGER''), (''base'', YString (type_name (H5T_INTEGER n ord sig)))]"
| "type_json (H5T_FLOAT n ord) =
     [(''class'', YString ''H5T_FLOAT''), (''base'', YString (type_name (H5T_FLOAT n ord)))]"
| "type_json (H5T_STRING is_vlen n) =
     [(''class'', YString ''H5T_STRING''), (''charSet'', YString ''H5T_CSET_ASCII''),
      (''strPad'', YString (if is_vlen then ''H5T_STR_NULLTERM'' else ''H5T_STR_NULLPAD'')),
      (''length'', if is_vlen then YString ''H5T_VARIABLE'' else number (uint n))]"
| "type_json (H5T_COMPOUND n ms) =
     [(''class'', YString ''H5T_COMPOUND''), (''fields'', YArray (members_json ms))]"
| "type_json (H5T_ENUM base vs) =
     [(''class'', YString ''H5T_ENUM''),
      (''base'', YObject [(''class'', YString ''H5T_INTEGER''), (''base'', YString (type_name base))]),
      (''mapping'', mapping_json (H5Tget_sign base = Some H5T_SGN_NONE) vs)]"
| "type_json (H5T_ARRAY base dims) =
     [(''class'', YString ''H5T_ARRAY''), (''base'', YObject (type_json base)),
      (''dims'', YArray (map (\<lambda>d. number (uint d)) dims))]"
| "type_json (H5T_REFERENCE is_obj_ref n) =
     [(''class'', YString ''H5T_REFERENCE''),
      (''base'', YString (if is_obj_ref then ''H5T_STD_REF_OBJ'' else ''H5T_STD_REF_DSETREG''))]"
| "type_json t = []"
| "members_json [] = []"
| "members_json (Member name off t # ms) =
     YObject [(''name'', YString name), (''type'', YObject (type_json t))] # members_json ms"

definition with_key :: "string \<Rightarrow> h5t \<Rightarrow> string" where
  "with_key space t = ''{'' @ quoted ''type'' @ '':'' @ space @ type_text t @ ''}''"

text \<open>The parser reads the text, written with or without a space after the colon.\<close>

definition parses :: "yajl \<Rightarrow> h5t \<Rightarrow> bool" where
  "parses y t \<longleftrightarrow> (\<forall>space \<in> {'''', '' ''}. tree_parse y (with_key space t) = Some (YObject [(''type'', YObject (type_json t))]))"

fun is_a :: "yajl_type \<Rightarrow> json \<Rightarrow> bool" where
  "is_a yajl_t_any v \<longleftrightarrow> True"
| "is_a yajl_t_string (YString _) \<longleftrightarrow> True"
| "is_a yajl_t_number (YNumber _ _) \<longleftrightarrow> True"
| "is_a yajl_t_object (YObject _) \<longleftrightarrow> True"
| "is_a yajl_t_array (YArray _) \<longleftrightarrow> True"
| "is_a _ _ \<longleftrightarrow> False"

text \<open>\<open>yajl_tree_get\<close> finds a value of the right type at the end of a path.\<close>

definition looks_up :: "yajl \<Rightarrow> bool" where
  "looks_up y \<longleftrightarrow>
     (\<forall>kvs key ty v. map_of kvs key = Some v \<and> is_a ty v \<longrightarrow>
        tree_get y (YObject [(''type'', YObject kvs)]) [''type'', key] ty = Some v)"

text \<open>The datatypes whose text is parsed, and those that HDF5 is asked to build on the way.\<close>

fun parts :: "h5t \<Rightarrow> h5t list" and members_parts :: "h5t_member list \<Rightarrow> h5t list" where
  "parts (H5T_COMPOUND n ms) = H5T_COMPOUND n ms # members_parts ms"
| "parts (H5T_ENUM base vs) = [H5T_ENUM base vs, base]"
| "parts (H5T_ARRAY base dims) = H5T_ARRAY base dims # parts base"
| "parts t = [t]"
| "members_parts [] = []"
| "members_parts (Member _ _ t # ms) = parts t @ members_parts ms"

fun stages :: "h5t \<Rightarrow> h5t list" and members_stages :: "h5t_member list \<Rightarrow> h5t list" where
  "stages (H5T_COMPOUND n ms) =
     members_stages ms @ map (\<lambda>k. H5T_COMPOUND n (take k ms)) [0..<Suc (length ms)]"
| "stages (H5T_ENUM base vs) = base # map (\<lambda>k. H5T_ENUM base (take k vs)) [0..<Suc (length vs)]"
| "stages (H5T_ARRAY base dims) = stages base @ [H5T_ARRAY base dims]"
| "stages t = [t]"
| "members_stages [] = []"
| "members_stages (Member _ _ t # ms) = stages t @ members_stages ms"

definition buildable :: "h5_types \<Rightarrow> h5t \<Rightarrow> bool" where
  "buildable lib t \<longleftrightarrow> (\<forall>u \<in> set (stages t). builds lib u)"

section \<open>Texts with balanced braces\<close>

definition closes :: "string \<Rightarrow> bool" where
  "closes s \<longleftrightarrow> (\<forall>d r. section_end False (Suc d) (s @ r) = section_end False (Suc d) r)"

lemma closes_append: "closes s \<Longrightarrow> closes t \<Longrightarrow> closes (s @ t)"
  by (simp add: closes_def)

lemma closes_Nil: "closes []"
  by (simp add: closes_def)

lemma closes_Cons: "c \<noteq> CHR 0x22 \<Longrightarrow> c \<noteq> CHR 0x5C \<Longrightarrow> c \<noteq> CHR ''{'' \<Longrightarrow> c \<noteq> CHR ''}'' \<Longrightarrow> closes s \<Longrightarrow> closes (c # s)"
  by (simp add: closes_def)

lemma section_end_plain:
  "plain s \<Longrightarrow> section_end True (Suc d) (s @ CHR 0x22 # r) = section_end False (Suc d) r"
  by (induction s) (auto simp: plain_def)

lemma closes_quoted: "plain s \<Longrightarrow> closes (quoted s)"
  by (simp add: closes_def quoted_def section_end_plain)

lemma closes_object: "closes s \<Longrightarrow> closes (''{'' @ s @ ''}'')"
  by (simp add: closes_def)

lemma closes_field: "plain k \<Longrightarrow> closes v \<Longrightarrow> closes (field k v)"
  unfolding field_def by (intro closes_append closes_quoted) (auto intro!: closes_Cons closes_Nil)

lemma closes_all: "(\<And>c. c \<in> set s \<Longrightarrow> c \<notin> {CHR 0x22, CHR 0x5C, CHR ''{'', CHR ''}''}) \<Longrightarrow> closes s"
  by (induction s) (auto intro: closes_Cons closes_Nil)

lemma object_section_end:
  assumes "closes s"
  shows "FIND_JSON_SECTION_END (CHR ''{'' # s @ CHR ''}'' # r) = Some r"
  using assms by (simp add: closes_def FIND_JSON_SECTION_END_def)

lemmas closing = closes_append closes_quoted closes_object closes_field closes_Nil


definition object_text :: "string \<Rightarrow> bool" where
  "object_text s \<longleftrightarrow> (\<exists>b. s = ''{'' @ b @ ''}'' \<and> closes b)"

lemma object_textI: "s = ''{'' @ b @ ''}'' \<Longrightarrow> closes b \<Longrightarrow> object_text s"
  by (auto simp: object_text_def)

lemma object_text_closes: "object_text s \<Longrightarrow> closes s"
  by (auto simp: object_text_def simp del: append.simps intro: closing)

lemma closes_comma: "closes s \<Longrightarrow> closes (CHR '','' # s)" "closes s \<Longrightarrow> closes (CHR '' '' # s)"
  by (simp_all add: closes_Cons)

lemma closes_braces: "closes s \<Longrightarrow> closes (CHR ''{'' # s @ ''}'')"
  by (simp add: closes_def)

lemma closes_member: "closes v \<Longrightarrow> plain name \<Longrightarrow> closes sep \<Longrightarrow> closes (member_format name (leading_string @ v) sep)"
proof -
  assume "closes v" "plain name" and sep: "closes sep"
  then have c: "closes (field ''name'' (quoted name) @ '', '' @ quoted ''type'' @ '': '' @ v)"
    by (auto intro!: closing closes_comma closes_Cons [of "CHR '':''"] simp: plain_def)
  show ?thesis using closes_append [OF closes_object [OF c] sep]
    by (simp add: member_format_def leading_string_def)
qed

lemma closes_number: "closes (show_nat n)" "closes (show_int i)"
proof -
  have "c \<notin> {CHR 0x22, CHR 0x5C, CHR ''{'', CHR ''}''}" if "is_digit_char c" for c
    using that by (auto simp: is_digit_char_def)
  then show n: "closes (show_nat n)" for n using show_nat_digits by (intro closes_all) blast
  then show "closes (show_int i)" by (auto simp: show_int_def intro!: closes_Cons)
qed

lemma closes_dims_text: "closes (dims_text dims)"
proof -
  have "closes (join '','' (map (\<lambda>d. show_nat (unat d)) ds))" for ds :: "u64 list"
    by (induction ds rule: induct_list012) (auto intro!: closes_append closes_comma closes_number closes_Nil)
  then show ?thesis by (auto simp: dims_text_def intro!: closes_append closes_Cons closes_Nil)
qed

lemma closes_mapping_text: "list_all (value_readable lib base) vs \<Longrightarrow> closes (mapping_text u vs)"
  by (induction u vs rule: mapping_text.induct)
    (auto simp: value_readable_def mapping_format_def enum_number_def intro!: closing closes_number closes_comma)

lemma show_widths: "show_nat 8 = ''8''" "show_nat 16 = ''16''" "show_nat 32 = ''32''" "show_nat 64 = ''64''"
  by (simp_all add: show_nat.simps digit_char_def char_of_def bit_0)

lemma integer_name:
  assumes "n \<in> {1, 2, 4, 8}" and "ord \<in> {H5T_ORDER_LE, H5T_ORDER_BE}"
  shows "RV_convert_predefined_datatype_to_string (H5T_INTEGER n ord sig) =
    Some (''H5T_STD_'' @ (if sig = H5T_SGN_NONE then ''U'' else ''I'')
      @ (if n = 1 then ''8'' else if n = 2 then ''16'' else if n = 4 then ''32'' else ''64'')
      @ (if ord = H5T_ORDER_LE then ''LE'' else ''BE''))"
  using assms by (auto simp: RV_convert_predefined_datatype_to_string_def predefined_name_def
      PREDEFINED_DATATYPE_NAME_MAX_LENGTH_def show_widths)

lemma float_name:
  assumes "n \<in> {4, 8}" and "ord \<in> {H5T_ORDER_LE, H5T_ORDER_BE}"
  shows "RV_convert_predefined_datatype_to_string (H5T_FLOAT n ord) =
    Some (''H5T_IEEE_F'' @ (if n = 4 then ''32'' else ''64'') @ (if ord = H5T_ORDER_LE then ''LE'' else ''BE''))"
  using assms by (auto simp: RV_convert_predefined_datatype_to_string_def predefined_name_def
      PREDEFINED_DATATYPE_NAME_MAX_LENGTH_def show_widths)

lemma plain_names:
  "n \<in> {1, 2, 4, 8} \<Longrightarrow> ord \<in> {H5T_ORDER_LE, H5T_ORDER_BE} \<Longrightarrow> plain (type_name (H5T_INTEGER n ord sig))"
  "n \<in> {4, 8} \<Longrightarrow> ord \<in> {H5T_ORDER_LE, H5T_ORDER_BE} \<Longrightarrow> plain (type_name (H5T_FLOAT n ord))"
  by (simp add: type_name_def integer_name plain_def, simp add: type_name_def float_name plain_def)

lemma integer_read_back:
  "n \<in> {1, 2, 4, 8} \<Longrightarrow> ord \<in> {H5T_ORDER_LE, H5T_ORDER_BE} \<Longrightarrow>
    convert_integer lib (type_name (H5T_INTEGER n ord sig)) = make H5E_CANTCOPY lib (H5T_INTEGER n ord sig)"
  by (cases sig) (auto simp: type_name_def integer_name convert_integer_def char_at_def predefined_integer_def)

lemma float_read_back:
  "n \<in> {4, 8} \<Longrightarrow> ord \<in> {H5T_ORDER_LE, H5T_ORDER_BE} \<Longrightarrow>
    convert_float lib (type_name (H5T_FLOAT n ord)) = make H5E_CANTCOPY lib (H5T_FLOAT n ord)"
  by (auto simp: type_name_def float_name convert_float_def char_at_def)

lemma plain_literals [simp]:
  "plain ''class''" "plain ''base''" "plain ''type''" "plain ''name''" "plain ''fields''" "plain ''dims''"
  "plain ''mapping''" "plain ''charSet''" "plain ''strPad''" "plain ''length''" "plain ''H5T_INTEGER''"
  "plain ''H5T_FLOAT''" "plain ''H5T_STRING''" "plain ''H5T_COMPOUND''" "plain ''H5T_ENUM''" "plain ''H5T_ARRAY''"
  "plain ''H5T_REFERENCE''" "plain ''H5T_STD_REF_OBJ''" "plain ''H5T_STD_REF_DSETREG''" "plain ''H5T_CSET_ASCII''"
  "plain ''H5T_STR_NULLTERM''" "plain ''H5T_STR_NULLPAD''" "plain ''H5T_VARIABLE''"
  by (simp_all add: plain_def)

lemma format_objects:
  "plain c \<Longrightarrow> plain base \<Longrightarrow> object_text (class_format c base)"
  "plain cs \<Longrightarrow> plain pad \<Longrightarrow> closes len \<Longrightarrow> object_text (string_format cs pad len)"
  "closes m \<Longrightarrow> object_text (compound_type_leading_string @ m @ '']}'')"
  "plain base \<Longrightarrow> closes m \<Longrightarrow> object_text (enum_format base m)"
  "closes b \<Longrightarrow> closes ds \<Longrightarrow> object_text (array_format b ds)"
  "plain base \<Longrightarrow> object_text (reference_format base)"
proof -
  have "object_text (class_format c base)" if "plain c" "plain base" for c base
    by (rule object_textI [where b = "field ''class'' (quoted c) @ '', '' @ field ''base'' (quoted base)"])
      (use that in \<open>auto simp: class_format_def intro!: closing closes_comma\<close>)
  note c = this
  show "plain c \<Longrightarrow> plain base \<Longrightarrow> object_text (class_format c base)" by (rule c)
  show "plain cs \<Longrightarrow> plain pad \<Longrightarrow> closes len \<Longrightarrow> object_text (string_format cs pad len)"
    by (rule object_textI [where b = "field ''class'' (quoted ''H5T_STRING'') @ '', '' @ field ''charSet'' (quoted cs) @ '', ''
          @ field ''strPad'' (quoted pad) @ '', '' @ field ''length'' len"])
      (auto simp: string_format_def intro!: closing closes_comma)
  show "closes m \<Longrightarrow> object_text (compound_type_leading_string @ m @ '']}'')"
    by (rule object_textI [where b = "field ''class'' (quoted ''H5T_COMPOUND'') @ '', '' @ field ''fields'' ''['' @ m @ '']''"])
      (auto simp: compound_type_leading_string_def intro!: closing closes_comma closes_Cons)
  show "plain base \<Longrightarrow> closes m \<Longrightarrow> object_text (enum_format base m)"
    by (rule object_textI [where b = "field ''class'' (quoted ''H5T_ENUM'') @ '', ''
          @ field ''base'' (class_format ''H5T_INTEGER'' base) @ '', '' @ field ''mapping'' (''{'' @ m @ ''}'')"])
      (auto simp: enum_format_def intro!: closing closes_comma closes_braces object_text_closes [OF c])
  show "closes b \<Longrightarrow> closes ds \<Longrightarrow> object_text (array_format b ds)"
    by (rule object_textI [where b = "field ''class'' (quoted ''H5T_ARRAY'') @ '', '' @ field ''base'' b @ '', '' @ field ''dims'' ds"])
      (auto simp: array_format_def intro!: closing closes_comma)
  show "plain base \<Longrightarrow> object_text (reference_format base)"
    by (rule object_textI [where b = "field ''class'' (quoted ''H5T_REFERENCE'') @ '','' @ field ''base'' (quoted base)"])
      (auto simp: reference_format_def intro!: closing closes_comma)
qed

lemma type_text_object:
  "readable lib t \<Longrightarrow> object_text (type_text t)"
  "members_readable lib off ms \<Longrightarrow> closes (members_text ms)"
proof (induction lib t and lib off ms rule: readable_members_readable.induct)
  case (1 lib n ord sig)
  then have "plain (type_name (H5T_INTEGER n ord sig))" by (intro plain_names) simp_all
  then show ?case by (simp add: format_objects)
next
  case (2 lib n ord)
  then have "plain (type_name (H5T_FLOAT n ord))" by (intro plain_names) simp_all
  then show ?case by (simp add: format_objects)
next
  case (5 lib n ord sig vs)
  then have "plain (type_name (H5T_INTEGER n ord sig))" by (intro plain_names) simp_all
  then show ?case using "5.prems" closes_mapping_text by (auto intro!: format_objects)
next
  case (6 lib base dims)
  then show ?case by (auto intro!: format_objects object_text_closes closes_dims_text)
next
  case (10 lib off name moff t ms)
  then have "closes (member_format name (leading_string @ type_text t) (if ms = [] then [] else '', ''))"
    by (intro closes_member) (auto intro!: object_text_closes closes_comma closes_Nil)
  then show ?case using 10 by (auto intro: closes_append)
qed (auto intro!: format_objects closing closes_number)

section \<open>Members that are put together\<close>

lemma insert_members_all:
  assumes "members_readable lib off ms"
    and "\<And>k. k < length ms \<Longrightarrow> builds lib (H5T_COMPOUND n (acc @ take (Suc k) ms))"
  shows "insert_members lib n acc off (map (\<lambda>m. Some (member_name m)) ms) (map member_type ms) =
    Some (Inr (H5T_COMPOUND n (acc @ ms)))"
  using assms
proof (induction ms arbitrary: off acc)
  case (Cons m ms)
  obtain name t where m: "m = Member name off t" using Cons.prems(1) by (cases m) auto
  have "builds lib (H5T_COMPOUND n (acc @ [m]))" using Cons.prems(2) [of 0] by simp
  moreover have "builds lib (H5T_COMPOUND n ((acc @ [m]) @ take (Suc k) ms))" if "k < length ms" for k
    using Cons.prems(2) [of "Suc k"] that by simp
  then have "insert_members lib n (acc @ [m]) (off + H5Tget_size t) (map (\<lambda>m. Some (member_name m)) ms) (map member_type ms) =
      Some (Inr (H5T_COMPOUND n ((acc @ [m]) @ ms)))"
    using Cons.prems(1) m by (intro Cons.IH) auto
  ultimately show ?case by (simp add: m Let_def)
qed simp

lemma create_compound_all:
  assumes "members_readable lib 0 ms" and "n = sum_list (map (\<lambda>m. H5Tget_size (member_type m)) ms)"
    and "buildable lib (H5T_COMPOUND n ms)"
  shows "create_compound lib (map (\<lambda>m. Some (member_name m)) ms) (map member_type ms) = Some (Inr (H5T_COMPOUND n ms))"
proof -
  have b: "builds lib (H5T_COMPOUND n (take k ms))" if "k \<le> length ms" for k
  proof -
    have "k \<in> set [0..<Suc (length ms)]" using that by (simp del: upt_Suc)
    then show ?thesis using assms(3) by (simp add: buildable_def del: upt_Suc)
  qed
  have "n = sum_list (map H5Tget_size (map member_type ms))" using assms(2) by (simp add: comp_def)
  then show ?thesis using insert_members_all [OF assms(1), of n "[]"] b [of 0] b
    by (simp add: create_compound_def Let_def)
qed

lemma field_names_all:
  "field_names (members_json ms) = Some (Inr (map (\<lambda>m. Some (member_name m)) ms))"
proof (induction ms)
  case (Cons m ms)
  then show ?case by (cases m) simp
qed simp

lemma members_json_length: "length (members_json ms) = length ms"
proof (induction ms)
  case (Cons m ms)
  then show ?case by (cases m) simp
qed simp

lemma array_dim_number: "array_dim (number (uint d)) = Some d"
  by (simp add: number_def)

lemma create_array_all:
  assumes "length dims \<le> 32" and "builds lib (H5T_ARRAY base dims)"
  shows "create_array lib base (map array_dim (map (\<lambda>d. number (uint d)) dims)) = Some (Inr (H5T_ARRAY base dims))"
proof -
  have "map array_dim (map (\<lambda>d. number (uint d)) dims) = map Some dims"
    by (simp add: array_dim_number)
  moreover have "length dims mod 2 ^ 32 = length dims" using assms(1) by simp
  ultimately show ?thesis unfolding create_array_def using assms(2) by (simp only: length_map) (auto simp: make_def comp_def)
qed

lemma insert_values_all:
  assumes "list_all (value_readable lib base) vs"
    and "\<And>k. k < length vs \<Longrightarrow> builds lib (H5T_ENUM base (acc @ take (Suc k) vs))"
  shows "insert_values lib base acc
      (map (\<lambda>(name, bs). (name, number (enum_int (H5Tget_sign base = Some H5T_SGN_NONE) (the (enum_value bs))))) vs) =
    Inr (H5T_ENUM base (acc @ vs))"
  using assms
proof (induction vs arbitrary: acc)
  case (Cons v vs)
  obtain name bs where v: "v = (name, bs)" by (cases v)
  have c: "convert_llong lib base (enum_int (H5Tget_sign base = Some H5T_SGN_NONE) (the (enum_value bs))) = Some bs"
    using Cons.prems(1) by (auto simp: v value_readable_def Let_def split: option.splits)
  have "builds lib (H5T_ENUM base (acc @ [v]))" using Cons.prems(2) [of 0] by simp
  moreover have "builds lib (H5T_ENUM base ((acc @ [v]) @ take (Suc k) vs))" if "k < length vs" for k
    using Cons.prems(2) [of "Suc k"] that by simp
  then have "insert_values lib base (acc @ [v])
      (map (\<lambda>(name, bs). (name, number (enum_int (H5Tget_sign base = Some H5T_SGN_NONE) (the (enum_value bs))))) vs) =
    Inr (H5T_ENUM base ((acc @ [v]) @ vs))"
    using Cons.prems(1) by (intro Cons.IH) auto
  ultimately show ?case using c by (simp add: v number_def Let_def)
qed simp

section \<open>Fields that are found\<close>

lemma string_found:
  "looks_up y \<Longrightarrow> map_of kvs key = Some (YString s) \<Longrightarrow>
    type_string_at y (YObject [(''type'', YObject kvs)]) key = Some s"
  unfolding looks_up_def type_string_at_def by (metis Option.bind.simps(2) YAJL_GET_STRING.simps(1) is_a.simps(2))

lemma array_found:
  "looks_up y \<Longrightarrow> map_of kvs key = Some (YArray vs) \<Longrightarrow>
    array_of (tree_get y (YObject [(''type'', YObject kvs)]) [''type'', key] yajl_t_array) = Some vs"
  unfolding looks_up_def by (metis array_of.simps(1) is_a.simps(5))

lemma object_found:
  "looks_up y \<Longrightarrow> map_of kvs key = Some (YObject vs) \<Longrightarrow>
    object_of (tree_get y (YObject [(''type'', YObject kvs)]) [''type'', key] yajl_t_object) = Some vs"
  unfolding looks_up_def by (metis object_of.simps(1) is_a.simps(4))

lemma any_found:
  "looks_up y \<Longrightarrow> map_of kvs key = Some v \<Longrightarrow>
    tree_get y (YObject [(''type'', YObject kvs)]) [''type'', key] yajl_t_any = Some v"
  unfolding looks_up_def by (metis is_a.simps(1))

lemmas found = string_found array_found object_found any_found

section \<open>Parts that are found\<close>

lemma object_at_start:
  assumes "closes c"
  shows "object_at (CHR ''{'' # c @ CHR ''}'' # r) = Some (CHR ''{'' # c @ ''}'', r)"
proof -
  have "take (length (CHR ''{'' # c @ CHR ''}'' # r) - length r) (CHR ''{'' # c @ CHR ''}'' # r) = CHR ''{'' # c @ ''}''"
    by simp
  then show ?thesis by (simp add: object_at_def object_section_end [OF assms])
qed

lemma array_base_found:
  assumes "object_text b" and "space \<in> {'''', '' ''}"
  shows "base_section (''{'' @ quoted ''type'' @ '':'' @ space @ array_format b ds @ ''}'') = Some b"
proof -
  obtain c where c: "b = ''{'' @ c @ ''}''" "closes c" using assms(1) by (auto simp: object_text_def)
  show ?thesis using assms(2) object_at_start [OF c(2)]
    by (auto simp: base_section_def array_format_def field_def quoted_def c(1))
qed

lemma enum_base_found:
  assumes "plain b" and "space \<in> {'''', '' ''}"
  shows "base_section (''{'' @ quoted ''type'' @ '':'' @ space @ enum_format b m @ ''}'') = Some (class_format ''H5T_INTEGER'' b)"
proof -
  have "object_text (class_format ''H5T_INTEGER'' b)" using assms(1) by (simp add: format_objects)
  then obtain c where c: "class_format ''H5T_INTEGER'' b = ''{'' @ c @ ''}''" "closes c" by (auto simp: object_text_def)
  show ?thesis using assms(2) object_at_start [OF c(2)]
    by (auto simp: base_section_def enum_format_def field_def quoted_def c(1))
qed

lemma fields_found:
  assumes "space \<in> {'''', '' ''}"
  shows "strstr (''{'' @ quoted ''type'' @ '':'' @ space @ compound_type_leading_string @ m) (quoted ''fields'') =
    Some (quoted ''fields'' @ '': ['' @ m)"
  using assms by (auto simp: compound_type_leading_string_def field_def quoted_def)

lemma strstr_plain: "x \<notin> set s \<Longrightarrow> strstr (s @ r) (x # pat) = strstr r (x # pat)"
  by (induction s) auto

lemma not_type:
  assumes "plain name" and "name \<noteq> ''type''"
  shows "take 5 (name @ CHR 0x22 # r) \<noteq> ''type'' @ [CHR 0x22]"
proof
  let ?t = "\<lambda>s. takeWhile (\<lambda>c. c \<noteq> CHR 0x22) s"
  assume "take 5 (name @ CHR 0x22 # r) = ''type'' @ [CHR 0x22]"
  then have "name @ CHR 0x22 # r = (''type'' @ [CHR 0x22]) @ drop 5 (name @ CHR 0x22 # r)"
    by (metis append_take_drop_id)
  then have "?t (name @ CHR 0x22 # r) = ?t ((''type'' @ [CHR 0x22]) @ drop 5 (name @ CHR 0x22 # r))"
    by (rule arg_cong)
  moreover have "?t (name @ CHR 0x22 # r) = name"
    using assms(1) by (subst takeWhile_append2) (auto simp: plain_def)
  ultimately show False using assms(2) by simp
qed

lemma type_section_at:
  assumes "object_text t"
  shows "strstr (leading_string @ t @ r) (quoted ''type'') = Some (leading_string @ t @ r)"
    and "strstr s (quoted ''type'') = Some (leading_string @ t @ r) \<Longrightarrow> type_section s = Some (leading_string @ t, r)"
proof -
  obtain c where c: "t = ''{'' @ c @ ''}''" "closes c" using assms by (auto simp: object_text_def)
  show "strstr (leading_string @ t @ r) (quoted ''type'') = Some (leading_string @ t @ r)"
    by (simp add: leading_string_def quoted_def)
  have "strstr (leading_string @ t @ r) ''{'' = Some (t @ r)"
    by (simp add: leading_string_def quoted_def c(1))
  moreover have "FIND_JSON_SECTION_END (t @ r) = Some r" using object_section_end [OF c(2)] by (simp add: c(1))
  ultimately show "type_section s = Some (leading_string @ t, r)"
    if "strstr s (quoted ''type'') = Some (leading_string @ t @ r)" using that by (simp add: type_section_def)
qed

lemma member_type_found:
  assumes "object_text t" and "plain name" and "name \<noteq> ''type''"
  shows "type_section (member_format name (leading_string @ t) sep @ r) = Some (leading_string @ t, CHR ''}'' # sep @ r)"
proof (rule type_section_at(2) [OF assms(1)])
  let ?t = "leading_string @ t @ CHR ''}'' # sep @ r"
  have t: "strstr ?t (quoted ''type'') = Some ?t" by (rule type_section_at(1) [OF assms(1)])
  have q: "quoted ''type'' = CHR 0x22 # ''type'' @ [CHR 0x22]" by (simp add: quoted_def)
  have n: "CHR 0x22 \<notin> set name" using assms(2) by (simp add: plain_def)
  have "strstr (CHR 0x22 # name @ CHR 0x22 # '', '' @ ?t) (quoted ''type'') = strstr (name @ CHR 0x22 # '', '' @ ?t) (quoted ''type'')"
    using not_type [OF assms(2,3), of "'', '' @ ?t"] by (simp add: q eval_nat_numeral del: take_append)
  also have "\<dots> = strstr (CHR 0x22 # '', '' @ ?t) (quoted ''type'')" unfolding q by (rule strstr_plain [OF n])
  also have "\<dots> = strstr ?t (quoted ''type'')" by (simp add: q)
  also note t
  finally show "strstr (member_format name (leading_string @ t) sep @ r) (quoted ''type'') = Some ?t"
    by (simp add: member_format_def field_def quoted_def)
qed

section \<open>The round trip\<close>

declare RV_convert_JSON_to_datatype.simps [simp del]

lemma self_part: "t \<in> set (parts t)"
  by (cases t) simp_all

lemma parsed:
  assumes "list_all (parses y) (parts t)" and "space \<in> {'''', '' ''}"
  shows "tree_parse y (with_key space t) = Some (YObject [(''type'', YObject (type_json t))])"
  using assms self_part [of t] by (auto simp: list_all_iff parses_def)

lemma field_grown:
  assumes "ok = (\<lambda>_. True)" and "length (buffer tb) = room tb" and "0 < room tb" and "length s \<le> 2 ^ 28"
  shows "\<exists>tb'. CHECKED_REALLOC (Minor H5E_CANTALLOC :: type_failure) ok (of_nat (length (leading_string @ s) + 3)) tb = Some (Inr tb') \<and>
    length (buffer tb') = room tb' \<and> 0 < room tb'"
proof -
  have "unat (of_nat (length (leading_string @ s) + 3) :: u64) = length (leading_string @ s) + 3"
    by (rule unat_of_nat_u64) (use assms(4) in \<open>simp add: leading_string_def quoted_def\<close>)
  then have "unat (of_nat (length (leading_string @ s) + 3) :: u64) \<le> 2 ^ 63"
    using assms(4) by (simp add: leading_string_def quoted_def)
  from grow_extends [OF assms(2,3) this, of ok "Minor H5E_CANTALLOC :: type_failure"] show ?thesis
    using assms(1,3) by auto
qed

lemma wrapped: "wrap_base (type_text t) = with_key '''' t" "wrap_type (leading_string @ type_text t) = with_key '' '' t"
  by (simp_all add: wrap_base_def wrap_type_def with_key_def leading_string_def quoted_def)

text \<open>What the class in the text selects.\<close>

lemma class_read:
  assumes "looks_up y" and "tree_parse y type = Some (YObject [(''type'', YObject kvs)])"
    and "map_of kvs ''class'' = Some (YString c)"
  shows "c = ''H5T_INTEGER'' \<Longrightarrow> map_of kvs ''base'' = Some (YString b) \<Longrightarrow>
      RV_convert_JSON_to_datatype y lib ok type = convert_integer lib b"
    and "c = ''H5T_FLOAT'' \<Longrightarrow> map_of kvs ''base'' = Some (YString b) \<Longrightarrow>
      RV_convert_JSON_to_datatype y lib ok type = convert_float lib b"
    and "c = ''H5T_REFERENCE'' \<Longrightarrow> map_of kvs ''base'' = Some (YString b) \<Longrightarrow>
      RV_convert_JSON_to_datatype y lib ok type = convert_reference lib b"
    and "c = ''H5T_STRING'' \<Longrightarrow>
      RV_convert_JSON_to_datatype y lib ok type = convert_string y lib (YObject [(''type'', YObject kvs)])"
    and "c = ''H5T_COMPOUND'' \<Longrightarrow> map_of kvs ''fields'' = Some (YArray fs) \<Longrightarrow> fs \<noteq> [] \<Longrightarrow>
      field_names fs = Some (Inr names) \<Longrightarrow> strstr type (quoted ''fields'') = Some ptr \<Longrightarrow> ok = (\<lambda>_. True) \<Longrightarrow>
      RV_convert_JSON_to_datatype y lib ok type =
        andthen (convert_fields y lib ok (length fs) (malloc_text DATATYPE_BODY_DEFAULT_SIZE) ptr) (create_compound lib names)"
    and "c = ''H5T_ARRAY'' \<Longrightarrow> map_of kvs ''dims'' = Some (YArray dims) \<Longrightarrow> dims \<noteq> [] \<Longrightarrow>
      base_section type = Some sec \<Longrightarrow> ok = (\<lambda>_. True) \<Longrightarrow>
      RV_convert_JSON_to_datatype y lib ok (wrap_base sec) = Some (Inr base) \<Longrightarrow>
      RV_convert_JSON_to_datatype y lib ok type = create_array lib base (map array_dim dims)"
    and "c = ''H5T_ENUM'' \<Longrightarrow> base_section type = Some sec \<Longrightarrow> ok = (\<lambda>_. True) \<Longrightarrow>
      RV_convert_JSON_to_datatype y lib ok (wrap_base sec) = Some (Inr base) \<Longrightarrow>
      RV_convert_JSON_to_datatype y lib ok type = create_enum y lib (YObject [(''type'', YObject kvs)]) base"
  by (subst RV_convert_JSON_to_datatype.simps; simp add: assms(2) string_found [OF assms(1,3)] found [OF assms(1)])+

lemma read_back:
  assumes "looks_up y" and "ok = (\<lambda>_. True)"
  shows "readable lib t \<Longrightarrow> list_all (parses y) (parts t) \<Longrightarrow> buildable lib t \<Longrightarrow> length (type_text t) \<le> 2 ^ 28 \<Longrightarrow>
      space \<in> {'''', '' ''} \<Longrightarrow> RV_convert_JSON_to_datatype y lib ok (with_key space t) = Some (Inr t)"
    and "members_readable lib off ms \<Longrightarrow> list_all (parses y) (members_parts ms) \<Longrightarrow>
      (\<And>u. u \<in> set (members_stages ms) \<Longrightarrow> builds lib u) \<Longrightarrow> length (members_text ms) \<le> 2 ^ 28 \<Longrightarrow>
      type_section p = type_section (members_text ms @ r) \<Longrightarrow> r \<noteq> [] \<Longrightarrow> length (buffer tb) = room tb \<Longrightarrow> 0 < room tb \<Longrightarrow>
      convert_fields y lib ok (length ms) tb p = Some (Inr (map member_type ms))"
  using assms
proof (induction lib t and lib off ms arbitrary: space and p r tb rule: readable_members_readable.induct)
  case (1 lib n ord sig)
  then show ?case
    using class_read(1) [OF "1.prems"(6) parsed [OF "1.prems"(2,5)]]
    by (simp add: integer_read_back make_def buildable_def)
next
  case (2 lib n ord)
  then show ?case
    using class_read(2) [OF "2.prems"(6) parsed [OF "2.prems"(2,5)]]
    by (simp add: float_read_back make_def buildable_def)
next
  case (3 lib is_vlen n)
  then show ?case
    using class_read(4) [OF "3.prems"(6) parsed [OF "3.prems"(2,5)]]
    by (cases is_vlen) (simp_all add: found convert_string_def make_def buildable_def number_def)
next
  case (4 lib n ms)
  have t: "strstr (with_key space (H5T_COMPOUND n ms)) (quoted ''fields'') = Some (quoted ''fields'' @ '': ['' @ members_text ms @ '']}}'')"
    using fields_found [OF "4.prems"(5), of "members_text ms @ '']}}''"] by (simp add: with_key_def)
  have "length (members_json ms) = length ms" by (rule members_json_length)
  moreover from this have "members_json ms \<noteq> []" using "4.prems"(1) by auto
  moreover have "convert_fields y lib ok (length ms) (malloc_text 2048) (quoted ''fields'' @ '': ['' @ members_text ms @ '']}}'') =
      Some (Inr (map member_type ms))"
    using "4.prems" by (intro "4.IH" [where r = "'']}}''"]) (auto simp: buildable_def type_section_def quoted_def malloc_text_def)
  ultimately show ?case
    using "4.prems"(1,3,7) create_compound_all [of lib ms n]
      class_read(5) [OF "4.prems"(6) parsed [OF "4.prems"(2,5)] _ _ _ _ field_names_all t, where lib = lib]
    by (simp add: DATATYPE_BODY_DEFAULT_SIZE_def)
next
  case (5 lib n ord sig vs)
  let ?base = "H5T_INTEGER n ord sig"
  have b: "n \<in> {1, 2, 4, 8}" "ord \<in> {H5T_ORDER_LE, H5T_ORDER_BE}" and v: "list_all (value_readable lib ?base) vs"
    and w: "builds lib ?base" "\<And>k. k \<le> length vs \<Longrightarrow> builds lib (H5T_ENUM ?base (take k vs))"
    using "5.prems"(1,3) by (auto simp: buildable_def simp del: upt_Suc)
  have p: "list_all (parses y) (parts ?base)" using "5.prems"(2) by simp
  have "RV_convert_JSON_to_datatype y lib ok (wrap_base (type_text ?base)) = Some (Inr ?base)"
    unfolding wrapped using class_read(1) [OF "5.prems"(6) parsed [OF p]] b w(1)
    by (simp add: integer_read_back make_def)
  moreover have "base_section (with_key space (H5T_ENUM ?base vs)) = Some (type_text ?base)"
    using enum_base_found [OF plain_names(1) [OF b] "5.prems"(5)] by (simp add: with_key_def)
  moreover have "create_enum y lib (YObject [(''type'', YObject (type_json (H5T_ENUM ?base vs)))]) ?base = Some (Inr (H5T_ENUM ?base vs))"
    using insert_values_all [OF v, of "[]"] w(2) [of 0] w(2) "5.prems"(6)
    by (simp add: create_enum_def object_found mapping_json_def)
  ultimately show ?case
    using class_read(7) [OF "5.prems"(6) parsed [OF "5.prems"(2,5)]] "5.prems"(7) by simp
next
  case (6 lib base dims)
  have "RV_convert_JSON_to_datatype y lib ok (wrap_base (type_text base)) = Some (Inr base)"
    unfolding wrapped using "6.prems" by (intro "6.IH") (auto simp: buildable_def array_format_def field_def)
  moreover have "base_section (with_key space (H5T_ARRAY base dims)) = Some (type_text base)"
    using array_base_found [OF type_text_object(1) [of lib base] "6.prems"(5)] "6.prems"(1) by (simp add: with_key_def)
  moreover have "create_array lib base (map array_dim (map (\<lambda>d. number (uint d)) dims)) = Some (Inr (H5T_ARRAY base dims))"
    by (rule create_array_all) (use "6.prems"(1,3) in \<open>auto simp: buildable_def\<close>)
  ultimately show ?case
    using class_read(6) [OF "6.prems"(6) parsed [OF "6.prems"(2,5)]] "6.prems"(1,7) by simp
next
  case (7 lib is_obj_ref n)
  then show ?case
    using class_read(3) [OF "7.prems"(6) parsed [OF "7.prems"(2,5)]]
    by (cases is_obj_ref) (simp_all add: convert_reference_def make_def buildable_def)
next
  case (10 lib off name moff t ms)
  let ?sep = "if ms = [] then [] else '', ''"
  have m: "plain name" "name \<noteq> ''type''" "readable lib t" "members_readable lib (off + H5Tget_size t) ms"
    using "10.prems"(1) by auto
  have l: "length (type_text t) \<le> 2 ^ 28" "length (members_text ms) \<le> 2 ^ 28"
    using "10.prems"(4) by (simp_all add: member_format_def)
  have "type_section p = Some (leading_string @ type_text t, CHR ''}'' # ?sep @ members_text ms @ r)"
    unfolding "10.prems"(5)
    using member_type_found [OF type_text_object(1) [OF m(3)] m(1,2), of ?sep "members_text ms @ r"] by simp
  moreover obtain tb' where "CHECKED_REALLOC (Minor H5E_CANTALLOC :: type_failure) ok
      (of_nat (length (leading_string @ type_text t) + 3)) tb = Some (Inr tb')" "length (buffer tb') = room tb'" "0 < room tb'"
    using field_grown [OF "10.prems"(10,7,8) l(1)] by blast
  moreover have "RV_convert_JSON_to_datatype y lib ok (wrap_type (leading_string @ type_text t)) = Some (Inr t)"
    unfolding wrapped using "10.prems"(2,3) m(3) l(1) "10.prems"(9,10) by (intro "10.IH"(1)) (auto simp: buildable_def)
  moreover have "convert_fields y lib ok (length ms) tb' (?sep @ members_text ms @ r) = Some (Inr (map member_type ms))"
    using "10.prems"(2,3,6,9,10) m(4) l(2) calculation(3,4)
    by (intro "10.IH"(2) [where r = r]) (auto simp: type_section_def quoted_def)
  ultimately show ?case using "10.prems"(6) by (auto simp: split: list.split)
qed simp_all

lemma value_lengths:
  "list_all (value_readable lib base) vs \<Longrightarrow> list_all (\<lambda>(name, bs). length bs \<le> 8) vs"
  by (auto simp: list_all_iff value_readable_def enum_value_def split: if_splits)

lemma readable_printable:
  "readable lib t \<Longrightarrow> printable t"
  "members_readable lib off ms \<Longrightarrow> members_printable ms"
proof (induction lib t and lib off ms rule: readable_members_readable.induct)
  case (1 lib n ord sig)
  then show ?case using integer_name [of n ord sig] by simp
next
  case (2 lib n ord)
  then show ?case using float_name [of n ord] by simp
next
  case (5 lib n ord sig vs)
  then show ?case using integer_name [of n ord sig] value_lengths [of lib "H5T_INTEGER n ord sig" vs] by simp
qed simp_all

lemma number_without_NUL: "CHR 0x00 \<notin> set (show_nat n)" "CHR 0x00 \<notin> set (show_int i)"
proof -
  have "\<not> is_digit_char (CHR 0x00)" by code_simp
  then show n: "CHR 0x00 \<notin> set (show_nat n)" for n using show_nat_digits by blast
  then show "CHR 0x00 \<notin> set (show_int i)" by (simp add: show_int_def)
qed

lemma mapping_without_NUL:
  "list_all (value_readable lib base) vs \<Longrightarrow> CHR 0x00 \<notin> set (mapping_text u vs)"
  by (induction u vs rule: mapping_text.induct)
    (auto simp: value_readable_def plain_def mapping_format_def field_def quoted_def enum_number_def number_without_NUL)

lemma dims_without_NUL: "CHR 0x00 \<notin> set (dims_text dims)"
proof -
  have "CHR 0x00 \<notin> set (join '','' (map (\<lambda>d. show_nat (unat d)) dims))"
    by (intro not_in_join) (auto simp: number_without_NUL)
  then show ?thesis by (simp add: dims_text_def)
qed

lemmas formats =
  class_format_def string_format_def compound_type_leading_string_def member_format_def enum_format_def
  array_format_def reference_format_def leading_string_def field_def quoted_def

lemma text_without_NUL:
  "readable lib t \<Longrightarrow> CHR 0x00 \<notin> set (type_text t)"
  "members_readable lib off ms \<Longrightarrow> CHR 0x00 \<notin> set (members_text ms)"
proof (induction lib t and lib off ms rule: readable_members_readable.induct)
  case (1 lib n ord sig)
  then show ?case using plain_names(1) [of n ord sig] by (simp add: formats plain_def)
next
  case (2 lib n ord)
  then show ?case using plain_names(2) [of n ord] by (simp add: formats plain_def)
next
  case (5 lib n ord sig vs)
  then show ?case
    using plain_names(1) [of n ord sig] mapping_without_NUL [of lib "H5T_INTEGER n ord sig" vs] by (simp add: formats plain_def)
qed (auto simp: formats plain_def number_without_NUL dims_without_NUL)


definition sample_types :: h5_types where
  "sample_types = \<lparr>var_str_size = 16, obj_ref_size = 8, reg_ref_size = 12, builds = \<lambda>_. True, convert_llong = \<lambda>_ _. None\<rparr>"

definition sample_yajl :: yajl where
  "sample_yajl =
     \<lparr>tree_parse = \<lambda>s. map_option (\<lambda>u. YObject [(''type'', YObject (type_json u))])
        (find (\<lambda>u. s = with_key '''' u \<or> s = with_key '' '' u) (parts sample_type)),
      tree_get = \<lambda>t keys ty.
        (case (t, keys) of
           (YObject [(k, YObject kvs)], [_, key]) \<Rightarrow> Option.bind (map_of kvs key) (\<lambda>v. if is_a ty v then Some v else None)
         | _ \<Rightarrow> None)\<rparr>"

lemma sample_texts:
  "type_text (H5T_INTEGER 4 H5T_ORDER_LE H5T_SGN_2) = ''{\"class\": \"H5T_INTEGER\", \"base\": \"H5T_STD_I32LE\"}''"
  "type_text (H5T_FLOAT 8 H5T_ORDER_BE) = ''{\"class\": \"H5T_FLOAT\", \"base\": \"H5T_IEEE_F64BE\"}''"
  "type_text (H5T_ARRAY (H5T_FLOAT 8 H5T_ORDER_BE) [2]) =
     ''{\"class\": \"H5T_ARRAY\", \"base\": {\"class\": \"H5T_FLOAT\", \"base\": \"H5T_IEEE_F64BE\"}, \"dims\": [2]}''"
  by (simp_all add: type_name_def sample_names formats)

lemma sample_parses: "list_all (parses sample_yajl) (parts sample_type)"
  by (simp add: parses_def sample_yajl_def sample_type_def with_key_def sample_texts
      sample_type_text [unfolded sample_type_def] quoted_def del: type_text.simps)

end
