(* ===== verification/Creation_Print.thy ===== *)
theory Creation_Print
  imports Datatype_Parse Base64
begin

text \<open>
  The creation properties of a dataset as JSON: \<open>RV_convert_dataset_creation_properties_to_JSON\<close> of
  \<open>rest_vol_dataset.c\<close>, with its growing buffer.  A property list is what the queries of HDF5 answer.
\<close>

section \<open>Creation properties\<close>

datatype alloc_time =
    H5D_ALLOC_TIME_DEFAULT | H5D_ALLOC_TIME_EARLY | H5D_ALLOC_TIME_LATE | H5D_ALLOC_TIME_INCR | H5D_ALLOC_TIME_ERROR

datatype fill_time = H5D_FILL_TIME_ALLOC | H5D_FILL_TIME_NEVER | H5D_FILL_TIME_IFSET

text \<open>A fill value of the user comes with its bytes, in the type of the dataset.\<close>

datatype fill_value =
    H5D_FILL_VALUE_DEFAULT | H5D_FILL_VALUE_UNDEFINED | H5D_FILL_VALUE_USER_DEFINED "u8 list" | H5D_FILL_VALUE_ERROR

text \<open>A filter as \<open>H5Pget_filter2\<close> gives it: its identifier, its flags and its values.\<close>

record h5z_filter =
  filter_id :: int
  flags :: u32
  cd_values :: "u32 list"

text \<open>External files are names with an offset and a size.\<close>

datatype layout =
    H5D_COMPACT | H5D_CONTIGUOUS "(string \<times> int \<times> u64) list" | H5D_CHUNKED "u64 list" | H5D_VIRTUAL | H5D_LAYOUT_ERROR

record dcpl =
  dcpl_alloc_time :: alloc_time
  crt_order_flags :: u32
  max_compact :: u32
  min_dense :: u32
  dcpl_fill_time :: fill_time
  dcpl_fill_value :: fill_value
  filters :: "h5z_filter list"
  dcpl_layout :: layout
  track_times :: bool

section \<open>Constants\<close>

definition DATASET_CREATION_PROPERTIES_BODY_DEFAULT_SIZE :: u64 where
  "DATASET_CREATION_PROPERTIES_BODY_DEFAULT_SIZE = 512"

definition DATASET_CREATE_MAX_COMPACT_ATTRIBUTES_DEFAULT :: u32 where
  "DATASET_CREATE_MAX_COMPACT_ATTRIBUTES_DEFAULT = 8"

definition DATASET_CREATE_MIN_DENSE_ATTRIBUTES_DEFAULT :: u32 where
  "DATASET_CREATE_MIN_DENSE_ATTRIBUTES_DEFAULT = 6"

definition LZF_FILTER_ID :: int where
  "LZF_FILTER_ID = 32000"

text \<open>
  Of HDF5: the filters 1 to 6, places of their values (\<open>H5Z_SZIP_PARM_MASK\<close> and the others), the option masks of
  SZIP, the flag of an optional filter, and the flags of the creation order, 1 for tracked and 2 for indexed.
\<close>

definition H5_SZIP_EC_OPTION_MASK :: u32 where
  "H5_SZIP_EC_OPTION_MASK = 4"

definition H5_SZIP_NN_OPTION_MASK :: u32 where
  "H5_SZIP_NN_OPTION_MASK = 32"

definition H5P_CRT_ORDER_TRACKED :: u32 where
  "H5P_CRT_ORDER_TRACKED = 1"

definition H5P_CRT_ORDER_INDEXED :: u32 where
  "H5P_CRT_ORDER_INDEXED = 2"

definition optional_filter :: "h5z_filter \<Rightarrow> bool" where
  "optional_filter f \<longleftrightarrow> bit (flags f) 0"

section \<open>Formats\<close>

abbreviation next_field :: "string \<Rightarrow> string \<Rightarrow> string" where
  "next_field k v \<equiv> '', '' @ field k v"

definition properties_leading_string :: string where
  "properties_leading_string = field ''creationProperties'' ''{''"

fun alloc_time_text :: "alloc_time \<Rightarrow> string" where
  "alloc_time_text H5D_ALLOC_TIME_EARLY = field ''allocTime'' (quoted ''H5D_ALLOC_TIME_EARLY'')"
| "alloc_time_text H5D_ALLOC_TIME_LATE = field ''allocTime'' (quoted ''H5D_ALLOC_TIME_LATE'')"
| "alloc_time_text H5D_ALLOC_TIME_INCR = field ''allocTime'' (quoted ''H5D_ALLOC_TIME_INCR'')"
| "alloc_time_text _ = field ''allocTime'' (quoted ''H5D_ALLOC_TIME_DEFAULT'')"

definition order_format :: "string \<Rightarrow> string" where
  "order_format s = next_field ''attributeCreationOrder'' (quoted (''H5P_CRT_ORDER_'' @ s))"

definition phase_format :: "string \<Rightarrow> string \<Rightarrow> string" where
  "phase_format a b =
     next_field ''attributePhaseChange'' (''{'' @ field ''maxCompact'' a @ next_field ''minDense'' b @ ''}'')"

definition fill_time_format :: "string \<Rightarrow> string" where
  "fill_time_format s = next_field ''fillTime'' (quoted (''H5D_FILL_TIME_'' @ s))"

definition fill_value_format :: "string \<Rightarrow> string" where
  "fill_value_format s = next_field ''fillValue'' s"

definition encoding_property :: string where
  "encoding_property = next_field ''fillValue_encoding'' (quoted ''base64'')"

definition filters_string :: string where
  "filters_string = next_field ''filters'' ''[ ''"

text \<open>A filter with its class, its identifier and what follows.\<close>

definition filter_format :: "string \<Rightarrow> string \<Rightarrow> string \<Rightarrow> string" where
  "filter_format c i rest = ''{'' @ field ''class'' (quoted c) @ '','' @ field ''id'' i @ rest @ ''}''"

definition deflate_format :: "string \<Rightarrow> string \<Rightarrow> string" where
  "deflate_format i level = filter_format ''H5Z_FILTER_DEFLATE'' i ('','' @ field ''level'' level)"

definition szip_format :: "string \<Rightarrow> string \<Rightarrow> string \<Rightarrow> string \<Rightarrow> string \<Rightarrow> string" where
  "szip_format i bpp coding ppb pps =
     filter_format ''H5Z_FILTER_SZIP'' i ('','' @ field ''bitsPerPixel'' bpp @ '','' @ field ''coding'' (quoted coding)
       @ '','' @ field ''pixelsPerBlock'' ppb @ '','' @ field ''pixelsPerScanline'' pps)"

definition scaleoffset_format :: "string \<Rightarrow> string \<Rightarrow> string \<Rightarrow> string" where
  "scaleoffset_format i scale_type scale_offset =
     filter_format ''H5Z_FILTER_SCALEOFFSET'' i
       ('','' @ field ''scaleType'' (quoted scale_type) @ '','' @ field ''scaleOffset'' scale_offset)"

definition compact_layout_str :: string where
  "compact_layout_str = next_field ''layout'' (''{'' @ field ''class'' (quoted ''H5D_COMPACT'') @ ''}'')"

definition contiguous_layout_str :: string where
  "contiguous_layout_str = next_field ''layout'' (''{'' @ field ''class'' (quoted ''H5D_CONTIGUOUS''))"

definition external_storage_str :: string where
  "external_storage_str = '', externalStorage: [''"

definition external_file_str :: "string \<Rightarrow> string \<Rightarrow> string \<Rightarrow> string \<Rightarrow> string" where
  "external_file_str sep name off sz =
     sep @ ''{'' @ field ''name'' name @ '','' @ field ''offset'' off @ '','' @ field ''size'' sz @ ''}''"

definition chunked_format :: "string \<Rightarrow> string" where
  "chunked_format dims =
     next_field ''layout'' (''{'' @ field ''class'' (quoted ''H5D_CHUNKED'') @ '','' @ field ''dims'' dims @ ''}'')"

definition track_times_text :: "bool \<Rightarrow> string" where
  "track_times_text b = next_field ''trackTimes'' (quoted (if b then ''true'' else ''false''))"

section \<open>Printing\<close>

text \<open>\<open>CHECKED_REALLOC\<close> to \<open>n\<close> bytes from the position on.\<close>

definition reserve :: "(u64 \<Rightarrow> bool) \<Rightarrow> nat \<Rightarrow> text_buffer \<Rightarrow> (type_failure + text_buffer) option" where
  "reserve ok n tb = CHECKED_REALLOC (Minor H5E_CANTALLOC) ok (of_nat (curr tb) + of_nat n) tb"

definition append_reserved :: "(u64 \<Rightarrow> bool) \<Rightarrow> nat \<Rightarrow> string \<Rightarrow> text_buffer \<Rightarrow> (type_failure + text_buffer) option" where
  "append_reserved ok n t tb = andthen (reserve ok n tb) (strcat_advance t)"

text \<open>\<open>strncat\<close> at the start of the block; the position is advanced all the same.\<close>

definition strcat_whole :: "string \<Rightarrow> text_buffer \<Rightarrow> (type_failure + text_buffer) option" where
  "strcat_whole t tb =
     andthen (strcat t (tb\<lparr>curr := 0\<rparr>)) (\<lambda>tb'. Some (Inr (tb'\<lparr>curr := curr tb + length t\<rparr>)))"

definition start_properties :: "(u64 \<Rightarrow> bool) \<Rightarrow> (type_failure + text_buffer) option" where
  "start_properties ok =
     (if \<not> ok DATASET_CREATION_PROPERTIES_BODY_DEFAULT_SIZE then Some (Inl (Minor H5E_CANTALLOC))
      else
        andthen (reserve ok (length properties_leading_string + 1)
                  (malloc_text DATASET_CREATION_PROPERTIES_BODY_DEFAULT_SIZE))
          (\<lambda>tb. map_option (\<lambda>b. Inr (tb\<lparr>buffer := b, curr := length properties_leading_string\<rparr>))
             (write_bytes 0 (strncpy_bytes properties_leading_string (unat (buffer_size tb))) (buffer tb))))"

definition print_alloc_time :: "(u64 \<Rightarrow> bool) \<Rightarrow> alloc_time \<Rightarrow> text_buffer \<Rightarrow> (type_failure + text_buffer) option" where
  "print_alloc_time ok a tb =
     andthen (reserve ok (length (alloc_time_text H5D_ALLOC_TIME_DEFAULT) + 1) tb) (\<lambda>tb.
       if a = H5D_ALLOC_TIME_ERROR then Some (Inl (Minor H5E_BADVALUE)) else strcat_advance (alloc_time_text a) tb)"

definition print_order :: "(u64 \<Rightarrow> bool) \<Rightarrow> u32 \<Rightarrow> text_buffer \<Rightarrow> (type_failure + text_buffer) option" where
  "print_order ok fl tb =
     (if fl = 0 then Some (Inr tb)
      else print_grown ok (length (order_format ''%s'') + length ''INDEXED'' + 1)
             (order_format (if fl = H5P_CRT_ORDER_INDEXED OR H5P_CRT_ORDER_TRACKED then ''INDEXED'' else ''TRACKED'')) tb)"

definition print_phase :: "(u64 \<Rightarrow> bool) \<Rightarrow> u32 \<Rightarrow> u32 \<Rightarrow> text_buffer \<Rightarrow> (type_failure + text_buffer) option" where
  "print_phase ok mc md tb =
     (if mc = DATASET_CREATE_MAX_COMPACT_ATTRIBUTES_DEFAULT \<and> md = DATASET_CREATE_MIN_DENSE_ATTRIBUTES_DEFAULT
      then Some (Inr tb)
      else print_grown ok (length (phase_format ''%u'' ''%u'') + 2 * MAX_NUM_LENGTH + 1)
             (phase_format (show_nat (unat mc)) (show_nat (unat md))) tb)"

definition print_fill_time :: "(u64 \<Rightarrow> bool) \<Rightarrow> fill_time \<Rightarrow> text_buffer \<Rightarrow> (type_failure + text_buffer) option" where
  "print_fill_time ok ft tb =
     (if ft = H5D_FILL_TIME_IFSET then Some (Inr tb)
      else print_grown ok (length (fill_time_format ''%s'') + length ''ALLOC'' + 1)
             (fill_time_format (if ft = H5D_FILL_TIME_ALLOC then ''ALLOC'' else ''NEVER'')) tb)"

definition print_user_value ::
  "(u64 \<Rightarrow> bool) \<Rightarrow> server_api_version \<Rightarrow> u8 list \<Rightarrow> text_buffer \<Rightarrow> (type_failure + text_buffer) option" where
  "print_user_value ok version value tb =
     (if \<not> SERVER_VERSION_MATCHES_OR_EXCEEDS version 0 8 1 then Some (Inl (Minor H5E_UNSUPPORTED))
      else if value = [] then Some (Inl (Minor H5E_CANTGET))
      else if \<not> ok (of_nat (length value)) then Some (Inl (Minor H5E_CANTALLOC))
      else
        case RV_base64_encode ok (Some value) True (Some 0) of
          None \<Rightarrow> None
        | Some (Inl _) \<Rightarrow> Some (Inl H5E_CANTENCODE)
        | Some (Inr (text, _)) \<Rightarrow>
            let t = fill_value_format (quoted text)
            in if \<not> ok (of_nat (length t + 1)) then Some (Inl (Minor H5E_CANTALLOC))
               else andthen (reserve ok (length t + 1) tb) (\<lambda>tb.
                    andthen (strcat_whole t tb) (\<lambda>tb.
                    andthen (reserve ok (length encoding_property) tb) (strcat_whole encoding_property))))"

definition print_fill_value ::
  "(u64 \<Rightarrow> bool) \<Rightarrow> server_api_version \<Rightarrow> fill_value \<Rightarrow> text_buffer \<Rightarrow> (type_failure + text_buffer) option" where
  "print_fill_value ok version fv tb =
     (case fv of
        H5D_FILL_VALUE_DEFAULT \<Rightarrow> Some (Inr tb)
      | H5D_FILL_VALUE_UNDEFINED \<Rightarrow>
          append_reserved ok (length (fill_value_format ''null'') + 1) (fill_value_format ''null'') tb
      | H5D_FILL_VALUE_USER_DEFINED value \<Rightarrow> print_user_value ok version value tb
      | H5D_FILL_VALUE_ERROR \<Rightarrow> Some (Inl (Minor H5E_CANTGET)))"

subsection \<open>Filters\<close>

text \<open>
  The array \<open>cd_values\<close> is not reset between the filters: a value that \<open>H5Pget_filter2\<close> has not written is
  that of an earlier filter or was never set.  It is \<open>None\<close> here.
\<close>

definition cd_value :: "h5z_filter \<Rightarrow> nat \<Rightarrow> u32 option" where
  "cd_value f k = (if k < length (cd_values f) then Some (cd_values f ! k) else None)"

definition szip_option_mask :: "u32 \<Rightarrow> string option" where
  "szip_option_mask m =
     (if m = H5_SZIP_EC_OPTION_MASK then Some ''H5_SZIP_EC_OPTION_MASK''
      else if m = H5_SZIP_NN_OPTION_MASK then Some ''H5_SZIP_NN_OPTION_MASK''
      else None)"

definition scaleType :: "u32 \<Rightarrow> string option" where
  "scaleType t =
     (if t = 0 then Some ''H5Z_SO_FLOAT_DSCALE''
      else if t = 1 then Some ''H5Z_SO_FLOAT_ESCALE''
      else if t = 2 then Some ''H5Z_FLOAT_SO_INT''
      else None)"

text \<open>The text is printed and the turn goes on to its end.\<close>

definition added :: "(type_failure + text_buffer) option \<Rightarrow> (type_failure + bool \<times> text_buffer) option" where
  "added r = andthen r (\<lambda>tb. Some (Inr (True, tb)))"

text \<open>A filter that cannot be added: \<open>continue\<close> when it is optional, else an error.\<close>

definition not_added ::
  "type_failure \<Rightarrow> h5z_filter \<Rightarrow> text_buffer \<Rightarrow> (type_failure + bool \<times> text_buffer) option" where
  "not_added e f tb = Some (if optional_filter f then Inr (False, tb) else Inl e)"

definition print_simple ::
  "(u64 \<Rightarrow> bool) \<Rightarrow> string \<Rightarrow> string \<Rightarrow> text_buffer \<Rightarrow> (type_failure + text_buffer) option" where
  "print_simple ok c i tb =
     print_grown ok (length (filter_format c ''%d'' []) + MAX_NUM_LENGTH + 1) (filter_format c i []) tb"

definition print_deflate ::
  "(u64 \<Rightarrow> bool) \<Rightarrow> h5z_filter \<Rightarrow> text_buffer \<Rightarrow> (type_failure + bool \<times> text_buffer) option" where
  "print_deflate ok f tb = do {
     level \<leftarrow> cd_value f 0;
     added (print_grown ok (length (deflate_format ''%d'' ''%u'') + 2 * MAX_NUM_LENGTH + 1)
              (deflate_format ''1'' (show_nat (unat level))) tb)
   }"

definition print_shuffle ::
  "(u64 \<Rightarrow> bool) \<Rightarrow> text_buffer \<Rightarrow> (type_failure + bool \<times> text_buffer) option" where
  "print_shuffle ok tb = added (print_simple ok ''H5Z_FILTER_SHUFFLE'' ''2'' tb)"

definition print_fletcher32 ::
  "(u64 \<Rightarrow> bool) \<Rightarrow> text_buffer \<Rightarrow> (type_failure + bool \<times> text_buffer) option" where
  "print_fletcher32 ok tb = added (print_simple ok ''H5Z_FILTER_FLETCHER32'' ''3'' tb)"

definition print_szip ::
  "(u64 \<Rightarrow> bool) \<Rightarrow> h5z_filter \<Rightarrow> text_buffer \<Rightarrow> (type_failure + bool \<times> text_buffer) option" where
  "print_szip ok f tb = do {
     mask \<leftarrow> cd_value f 0;
     (case szip_option_mask mask of
        None \<Rightarrow> not_added H5E_CANTSET f tb
      | Some m \<Rightarrow> do {
          bpp \<leftarrow> cd_value f 2;
          ppb \<leftarrow> cd_value f 1;
          pps \<leftarrow> cd_value f 3;
          added (print_grown ok (length (szip_format ''%d'' ''%u'' ''%s'' ''%u'' ''%u'') + 4 * MAX_NUM_LENGTH + length m + 1)
            (szip_format ''4'' (show_nat (unat bpp)) m (show_nat (unat ppb)) (show_nat (unat pps))) tb)
        })
   }"

definition print_nbit ::
  "(u64 \<Rightarrow> bool) \<Rightarrow> text_buffer \<Rightarrow> (type_failure + bool \<times> text_buffer) option" where
  "print_nbit ok tb = added (print_simple ok ''H5Z_FILTER_NBIT'' ''5'' tb)"

definition print_scaleoffset ::
  "(u64 \<Rightarrow> bool) \<Rightarrow> h5z_filter \<Rightarrow> text_buffer \<Rightarrow> (type_failure + bool \<times> text_buffer) option" where
  "print_scaleoffset ok f tb = do {
     t \<leftarrow> cd_value f 0;
     (case scaleType t of
        None \<Rightarrow> not_added H5E_CANTSET f tb
      | Some s \<Rightarrow> do {
          factor \<leftarrow> cd_value f 1;
          added (print_grown ok (length (scaleoffset_format ''%d'' ''%s'' ''%u'') + 2 * MAX_NUM_LENGTH + length s + 1)
            (scaleoffset_format ''6'' s (show_nat (unat factor))) tb)
        })
   }"

definition print_lzf ::
  "(u64 \<Rightarrow> bool) \<Rightarrow> text_buffer \<Rightarrow> (type_failure + bool \<times> text_buffer) option" where
  "print_lzf ok tb = added (print_simple ok ''H5Z_FILTER_LZF'' ''32000'' tb)"

text \<open>
  An invalid filter; a user-defined one ends in \<open>strlen\<close> of the null pointer \<open>parameters\<close>.
\<close>

definition print_other_filter ::
  "h5z_filter \<Rightarrow> text_buffer \<Rightarrow> (type_failure + bool \<times> text_buffer) option" where
  "print_other_filter f tb =
     (if filter_id f = -1 then not_added (Minor H5E_BADVALUE) f tb
      else if filter_id f < 0 then not_added H5E_CANTSET f tb
      else None)"

definition print_filter ::
  "(u64 \<Rightarrow> bool) \<Rightarrow> h5z_filter \<Rightarrow> text_buffer \<Rightarrow> (type_failure + bool \<times> text_buffer) option" where
  "print_filter ok f tb =
     (if filter_id f = 1 then print_deflate ok f tb
      else if filter_id f = 2 then print_shuffle ok tb
      else if filter_id f = 3 then print_fletcher32 ok tb
      else if filter_id f = 4 then print_szip ok f tb
      else if filter_id f = 5 then print_nbit ok tb
      else if filter_id f = 6 then print_scaleoffset ok f tb
      else if filter_id f = LZF_FILTER_ID then print_lzf ok tb
      else print_other_filter f tb)"

text \<open>
  The comma after a filter is printed unless it is the
  last one or the turn was left with \<open>continue\<close>.
\<close>

fun print_filter_list ::
  "(u64 \<Rightarrow> bool) \<Rightarrow> nat \<Rightarrow> nat \<Rightarrow> h5z_filter list \<Rightarrow> text_buffer \<Rightarrow> (type_failure + text_buffer) option" where
  "print_filter_list ok n i [] tb = Some (Inr tb)"
| "print_filter_list ok n i (f # fs) tb =
     andthen (print_filter ok f tb) (\<lambda>(done, tb).
     andthen (if done \<and> i < n - 1 then append_reserved ok 1 '','' tb else Some (Inr tb))
       (print_filter_list ok n (i + 1) fs))"

definition print_filters ::
  "(u64 \<Rightarrow> bool) \<Rightarrow> h5z_filter list \<Rightarrow> text_buffer \<Rightarrow> (type_failure + text_buffer) option" where
  "print_filters ok fs tb =
     (if fs = [] then Some (Inr tb)
      else
        andthen (append_reserved ok (length filters_string + 1) filters_string tb) (\<lambda>tb.
        andthen (print_filter_list ok (length fs) 0 fs tb) (append_reserved ok 1 '']'')))"

subsection \<open>Layout\<close>

text \<open>
  One external file; the number of bytes to print grows from file to file.
\<close>

fun print_external_files ::
  "(u64 \<Rightarrow> bool) \<Rightarrow> bool \<Rightarrow> nat \<Rightarrow> (string \<times> int \<times> u64) list \<Rightarrow> text_buffer \<Rightarrow> (type_failure + text_buffer) option" where
  "print_external_files ok first bytes [] tb = Some (Inr tb)"
| "print_external_files ok first bytes ((name, off, sz) # es) tb =
     (let bytes = bytes + length (external_file_str ''%s'' ''%s'' ''%ld'' ''%llu'') + length name + 2 * MAX_NUM_LENGTH
                    + (if first then 0 else 1) - 8
      in andthen (print_grown ok bytes
                    (external_file_str (if first then [] else '','') name (show_int off) (show_nat (unat sz))) tb)
           (print_external_files ok False bytes es))"

text \<open>
  The position is advanced by \<open>bytes_to_print\<close>, which counts the string before as well.
\<close>

definition print_contiguous ::
  "(u64 \<Rightarrow> bool) \<Rightarrow> (string \<times> int \<times> u64) list \<Rightarrow> text_buffer \<Rightarrow> (type_failure + text_buffer) option" where
  "print_contiguous ok es tb =
     andthen (append_reserved ok (length contiguous_layout_str) contiguous_layout_str tb) (\<lambda>tb.
     andthen
       (if es = [] then Some (Inr tb)
        else
          let bytes = length contiguous_layout_str + length external_storage_str
          in andthen (reserve ok bytes tb) (\<lambda>tb.
             andthen (strcat external_storage_str tb) (\<lambda>tb.
             andthen (advance bytes tb) (\<lambda>tb.
             andthen (print_external_files ok True bytes es tb) (append_reserved ok 1 '']'')))))
       (append_reserved ok 1 ''}''))"

definition print_chunk_dims :: "u64 list \<Rightarrow> text_buffer \<Rightarrow> (type_failure + text_buffer) option" where
  "print_chunk_dims dims tb =
     andthen (strcat_advance ''['' tb) (\<lambda>tb.
     andthen (each (print_dim dims) [0..<length dims] tb) (strcat_advance '']''))"

definition print_chunked :: "(u64 \<Rightarrow> bool) \<Rightarrow> u64 list \<Rightarrow> text_buffer \<Rightarrow> (type_failure + text_buffer) option" where
  "print_chunked ok dims tb =
     (let n = of_nat (length dims * MAX_NUM_LENGTH + length dims + 3) :: u64
      in if dims = [] then Some (Inl (Minor H5E_BADVALUE))
         else if \<not> ok n then Some (Inl (Minor H5E_CANTALLOC))
         else
           andthen (print_chunk_dims dims (fresh_text n)) (\<lambda>ds.
             case c_string (buffer ds) of
               None \<Rightarrow> None
             | Some t \<Rightarrow> print_grown ok (length (chunked_format ''%s'') + length t + 1) (chunked_format t) tb))"

definition print_layout :: "(u64 \<Rightarrow> bool) \<Rightarrow> layout \<Rightarrow> text_buffer \<Rightarrow> (type_failure + text_buffer) option" where
  "print_layout ok l tb =
     (case l of
        H5D_COMPACT \<Rightarrow> append_reserved ok (length compact_layout_str + 1) compact_layout_str tb
      | H5D_CONTIGUOUS es \<Rightarrow> print_contiguous ok es tb
      | H5D_CHUNKED dims \<Rightarrow> print_chunked ok dims tb
      | H5D_VIRTUAL \<Rightarrow> Some (Inl (Minor H5E_UNSUPPORTED))
      | H5D_LAYOUT_ERROR \<Rightarrow> Some (Inl (Minor H5E_CANTGET)))"

section \<open>The whole\<close>

definition RV_convert_dataset_creation_properties_to_JSON ::
  "(u64 \<Rightarrow> bool) \<Rightarrow> server_api_version \<Rightarrow> dcpl \<Rightarrow> (type_failure + text_buffer) option" where
  "RV_convert_dataset_creation_properties_to_JSON ok version d =
     andthen (start_properties ok) (\<lambda>tb.
     andthen (print_alloc_time ok (dcpl_alloc_time d) tb) (\<lambda>tb.
     andthen (print_order ok (crt_order_flags d) tb) (\<lambda>tb.
     andthen (print_phase ok (max_compact d) (min_dense d) tb) (\<lambda>tb.
     andthen (print_fill_time ok (dcpl_fill_time d) tb) (\<lambda>tb.
     andthen (print_fill_value ok version (dcpl_fill_value d) tb) (\<lambda>tb.
     andthen (print_filters ok (filters d) tb) (\<lambda>tb.
     andthen (print_layout ok (dcpl_layout d) tb) (\<lambda>tb.
     andthen (append_reserved ok (length (track_times_text (track_times d)) + 1) (track_times_text (track_times d)) tb) (\<lambda>tb.
       append_reserved ok 1 ''}'' tb)))))))))"

end
