(* ===== verification/Creation_Text.thy ===== *)
theory Creation_Text
  imports Creation_Print
begin

text \<open>
  The text that \<open>RV_convert_dataset_creation_properties_to_JSON\<close> prints.  The block starts with 512 bytes and
  is doubled; some of the appended texts get no byte for their NUL, so that the conversion is right but for texts
  whose length is exactly the size of a block, and writes behind the block for those.
\<close>

section \<open>Sizes of a growing buffer\<close>

lemma grow_extends_power:
  assumes "length (buffer tb) = room tb" and "0 < room tb" and "unat target \<le> 2 ^ 63" and "\<And>n. ok n"
  shows "\<exists>tb' k. CHECKED_REALLOC e ok target tb = Some (Inr tb') \<and> take (room tb) (buffer tb') = buffer tb \<and>
    length (buffer tb') = room tb' \<and> curr tb' = curr tb \<and> unat target \<le> room tb' \<and> room tb' = room tb * 2 ^ k \<and> (k = 0 \<or> room tb * 2 ^ (k - 1) < unat target)"
proof -
  define P where "P = (\<lambda>tb' k. take (room tb) (buffer tb') = buffer tb \<and> length (buffer tb') = room tb' \<and>
    curr tb' = curr tb \<and> room tb' = room tb * 2 ^ k \<and> (k = 0 \<or> room tb * 2 ^ (k - 1) < unat target))"
  have "\<exists>tb' k. grow ok target tb0 = Some (True, tb') \<and> P tb' k \<and> unat target \<le> room tb'" if "P tb0 k" for tb0 k
    using that
  proof (induction "2 ^ 63 - room tb0" arbitrary: tb0 k rule: less_induct)
    case less
    show ?case
    proof (cases "target > buffer_size tb0")
      case False
      then have "grow ok target tb0 = Some (True, tb0)" by (subst grow.simps) simp
      with False less.prems show ?thesis by (auto simp: word_le_nat_alt not_less)
    next
      case True
      let ?tb = "tb0\<lparr>buffer := resize (unat (2 * buffer_size tb0)) (buffer tb0), buffer_size := 2 * buffer_size tb0\<rparr>"
      have h: "P tb0 k" and r: "room tb \<le> room tb0" using less.prems assms(2) by (simp_all add: P_def)
      note d = double_u64 [OF True assms(3)]
      have lt: "room tb0 < unat target" using True by (simp add: word_less_nat_alt)
      have P: "P ?tb (Suc k)" using h d lt by (auto simp: P_def resize_def)
      have "2 ^ 63 - room ?tb < 2 ^ 63 - room tb0" using d lt r assms(2,3) by simp
      from less.hyps [OF this P] True assms(4) show ?thesis by (subst grow.simps) simp
    qed
  qed
  from this [of tb 0] assms(1) show ?thesis by (auto simp: P_def CHECKED_REALLOC_def)
qed

text \<open>A buffer that holds a string; its size is a doubling of 512, up to the \<open>m\<close>-th.\<close>

definition has :: "nat \<Rightarrow> text_buffer \<Rightarrow> string \<Rightarrow> bool" where
  "has m tb s \<longleftrightarrow> holds tb s \<and> (\<exists>k\<le>m. room tb = 512 * 2 ^ k)"

lemma reserve_has:
  assumes "has m tb s" and "length s + n \<le> 512 * 2 ^ m" and "m \<le> 53"
  shows "\<exists>tb'. reserve (\<lambda>_. True) n tb = Some (Inr tb') \<and> has m tb' s \<and> length s + n \<le> room tb'"
proof -
  have h: "length (buffer tb) = room tb" "length s < room tb" "curr tb = length s" "holds tb s"
    using assms(1) by (simp_all add: holds_def has_def)
  have "(2 :: nat) ^ m \<le> 2 ^ 53" using assms(3) by (intro power_increasing) simp_all
  then have b: "length s + n \<le> 2 ^ 62" using assms(2) by simp
  have u: "unat (of_nat (length s) + of_nat n :: u64) = length s + n"
    using unat_of_nat_u64 [of "length s + n"] b by simp
  have pos: "0 < room tb" and b2: "unat (of_nat (length s) + of_nat n :: u64) \<le> 2 ^ 63" using h(2) b u by simp_all
  obtain tb' k where g: "CHECKED_REALLOC (Minor H5E_CANTALLOC) (\<lambda>_. True) (of_nat (length s) + of_nat n) tb = Some (Inr tb')"
    "take (room tb) (buffer tb') = buffer tb" "length (buffer tb') = room tb'" "curr tb' = curr tb"
    "length s + n \<le> room tb'" "room tb' = room tb * 2 ^ k" "k = 0 \<or> room tb * 2 ^ (k - 1) < length s + n"
    using grow_extends_power [where e = "Minor H5E_CANTALLOC" and ok = "\<lambda>_. True", OF h(1) pos b2 TrueI, unfolded u]
    by (elim exE conjE) (rule that)
  have le: "room tb \<le> room tb'" unfolding g(6) by simp
  have "take (length s) (buffer tb') = take (length s) (buffer tb)" "buffer tb' ! length s = buffer tb ! length s"
    using h(2) unfolding g(2) [symmetric] by simp_all
  moreover have "length s < room tb'" using h(2) le by simp
  ultimately have "holds tb' s" using g h(3,4) by (simp add: holds_def)
  moreover obtain j where j: "j \<le> m" "room tb = 512 * 2 ^ j" using assms(1) unfolding has_def by blast
  have r: "room tb' = 512 * 2 ^ (j + k)" unfolding g(6) j(2) by (simp add: power_add)
  moreover have "j + k \<le> m"
  proof (cases k)
    case (Suc k')
    then have "512 * (2 :: nat) ^ (j + k') < 512 * 2 ^ m" using g(7) assms(2) by (simp add: j(2) power_add)
    then show ?thesis using Suc by simp
  qed (use j(1) in simp)
  ultimately have "has m tb' s" unfolding has_def by blast
  with g(1,5) show ?thesis by (auto simp: reserve_def h(3))
qed

text \<open>\<open>n\<close> bytes are reserved; when they have no room for the NUL, the length must not be that of a block.\<close>

definition no_block_size :: "string \<Rightarrow> bool" where
  "no_block_size s \<longleftrightarrow> (\<forall>k. length s \<noteq> 512 * 2 ^ k)"

lemma room_with_nul:
  assumes "has m tb s" and "length s + n \<le> room tb" and "length t < n \<or> length t = n \<and> no_block_size (s @ t)"
  shows "length s + length t < room tb"
  using assms by (auto simp: has_def no_block_size_def nat_less_le)

lemma append_has:
  assumes "has m tb s" and "length s + n \<le> 512 * 2 ^ m" and "m \<le> 53"
    and "length t < n \<or> length t = n \<and> no_block_size (s @ t)"
  shows "\<exists>tb'. append_reserved (\<lambda>_. True) n t tb = Some (Inr tb') \<and> has m tb' (s @ t)"
proof -
  obtain tb1 where 1: "reserve (\<lambda>_. True) n tb = Some (Inr tb1)" "has m tb1 s" "length s + n \<le> room tb1"
    using reserve_has [OF assms(1-3)] by blast
  have h: "holds tb1 s" using 1(2) by (simp add: has_def)
  obtain tb' where "strcat_advance t tb1 = (Some (Inr tb') :: (type_failure + text_buffer) option)"
    "holds tb' (s @ t)" "buffer_size tb' = buffer_size tb1"
    using strcat_holds [OF h room_with_nul [OF 1(2,3) assms(4)]] by blast
  with 1 show ?thesis by (auto simp: append_reserved_def has_def)
qed

lemma print_has:
  assumes "has m tb s" and "length s + n \<le> 512 * 2 ^ m" and "m \<le> 53" and "length t < n" and "length t < 2 ^ 31"
  shows "\<exists>tb'. print_grown (\<lambda>_. True) n t tb = Some (Inr tb') \<and> has m tb' (s @ t)"
proof -
  obtain tb1 where 1: "reserve (\<lambda>_. True) n tb = Some (Inr tb1)" "has m tb1 s" "length s + n \<le> room tb1"
    using reserve_has [OF assms(1-3)] by blast
  have h: "holds tb1 s" "starts tb1 s" using 1(2) by (auto simp: has_def holds_def starts_def)
  have c: "curr tb = length s" using assms(1) by (simp add: has_def holds_def)
  have r: "length s + length t < room tb1" using 1(3) assms(4) by simp
  then have "length t < unat (buffer_size tb1 - of_nat (length s))" unfolding room_left [OF h(2)] by simp
  from snprintf_starts [OF h(2) r this assms(5)] obtain tb' where
    "checked_snprintf (buffer_size tb1 - of_nat (length s)) t tb1 = Some (Inr tb')" "holds tb' (s @ t)"
    "buffer_size tb' = buffer_size tb1" by blast
  with 1 show ?thesis by (auto simp: print_grown_def reserve_def c has_def)
qed

section \<open>The text of the properties\<close>

definition order_text :: "u32 \<Rightarrow> string" where
  "order_text fl =
     (if fl = 0 then []
      else order_format (if fl = H5P_CRT_ORDER_INDEXED OR H5P_CRT_ORDER_TRACKED then ''INDEXED'' else ''TRACKED''))"

definition phase_text :: "u32 \<Rightarrow> u32 \<Rightarrow> string" where
  "phase_text mc md =
     (if mc = DATASET_CREATE_MAX_COMPACT_ATTRIBUTES_DEFAULT \<and> md = DATASET_CREATE_MIN_DENSE_ATTRIBUTES_DEFAULT then []
      else phase_format (show_nat (unat mc)) (show_nat (unat md)))"

definition fill_time_text :: "fill_time \<Rightarrow> string" where
  "fill_time_text ft =
     (if ft = H5D_FILL_TIME_IFSET then []
      else fill_time_format (if ft = H5D_FILL_TIME_ALLOC then ''ALLOC'' else ''NEVER''))"

fun fill_value_text :: "fill_value \<Rightarrow> string" where
  "fill_value_text H5D_FILL_VALUE_UNDEFINED = fill_value_format ''null''"
| "fill_value_text (H5D_FILL_VALUE_USER_DEFINED value) = fill_value_format (quoted (base64 value)) @ encoding_property"
| "fill_value_text _ = []"

text \<open>The text of a filter, \<open>None\<close> for one that is left out.\<close>

definition filter_text :: "h5z_filter \<Rightarrow> string option" where
  "filter_text f =
     (let u = (\<lambda>k. show_nat (unat (cd_values f ! k)))
      in if filter_id f = 1 then Some (deflate_format ''1'' (u 0))
         else if filter_id f = 2 then Some (filter_format ''H5Z_FILTER_SHUFFLE'' ''2'' [])
         else if filter_id f = 3 then Some (filter_format ''H5Z_FILTER_FLETCHER32'' ''3'' [])
         else if filter_id f = 4
         then map_option (\<lambda>m. szip_format ''4'' (u 2) m (u 1) (u 3)) (szip_option_mask (cd_values f ! 0))
         else if filter_id f = 5 then Some (filter_format ''H5Z_FILTER_NBIT'' ''5'' [])
         else if filter_id f = 6 then map_option (\<lambda>s. scaleoffset_format ''6'' s (u 1)) (scaleType (cd_values f ! 0))
         else if filter_id f = LZF_FILTER_ID then Some (filter_format ''H5Z_FILTER_LZF'' ''32000'' [])
         else None)"

text \<open>The filters that are printed or left out: their values are there, and there is none of a user.\<close>

definition plain_filter :: "h5z_filter \<Rightarrow> bool" where
  "plain_filter f \<longleftrightarrow>
     (filter_id f \<in> {2, 3, 5, LZF_FILTER_ID}) \<or> (filter_id f = 1 \<and> 1 \<le> length (cd_values f)) \<or>
     (filter_id f \<in> {4, 6} \<and> 4 \<le> length (cd_values f) \<and> (filter_text f \<noteq> None \<or> optional_filter f)) \<or>
     (filter_id f < 0 \<and> optional_filter f)"

text \<open>The first \<open>k\<close> filters of \<open>fs\<close> with their commas.\<close>

fun filter_list_text :: "nat \<Rightarrow> nat \<Rightarrow> h5z_filter list \<Rightarrow> string" where
  "filter_list_text n i [] = []"
| "filter_list_text n i (f # fs) =
     (case filter_text f of None \<Rightarrow> [] | Some t \<Rightarrow> t @ (if i < n - 1 then '','' else [])) @ filter_list_text n (i + 1) fs"

definition filters_text :: "h5z_filter list \<Rightarrow> string" where
  "filters_text fs = (if fs = [] then [] else filters_string @ filter_list_text (length fs) 0 fs @ '']'')"

fun layout_text :: "layout \<Rightarrow> string" where
  "layout_text H5D_COMPACT = compact_layout_str"
| "layout_text (H5D_CONTIGUOUS _) = contiguous_layout_str @ ''}''"
| "layout_text (H5D_CHUNKED dims) = chunked_format (dims_text dims)"
| "layout_text _ = []"

text \<open>The text up to the filters, to the layout, and the whole.\<close>

definition first_text :: "dcpl \<Rightarrow> string" where
  "first_text d =
     properties_leading_string @ alloc_time_text (dcpl_alloc_time d) @ order_text (crt_order_flags d)
       @ phase_text (max_compact d) (min_dense d) @ fill_time_text (dcpl_fill_time d) @ fill_value_text (dcpl_fill_value d)"

definition dcpl_text :: "dcpl \<Rightarrow> string" where
  "dcpl_text d =
     first_text d @ filters_text (filters d) @ layout_text (dcpl_layout d) @ track_times_text (track_times d) @ ''}''"

text \<open>
  The texts before the last one after which the buffer was not given room for the NUL; \<open>comma_texts\<close> are those
  of the filters that end with a comma.
\<close>

fun comma_texts :: "string \<Rightarrow> nat \<Rightarrow> nat \<Rightarrow> h5z_filter list \<Rightarrow> string list" where
  "comma_texts s n i [] = []"
| "comma_texts s n i (f # fs) =
     (let s' = s @ (case filter_text f of None \<Rightarrow> [] | Some t \<Rightarrow> t @ (if i < n - 1 then '','' else []))
      in (if filter_text f \<noteq> None \<and> i < n - 1 then [s'] else []) @ comma_texts s' n (i + 1) fs)"

definition tight_texts :: "dcpl \<Rightarrow> string list" where
  "tight_texts d =
     (case dcpl_fill_value d of H5D_FILL_VALUE_USER_DEFINED _ \<Rightarrow> [first_text d] | _ \<Rightarrow> []) @
     (if filters d = [] then []
      else comma_texts (first_text d @ filters_string) (length (filters d)) 0 (filters d) @
           [first_text d @ filters_text (filters d)]) @
     (case dcpl_layout d of
        H5D_CONTIGUOUS _ \<Rightarrow>
          [first_text d @ filters_text (filters d) @ contiguous_layout_str,
           first_text d @ filters_text (filters d) @ contiguous_layout_str @ ''}'']
      | _ \<Rightarrow> [])"


section \<open>The pieces\<close>

lemmas property_formats = field_def quoted_def order_format_def phase_format_def fill_time_format_def fill_value_format_def
  encoding_property_def filters_string_def filter_format_def deflate_format_def szip_format_def scaleoffset_format_def
  compact_layout_str_def contiguous_layout_str_def chunked_format_def track_times_text_def properties_leading_string_def

lemma length_show_u32: "length (show_nat (unat (x :: u32))) \<le> 10"
proof -
  have "unat x < 2 ^ 32" using unsigned_less [where w = x] by simp
  then show ?thesis by (intro length_show_nat) simp_all
qed

lemma length_leading: "length properties_leading_string = 23"
  by (simp add: property_formats)

lemma start_has:
  "\<exists>tb. start_properties (\<lambda>_. True) = Some (Inr tb) \<and> has m tb properties_leading_string"
proof -
  let ?b = "map Some (properties_leading_string @ replicate 489 (CHR 0x00))"
  let ?tb = "\<lparr>buffer = ?b, curr = length properties_leading_string, buffer_size = 512\<rparr>"
  have r: "reserve (\<lambda>_. True) (length properties_leading_string + 1) (malloc_text 512) = Some (Inr (malloc_text 512))"
    unfolding reserve_def CHECKED_REALLOC_def length_leading by (subst grow.simps) (simp add: malloc_text_def)
  have s: "strncpy_bytes properties_leading_string 512 = properties_leading_string @ replicate 489 (CHR 0x00)"
    by (simp add: strncpy_bytes_def length_leading)
  have w: "write_bytes 0 (properties_leading_string @ replicate 489 (CHR 0x00)) (replicate 512 None) = Some ?b"
    by (simp add: write_bytes_def length_leading)
  have "start_properties (\<lambda>_. True) = Some (Inr ?tb)"
    unfolding start_properties_def DATASET_CREATION_PROPERTIES_BODY_DEFAULT_SIZE_def r
    by (simp add: malloc_text_def s w)
  moreover have "has m ?tb properties_leading_string"
    unfolding has_def holds_def
    by (intro conjI exI [of _ 0]) (simp_all add: length_leading nth_append)
  ultimately show ?thesis by blast
qed

definition prints :: "nat \<Rightarrow> (text_buffer \<Rightarrow> (type_failure + text_buffer) option) \<Rightarrow> string \<Rightarrow> string \<Rightarrow> bool" where
  "prints m p s t \<longleftrightarrow> (\<forall>tb. has m tb s \<longrightarrow> (\<exists>tb'. p tb = Some (Inr tb') \<and> has m tb' (s @ t)))"

lemma andthen_assoc: "andthen (andthen r f) g = andthen r (\<lambda>x. andthen (f x) g)"
  by (simp add: andthen_def split: option.split sum.split)

lemma prints_then: "prints m p s t \<Longrightarrow> prints m q (s @ t) u \<Longrightarrow> prints m (\<lambda>tb. andthen (p tb) q) s (t @ u)"
  by (fastforce simp: prints_def)

lemma prints_skip [simp]: "prints m (\<lambda>tb. Some (Inr tb)) s []"
  by (simp add: prints_def)

lemma prints_append:
  assumes "length s + n \<le> 512 * 2 ^ m" and "m \<le> 53" and "length t < n \<or> length t = n \<and> no_block_size (s @ t)"
  shows "prints m (append_reserved (\<lambda>_. True) n t) s t"
  using append_has [OF _ assms] by (simp add: prints_def)

lemma prints_print:
  assumes "length s + n \<le> 512 * 2 ^ m" and "m \<le> 53" and "length t < n" and "length t < 2 ^ 31"
  shows "prints m (print_grown (\<lambda>_. True) n t) s t"
  using print_has [OF _ assms] by (simp add: prints_def)

text \<open>The text has room with \<open>n\<close> more bytes.\<close>

definition fits :: "nat \<Rightarrow> string \<Rightarrow> nat \<Rightarrow> bool" where
  "fits m s n \<longleftrightarrow> m \<le> 53 \<and> length s \<le> 2 ^ 30 \<and> length s + n \<le> 512 * 2 ^ m"

lemma prints_alloc_time:
  assumes "fits m (s @ alloc_time_text a) 50" and "a \<noteq> H5D_ALLOC_TIME_ERROR"
  shows "prints m (print_alloc_time (\<lambda>_. True) a) s (alloc_time_text a)"
proof -
  have "print_alloc_time (\<lambda>_. True) a = append_reserved (\<lambda>_. True) (length (alloc_time_text H5D_ALLOC_TIME_DEFAULT) + 1) (alloc_time_text a)"
    using assms(2) by (intro ext) (simp add: print_alloc_time_def append_reserved_def)
  moreover have "length (alloc_time_text a) < length (alloc_time_text H5D_ALLOC_TIME_DEFAULT) + 1"
    by (cases a) (simp_all add: property_formats)
  ultimately show ?thesis using assms(1) by (cases a) (auto intro!: prints_append simp: property_formats fits_def)
qed

lemma prints_order: "fits m (s @ order_text fl) 50 \<Longrightarrow> prints m (print_order (\<lambda>_. True) fl) s (order_text fl)"
  unfolding print_order_def order_text_def
  by (cases "fl = 0"; simp only: if_True if_False prints_skip) (auto intro!: prints_print simp: property_formats fits_def)

lemma prints_phase: "fits m (s @ phase_text mc md) 50 \<Longrightarrow> prints m (print_phase (\<lambda>_. True) mc md) s (phase_text mc md)"
  using length_show_u32 [of mc] length_show_u32 [of md]
  unfolding print_phase_def phase_text_def
  by (cases "mc = DATASET_CREATE_MAX_COMPACT_ATTRIBUTES_DEFAULT \<and> md = DATASET_CREATE_MIN_DENSE_ATTRIBUTES_DEFAULT";
      simp only: if_True if_False prints_skip) (auto intro!: prints_print simp: property_formats MAX_NUM_LENGTH_def fits_def)

lemma prints_fill_time: "fits m (s @ fill_time_text ft) 50 \<Longrightarrow> prints m (print_fill_time (\<lambda>_. True) ft) s (fill_time_text ft)"
  unfolding print_fill_time_def fill_time_text_def
  by (cases "ft = H5D_FILL_TIME_IFSET"; simp only: if_True if_False prints_skip) (auto intro!: prints_print simp: property_formats fits_def)

text \<open>Appending at the start of the block finds the end of the string that is there.\<close>

lemma strcat_whole_has:
  assumes "has m tb s" and "CHR 0x00 \<notin> set s" and "length s + length t < room tb"
  shows "\<exists>tb'. strcat_whole t tb = Some (Inr tb') \<and> has m tb' (s @ t)"
proof -
  have h: "holds tb s" and c: "curr tb = length s" "length (buffer tb) = room tb"
    using assms(1) by (simp_all add: has_def holds_def)
  obtain b where b: "write_bytes (length s) (t @ [CHR 0x00]) (buffer tb) = Some b"
    using assms(3) c by (simp add: write_bytes_def)
  from holds_written [OF h assms(3) b] have "has m (tb\<lparr>buffer := b, curr := length s + length t\<rparr>) (s @ t)"
    using assms(1) by (simp add: has_def)
  with b c holds_c_string [OF h assms(2)] show ?thesis by (simp add: strcat_whole_def strcat_def)
qed

lemma prints_whole:
  assumes "CHR 0x00 \<notin> set s" and "length s + n \<le> 512 * 2 ^ m" and "m \<le> 53"
    and "length t < n \<or> length t = n \<and> no_block_size (s @ t)"
  shows "prints m (\<lambda>tb. andthen (reserve (\<lambda>_. True) n tb) (strcat_whole t)) s t"
  unfolding prints_def
proof (intro allI impI)
  fix tb assume tb: "has m tb s"
  obtain tb1 where 1: "reserve (\<lambda>_. True) n tb = Some (Inr tb1)" "has m tb1 s" "length s + n \<le> room tb1"
    using reserve_has [OF tb assms(2,3)] by blast
  then show "\<exists>tb'. andthen (reserve (\<lambda>_. True) n tb) (strcat_whole t) = Some (Inr tb') \<and> has m tb' (s @ t)"
    using strcat_whole_has [OF 1(2) assms(1) room_with_nul [OF 1(2,3) assms(4)]] by simp
qed

text \<open>The fill value.\<close>

definition fill_printable :: "server_api_version \<Rightarrow> fill_value \<Rightarrow> bool" where
  "fill_printable version fv \<longleftrightarrow>
     (case fv of
        H5D_FILL_VALUE_USER_DEFINED value \<Rightarrow> SERVER_VERSION_MATCHES_OR_EXCEEDS version 0 8 1 \<and> value \<noteq> []
      | H5D_FILL_VALUE_ERROR \<Rightarrow> False
      | _ \<Rightarrow> True)"

lemma base64_chars: "c \<in> set (base64 bs) \<Longrightarrow> c \<in> set encode_charset \<or> c = CHR ''=''"
proof -
  have s: "sym n \<in> set encode_charset" for n
    unfolding sym_def by (rule nth_mem) (simp add: encode_charset_def)
  show "c \<in> set (base64 bs) \<Longrightarrow> c \<in> set encode_charset \<or> c = CHR ''=''"
    by (induction bs rule: base64.induct) (auto simp: Let_def s)
qed

lemma base64_no_nul: "CHR 0x00 \<notin> set (base64 bs)"
  using base64_chars [of "CHR 0x00" bs] by (auto simp: encode_charset_def)

lemma length_base64: "length (base64 bs) \<ge> length bs"
  by (induction bs rule: base64.induct) (simp_all add: Let_def)

lemma prints_fill_value:
  assumes "fill_printable version fv" and fits: "fits m (s @ fill_value_text fv) 1" and "CHR 0x00 \<notin> set s"
    and "\<And>value. fv = H5D_FILL_VALUE_USER_DEFINED value \<Longrightarrow> no_block_size (s @ fill_value_text fv)"
  shows "prints m (print_fill_value (\<lambda>_. True) version fv) s (fill_value_text fv)"
proof (cases fv)
  case (H5D_FILL_VALUE_USER_DEFINED bs)
  let ?t = "fill_value_format (quoted (base64 bs))"
  have v: "SERVER_VERSION_MATCHES_OR_EXCEEDS version 0 8 1" "bs \<noteq> []"
    using assms(1) by (simp_all add: fill_printable_def H5D_FILL_VALUE_USER_DEFINED)
  have l: "length s + length ?t + length encoding_property \<le> 2 ^ 30" "m \<le> 53"
      "length s + length ?t + length encoding_property + 1 \<le> 512 * 2 ^ m"
    using fits by (simp_all add: H5D_FILL_VALUE_USER_DEFINED fits_def)
  then have "4 * length bs + 4 \<le> 2 ^ 62" using length_base64 [of bs] by (simp add: property_formats)
  from encode_ok [of bs "\<lambda>_. True" "Some 0", OF this] obtain n where
    e: "RV_base64_encode (\<lambda>_. True) (Some bs) True (Some 0) = Some (Inr (base64 bs, n))" by auto
  have z: "CHR 0x00 \<notin> set (s @ ?t)" using assms(3) base64_no_nul by (simp add: property_formats)
  have p: "prints m (\<lambda>tb. andthen (andthen (reserve (\<lambda>_. True) (length ?t + 1) tb) (strcat_whole ?t))
      (\<lambda>tb. andthen (reserve (\<lambda>_. True) (length encoding_property) tb) (strcat_whole encoding_property))) s (?t @ encoding_property)"
  proof (rule prints_then)
    show "prints m (\<lambda>tb. andthen (reserve (\<lambda>_. True) (length ?t + 1) tb) (strcat_whole ?t)) s ?t"
      by (rule prints_whole) (use assms(3) l in simp_all)
    show "prints m (\<lambda>tb. andthen (reserve (\<lambda>_. True) (length encoding_property) tb) (strcat_whole encoding_property)) (s @ ?t)
        encoding_property"
      by (rule prints_whole [OF z]) (use l assms(4) H5D_FILL_VALUE_USER_DEFINED in simp_all)
  qed
  show ?thesis using p v e
    by (simp add: prints_def H5D_FILL_VALUE_USER_DEFINED print_fill_value_def print_user_value_def Let_def andthen_assoc)
qed (use assms in \<open>auto simp: fill_printable_def print_fill_value_def [abs_def] fits_def intro!: prints_append\<close>)


subsection \<open>Filters\<close>

lemmas print_branches = print_deflate_def print_shuffle_def print_fletcher32_def print_szip_def print_nbit_def
  print_scaleoffset_def print_lzf_def print_other_filter_def

definition filter_turn :: "nat \<Rightarrow> string \<Rightarrow> h5z_filter \<Rightarrow> bool" where
  "filter_turn m s f \<longleftrightarrow>
     (\<forall>tb. has m tb s \<longrightarrow>
        (\<exists>tb'. print_filter (\<lambda>_. True) f tb = Some (Inr (filter_text f \<noteq> None, tb')) \<and>
           has m tb' (s @ (case filter_text f of None \<Rightarrow> [] | Some t \<Rightarrow> t))))"

lemma turn_added:
  assumes "\<And>tb. print_filter (\<lambda>_. True) f tb = added (p tb)" and "filter_text f = Some t" and "prints m p s t"
  shows "filter_turn m s f"
  using assms by (fastforce simp: filter_turn_def prints_def added_def)

lemma turn_simple:
  assumes "\<And>tb. print_filter (\<lambda>_. True) f tb = added (print_simple (\<lambda>_. True) c i tb)"
    and "filter_text f = Some (filter_format c i [])" and "length i \<le> 5" and "length c \<le> 100" and "fits m (s @ filter_format c i []) 100"
  shows "filter_turn m s f"
  by (rule turn_added [where p = "print_simple (\<lambda>_. True) c i", OF assms(1,2)])
    (use assms(3-5) in \<open>auto simp: print_simple_def [abs_def] MAX_NUM_LENGTH_def property_formats fits_def intro!: prints_print\<close>)

lemma turn_left_out:
  assumes "\<And>tb. print_filter (\<lambda>_. True) f tb = not_added e f tb" and "optional_filter f" and "filter_text f = None"
  shows "filter_turn m s f"
  using assms by (simp add: filter_turn_def not_added_def)

lemma plain_turn:
  assumes "plain_filter f" and "fits m (s @ (case filter_text f of None \<Rightarrow> [] | Some t \<Rightarrow> t)) 100"
  shows "filter_turn m s f"
proof -
  consider "filter_id f = 1" "cd_values f \<noteq> []" | "filter_id f = 2" | "filter_id f = 3"
    | "filter_id f = 4" "4 \<le> length (cd_values f)" "filter_text f \<noteq> None \<or> optional_filter f" | "filter_id f = 5"
    | "filter_id f = 6" "4 \<le> length (cd_values f)" "filter_text f \<noteq> None \<or> optional_filter f"
    | "filter_id f = LZF_FILTER_ID" | "filter_id f < 0" "optional_filter f"
    using assms(1) by (auto simp: plain_filter_def Suc_le_eq)
  then show ?thesis
  proof cases
    case 1
    let ?t = "deflate_format ''1'' (show_nat (unat (cd_values f ! 0)))"
    have "print_filter (\<lambda>_. True) f tb =
        added (print_grown (\<lambda>_. True) (length (deflate_format ''%d'' ''%u'') + 2 * MAX_NUM_LENGTH + 1) ?t tb)" for tb
      using 1 by (simp add: print_filter_def print_branches cd_value_def)
    moreover have "prints m (print_grown (\<lambda>_. True) (length (deflate_format ''%d'' ''%u'') + 2 * MAX_NUM_LENGTH + 1) ?t) s ?t"
      by (rule prints_print) (use 1 assms(2) length_show_u32 [of "cd_values f ! 0"]
          in \<open>simp_all add: filter_text_def fits_def property_formats MAX_NUM_LENGTH_def\<close>)
    ultimately show ?thesis
      by (intro turn_added [where p = "print_grown (\<lambda>_. True) (length (deflate_format ''%d'' ''%u'') + 2 * MAX_NUM_LENGTH + 1) ?t"])
        (use 1 in \<open>simp_all add: filter_text_def\<close>)
  next
    case 4
    show ?thesis
    proof (cases "szip_option_mask (cd_values f ! 0)")
      case None
      with 4 show ?thesis
        by (intro turn_left_out [where e = H5E_CANTSET]) (auto simp: print_filter_def print_branches cd_value_def filter_text_def)
    next
      case (Some w)
      let ?u = "\<lambda>k. show_nat (unat (cd_values f ! k))"
      let ?n = "length (szip_format ''%d'' ''%u'' ''%s'' ''%u'' ''%u'') + 4 * MAX_NUM_LENGTH + length w + 1"
      let ?t = "szip_format ''4'' (?u 2) w (?u 1) (?u 3)"
      have w: "length w \<le> 22" using Some by (auto simp: szip_option_mask_def split: if_splits)
      have "print_filter (\<lambda>_. True) f tb = added (print_grown (\<lambda>_. True) ?n ?t tb)" for tb
        using 4 Some by (auto simp: print_filter_def print_branches cd_value_def)
      moreover have "prints m (print_grown (\<lambda>_. True) ?n ?t) s ?t"
        by (rule prints_print)
          (use 4 Some assms(2) w length_show_u32 [of "cd_values f ! 1"] length_show_u32 [of "cd_values f ! 2"]
            length_show_u32 [of "cd_values f ! 3"] in \<open>simp_all add: filter_text_def fits_def property_formats MAX_NUM_LENGTH_def\<close>)
      ultimately show ?thesis
        by (intro turn_added [where p = "print_grown (\<lambda>_. True) ?n ?t"]) (use 4 Some in \<open>simp_all add: filter_text_def\<close>)
    qed
  next
    case 6
    show ?thesis
    proof (cases "scaleType (cd_values f ! 0)")
      case None
      with 6 show ?thesis
        by (intro turn_left_out [where e = H5E_CANTSET]) (auto simp: print_filter_def print_branches cd_value_def filter_text_def)
    next
      case (Some w)
      let ?n = "length (scaleoffset_format ''%d'' ''%s'' ''%u'') + 2 * MAX_NUM_LENGTH + length w + 1"
      let ?t = "scaleoffset_format ''6'' w (show_nat (unat (cd_values f ! 1)))"
      have w: "length w \<le> 22" using Some by (auto simp: scaleType_def split: if_splits)
      have "print_filter (\<lambda>_. True) f tb = added (print_grown (\<lambda>_. True) ?n ?t tb)" for tb
        using 6 Some by (auto simp: print_filter_def print_branches cd_value_def)
      moreover have "prints m (print_grown (\<lambda>_. True) ?n ?t) s ?t"
        by (rule prints_print)
          (use 6 Some assms(2) w length_show_u32 [of "cd_values f ! 1"] in \<open>simp_all add: filter_text_def fits_def property_formats MAX_NUM_LENGTH_def\<close>)
      ultimately show ?thesis
        by (intro turn_added [where p = "print_grown (\<lambda>_. True) ?n ?t"]) (use 6 Some in \<open>simp_all add: filter_text_def\<close>)
    qed
  next
    case 8
    then show ?thesis
      by (intro turn_left_out [where e = "if filter_id f = -1 then Minor H5E_BADVALUE else H5E_CANTSET"])
        (auto simp: print_filter_def print_branches filter_text_def LZF_FILTER_ID_def)
  qed (use assms(2) in \<open>auto simp: print_filter_def print_branches filter_text_def LZF_FILTER_ID_def intro!: turn_simple\<close>)
qed

text \<open>The list, where no text that ends with a comma has the size of a block.\<close>

lemma prints_filter_list:
  "list_all plain_filter fs \<Longrightarrow> fits m (s @ filter_list_text n i fs) 100 \<Longrightarrow>
    list_all no_block_size (comma_texts s n i fs) \<Longrightarrow>
    prints m (print_filter_list (\<lambda>_. True) n i fs) s (filter_list_text n i fs)"
proof (induction fs arbitrary: s i)
  case (Cons f fs)
  let ?t = "case filter_text f of None \<Rightarrow> [] | Some t \<Rightarrow> t"
  let ?c = "if filter_text f \<noteq> None \<and> i < n - 1 then '','' else []"
  have e: "(case filter_text f of None \<Rightarrow> [] | Some t \<Rightarrow> t @ (if i < n - 1 then '','' else [])) = ?t @ ?c"
    by (auto split: option.split)
  have len: "length s + length ?t + length ?c + length (filter_list_text n (i + 1) fs) \<le> 2 ^ 30"
      "length s + length ?t + length ?c + length (filter_list_text n (i + 1) fs) + 100 \<le> 512 * 2 ^ m" "m \<le> 53"
    using Cons.prems(2) unfolding filter_list_text.simps e fits_def by simp_all
  have t: "filter_turn m s f" by (rule plain_turn) (use Cons.prems(1) len in \<open>auto simp: fits_def\<close>)
  have c: "prints m (\<lambda>tb. if filter_text f \<noteq> None \<and> i < n - 1 then append_reserved (\<lambda>_. True) 1 '','' tb else Some (Inr tb))
      (s @ ?t) ?c"
  proof (cases "filter_text f \<noteq> None \<and> i < n - 1")
    case True
    then have "no_block_size ((s @ ?t) @ '','')" using Cons.prems(3) by (auto simp: Let_def)
    with True len show ?thesis by (simp only: if_True simp_thms) (rule prints_append, auto)
  qed (auto simp: prints_def)
  have ih: "prints m (print_filter_list (\<lambda>_. True) n (i + 1) fs) (s @ ?t @ ?c) (filter_list_text n (i + 1) fs)"
    by (rule Cons.IH) (use Cons.prems(1,3) len in \<open>simp_all add: Let_def e fits_def\<close>)
  show ?case unfolding prints_def
  proof (intro allI impI)
    fix tb assume tb: "has m tb s"
    obtain tb1 where 1: "print_filter (\<lambda>_. True) f tb = Some (Inr (filter_text f \<noteq> None, tb1))" "has m tb1 (s @ ?t)"
      using t tb unfolding filter_turn_def by blast
    obtain tb2 where 2: "(if filter_text f \<noteq> None \<and> i < n - 1 then append_reserved (\<lambda>_. True) 1 '','' tb1 else Some (Inr tb1))
        = Some (Inr tb2)" "has m tb2 (s @ ?t @ ?c)"
      using c 1(2) unfolding prints_def by fastforce
    obtain tb3 where 3: "print_filter_list (\<lambda>_. True) n (i + 1) fs tb2 = Some (Inr tb3)"
      "has m tb3 ((s @ ?t @ ?c) @ filter_list_text n (i + 1) fs)"
      using ih 2(2) unfolding prints_def by blast
    show "\<exists>tb'. print_filter_list (\<lambda>_. True) n i (f # fs) tb = Some (Inr tb') \<and> has m tb' (s @ filter_list_text n i (f # fs))"
      unfolding print_filter_list.simps filter_list_text.simps e 1(1) andthen_simps prod.case 2(1) 3(1) using 3(2) by simp
  qed
qed (simp add: prints_def)


lemma prints_filters:
  assumes "list_all plain_filter fs" and "fits m (s @ filters_text fs) 100"
    and "fs \<noteq> [] \<Longrightarrow> list_all no_block_size (comma_texts (s @ filters_string) (length fs) 0 fs)"
    and "fs \<noteq> [] \<Longrightarrow> no_block_size (s @ filters_text fs)"
  shows "prints m (print_filters (\<lambda>_. True) fs) s (filters_text fs)"
proof (cases "fs = []")
  case False
  let ?l = "filter_list_text (length fs) 0 fs"
  have len: "length s + length filters_string + length ?l + 1 \<le> 2 ^ 30" "m \<le> 53"
      "length s + length filters_string + length ?l + 101 \<le> 512 * 2 ^ m"
    using assms(2) False by (simp_all add: filters_text_def fits_def)
  have "prints m (\<lambda>tb. andthen (andthen (append_reserved (\<lambda>_. True) (length filters_string + 1) filters_string tb)
        (print_filter_list (\<lambda>_. True) (length fs) 0 fs)) (append_reserved (\<lambda>_. True) 1 '']'')) s ((filters_string @ ?l) @ '']'')"
  proof (intro prints_then prints_filter_list)
    show "prints m (append_reserved (\<lambda>_. True) (length filters_string + 1) filters_string) s filters_string"
      by (rule prints_append) (use len in simp_all)
    show "prints m (append_reserved (\<lambda>_. True) 1 '']'') (s @ filters_string @ ?l) '']''"
      by (rule prints_append) (use len assms(4) False in \<open>simp_all add: filters_text_def\<close>)
  qed (use assms(1,3) len False in \<open>simp_all add: fits_def\<close>)
  with False show ?thesis by (simp add: prints_def print_filters_def filters_text_def andthen_assoc)
qed (simp add: prints_def print_filters_def filters_text_def)

subsection \<open>Layout\<close>

fun layout_printable :: "layout \<Rightarrow> bool" where
  "layout_printable H5D_COMPACT = True"
| "layout_printable (H5D_CONTIGUOUS es) = (es = [])"
| "layout_printable (H5D_CHUNKED dims) = (dims \<noteq> [] \<and> length dims \<le> 32 \<and> list_all (\<lambda>d. unat d < 10 ^ 18) dims)"
| "layout_printable _ = False"

lemma chunk_dims_ok:
  assumes "dims \<noteq> []" and "length dims \<le> 32" and "list_all (\<lambda>d. unat d < 10 ^ 18) dims"
  shows "\<exists>tb. print_chunk_dims dims (fresh_text (of_nat (length dims * MAX_NUM_LENGTH + length dims + 3))) = Some (Inr tb) \<and>
    c_string (buffer tb) = Some (dims_text dims)"
proof -
  have "print_shape (\<lambda>_. True) dims = andthen (strcat_advance ''['' (fresh_text (of_nat (length dims * MAX_NUM_LENGTH + length dims + 3))))
      (\<lambda>tb. andthen (each (print_dim dims) [0..<length dims] tb) (strcat '']''))"
    using assms(1) by (simp add: print_shape_def Let_def)
  then obtain tb1 tb2 where 1: "andthen (strcat_advance ''['' (fresh_text (of_nat (length dims * MAX_NUM_LENGTH + length dims + 3))))
      (each (print_dim dims) [0..<length dims]) = Some (Inr tb1)"
    "strcat '']'' tb1 = Some (Inr tb2 :: type_failure + text_buffer)" "c_string (buffer tb2) = Some (dims_text dims)"
    using print_shape_ok [of "\<lambda>_. True" dims] assms by (auto simp: andthen_def split: option.splits sum.splits)
  have 2: "strcat_advance '']'' tb1 = (Some (Inr (tb2\<lparr>curr := curr tb2 + 1\<rparr>)) :: (type_failure + text_buffer) option)"
    using 1(2) by (simp add: strcat_advance_def advance_def)
  show ?thesis
    unfolding print_chunk_dims_def andthen_assoc [symmetric] 1(1) andthen_simps 2 using 1(3) by simp
qed

lemma prints_layout:
  assumes "layout_printable l" and "fits m (s @ layout_text l) 3"
    and "\<And>es. l = H5D_CONTIGUOUS es \<Longrightarrow> no_block_size (s @ contiguous_layout_str) \<and> no_block_size (s @ contiguous_layout_str @ ''}'')"
  shows "prints m (print_layout (\<lambda>_. True) l) s (layout_text l)"
proof (cases l)
  case H5D_COMPACT
  have "prints m (append_reserved (\<lambda>_. True) (length compact_layout_str + 1) compact_layout_str) s compact_layout_str"
    by (rule prints_append) (use assms(2) H5D_COMPACT in \<open>simp_all add: fits_def\<close>)
  then show ?thesis by (simp add: H5D_COMPACT print_layout_def [abs_def])
next
  case (H5D_CONTIGUOUS es)
  have "prints m (\<lambda>tb. andthen (append_reserved (\<lambda>_. True) (length contiguous_layout_str) contiguous_layout_str tb)
      (append_reserved (\<lambda>_. True) 1 ''}'')) s (contiguous_layout_str @ ''}'')"
    by (intro prints_then prints_append) (use assms(2,3) H5D_CONTIGUOUS in \<open>simp_all add: fits_def\<close>)
  moreover have "es = []" using assms(1) H5D_CONTIGUOUS by simp
  ultimately show ?thesis by (simp add: H5D_CONTIGUOUS print_layout_def [abs_def] print_contiguous_def [abs_def])
next
  case (H5D_CHUNKED dims)
  have d: "dims \<noteq> []" "length dims \<le> 32" "list_all (\<lambda>d. unat d < 10 ^ 18) dims" using assms(1) H5D_CHUNKED by simp_all
  let ?t = "dims_text dims"
  obtain ds where "print_chunk_dims dims (fresh_text (of_nat (length dims * MAX_NUM_LENGTH + length dims + 3))) = Some (Inr ds)"
    "c_string (buffer ds) = Some ?t" using chunk_dims_ok [OF d] by blast
  then have "print_chunked (\<lambda>_. True) dims = print_grown (\<lambda>_. True) (length (chunked_format ''%s'') + length ?t + 1) (chunked_format ?t)"
    using d(1) by (intro ext) (simp add: print_chunked_def Let_def)
  moreover have "prints m (print_grown (\<lambda>_. True) (length (chunked_format ''%s'') + length ?t + 1) (chunked_format ?t)) s (chunked_format ?t)"
    by (rule prints_print) (use assms(2) H5D_CHUNKED in \<open>simp_all add: property_formats fits_def\<close>)
  ultimately show ?thesis by (simp add: H5D_CHUNKED print_layout_def [abs_def])
qed (use assms(1) in simp_all)

section \<open>The whole text\<close>

text \<open>The properties whose text is printed.\<close>

definition dcpl_printable :: "server_api_version \<Rightarrow> dcpl \<Rightarrow> bool" where
  "dcpl_printable version d \<longleftrightarrow>
     dcpl_alloc_time d \<noteq> H5D_ALLOC_TIME_ERROR \<and> fill_printable version (dcpl_fill_value d) \<and>
     list_all plain_filter (filters d) \<and> layout_printable (dcpl_layout d)"

lemma first_text_no_nul:
  "CHR 0x00 \<notin> set (properties_leading_string @ alloc_time_text a @ order_text fl @ phase_text mc md @ fill_time_text ft)"
proof -
  have "\<not> is_digit_char (CHR 0x00)" by code_simp
  then have n: "CHR 0x00 \<notin> set (show_nat n)" for n using show_nat_digits by blast
  have "CHR 0x00 \<notin> set (alloc_time_text a)" by (cases a) (simp_all add: property_formats)
  then show ?thesis using n by (simp add: order_text_def phase_text_def fill_time_text_def property_formats)
qed

text \<open>The text but for its last brace.\<close>

definition open_text :: "dcpl \<Rightarrow> string" where
  "open_text d = first_text d @ filters_text (filters d) @ layout_text (dcpl_layout d) @ track_times_text (track_times d)"

definition print_open :: "server_api_version \<Rightarrow> dcpl \<Rightarrow> text_buffer \<Rightarrow> (type_failure + text_buffer) option" where
  "print_open version d tb =
     andthen (andthen (andthen (andthen (andthen (andthen (andthen
      (print_alloc_time (\<lambda>_. True) (dcpl_alloc_time d) tb) (print_order (\<lambda>_. True) (crt_order_flags d)))
      (print_phase (\<lambda>_. True) (max_compact d) (min_dense d))) (print_fill_time (\<lambda>_. True) (dcpl_fill_time d)))
      (print_fill_value (\<lambda>_. True) version (dcpl_fill_value d))) (print_filters (\<lambda>_. True) (filters d)))
      (print_layout (\<lambda>_. True) (dcpl_layout d)))
      (append_reserved (\<lambda>_. True) (length (track_times_text (track_times d)) + 1) (track_times_text (track_times d)))"

lemma print_in_two:
  "RV_convert_dataset_creation_properties_to_JSON (\<lambda>_. True) version d =
     andthen (start_properties (\<lambda>_. True)) (\<lambda>tb. andthen (print_open version d tb) (append_reserved (\<lambda>_. True) 1 ''}''))"
  by (simp add: RV_convert_dataset_creation_properties_to_JSON_def print_open_def andthen_assoc)

lemma prints_open:
  assumes "dcpl_printable version d" and "list_all no_block_size (tight_texts d)"
    and "length (open_text d) + 1 \<le> 512 * 2 ^ m" and "length (open_text d) \<le> 2 ^ 30" and "m \<le> 53"
    and "filters d \<noteq> [] \<Longrightarrow> length (open_text d) + 100 \<le> 512 * 2 ^ m"
  shows "\<exists>tb tb'. start_properties (\<lambda>_. True) = Some (Inr tb) \<and> print_open version d tb = Some (Inr tb') \<and>
    has m tb' (open_text d)"
proof -
  let ?a = "alloc_time_text (dcpl_alloc_time d)" and ?o = "order_text (crt_order_flags d)"
    and ?p = "phase_text (max_compact d) (min_dense d)" and ?ft = "fill_time_text (dcpl_fill_time d)"
    and ?fv = "fill_value_text (dcpl_fill_value d)" and ?fs = "filters_text (filters d)"
    and ?l = "layout_text (dcpl_layout d)" and ?t = "track_times_text (track_times d)" and ?s = properties_leading_string
  note d = assms(1) [unfolded dcpl_printable_def]
  have t: "22 \<le> length ?t" "length ?t + 1 \<le> 30" by (simp_all add: property_formats)
  have "36 \<le> length ?l" using d by (cases "dcpl_layout d") (simp_all add: property_formats)
  with t assms(3-6) have l: "length ?s + length ?a + length ?o + length ?p + length ?ft + length ?fv + length ?fs + length ?l + length ?t + 1 \<le> 512 * 2 ^ m"
    "length ?s + length ?a + length ?o + length ?p + length ?ft + length ?fv + length ?fs + length ?l + length ?t \<le> 2 ^ 30"
    "length ?s + length ?a + length ?o + length ?p + length ?ft + 50 \<le> 512 * 2 ^ m" "m \<le> 53"
    "length ?s + length ?a + length ?o + length ?p + length ?ft + length ?fv + length ?fs + length ?l + 3 \<le> 512 * 2 ^ m"
    "filters d \<noteq> [] \<Longrightarrow> length ?s + length ?a + length ?o + length ?p + length ?ft + length ?fv + length ?fs + 100 \<le> 512 * 2 ^ m"
    by (auto simp: open_text_def first_text_def)
  have "prints m (print_filters (\<lambda>_. True) (filters d)) (?s @ ((((?a @ ?o) @ ?p) @ ?ft) @ ?fv)) ?fs"
  proof (cases "filters d = []")
    case True
    then show ?thesis by (simp add: prints_def print_filters_def filters_text_def)
  next
    case False
    show ?thesis
      by (rule prints_filters)
        (use False d l assms(2) in \<open>auto simp: tight_texts_def first_text_def fits_def\<close>)
  qed
  then have "prints m (print_open version d) ?s ((((((((?a @ ?o) @ ?p) @ ?ft) @ ?fv) @ ?fs) @ ?l) @ ?t))"
    unfolding print_open_def
    by (intro prints_then prints_alloc_time prints_order prints_phase prints_fill_time prints_fill_value
        prints_layout prints_append; assumption?)
      (use d l assms(2) first_text_no_nul in \<open>auto simp: tight_texts_def first_text_def fits_def\<close>)
  then show ?thesis using start_has [of m] by (fastforce simp: prints_def open_text_def first_text_def)
qed


lemma no_nul_texts:
  assumes "layout_printable (dcpl_layout d)"
  shows "CHR 0x00 \<notin> set (dcpl_text d)"
proof -
  have "\<not> is_digit_char (CHR 0x00)" by code_simp
  then have n: "CHR 0x00 \<notin> set (show_nat n)" for n using show_nat_digits by blast
  have f: "CHR 0x00 \<notin> set t" if "filter_text f = Some t" for f t
    using that n
    by (auto simp: filter_text_def Let_def szip_option_mask_def scaleType_def property_formats split: if_splits)
  have "CHR 0x00 \<notin> set (filter_list_text k i fs)" for k i fs
    by (induction k i fs rule: filter_list_text.induct) (use f in \<open>auto split: option.splits\<close>)
  then have fs: "CHR 0x00 \<notin> set (filters_text fs)" for fs by (simp add: filters_text_def property_formats)
  have fv: "CHR 0x00 \<notin> set (fill_value_text fv)" for fv
    by (cases fv) (simp_all add: base64_no_nul property_formats)
  have "CHR 0x00 \<notin> set (join '','' (map (\<lambda>d. show_nat (unat d)) dims))" for dims :: "u64 list"
    using n by (intro not_in_join) auto
  then have l: "CHR 0x00 \<notin> set (layout_text (dcpl_layout d))"
    using assms by (cases "dcpl_layout d") (simp_all add: dims_text_def property_formats)
  show ?thesis using first_text_no_nul fs fv l by (simp add: dcpl_text_def first_text_def track_times_text_def property_formats)
qed

lemma short_no_block: "length s < 512 \<Longrightarrow> no_block_size s"
  unfolding no_block_size_def
proof
  fix k :: nat
  assume "length s < 512"
  moreover have "(512 :: nat) \<le> 512 * 2 ^ k" by simp
  ultimately show "length s \<noteq> 512 * 2 ^ k" by linarith
qed

lemma length_base64_eq: "length (base64 bs) = 4 * ((length bs + 2) div 3)"
proof (induction bs rule: base64.induct)
  case (4 x y z rest)
  have "(length (x # y # z # rest) + 2) div 3 = (length rest + 2) div 3 + 1" by simp
  then show ?case using 4 by (simp only: base64.simps Let_def) simp
qed (simp_all add: Let_def)

lemma comma_texts_length: "x \<in> set (comma_texts s n i fs) \<Longrightarrow> length x \<le> length (s @ filter_list_text n i fs)"
proof (induction fs arbitrary: s i)
  case (Cons f fs)
  define t where "t = (case filter_text f of None \<Rightarrow> [] | Some t \<Rightarrow> t @ (if i < n - 1 then '','' else []))"
  have "x \<in> set (comma_texts (s @ t) n (i + 1) fs) \<or> x = s @ t"
    using Cons.prems by (auto simp: Let_def t_def [symmetric] split: if_splits)
  then show ?case using Cons.IH [of "s @ t" "i + 1"] by (auto simp: t_def [symmetric])
qed simp

lemma tight_texts_length: "x \<in> set (tight_texts d) \<Longrightarrow> length x \<le> length (dcpl_text d)"
  by (cases "dcpl_layout d")
    (auto simp: tight_texts_def dcpl_text_def filters_text_def dest: comma_texts_length split: fill_value.splits if_splits)

lemma short_texts: "length (dcpl_text d) < 512 \<Longrightarrow> list_all no_block_size (tight_texts d)"
  by (auto simp: list_all_iff intro!: short_no_block dest: tight_texts_length)

definition dcpl_example :: dcpl where
  "dcpl_example = \<lparr>dcpl_alloc_time = H5D_ALLOC_TIME_LATE, crt_order_flags = 3, max_compact = 10, min_dense = 5,
     dcpl_fill_time = H5D_FILL_TIME_ALLOC, dcpl_fill_value = H5D_FILL_VALUE_DEFAULT,
     filters = [\<lparr>filter_id = 2, flags = 0, cd_values = [4]\<rparr>, \<lparr>filter_id = 1, flags = 1, cd_values = [6]\<rparr>],
     dcpl_layout = H5D_CHUNKED [10, 20], track_times = True\<rparr>"

definition dcpl_of_512 :: dcpl where
  "dcpl_of_512 = \<lparr>dcpl_alloc_time = H5D_ALLOC_TIME_DEFAULT, crt_order_flags = 0, max_compact = 8, min_dense = 6,
     dcpl_fill_time = H5D_FILL_TIME_IFSET, dcpl_fill_value = H5D_FILL_VALUE_USER_DEFINED (replicate 243 0),
     filters = [], dcpl_layout = H5D_CHUNKED [10000, 20], track_times = False\<rparr>"

lemmas texts_defs = dcpl_text_def first_text_def order_text_def phase_text_def fill_time_text_def filter_text_def
  filters_text_def Let_def H5P_CRT_ORDER_INDEXED_def H5P_CRT_ORDER_TRACKED_def LZF_FILTER_ID_def
  DATASET_CREATE_MAX_COMPACT_ATTRIBUTES_DEFAULT_def DATASET_CREATE_MIN_DENSE_ATTRIBUTES_DEFAULT_def dims_text_def property_formats

lemma dcpl_printed:
  assumes "dcpl_printable version d" and "length (dcpl_text d) \<le> 2 ^ 30"
    and t: "list_all no_block_size (tight_texts d)" "no_block_size (dcpl_text d)"
  shows "\<exists>tb. RV_convert_dataset_creation_properties_to_JSON (\<lambda>_. True) version d = Some (Inr tb) \<and>
    c_string (buffer tb) = Some (dcpl_text d)"
proof -
  have d: "dcpl_text d = open_text d @ ''}''" by (simp add: dcpl_text_def open_text_def)
  obtain tb tb1 where 1: "start_properties (\<lambda>_. True) = Some (Inr tb)" "print_open version d tb = Some (Inr tb1)"
    "has 53 tb1 (open_text d)"
    using prints_open [OF assms(1) t(1), of 53] assms(2) by (auto simp: d)
  obtain tb' where 2: "append_reserved (\<lambda>_. True) 1 ''}'' tb1 = Some (Inr tb')" "has 53 tb' (dcpl_text d)"
    using append_has [OF 1(3), of 1 "''}''"] t(2) assms(2) by (auto simp: d)
  have "layout_printable (dcpl_layout d)" using assms(1) by (simp add: dcpl_printable_def)
  then have "c_string (buffer tb') = Some (dcpl_text d)"
    using 2(2) holds_c_string [of tb' "dcpl_text d"] no_nul_texts by (simp add: has_def)
  with 1(1,2) 2(1) show ?thesis unfolding print_in_two by simp
qed

section \<open>Properties\<close>

text \<open>
  C31: The printer of the creation properties leaves exactly their text in its buffer, for every supported property
  list: all filters but user-defined ones, all layouts but virtual ones and external files.  Asked for is that no
  text after which a byte for the NUL is missing has exactly the size of a block.
\<close>

theorem properties_are_printed:
  assumes "dcpl_printable version d" and "length (dcpl_text d) \<le> 2 ^ 30"
    and t: "list_all no_block_size (tight_texts d)" "no_block_size (dcpl_text d)" and "\<And>n. ok n"
  shows "\<exists>tb. RV_convert_dataset_creation_properties_to_JSON ok version d = Some (Inr tb) \<and>
    c_string (buffer tb) = Some (dcpl_text d)"
proof -
  have "ok = (\<lambda>_. True)" using assms(5) by (intro ext) simp
  then show ?thesis using dcpl_printed [OF assms(1-4)] by simp
qed

theorem properties_are_printed_witness:
  "\<exists>tb. RV_convert_dataset_creation_properties_to_JSON (\<lambda>_. True) \<lparr>major = 0, minor = 8, patch = 4\<rparr> dcpl_example = Some (Inr tb) \<and>
    c_string (buffer tb) = Some (dcpl_text dcpl_example)"
proof (rule properties_are_printed)
  show "dcpl_printable \<lparr>major = 0, minor = 8, patch = 4\<rparr> dcpl_example"
    by (simp add: dcpl_printable_def dcpl_example_def fill_printable_def plain_filter_def LZF_FILTER_ID_def)
  have "length (dcpl_text dcpl_example) < 512"
    by (simp add: dcpl_example_def texts_defs show_nat.simps)
  then show "length (dcpl_text dcpl_example) \<le> 2 ^ 30" "no_block_size (dcpl_text dcpl_example)"
    "list_all no_block_size (tight_texts dcpl_example)"
    by (simp_all add: short_no_block short_texts)
qed simp



end
