(* ===== verification/Creation_Parse.thy ===== *)
theory Creation_Parse
  imports Creation_Print
begin

text \<open>
  The creation properties of a dataset out of a response: \<open>RV_parse_dataset_creation_properties_callback\<close> of
  \<open>rest_vol_dataset.c\<close>.  It goes through the JSON object section by section and sets properties on the
  caller's property list, which belongs to HDF5: \<open>set_property\<close> is the \<open>H5Pset\<close> functions.  A warning
  does not leave the function but overwrites the value that it will return.
\<close>

section \<open>Property lists\<close>

datatype setting =
    Set_Alloc_Time alloc_time
  | Set_Creation_Order u32
  | Set_Phase_Change u32 u32
  | Set_Fill_Time fill_time
  | Set_Fill_Value h5t string
  | Set_Deflate u32
  | Set_Shuffle
  | Set_Fletcher32
  | Set_Szip u32 u32
  | Set_Nbit
  | Set_Scaleoffset u32 "32 word"
  | Set_Filter int bool
  | Set_Chunk "u64 list"
  | Set_Contiguous
  | Set_Compact
  | Set_Track_Times bool

text \<open>HDF5: a setting is refused with \<open>None\<close>, and a datatype is closed or not.\<close>

record 'd h5_properties =
  set_property :: "setting \<Rightarrow> 'd \<Rightarrow> 'd option"
  close_type :: "h5t \<Rightarrow> bool"

text \<open>The variables of the function: \<open>ret_value\<close>, the datatype of the fill value and the list.\<close>

record 'd reading =
  succeeded :: bool
  fill_type :: "h5t option"
  DCPL :: 'd

type_synonym 'd prop_step = "'d reading \<Rightarrow> (type_failure \<times> 'd reading + 'd reading) option"

definition fail :: "type_failure \<Rightarrow> 'd prop_step" where
  "fail e r = Some (Inl (e, r))"

definition proceed :: "'d prop_step" where
  "proceed r = Some (Inr r)"

text \<open>\<open>FUNC_GOTO_ERROR\<close> when there is no value.\<close>

definition get_or :: "type_failure \<Rightarrow> 'a option \<Rightarrow> ('a \<Rightarrow> 'd prop_step) \<Rightarrow> 'd prop_step" where
  "get_or e x f = (case x of None \<Rightarrow> fail e | Some v \<Rightarrow> f v)"

definition set_prop :: "'d h5_properties \<Rightarrow> setting \<Rightarrow> 'd prop_step" where
  "set_prop h s r =
     (case set_property h s (DCPL r) of None \<Rightarrow> fail H5E_CANTSET r | Some d \<Rightarrow> proceed (r\<lparr>DCPL := d\<rparr>))"

text \<open>\<open>FUNC_DONE_ERROR\<close> with \<open>SUCCEED\<close> or \<open>FAIL\<close>.\<close>

definition warn :: "bool \<Rightarrow> 'd prop_step" where
  "warn ret r = proceed (r\<lparr>succeeded := ret\<rparr>)"

text \<open>A section is skipped when its key is not there with a value of the right type.\<close>

definition when_key :: "yajl \<Rightarrow> json \<Rightarrow> string \<Rightarrow> yajl_type \<Rightarrow> (json \<Rightarrow> 'd prop_step) \<Rightarrow> 'd prop_step" where
  "when_key y obj key ty f = (case tree_get y obj [key] ty of None \<Rightarrow> proceed | Some v \<Rightarrow> f v)"

definition get_string :: "yajl \<Rightarrow> json \<Rightarrow> string \<Rightarrow> (string \<Rightarrow> 'd prop_step) \<Rightarrow> 'd prop_step" where
  "get_string y obj key f =
     get_or (Minor H5E_CANTGET) (tree_get y obj [key] yajl_t_string) (\<lambda>v. get_or (Minor H5E_BADVALUE) (YAJL_GET_STRING v) f)"

definition get_integer :: "yajl \<Rightarrow> json \<Rightarrow> string \<Rightarrow> (int \<Rightarrow> 'd prop_step) \<Rightarrow> 'd prop_step" where
  "get_integer y obj key f =
     get_or (Minor H5E_CANTGET) (tree_get y obj [key] yajl_t_number) (\<lambda>v. get_or (Minor H5E_BADVALUE) (YAJL_GET_INTEGER v) f)"

section \<open>Sections\<close>

definition alloc_time_of :: "string \<Rightarrow> alloc_time" where
  "alloc_time_of s =
     (if s = ''H5D_ALLOC_TIME_EARLY'' then H5D_ALLOC_TIME_EARLY
      else if s = ''H5D_ALLOC_TIME_INCR'' then H5D_ALLOC_TIME_INCR
      else if s = ''H5D_ALLOC_TIME_LATE'' then H5D_ALLOC_TIME_LATE
      else H5D_ALLOC_TIME_DEFAULT)"

definition read_alloc_time :: "'d h5_properties \<Rightarrow> yajl \<Rightarrow> json \<Rightarrow> 'd prop_step" where
  "read_alloc_time h y obj =
     when_key y obj ''allocTime'' yajl_t_string (\<lambda>v.
     get_or (Minor H5E_BADVALUE) (YAJL_GET_STRING v) (\<lambda>s. set_prop h (Set_Alloc_Time (alloc_time_of s))))"

definition read_order :: "'d h5_properties \<Rightarrow> yajl \<Rightarrow> json \<Rightarrow> 'd prop_step" where
  "read_order h y obj =
     when_key y obj ''attributeCreationOrder'' yajl_t_string (\<lambda>v.
     get_or (Minor H5E_BADVALUE) (YAJL_GET_STRING v) (\<lambda>s.
       set_prop h (Set_Creation_Order
         (if s = ''H5P_CRT_ORDER_INDEXED'' then H5P_CRT_ORDER_INDEXED OR H5P_CRT_ORDER_TRACKED
          else H5P_CRT_ORDER_TRACKED))))"

text \<open>A negative value leaves the default.\<close>

definition unsigned_or :: "u32 \<Rightarrow> int \<Rightarrow> u32" where
  "unsigned_or def i = (if 0 \<le> i then of_int i else def)"

definition read_phase :: "'d h5_properties \<Rightarrow> yajl \<Rightarrow> json \<Rightarrow> 'd prop_step" where
  "read_phase h y obj =
     when_key y obj ''attributePhaseChange'' yajl_t_object (\<lambda>v.
     get_integer y v ''maxCompact'' (\<lambda>mc.
     get_integer y v ''minDense'' (\<lambda>md.
       let maxCompact = unsigned_or DATASET_CREATE_MAX_COMPACT_ATTRIBUTES_DEFAULT mc;
           minDense = unsigned_or DATASET_CREATE_MIN_DENSE_ATTRIBUTES_DEFAULT md
       in if minDense \<noteq> DATASET_CREATE_MIN_DENSE_ATTRIBUTES_DEFAULT \<or>
             maxCompact \<noteq> DATASET_CREATE_MAX_COMPACT_ATTRIBUTES_DEFAULT
          then set_prop h (Set_Phase_Change maxCompact minDense)
          else proceed)))"

definition read_fill_time :: "'d h5_properties \<Rightarrow> yajl \<Rightarrow> json \<Rightarrow> 'd prop_step" where
  "read_fill_time h y obj =
     when_key y obj ''fillTime'' yajl_t_string (\<lambda>v.
     get_or (Minor H5E_BADVALUE) (YAJL_GET_STRING v) (\<lambda>s.
       set_prop h (Set_Fill_Time
         (if s = ''H5D_FILL_TIME_ALLOC'' then H5D_FILL_TIME_ALLOC
          else if s = ''H5D_FILL_TIME_NEVER'' then H5D_FILL_TIME_NEVER
          else H5D_FILL_TIME_IFSET))))"

text \<open>
  The decoded bytes are read by \<open>H5Pset_fill_value\<close> up to the size of the datatype, whose text is cut out of the
  response; the string is decoded with the NUL behind it in memory.
\<close>

definition read_fill_value ::
  "'d h5_properties \<Rightarrow> yajl \<Rightarrow> h5_types \<Rightarrow> (u64 \<Rightarrow> bool) \<Rightarrow> string \<Rightarrow> json \<Rightarrow> 'd prop_step" where
  "read_fill_value h y lib ok HTTP_response obj =
     when_key y obj ''fillValue'' yajl_t_any (\<lambda>v.
     get_or (Minor H5E_PARSEERROR) (YAJL_GET_STRING v) (\<lambda>encoded r.
       case RV_base64_decode ok (Some (map byte_of encoded @ [0])) (length encoded) True (Some 0) of
         None \<Rightarrow> None
       | Some (Inl e) \<Rightarrow> fail H5E_CANTDECODE r
       | Some (Inr (value_bytes, _)) \<Rightarrow>
           (case RV_parse_datatype y lib ok (Some HTTP_response) True of
              None \<Rightarrow> None
            | Some (Inl e) \<Rightarrow> fail (Minor H5E_PARSEERROR) r
            | Some (Inr t) \<Rightarrow>
                let n = unat (H5Tget_size t)
                in if length value_bytes < n then None
                   else set_prop h (Set_Fill_Value t (take n value_bytes)) (r\<lparr>fill_type := Some t\<rparr>))))"

subsection \<open>Filters\<close>

definition check_class :: "string \<Rightarrow> string \<Rightarrow> 'd prop_step" where
  "check_class expected filter_class = (if filter_class = expected then proceed else warn True)"

definition and_then :: "'d prop_step \<Rightarrow> 'd prop_step \<Rightarrow> 'd prop_step" where
  "and_then f g r = andthen (f r) g"

definition read_deflate :: "'d h5_properties \<Rightarrow> yajl \<Rightarrow> string \<Rightarrow> json \<Rightarrow> 'd prop_step" where
  "read_deflate h y filter_class filter_obj =
     and_then (check_class ''H5Z_FILTER_DEFLATE'' filter_class)
       (get_integer y filter_obj ''level'' (\<lambda>level.
          if level < 0 then fail (Minor H5E_BADVALUE) else set_prop h (Set_Deflate (of_int level))))"

definition read_shuffle :: "'d h5_properties \<Rightarrow> string \<Rightarrow> 'd prop_step" where
  "read_shuffle h filter_class = and_then (check_class ''H5Z_FILTER_SHUFFLE'' filter_class) (set_prop h Set_Shuffle)"

definition read_fletcher32 :: "'d h5_properties \<Rightarrow> string \<Rightarrow> 'd prop_step" where
  "read_fletcher32 h filter_class =
     and_then (check_class ''H5Z_FILTER_FLETCHER32'' filter_class) (set_prop h Set_Fletcher32)"

definition read_szip :: "'d h5_properties \<Rightarrow> yajl \<Rightarrow> string \<Rightarrow> json \<Rightarrow> 'd prop_step" where
  "read_szip h y filter_class filter_obj =
     and_then (check_class ''H5Z_FILTER_SZIP'' filter_class)
       (get_string y filter_obj ''coding'' (\<lambda>mask.
          if mask \<noteq> ''H5_SZIP_EC_OPTION_MASK'' \<and> mask \<noteq> ''H5_SZIP_NN_OPTION_MASK'' then warn True
          else
            get_integer y filter_obj ''pixelsPerBlock'' (\<lambda>ppb.
              if ppb < 0 then fail (Minor H5E_BADVALUE)
              else
                set_prop h (Set_Szip
                  (if mask = ''H5_SZIP_EC_OPTION_MASK'' then H5_SZIP_EC_OPTION_MASK else H5_SZIP_NN_OPTION_MASK)
                  (of_int ppb)))))"

definition read_nbit :: "'d h5_properties \<Rightarrow> string \<Rightarrow> 'd prop_step" where
  "read_nbit h filter_class = and_then (check_class ''H5Z_FILTER_NBIT'' filter_class) (set_prop h Set_Nbit)"

definition scale_type_of :: "string \<Rightarrow> u32 option" where
  "scale_type_of s =
     (if s = ''H5Z_SO_FLOAT_DSCALE'' then Some 0
      else if s = ''H5Z_SO_FLOAT_ESCALE'' then Some 1
      else if s = ''H5Z_SO_INT'' then Some 2
      else None)"

definition read_scaleoffset :: "'d h5_properties \<Rightarrow> yajl \<Rightarrow> string \<Rightarrow> json \<Rightarrow> 'd prop_step" where
  "read_scaleoffset h y filter_class filter_obj =
     and_then (check_class ''H5Z_FILTER_SCALEOFFSET'' filter_class)
       (get_string y filter_obj ''scaleType'' (\<lambda>s.
          case scale_type_of s of
            None \<Rightarrow> warn False
          | Some t \<Rightarrow>
              get_integer y filter_obj ''scaleOffset'' (\<lambda>scale_offset.
                set_prop h (Set_Scaleoffset t (of_int scale_offset)))))"

definition read_lzf :: "'d h5_properties \<Rightarrow> string \<Rightarrow> 'd prop_step" where
  "read_lzf h filter_class =
     and_then (check_class ''H5Z_FILTER_LZF'' filter_class) (set_prop h (Set_Filter LZF_FILTER_ID True))"

definition read_filter :: "'d h5_properties \<Rightarrow> yajl \<Rightarrow> json \<Rightarrow> 'd prop_step" where
  "read_filter h y filter_obj =
     get_string y filter_obj ''class'' (\<lambda>filter_class.
     get_integer y filter_obj ''id'' (\<lambda>filter_ID.
       if filter_ID = 1 then read_deflate h y filter_class filter_obj
       else if filter_ID = 2 then read_shuffle h filter_class
       else if filter_ID = 3 then read_fletcher32 h filter_class
       else if filter_ID = 4 then read_szip h y filter_class filter_obj
       else if filter_ID = 5 then read_nbit h filter_class
       else if filter_ID = 6 then read_scaleoffset h y filter_class filter_obj
       else if filter_ID = LZF_FILTER_ID then read_lzf h filter_class
       else warn False))"

definition read_filters :: "'d h5_properties \<Rightarrow> yajl \<Rightarrow> json \<Rightarrow> 'd prop_step" where
  "read_filters h y obj =
     when_key y obj ''filters'' yajl_t_array (\<lambda>v r.
       case array_of (Some v) of None \<Rightarrow> None | Some fs \<Rightarrow> each (read_filter h y) fs r)"

subsection \<open>Layout\<close>

text \<open>The dimensions go to an array of 32 elements.\<close>

definition DATASPACE_MAX_RANK :: nat where
  "DATASPACE_MAX_RANK = 32"

fun read_chunk_dims :: "nat \<Rightarrow> json list \<Rightarrow> (type_failure + u64 list) option" where
  "read_chunk_dims i [] = Some (Inr [])"
| "read_chunk_dims i (v # vs) =
     (case YAJL_GET_INTEGER v of
        None \<Rightarrow> Some (Inl (Minor H5E_BADVALUE))
      | Some val \<Rightarrow>
          if val < 0 then Some (Inl (Minor H5E_BADVALUE))
          else if DATASPACE_MAX_RANK \<le> i then None
          else andthen (read_chunk_dims (i + 1) vs) (\<lambda>dims. Some (Inr (of_int val # dims))))"

definition read_chunked :: "'d h5_properties \<Rightarrow> yajl \<Rightarrow> json \<Rightarrow> 'd prop_step" where
  "read_chunked h y v =
     get_or (Minor H5E_CANTGET) (array_of (tree_get y v [''dims''] yajl_t_array)) (\<lambda>dims r.
       case read_chunk_dims 0 dims of
         None \<Rightarrow> None
       | Some (Inl e) \<Rightarrow> fail e r
       | Some (Inr chunk_dims) \<Rightarrow> set_prop h (Set_Chunk chunk_dims) r)"

definition read_layout :: "'d h5_properties \<Rightarrow> yajl \<Rightarrow> json \<Rightarrow> 'd prop_step" where
  "read_layout h y obj =
     when_key y obj ''layout'' yajl_t_object (\<lambda>v.
     get_string y v ''class'' (\<lambda>layout_class.
       if layout_class = ''H5D_CHUNKED'' then read_chunked h y v
       else if layout_class = ''H5D_CONTIGUOUS''
       then (if tree_get y v [''externalStorage''] yajl_t_array \<noteq> None then fail (Minor H5E_UNSUPPORTED)
             else set_prop h Set_Contiguous)
       else if layout_class = ''H5D_COMPACT'' then set_prop h Set_Compact
       else proceed))"

definition read_track_times :: "'d h5_properties \<Rightarrow> yajl \<Rightarrow> json \<Rightarrow> 'd prop_step" where
  "read_track_times h y obj =
     when_key y obj ''trackTimes'' yajl_t_string (\<lambda>v.
     get_or (Minor H5E_BADVALUE) (YAJL_GET_STRING v) (\<lambda>s. set_prop h (Set_Track_Times (s = ''true''))))"

section \<open>The callback\<close>

definition read_sections ::
  "'d h5_properties \<Rightarrow> yajl \<Rightarrow> h5_types \<Rightarrow> (u64 \<Rightarrow> bool) \<Rightarrow> string \<Rightarrow> json \<Rightarrow> 'd prop_step" where
  "read_sections h y lib ok HTTP_response obj r =
     andthen (read_alloc_time h y obj r) (\<lambda>r.
     andthen (read_order h y obj r) (\<lambda>r.
     andthen (read_phase h y obj r) (\<lambda>r.
     andthen (read_fill_time h y obj r) (\<lambda>r.
     andthen (read_fill_value h y lib ok HTTP_response obj r) (\<lambda>r.
     andthen (read_filters h y obj r) (\<lambda>r.
     andthen (read_layout h y obj r) (\<lambda>r.
       read_track_times h y obj r)))))))"

text \<open>
  \<open>done\<close>: the value returned, with what remains in the caller's list; an error takes precedence over
  \<open>ret_value\<close>.
\<close>

definition properties_done ::
  "'d h5_properties \<Rightarrow> (type_failure \<times> 'd reading + 'd reading) option \<Rightarrow> (bool \<times> 'd) option" where
  "properties_done h res =
     map_option (\<lambda>x.
       let r = (case x of Inl (e, r) \<Rightarrow> r\<lparr>succeeded := False\<rparr> | Inr r \<Rightarrow> r)
       in (succeeded r \<and> (case fill_type r of None \<Rightarrow> True | Some t \<Rightarrow> close_type h t), DCPL r)) res"

text \<open>A null response or a null pointer is refused; else the value returned and the list.\<close>

definition RV_parse_dataset_creation_properties_callback ::
  "'d h5_properties \<Rightarrow> yajl \<Rightarrow> h5_types \<Rightarrow> (u64 \<Rightarrow> bool) \<Rightarrow> string option \<Rightarrow> 'd option \<Rightarrow> (bool \<times> 'd option) option" where
  "RV_parse_dataset_creation_properties_callback h y lib ok HTTP_response d =
     (case (HTTP_response, d) of
        (Some text, Some d) \<Rightarrow>
          map_option (\<lambda>(ret, d). (ret, Some d))
            (properties_done h
              (let r = \<lparr>succeeded = True, fill_type = None, DCPL = d\<rparr>
               in get_or (Minor H5E_PARSEERROR) (tree_parse y text) (\<lambda>parse_tree.
                  get_or (Minor H5E_CANTGET) (tree_get y parse_tree [''creationProperties''] yajl_t_object)
                    (read_sections h y lib ok text)) r))
      | _ \<Rightarrow> Some (False, d))"

end
