(* ===== verification/Creation_Roundtrip.thy ===== *)
theory Creation_Roundtrip
  imports Creation_Text Creation_Parse Datatype_Roundtrip
begin

text \<open>
  Printing creation properties and reading them back out of a response: what is set on the property list of the
  reader is the list of settings that describes the printed one.  The parser and HDF5 are arguments; \<open>gets\<close> is
  what is asked of \<open>yajl_tree_get\<close>.
\<close>

section \<open>Settings\<close>

text \<open>The bytes of a fill value after the round trip: the last of a group of two is read as zero.\<close>

definition restored :: "u8 list \<Rightarrow> string" where
  "restored bs = map (\<lambda>x. char_of (unat x)) (if length bs mod 3 = 2 then butlast bs @ [0] else bs)"

text \<open>The scale-offset filter of integers is printed with a name that is not read, and is not set.\<close>

definition lost :: "h5z_filter \<Rightarrow> bool" where
  "lost f \<longleftrightarrow> filter_id f = 6 \<and> cd_values f ! 0 = 2"

fun filter_settings :: "h5z_filter \<Rightarrow> setting list" where
  "filter_settings f =
     (if filter_id f = 1 then [Set_Deflate (cd_values f ! 0)]
      else if filter_id f = 2 then [Set_Shuffle]
      else if filter_id f = 3 then [Set_Fletcher32]
      else if filter_id f = 4 then [Set_Szip (cd_values f ! 0) (cd_values f ! 1)]
      else if filter_id f = 5 then [Set_Nbit]
      else if filter_id f = 6
      then (if cd_values f ! 0 = 2 then [] else [Set_Scaleoffset (cd_values f ! 0) (cd_values f ! 1)])
      else [Set_Filter LZF_FILTER_ID True])"

fun layout_settings :: "layout \<Rightarrow> setting list" where
  "layout_settings H5D_COMPACT = [Set_Compact]"
| "layout_settings (H5D_CONTIGUOUS _) = [Set_Contiguous]"
| "layout_settings (H5D_CHUNKED dims) = [Set_Chunk dims]"
| "layout_settings _ = []"

text \<open>The settings that make a property list equal to \<open>d\<close>, for a dataset of type \<open>t\<close>.\<close>

definition dcpl_settings :: "h5t \<Rightarrow> dcpl \<Rightarrow> setting list" where
  "dcpl_settings t d =
     [Set_Alloc_Time (dcpl_alloc_time d)] @
     (if crt_order_flags d = 0 then []
      else [Set_Creation_Order (if crt_order_flags d = H5P_CRT_ORDER_INDEXED OR H5P_CRT_ORDER_TRACKED
              then H5P_CRT_ORDER_INDEXED OR H5P_CRT_ORDER_TRACKED else H5P_CRT_ORDER_TRACKED)]) @
     (if max_compact d = DATASET_CREATE_MAX_COMPACT_ATTRIBUTES_DEFAULT \<and>
         min_dense d = DATASET_CREATE_MIN_DENSE_ATTRIBUTES_DEFAULT then []
      else [Set_Phase_Change (max_compact d) (min_dense d)]) @
     (if dcpl_fill_time d = H5D_FILL_TIME_IFSET then [] else [Set_Fill_Time (dcpl_fill_time d)]) @
     (case dcpl_fill_value d of H5D_FILL_VALUE_USER_DEFINED bs \<Rightarrow> [Set_Fill_Value t (restored bs)] | _ \<Rightarrow> []) @
     concat (map filter_settings (filters d)) @ layout_settings (dcpl_layout d) @
     [Set_Track_Times (track_times d)]"

fun apply_all :: "'d h5_properties \<Rightarrow> setting list \<Rightarrow> 'd \<Rightarrow> 'd option" where
  "apply_all h [] d = Some d"
| "apply_all h (s # ss) d = Option.bind (set_property h s d) (apply_all h ss)"

lemma apply_all_append: "apply_all h (ss @ ss') d = Option.bind (apply_all h ss d) (apply_all h ss')"
  by (induction ss arbitrary: d) (auto split: bind_split)

section \<open>JSON\<close>

definition u32_number :: "u32 \<Rightarrow> json" where
  "u32_number x = number (uint x)"

definition filter_json :: "h5z_filter \<Rightarrow> json" where
  "filter_json f =
     (let u = (\<lambda>k. u32_number (cd_values f ! k));
          entry = (\<lambda>c rest. YObject ([(''class'', YString c), (''id'', number (filter_id f))] @ rest))
      in if filter_id f = 1 then entry ''H5Z_FILTER_DEFLATE'' [(''level'', u 0)]
         else if filter_id f = 2 then entry ''H5Z_FILTER_SHUFFLE'' []
         else if filter_id f = 3 then entry ''H5Z_FILTER_FLETCHER32'' []
         else if filter_id f = 4
         then entry ''H5Z_FILTER_SZIP''
                [(''bitsPerPixel'', u 2), (''coding'', YString (the (szip_option_mask (cd_values f ! 0)))),
                 (''pixelsPerBlock'', u 1), (''pixelsPerScanline'', u 3)]
         else if filter_id f = 5 then entry ''H5Z_FILTER_NBIT'' []
         else if filter_id f = 6
         then entry ''H5Z_FILTER_SCALEOFFSET''
                [(''scaleType'', YString (the (scaleType (cd_values f ! 0)))), (''scaleOffset'', u 1)]
         else entry ''H5Z_FILTER_LZF'' [])"

fun layout_json :: "layout \<Rightarrow> json" where
  "layout_json H5D_COMPACT = YObject [(''class'', YString ''H5D_COMPACT'')]"
| "layout_json (H5D_CONTIGUOUS _) = YObject [(''class'', YString ''H5D_CONTIGUOUS'')]"
| "layout_json (H5D_CHUNKED dims) =
     YObject [(''class'', YString ''H5D_CHUNKED''), (''dims'', YArray (map (\<lambda>d. number (uint d)) dims))]"
| "layout_json _ = YNull"

definition alloc_time_name :: "alloc_time \<Rightarrow> string" where
  "alloc_time_name a =
     (case a of
        H5D_ALLOC_TIME_EARLY \<Rightarrow> ''H5D_ALLOC_TIME_EARLY''
      | H5D_ALLOC_TIME_LATE \<Rightarrow> ''H5D_ALLOC_TIME_LATE''
      | H5D_ALLOC_TIME_INCR \<Rightarrow> ''H5D_ALLOC_TIME_INCR''
      | _ \<Rightarrow> ''H5D_ALLOC_TIME_DEFAULT'')"

text \<open>The value that the text denotes.\<close>

definition dcpl_json :: "dcpl \<Rightarrow> (string \<times> json) list" where
  "dcpl_json d =
     [(''allocTime'', YString (alloc_time_name (dcpl_alloc_time d)))] @
     (if crt_order_flags d = 0 then []
      else [(''attributeCreationOrder'', YString
             (if crt_order_flags d = H5P_CRT_ORDER_INDEXED OR H5P_CRT_ORDER_TRACKED then ''H5P_CRT_ORDER_INDEXED''
              else ''H5P_CRT_ORDER_TRACKED''))]) @
     (if max_compact d = DATASET_CREATE_MAX_COMPACT_ATTRIBUTES_DEFAULT \<and>
         min_dense d = DATASET_CREATE_MIN_DENSE_ATTRIBUTES_DEFAULT then []
      else [(''attributePhaseChange'',
             YObject [(''maxCompact'', u32_number (max_compact d)), (''minDense'', u32_number (min_dense d))])]) @
     (if dcpl_fill_time d = H5D_FILL_TIME_IFSET then []
      else [(''fillTime'', YString (if dcpl_fill_time d = H5D_FILL_TIME_ALLOC then ''H5D_FILL_TIME_ALLOC''
                                    else ''H5D_FILL_TIME_NEVER''))]) @
     (case dcpl_fill_value d of
        H5D_FILL_VALUE_USER_DEFINED bs \<Rightarrow>
          [(''fillValue'', YString (base64 bs)), (''fillValue_encoding'', YString ''base64'')]
      | H5D_FILL_VALUE_UNDEFINED \<Rightarrow> [(''fillValue'', YNull)]
      | _ \<Rightarrow> []) @
     (if filters d = [] then [] else [(''filters'', YArray (map filter_json (filters d)))]) @
     [(''layout'', layout_json (dcpl_layout d)),
      (''trackTimes'', YString (if track_times d then ''true'' else ''false''))]"

declare filter_settings.simps [simp del]

text \<open>\<open>yajl_tree_get\<close> with one key.\<close>

definition gets :: "yajl \<Rightarrow> bool" where
  "gets y \<longleftrightarrow>
     (\<forall>kvs key ty. tree_get y (YObject kvs) [key] ty =
        (case map_of kvs key of None \<Rightarrow> None | Some v \<Rightarrow> if is_a ty v then Some v else None))"

section \<open>What is read back\<close>

definition filter_readable :: "h5z_filter \<Rightarrow> bool" where
  "filter_readable f \<longleftrightarrow> plain_filter f \<and> filter_text f \<noteq> None"

definition fill_readable :: "h5t \<Rightarrow> fill_value \<Rightarrow> bool" where
  "fill_readable t fv \<longleftrightarrow>
     (case fv of
        H5D_FILL_VALUE_DEFAULT \<Rightarrow> True
      | H5D_FILL_VALUE_USER_DEFINED bs \<Rightarrow>
          bs \<noteq> [] \<and> Base64.plain (base64 bs) \<and> length bs = unat (H5Tget_size t) \<and> length bs < 33554432
      | _ \<Rightarrow> False)"

definition dcpl_readable :: "h5t \<Rightarrow> dcpl \<Rightarrow> bool" where
  "dcpl_readable t d \<longleftrightarrow>
     dcpl_alloc_time d \<noteq> H5D_ALLOC_TIME_ERROR \<and> fill_readable t (dcpl_fill_value d) \<and>
     list_all filter_readable (filters d) \<and> layout_printable (dcpl_layout d)"

section \<open>Steps\<close>

text \<open>
  A step that applies the settings; it keeps \<open>ret_value\<close> when \<open>b\<close>, else it becomes \<open>FAIL\<close>.
\<close>

definition reads :: "'d h5_properties \<Rightarrow> h5t \<Rightarrow> 'd prop_step \<Rightarrow> bool \<Rightarrow> setting list \<Rightarrow> bool" where
  "reads h t f b ss \<longleftrightarrow>
     (\<forall>r d'. apply_all h ss (DCPL r) = Some d' \<longrightarrow>
        (\<exists>r'. f r = Some (Inr r') \<and> DCPL r' = d' \<and> succeeded r' = (succeeded r \<and> b) \<and>
           (fill_type r' = fill_type r \<or> fill_type r' = Some t)))"

lemma reads_proceed [simp]: "reads h t proceed True []"
  by (simp add: reads_def proceed_def)

lemma reads_warn: "reads h t (warn False) False []"
  by (simp add: reads_def proceed_def warn_def)

lemma reads_set: "reads h t (set_prop h s) True [s]"
  by (auto simp: reads_def set_prop_def proceed_def split: bind_splits)

lemma reads_then:
  fixes h :: "'d h5_properties"
  assumes "reads h t f b ss" and "reads h t g b' ss'"
  shows "reads h t (\<lambda>r. andthen (f r) g) (b \<and> b') (ss @ ss')"
  unfolding reads_def
proof (intro allI impI)
  fix r :: "'d reading" and d' assume "apply_all h (ss @ ss') (DCPL r) = Some d'"
  then obtain d where d: "apply_all h ss (DCPL r) = Some d" "apply_all h ss' d = Some d'"
    by (auto simp: apply_all_append split: bind_splits)
  obtain r1 where 1: "f r = Some (Inr r1)" "DCPL r1 = d" "succeeded r1 = (succeeded r \<and> b)"
    "fill_type r1 = fill_type r \<or> fill_type r1 = Some t"
    using assms(1) d(1) unfolding reads_def by blast
  obtain r2 where "g r1 = Some (Inr r2)" "DCPL r2 = d'" "succeeded r2 = (succeeded r1 \<and> b')"
    "fill_type r2 = fill_type r1 \<or> fill_type r2 = Some t"
    using assms(2) d(2) 1(2) unfolding reads_def by blast
  with 1 show "\<exists>r'. andthen (f r) g = Some (Inr r') \<and> DCPL r' = d' \<and> succeeded r' = (succeeded r \<and> b \<and> b') \<and>
      (fill_type r' = fill_type r \<or> fill_type r' = Some t)" by auto
qed

lemma reads_each:
  "(\<And>x. x \<in> set xs \<Longrightarrow> reads h t (f x) (b x) (ss x)) \<Longrightarrow>
    reads h t (each f xs) (list_all b xs) (concat (map ss xs))"
proof (induction xs)
  case (Cons x xs)
  have "reads h t (\<lambda>r. andthen (f x r) (each f xs)) (b x \<and> list_all b xs) (ss x @ concat (map ss xs))"
    by (rule reads_then) (use Cons in auto)
  then show ?case by (simp add: reads_def)
qed (simp add: reads_def)

lemma get_or_Some [simp]: "get_or e (Some v) f = f v"
  by (simp add: get_or_def)

lemma when_key_at:
  assumes "gets y" and "map_of kvs key = v"
  shows "when_key y (YObject kvs) key ty f = (case v of None \<Rightarrow> proceed | Some v \<Rightarrow> if is_a ty v then f v else proceed)"
  using assms by (auto simp: when_key_def gets_def split: option.split)

lemma get_string_at:
  "gets y \<Longrightarrow> map_of kvs key = Some (YString s) \<Longrightarrow> get_string y (YObject kvs) key f = f s"
  by (simp add: get_string_def gets_def)

lemma get_integer_at:
  "gets y \<Longrightarrow> map_of kvs key = Some (number i) \<Longrightarrow> get_integer y (YObject kvs) key f = f i"
  by (simp add: get_integer_def gets_def number_def)

lemma u32_back: "of_int (uint x) = (x :: u32)" "0 \<le> uint (x :: u32)"
  by simp_all

lemma and_then_checked [simp]: "and_then (check_class c c) f = f"
  by (rule ext) (simp add: and_then_def check_class_def proceed_def)

lemmas read_branches = read_deflate_def read_shuffle_def read_fletcher32_def read_szip_def read_nbit_def
  read_scaleoffset_def read_lzf_def

lemma read_filter_at:
  assumes "gets y" and "filter_readable f"
  shows "reads h t (read_filter h y (filter_json f)) (\<not> lost f) (filter_settings f)"
proof -
  note a = get_string_at [OF assms(1)] get_integer_at [OF assms(1)]
  note d = read_filter_def filter_json_def u32_number_def filter_settings.simps lost_def
  have known: "szip_option_mask m = Some s \<Longrightarrow> s = ''H5_SZIP_EC_OPTION_MASK'' \<and> m = H5_SZIP_EC_OPTION_MASK \<or>
      s = ''H5_SZIP_NN_OPTION_MASK'' \<and> m = H5_SZIP_NN_OPTION_MASK" for m s
    by (auto simp: szip_option_mask_def split: if_splits)
  have scale: "scale_type_of (the (scaleType m)) = Some m" if "scaleType m \<noteq> None" "m \<noteq> 2" for m
    using that by (auto simp: scaleType_def scale_type_of_def split: if_splits)
  consider "filter_id f = 1" | "filter_id f = 2" | "filter_id f = 3"
    | m where "filter_id f = 4" "szip_option_mask (cd_values f ! 0) = Some m" | "filter_id f = 5"
    | "filter_id f = 6" "scaleType (cd_values f ! 0) \<noteq> None" "cd_values f ! 0 \<noteq> 2"
    | "filter_id f = 6" "cd_values f ! 0 = 2" | "filter_id f = LZF_FILTER_ID"
    using assms(2) by (auto simp: filter_readable_def filter_text_def split: if_splits)
  then show ?thesis
  proof cases
    case 4
    then show ?thesis using known [OF 4(2)] by (auto simp: d a read_branches reads_set)
  next
    case 7
    have "scale_type_of (the (scaleType 2)) = None" by (simp add: scaleType_def scale_type_of_def)
    with 7 show ?thesis by (simp add: d a read_branches reads_warn)
  qed (simp_all add: d a read_branches scale reads_set LZF_FILTER_ID_def)
qed


lemma each_map: "each f (map g xs) = each (\<lambda>x. f (g x)) xs"
  by (induction xs) (auto intro!: ext)

lemma read_filters_at:
  assumes "gets y" and "list_all filter_readable fs"
    and "map_of kvs ''filters'' = (if fs = [] then None else Some (YArray (map filter_json fs)))"
  shows "reads h t (read_filters h y (YObject kvs)) (list_all (\<lambda>f. \<not> lost f) fs) (concat (map filter_settings fs))"
proof (cases "fs = []")
  case False
  have "reads h t (each (read_filter h y) (map filter_json fs)) (list_all (\<lambda>f. \<not> lost f) fs) (concat (map filter_settings fs))"
    unfolding each_map using assms(2) by (intro reads_each read_filter_at [OF assms(1)]) (simp add: list_all_iff)
  moreover have "read_filters h y (YObject kvs) = each (read_filter h y) (map filter_json fs)"
    using False assms(3) by (simp add: read_filters_def when_key_at [OF assms(1) assms(3)])
  ultimately show ?thesis by simp
qed (simp add: read_filters_def when_key_at [OF assms(1) assms(3)])

lemma chunk_dims_back:
  "i + length dims \<le> DATASPACE_MAX_RANK \<Longrightarrow> read_chunk_dims i (map (\<lambda>d. number (uint d)) dims) = Some (Inr dims)"
  by (induction dims arbitrary: i) (simp_all add: number_def)

lemma read_layout_at:
  assumes "gets y" and "layout_printable l" and "map_of kvs ''layout'' = Some (layout_json l)"
  shows "reads h t (read_layout h y (YObject kvs)) True (layout_settings l)"
proof -
  note a = when_key_at [OF assms(1,3)] get_string_at [OF assms(1)]
  have g: "tree_get y (YObject kvs') [key] ty =
      (case map_of kvs' key of None \<Rightarrow> None | Some v \<Rightarrow> if is_a ty v then Some v else None)" for kvs' key ty
    using assms(1) by (simp add: gets_def)
  have "read_chunked h y (layout_json (H5D_CHUNKED dims)) = set_prop h (Set_Chunk dims)" if "length dims \<le> 32" for dims
    using that by (intro ext) (simp add: read_chunked_def g get_or_def chunk_dims_back DATASPACE_MAX_RANK_def)
  then show ?thesis using assms(2) by (cases l) (simp_all add: read_layout_def a g reads_set)
qed

text \<open>Decoding with the NUL behind the string.\<close>

lemma decode_more:
  assumes "length buf mod 4 = 0"
  shows "i mod 4 = 0 \<Longrightarrow> decode_loop ok (buf @ z) (length buf) i b = decode_loop ok buf (length buf) i b"
proof (induction "length buf - i" arbitrary: i b rule: less_induct)
  case less
  show ?case
  proof (cases "i < length buf")
    case True
    then have l: "i + 3 < length buf" using less.prems assms by presburger
    have g: "decode_group ok (buf @ z) (length buf) i c = decode_group ok buf (length buf) i c" for c
    proof -
      have e: "(buf @ z) ! i = buf ! i" "(buf @ z) ! (i + 1) = buf ! (i + 1)" "(buf @ z) ! (i + 2) = buf ! (i + 2)"
        "(buf @ z) ! (i + 3) = buf ! (i + 3)" "(length (buf @ z) \<le> i + 3) = False" "(length buf \<le> i + 3) = False"
        "(i + 1 < length buf) = True" "(i + 2 < length buf) = True" "(i + 3 < length buf) = True"
        using l by (simp_all add: nth_append)
      show ?thesis by (simp only: decode_group_def byte_or_zero_def e)
    qed
    have "decode_loop ok (buf @ z) (length buf) (i + 4) = decode_loop ok buf (length buf) (i + 4)"
      using True less.prems by (intro ext less.hyps) simp_all
    then show ?thesis using True by (subst (1 2) decode_loop.simps) (simp add: g)
  qed (subst (1 2) decode_loop.simps, simp)
qed

lemma decode_restored:
  assumes "Base64.plain (base64 bs)" and "length bs < 33554432" and "bs \<noteq> []"
  shows "\<exists>s n. RV_base64_decode (\<lambda>_. True) (Some (map byte_of (base64 bs) @ [0])) (length (base64 bs)) True (Some 0) =
      Some (Inr (s, n)) \<and> length bs \<le> length s \<and> take (length bs) s = restored bs"
proof -
  let ?buf = "map byte_of (base64 bs)"
  have nul: "char_of (0 :: nat) = CHR 0x00" by code_simp
  have l: "length (decoded bs) \<le> length bs" by (simp add: decoded_eq)
  have "unat base64_default_size = 33554432" by (simp add: base64_default_size_def)
  then have n: "length [] + length (decoded bs) < unat base64_default_size" using l assms(2) by simp
  have "length (base64 bs) mod 4 = 0" by (simp add: length_base64_eq)
  then have "decode_loop (\<lambda>_. True) (?buf @ [0]) (length ?buf) 0 ([], base64_default_size) = Some (Inr (decoded bs, base64_default_size))"
    using decode_more [of ?buf 0] decode_loop_ok [OF _ assms(1) n, of 0 ?buf] by simp
  then have "RV_base64_decode (\<lambda>_. True) (Some (?buf @ [0])) (length (base64 bs)) True (Some 0) =
      Some (Inr (decoded bs @ [CHR 0x00], base64_default_size))"
    using n by (simp add: RV_base64_decode_def initial_buffer_def)
  moreover have "length bs \<le> length (decoded bs @ [CHR 0x00])" "take (length bs) (decoded bs @ [CHR 0x00]) = restored bs"
    using assms(3) nul by (auto simp: decoded_eq restored_def)
  ultimately show ?thesis by blast
qed

lemma read_fill_value_at:
  assumes "gets y" and "fill_readable t fv" and "RV_parse_datatype y lib (\<lambda>_. True) (Some text) True = Some (Inr t)"
    and "map_of kvs ''fillValue'' = (case fv of H5D_FILL_VALUE_USER_DEFINED bs \<Rightarrow> Some (YString (base64 bs)) | _ \<Rightarrow> None)"
  shows "reads h t (read_fill_value h y lib (\<lambda>_. True) text (YObject kvs)) True
    (case fv of H5D_FILL_VALUE_USER_DEFINED bs \<Rightarrow> [Set_Fill_Value t (restored bs)] | _ \<Rightarrow> [])"
proof (cases fv)
  case (H5D_FILL_VALUE_USER_DEFINED bs)
  then have f: "bs \<noteq> []" "Base64.plain (base64 bs)" "length bs = unat (H5Tget_size t)" "length bs < 33554432"
    using assms(2) by (simp_all add: fill_readable_def)
  obtain s n where "RV_base64_decode (\<lambda>_. True) (Some (map byte_of (base64 bs) @ [0])) (length (base64 bs)) True (Some 0) =
      Some (Inr (s, n))" "length bs \<le> length s" "take (length bs) s = restored bs"
    using decode_restored [OF f(2,4,1)] by blast
  then show ?thesis
    using assms(3,4) f(3)
    by (auto simp: read_fill_value_def when_key_at [OF assms(1,4)] H5D_FILL_VALUE_USER_DEFINED reads_def set_prop_def proceed_def
        split: bind_splits)
qed (use assms(2) in \<open>simp_all add: fill_readable_def read_fill_value_def when_key_at [OF assms(1,4)]\<close>)

lemma alloc_time_back: "a \<noteq> H5D_ALLOC_TIME_ERROR \<Longrightarrow> alloc_time_of (alloc_time_name a) = a"
  by (cases a) (simp_all add: alloc_time_of_def alloc_time_name_def)

text \<open>The values at the keys.\<close>

lemma dcpl_json_keys:
  "map_of (dcpl_json d) ''allocTime'' = Some (YString (alloc_time_name (dcpl_alloc_time d)))"
  "map_of (dcpl_json d) ''attributeCreationOrder'' =
     (if crt_order_flags d = 0 then None
      else Some (YString (if crt_order_flags d = H5P_CRT_ORDER_INDEXED OR H5P_CRT_ORDER_TRACKED
        then ''H5P_CRT_ORDER_INDEXED'' else ''H5P_CRT_ORDER_TRACKED'')))"
  "map_of (dcpl_json d) ''attributePhaseChange'' =
     (if max_compact d = DATASET_CREATE_MAX_COMPACT_ATTRIBUTES_DEFAULT \<and>
         min_dense d = DATASET_CREATE_MIN_DENSE_ATTRIBUTES_DEFAULT then None
      else Some (YObject [(''maxCompact'', u32_number (max_compact d)), (''minDense'', u32_number (min_dense d))]))"
  "map_of (dcpl_json d) ''fillTime'' =
     (if dcpl_fill_time d = H5D_FILL_TIME_IFSET then None
      else Some (YString (if dcpl_fill_time d = H5D_FILL_TIME_ALLOC then ''H5D_FILL_TIME_ALLOC'' else ''H5D_FILL_TIME_NEVER'')))"
  "map_of (dcpl_json d) ''fillValue'' =
     (case dcpl_fill_value d of H5D_FILL_VALUE_USER_DEFINED bs \<Rightarrow> Some (YString (base64 bs))
      | H5D_FILL_VALUE_UNDEFINED \<Rightarrow> Some YNull | _ \<Rightarrow> None)"
  "map_of (dcpl_json d) ''filters'' = (if filters d = [] then None else Some (YArray (map filter_json (filters d))))"
  "map_of (dcpl_json d) ''layout'' = Some (layout_json (dcpl_layout d))"
  "map_of (dcpl_json d) ''trackTimes'' = Some (YString (if track_times d then ''true'' else ''false''))"
  by (simp_all add: dcpl_json_def map_add_def split: fill_value.split if_split del: split_paired_All)

lemma read_sections_at:
  assumes y: "gets y" and d: "dcpl_readable t d"
    and p: "RV_parse_datatype y lib (\<lambda>_. True) (Some text) True = Some (Inr t)"
  shows "reads h t (read_sections h y lib (\<lambda>_. True) text (YObject (dcpl_json d))) (list_all (\<lambda>f. \<not> lost f) (filters d)) (dcpl_settings t d)"
proof -
  let ?kvs = "dcpl_json d"
  note d = d [unfolded dcpl_readable_def]
  note at = when_key_at [OF y] and k = dcpl_json_keys
  have 1: "reads h t (read_alloc_time h y (YObject ?kvs)) True [Set_Alloc_Time (dcpl_alloc_time d)]"
    using d by (simp add: read_alloc_time_def at k alloc_time_back reads_set)
  have 2: "reads h t (read_order h y (YObject ?kvs)) True (if crt_order_flags d = 0 then []
      else [Set_Creation_Order (if crt_order_flags d = H5P_CRT_ORDER_INDEXED OR H5P_CRT_ORDER_TRACKED
              then H5P_CRT_ORDER_INDEXED OR H5P_CRT_ORDER_TRACKED else H5P_CRT_ORDER_TRACKED)])"
    by (simp add: read_order_def at k reads_set)
  have 3: "reads h t (read_phase h y (YObject ?kvs)) True (if max_compact d = DATASET_CREATE_MAX_COMPACT_ATTRIBUTES_DEFAULT \<and>
         min_dense d = DATASET_CREATE_MIN_DENSE_ATTRIBUTES_DEFAULT then []
      else [Set_Phase_Change (max_compact d) (min_dense d)])"
    by (simp add: read_phase_def at k reads_set get_integer_at [OF y] u32_number_def unsigned_or_def Let_def)
  have 4: "reads h t (read_fill_time h y (YObject ?kvs)) True (if dcpl_fill_time d = H5D_FILL_TIME_IFSET then [] else [Set_Fill_Time (dcpl_fill_time d)])"
    by (cases "dcpl_fill_time d") (simp_all add: read_fill_time_def at k reads_set)
  have 5: "reads h t (read_fill_value h y lib (\<lambda>_. True) text (YObject ?kvs)) True
      (case dcpl_fill_value d of H5D_FILL_VALUE_USER_DEFINED bs \<Rightarrow> [Set_Fill_Value t (restored bs)] | _ \<Rightarrow> [])"
    by (rule read_fill_value_at [OF y _ p]) (use d in \<open>auto simp: k fill_readable_def split: fill_value.splits\<close>)
  have 6: "reads h t (read_filters h y (YObject ?kvs)) (list_all (\<lambda>f. \<not> lost f) (filters d)) (concat (map filter_settings (filters d)))"
    by (rule read_filters_at [OF y]) (use d in \<open>simp_all add: k\<close>)
  have 7: "reads h t (read_layout h y (YObject ?kvs)) True (layout_settings (dcpl_layout d))"
    by (rule read_layout_at [OF y]) (use d in \<open>simp_all add: k\<close>)
  have 8: "reads h t (read_track_times h y (YObject ?kvs)) True [Set_Track_Times (track_times d)]"
    by (simp add: read_track_times_def at k reads_set)
  show ?thesis
    using reads_then [OF 1 reads_then [OF 2 reads_then [OF 3 reads_then [OF 4 reads_then [OF 5 reads_then [OF 6 reads_then [OF 7 8]]]]]]]
    by (simp add: read_sections_def [abs_def] dcpl_settings_def)
qed


section \<open>The round trip\<close>

lemma readable_dcpl_printable:
  assumes "dcpl_readable t d" and "SERVER_VERSION_MATCHES_OR_EXCEEDS version 0 8 1"
  shows "dcpl_printable version d"
  using assms
  by (auto simp: dcpl_readable_def dcpl_printable_def fill_readable_def fill_printable_def filter_readable_def list_all_iff
      split: fill_value.splits)

text \<open>A response with the datatype and the creation properties of a dataset.\<close>

definition dataset_response :: "h5t \<Rightarrow> string \<Rightarrow> string" where
  "dataset_response t properties = ''{'' @ leading_string @ type_text t @ '', '' @ properties @ ''}''"

lemma response_type:
  assumes "looks_up y" and "list_all (parses y) (parts t)" and "readable lib t" and "buildable lib t"
    and "length (type_text t) \<le> 2 ^ 28"
  shows "RV_parse_datatype y lib (\<lambda>_. True) (Some (dataset_response t p)) True = Some (Inr t)"
proof -
  let ?r = "'', '' @ p @ ''}''"
  have o: "object_text (type_text t)" by (rule type_text_object(1) [OF assms(3)])
  have "strstr (dataset_response t p) (quoted ''type'') = strstr (leading_string @ type_text t @ ?r) (quoted ''type'')"
    by (simp add: dataset_response_def quoted_def)
  then have s: "type_section (dataset_response t p) = Some (leading_string @ type_text t, ?r)"
    using type_section_at(1) [OF o, of ?r] type_section_at(2) [OF o, of "dataset_response t p" ?r] by simp
  have "RV_convert_JSON_to_datatype y lib (\<lambda>_. True) (with_key '' '' t) = Some (Inr t)"
    by (rule read_back(1) [OF assms(1) refl assms(3,2,4,5)]) simp
  then show ?thesis by (simp add: RV_parse_datatype_def s wrapped)
qed

lemma properties_read:
  assumes "gets y" and "dcpl_readable t d" and "RV_parse_datatype y lib (\<lambda>_. True) (Some text) True = Some (Inr t)"
    and "tree_parse y text = Some (YObject kvs)" and "map_of kvs ''creationProperties'' = Some (YObject (dcpl_json d))"
    and "apply_all h (dcpl_settings t d) d0 = Some d1" and "close_type h t"
  shows "RV_parse_dataset_creation_properties_callback h y lib (\<lambda>_. True) (Some text) (Some d0) = Some (list_all (\<lambda>f. \<not> lost f) (filters d), Some d1)"
proof -
  let ?r = "\<lparr>succeeded = True, fill_type = None, DCPL = d0\<rparr>"
  from read_sections_at [OF assms(1-3), of h, unfolded reads_def, rule_format, of ?r d1] assms(6)
  obtain r where "read_sections h y lib (\<lambda>_. True) text (YObject (dcpl_json d)) ?r = Some (Inr r)" "DCPL r = d1"
    "succeeded r = list_all (\<lambda>f. \<not> lost f) (filters d)" "fill_type r = None \<or> fill_type r = Some t"
    by auto
  moreover have "tree_get y (YObject kvs) [''creationProperties''] yajl_t_object = Some (YObject (dcpl_json d))"
    using assms(1,5) by (simp add: gets_def)
  ultimately show ?thesis
    using assms(4,7)
    by (auto simp: RV_parse_dataset_creation_properties_callback_def properties_done_def)
qed



text \<open>A list of settings, and a dataset whose properties have a fill value and every kind of filter value.\<close>

definition setting_list :: "setting list h5_properties" where
  "setting_list = \<lparr>set_property = \<lambda>s ss. Some (ss @ [s]), close_type = \<lambda>_. True\<rparr>"

definition dataset_type :: h5t where
  "dataset_type = H5T_INTEGER 4 H5T_ORDER_LE H5T_SGN_2"

definition scaled_dcpl :: dcpl where
  "scaled_dcpl = \<lparr>dcpl_alloc_time = H5D_ALLOC_TIME_INCR, crt_order_flags = 1, max_compact = 8, min_dense = 6,
     dcpl_fill_time = H5D_FILL_TIME_IFSET, dcpl_fill_value = H5D_FILL_VALUE_USER_DEFINED [77, 97, 110, 33],
     filters = [\<lparr>filter_id = 6, flags = 0, cd_values = [2, 5, 0, 0]\<rparr>, \<lparr>filter_id = 1, flags = 1, cd_values = [6]\<rparr>],
     dcpl_layout = H5D_CHUNKED [10, 20], track_times = True\<rparr>"

fun path_get :: "json \<Rightarrow> string list \<Rightarrow> yajl_type \<Rightarrow> json option" where
  "path_get (YObject kvs) [key] ty = Option.bind (map_of kvs key) (\<lambda>v. if is_a ty v then Some v else None)"
| "path_get (YObject kvs) (key # keys) ty = Option.bind (map_of kvs key) (\<lambda>v. path_get v keys ty)"
| "path_get _ _ _ = None"

definition response_yajl :: yajl where
  "response_yajl =
     \<lparr>tree_parse = \<lambda>s.
        if s = dataset_response dataset_type (dcpl_text scaled_dcpl)
        then Some (YObject [(''type'', YObject (type_json dataset_type)), (''creationProperties'', YObject (dcpl_json scaled_dcpl))])
        else if s \<in> {with_key '''' dataset_type, with_key '' '' dataset_type}
        then Some (YObject [(''type'', YObject (type_json dataset_type))])
        else None,
      tree_get = path_get\<rparr>"


section \<open>What is not read\<close>

text \<open>An undefined fill value is printed as \<open>null\<close>, which the reader refuses.\<close>

lemma undefined_fill_value_not_read:
  assumes "gets y" and "dcpl_fill_value d = H5D_FILL_VALUE_UNDEFINED"
  shows "read_fill_value h y lib ok text (YObject (dcpl_json d)) r = Some (Inl (Minor H5E_PARSEERROR, r))"
  by (simp add: read_fill_value_def when_key_at [OF assms(1)] dcpl_json_keys assms(2) get_or_def fail_def)

text \<open>More chunk dimensions than an HDF5 dataspace can have are written behind the array.\<close>

lemma too_many_chunk_dims:
  assumes "list_all (\<lambda>v. \<exists>i\<ge>0. YAJL_GET_INTEGER v = Some i) vs" and "i \<le> DATASPACE_MAX_RANK"
    and "DATASPACE_MAX_RANK < i + length vs"
  shows "read_chunk_dims i vs = None"
  using assms by (induction vs arbitrary: i) auto

end
