(* ===== verification/Objects.thy ===== *)
theory Objects
  imports Links Base64
begin

unbundle bit_operations_syntax

text \<open>
  The objects behind the handles of HDF5 and their life: files, from \<open>rest_vol_file.c\<close>, groups, from
  \<open>rest_vol_group.c\<close>, and the search for an object by its path, \<open>RV_find_object_by_path\<close>, with its
  callback \<open>RV_copy_object_loc_info_callback\<close>, from \<open>rest_vol.c\<close>.  Every object refers to the file it is
  in, its domain, and the file counts these references.

  A function of the connector is a function on the state, with four outcomes: a value, an error, undefined
  behaviour (a use of a block that is not allocated, or of memory that was not written) and not enough fuel for
  the recursion of the search.  The state has the blocks of the objects, the table of registered objects, the last
  response, and the server.  Whether the calls of \<open>malloc\<close>, of HDF5's property lists and of the table
  succeed is given call by call, by an argument.
\<close>

section \<open>State\<close>

datatype object_failure =
    Simple failure | Reply http_error | H5E_CANTINIT | H5E_CANTSET | H5E_CANTCOPY | H5E_CANTENCODE | H5E_CANTDECODE
  | H5E_CANTOPENFILE | H5E_CANTCLOSEFILE | H5E_CLOSEERROR | H5E_NONE_MINOR | H5E_CANTREMOVE | H5E_CANTOPENOBJ | H5E_CANTCLOSEOBJ
  | H5E_PATH | H5E_CANTFLUSH

text \<open>Identifiers of property lists; \<open>Invalid\<close> is \<open>H5I_INVALID_HID\<close> and \<open>FAIL\<close>.\<close>

datatype hid = Invalid | Default | Hid nat

text \<open>The reference count is a number here; the code has 32 bits for it.\<close>

record RV_file_t =
  intent :: u32
  ref_count :: nat
  filepath_name :: "string option"
  fcpl_id :: hid
  fapl_id :: hid
  server_version :: server_api_version

record RV_group_t =
  gapl_id :: hid
  gcpl_id :: hid

datatype object_union = File RV_file_t | Group RV_group_t

text \<open>The domain is the address of an object; \<open>None\<close> before it is written.\<close>

record RV_object_t =
  domain :: "nat option"
  obj_type :: object_type
  URI :: "char option list"
  handle_path :: "string option"
  union :: object_union

datatype http_method = HTTP_GET | HTTP_PUT string | HTTP_POST string | HTTP_DELETE

record request =
  http_method :: http_method
  url :: string
  host :: string

record 's world =
  objects :: "nat \<Rightarrow> RV_object_t option"
  next_block :: nat
  next_list :: nat
  registered :: "nat set"
  calls :: nat
  response :: string
  server :: 's

text \<open>
  \<open>transfer\<close> is a transfer by cURL: the response code, or \<open>None\<close> when cURL fails, and the response.
  \<open>options_ok\<close> says whether cURL takes the options of a request.
\<close>

record 's env =
  succeeds :: "nat \<Rightarrow> bool"
  connected :: bool
  transfer :: "request \<Rightarrow> 's \<Rightarrow> int option \<times> string \<times> 's"
  options_ok :: "request \<Rightarrow> bool"
  parser :: yajl
  base_url :: string
  escape_url :: "string \<Rightarrow> string option"
  encode_list :: "hid \<Rightarrow> u8 list option"
  unpack_elink :: "char option list \<Rightarrow> (string \<times> string) option"
  create_intermediate :: "hid \<Rightarrow> bool option"

text \<open>
  Of HDF5 there are the bytes of a property list (\<open>H5Pencode2\<close>), the file and the path of the value of an
  external link (\<open>H5Lunpack_elink_val\<close>) and whether a link creation property list asks for intermediate groups;
  \<open>escape_url\<close> is \<open>curl_easy_escape\<close>.
\<close>

section \<open>Steps\<close>

datatype ('s, 'a) outcome = Val 'a "'s world" | Err object_failure "'s world" | Undef | No_Fuel

type_synonym ('s, 'a) op = "'s world \<Rightarrow> ('s, 'a) outcome"

definition give :: "'a \<Rightarrow> ('s, 'a) op" where
  "give a w = Val a w"

definition throw :: "object_failure \<Rightarrow> ('s, 'a) op" where
  "throw e w = Err e w"

definition chain :: "('s, 'a) op \<Rightarrow> ('a \<Rightarrow> ('s, 'b) op) \<Rightarrow> ('s, 'b) op" where
  "chain m f w = (case m w of Val a w \<Rightarrow> f a w | Err e w \<Rightarrow> Err e w | Undef \<Rightarrow> Undef | No_Fuel \<Rightarrow> No_Fuel)"

text \<open>What is done at \<open>done\<close> when the function fails, whose own failure changes nothing.\<close>

definition cleanup :: "('s, 'a) op \<Rightarrow> ('s, unit) op \<Rightarrow> ('s, 'a) op" where
  "cleanup m c w =
     (case m w of
        Err e w \<Rightarrow> (case c w of Val _ w \<Rightarrow> Err e w | Err _ w \<Rightarrow> Err e w | Undef \<Rightarrow> Undef | No_Fuel \<Rightarrow> No_Fuel)
      | r \<Rightarrow> r)"

text \<open>The result of a function as a value.\<close>

definition result :: "('s, 'a) op \<Rightarrow> ('s, object_failure + 'a) op" where
  "result m w =
     (case m w of Val a w \<Rightarrow> Val (Inr a) w | Err e w \<Rightarrow> Val (Inl e) w | Undef \<Rightarrow> Undef | No_Fuel \<Rightarrow> No_Fuel)"

definition check :: "object_failure \<Rightarrow> bool \<Rightarrow> ('s, unit) op" where
  "check e b = (if b then give () else throw e)"

definition require :: "object_failure \<Rightarrow> 'a option \<Rightarrow> ('s, 'a) op" where
  "require e x = (case x of None \<Rightarrow> throw e | Some a \<Rightarrow> give a)"

text \<open>What must be there, or else the behaviour is undefined.\<close>

definition defined :: "'a option \<Rightarrow> ('s, 'a) op" where
  "defined x w = (case x of None \<Rightarrow> Undef | Some a \<Rightarrow> Val a w)"

text \<open>A call that may fail.\<close>

definition attempt :: "'s env \<Rightarrow> object_failure \<Rightarrow> ('s, unit) op" where
  "attempt env e w =
     (let w' = w\<lparr>calls := calls w + 1\<rparr> in if succeeds env (calls w) then Val () w' else Err e w')"

definition new_list :: "'s env \<Rightarrow> object_failure \<Rightarrow> ('s, hid) op" where
  "new_list env e =
     chain (attempt env e) (\<lambda>_ w. Val (Hid (next_list w)) (w\<lparr>next_list := next_list w + 1\<rparr>))"

definition fetch :: "nat \<Rightarrow> ('s, RV_object_t) op" where
  "fetch a w = (case objects w a of None \<Rightarrow> Undef | Some ob \<Rightarrow> Val ob w)"

definition store :: "nat \<Rightarrow> RV_object_t \<Rightarrow> ('s, unit) op" where
  "store a ob w = (if objects w a = None then Undef else Val () (w\<lparr>objects := (objects w)(a \<mapsto> ob)\<rparr>))"

definition new_block :: "'s env \<Rightarrow> RV_object_t \<Rightarrow> ('s, nat) op" where
  "new_block env ob =
     chain (attempt env (Simple H5E_CANTALLOC)) (\<lambda>_ w.
       Val (next_block w) (w\<lparr>objects := (objects w)(next_block w \<mapsto> ob), next_block := next_block w + 1\<rparr>))"

definition free_block :: "nat \<Rightarrow> ('s, unit) op" where
  "free_block a w = (if objects w a = None then Undef else Val () (w\<lparr>objects := (objects w)(a := None)\<rparr>))"

text \<open>The file of an object.\<close>

definition fetch_file :: "nat option \<Rightarrow> ('s, RV_file_t) op" where
  "fetch_file d =
     chain (defined d) (\<lambda>d. chain (fetch d) (\<lambda>ob. case union ob of File f \<Rightarrow> give f | _ \<Rightarrow> (\<lambda>_. Undef)))"

definition store_file :: "nat \<Rightarrow> RV_file_t \<Rightarrow> ('s, unit) op" where
  "store_file a f = chain (fetch a) (\<lambda>ob. store a (ob\<lparr>union := File f\<rparr>))"

definition filename :: "nat option \<Rightarrow> ('s, string) op" where
  "filename d = chain (fetch_file d) (\<lambda>f. defined (filepath_name f))"

definition register :: "'s env \<Rightarrow> nat \<Rightarrow> ('s, unit) op" where
  "register env a = chain (attempt env (Simple H5E_CANTALLOC)) (\<lambda>_ w. Val () (w\<lparr>registered := insert a (registered w)\<rparr>))"

definition unregister :: "nat \<Rightarrow> ('s, unit) op" where
  "unregister a w = Val () (w\<lparr>registered := registered w - {a}\<rparr>)"

text \<open>
  \<open>curl_easy_perform\<close>; with \<open>CURL_PERFORM\<close> every response code but 200 and 201 is an error.
\<close>

definition exchange :: "'s env \<Rightarrow> object_failure \<Rightarrow> request \<Rightarrow> ('s, int) op" where
  "exchange env e rq w =
     (if \<not> options_ok env rq then Err H5E_CANTSET w
      else case transfer env rq (server w) of
        (code, text, s) \<Rightarrow>
          let w = w\<lparr>response := text, server := s\<rparr>
          in (case code of None \<Rightarrow> Err e w | Some c \<Rightarrow> Val c w))"

definition CURL_PERFORM :: "'s env \<Rightarrow> object_failure \<Rightarrow> request \<Rightarrow> ('s, int) op" where
  "CURL_PERFORM env e rq =
     chain (exchange env e rq) (\<lambda>c. case HANDLE_RESPONSE c of Inl h \<Rightarrow> throw (Reply h) | Inr _ \<Rightarrow> give c)"

definition HTTP_SUCCESS :: "int \<Rightarrow> bool" where
  "HTTP_SUCCESS status_code \<longleftrightarrow> 200 \<le> status_code \<and> status_code \<le> 299"

definition last_response :: "('s, string) op" where
  "last_response w = Val (response w) w"

definition parse_URI :: "'s env \<Rightarrow> object_failure \<Rightarrow> char option list \<Rightarrow> ('s, char option list) op" where
  "parse_URI env e buf =
     chain last_response (\<lambda>r.
     chain (defined (RV_copy_object_URI_callback (parser env) r buf)) (\<lambda>(res, buf).
     chain (check e (isl res = False)) (\<lambda>_. give buf)))"

definition parse_version_of :: "'s env \<Rightarrow> server_api_version \<Rightarrow> ('s, server_api_version) op" where
  "parse_version_of env v =
     chain last_response (\<lambda>r.
     case RV_parse_server_version (parser env) r v of
       (Inl _, v) \<Rightarrow> throw (Simple H5E_CANTCREATE)
     | (Inr _, v) \<Rightarrow> give v)"

text \<open>A URI before it is written: its first character is set to NUL.\<close>

definition no_URI :: "char option list" where
  "no_URI = Some (CHR 0x00) # replicate (URI_MAX_LENGTH - 1) None"

section \<open>Files\<close>

definition update :: "nat \<Rightarrow> (RV_object_t \<Rightarrow> RV_object_t) \<Rightarrow> ('s, unit) op" where
  "update a g = chain (fetch a) (\<lambda>ob. store a (g ob))"

definition update_file :: "nat \<Rightarrow> (RV_file_t \<Rightarrow> RV_file_t) \<Rightarrow> ('s, unit) op" where
  "update_file a g = chain (fetch_file (Some a)) (\<lambda>f. update a (\<lambda>ob. ob\<lparr>union := File (g f)\<rparr>))"

definition H5F_ACC_RDWR :: u32 where
  "H5F_ACC_RDWR = 1"

definition H5F_ACC_TRUNC :: u32 where
  "H5F_ACC_TRUNC = 2"

definition unset_version :: server_api_version where
  "unset_version = \<lparr>major = 0, minor = 0, patch = 0\<rparr>"

definition new_file :: "u32 \<Rightarrow> RV_object_t" where
  "new_file flags =
     \<lparr>domain = None, obj_type = H5I_FILE, URI = no_URI, handle_path = None,
      union = File \<lparr>intent = flags, ref_count = 1, filepath_name = None, fcpl_id = Invalid, fapl_id = Invalid,
        server_version = unset_version\<rparr>\<rparr>"

definition RV_file_close :: "nat option \<Rightarrow> ('s, unit) op" where
  "RV_file_close file =
     (case file of
        None \<Rightarrow> give ()
      | Some a \<Rightarrow>
          chain (fetch a) (\<lambda>ob.
          chain (check (Simple H5E_BADVALUE) (obj_type ob = H5I_FILE)) (\<lambda>_.
          chain (fetch_file file) (\<lambda>f.
            if ref_count f = 1 then chain (unregister a) (\<lambda>_. free_block a)
            else update_file a (\<lambda>f. f\<lparr>ref_count := ref_count f - 1\<rparr>)))))"

definition copy_list :: "'s env \<Rightarrow> hid \<Rightarrow> ('s, hid) op" where
  "copy_list env l = (if l \<noteq> Default then new_list env H5E_CANTCOPY else give Default)"

text \<open>The block of a file with its root path and its name; \<open>set_lists\<close> is done in between.\<close>

definition name_file :: "'s env \<Rightarrow> nat \<Rightarrow> string \<Rightarrow> ('s, unit) op \<Rightarrow> ('s, unit) op" where
  "name_file env file name set_lists =
     chain (attempt env (Simple H5E_CANTALLOC)) (\<lambda>_.
     chain (update file (\<lambda>ob. ob\<lparr>handle_path := Some ''/''\<rparr>)) (\<lambda>_.
     chain set_lists (\<lambda>_.
     chain (update file (\<lambda>ob. ob\<lparr>domain := Some file\<rparr>)) (\<lambda>_.
     chain (attempt env (Simple H5E_CANTALLOC)) (\<lambda>_.
     chain (update_file file (\<lambda>f. f\<lparr>filepath_name := Some name\<rparr>)) (\<lambda>_.
     attempt env (Simple H5E_CANTALLOC)))))))"

text \<open>The URI and the version of the server from the response.\<close>

definition describe_file :: "'s env \<Rightarrow> object_failure \<Rightarrow> nat \<Rightarrow> ('s, unit) op" where
  "describe_file env e file =
     chain (fetch file) (\<lambda>ob.
     chain (parse_URI env e (URI ob)) (\<lambda>buf.
     chain (update file (\<lambda>ob. ob\<lparr>URI := buf\<rparr>)) (\<lambda>_.
     chain (fetch_file (Some file)) (\<lambda>f.
     chain (parse_version_of env (server_version f)) (\<lambda>v.
     update_file file (\<lambda>f. f\<lparr>server_version := v\<rparr>))))))"

text \<open>A new file object, set up for a file that is on the server.\<close>

definition opened_file :: "'s env \<Rightarrow> string \<Rightarrow> hid \<Rightarrow> nat \<Rightarrow> ('s, nat) op" where
  "opened_file env name fapl file =
     chain (name_file env file name (give ())) (\<lambda>_.
     chain (CURL_PERFORM env H5E_CANTOPENFILE \<lparr>http_method = HTTP_GET, url = base_url env, host = name\<rparr>) (\<lambda>_.
     chain (describe_file env H5E_CANTOPENFILE file) (\<lambda>_.
     chain (copy_list env fapl) (\<lambda>l.
     chain (update_file file (\<lambda>f. f\<lparr>fapl_id := l\<rparr>)) (\<lambda>_.
     chain (new_list env (Simple H5E_CANTCREATE)) (\<lambda>l.
     chain (update_file file (\<lambda>f. f\<lparr>fcpl_id := l\<rparr>)) (\<lambda>_.
     chain (register env file) (\<lambda>_. give file))))))))"

definition RV_file_open :: "'s env \<Rightarrow> string \<Rightarrow> u32 \<Rightarrow> hid \<Rightarrow> ('s, nat) op" where
  "RV_file_open env name flags fapl =
     chain (check H5E_CANTINIT (connected env)) (\<lambda>_.
     chain (check (Simple H5E_BADVALUE) (fapl \<noteq> Invalid)) (\<lambda>_.
     chain (new_block env (new_file flags)) (\<lambda>file.
     cleanup (opened_file env name fapl file) (RV_file_close (Some file)))))"

text \<open>The property list in base 64, for a request.\<close>

definition encoded_list :: "'s env \<Rightarrow> hid \<Rightarrow> ('s, string) op" where
  "encoded_list env l =
     chain (require H5E_CANTENCODE (encode_list env l)) (\<lambda>bs.
     chain (attempt env (Simple H5E_CANTALLOC)) (\<lambda>_.
     chain (\<lambda>w. defined (RV_base64_encode (\<lambda>_. succeeds env (calls w)) (Some bs) True (Some 0)) (w\<lparr>calls := calls w + 1\<rparr>))
       (\<lambda>r. case r of Inl _ \<Rightarrow> throw H5E_CANTENCODE | Inr (text, _) \<Rightarrow> give text)))"

definition json_quoted :: "string \<Rightarrow> string" where
  "json_quoted s = CHR 0x22 # s @ [CHR 0x22]"

definition file_body :: "string \<Rightarrow> string" where
  "file_body l =
     ''{'' @ json_quoted ''group'' @ '': {'' @ json_quoted ''creationProperties'' @ '': '' @ json_quoted l @ ''}}''"

definition truncate_file :: "'s env \<Rightarrow> string \<Rightarrow> ('s, unit) op" where
  "truncate_file env name =
     chain (exchange env H5E_NONE_MINOR \<lparr>http_method = HTTP_GET, url = base_url env, host = name\<rparr>) (\<lambda>code.
       if HTTP_SUCCESS code
       then
         chain (CURL_PERFORM env H5E_CANTREMOVE \<lparr>http_method = HTTP_DELETE, url = base_url env, host = name\<rparr>)
           (\<lambda>_. give ())
       else give ())"

text \<open>A new file object, set up for a file that is created on the server.\<close>

definition created_file :: "'s env \<Rightarrow> string \<Rightarrow> u32 \<Rightarrow> hid \<Rightarrow> hid \<Rightarrow> nat \<Rightarrow> ('s, nat) op" where
  "created_file env name flags fcpl fapl file =
     chain (name_file env file name
       (chain (copy_list env fapl) (\<lambda>l.
        chain (update_file file (\<lambda>f. f\<lparr>fapl_id := l\<rparr>)) (\<lambda>_.
        chain (copy_list env fcpl) (\<lambda>l. update_file file (\<lambda>f. f\<lparr>fcpl_id := l\<rparr>)))))) (\<lambda>_.
     chain (if flags AND H5F_ACC_TRUNC \<noteq> 0 then truncate_file env name else give ()) (\<lambda>_.
     chain (encoded_list env fcpl) (\<lambda>l.
     chain (attempt env (Simple H5E_CANTALLOC)) (\<lambda>_.
     chain (check (Simple H5E_SYSERRSTR) (length (file_body l) < length (file_body ''%s'') + length l + 1)) (\<lambda>_.
     chain (CURL_PERFORM env (Simple H5E_CANTCREATE)
       \<lparr>http_method = HTTP_PUT (file_body l), url = base_url env, host = name\<rparr>) (\<lambda>_.
     chain (describe_file env (Simple H5E_CANTCREATE) file) (\<lambda>_.
     chain (register env file) (\<lambda>_. give file))))))))"

definition RV_file_create :: "'s env \<Rightarrow> string \<Rightarrow> u32 \<Rightarrow> hid \<Rightarrow> hid \<Rightarrow> ('s, nat) op" where
  "RV_file_create env name flags fcpl fapl =
     chain (check H5E_CANTINIT (connected env)) (\<lambda>_.
     chain (check (Simple H5E_BADVALUE) (fapl \<noteq> Invalid)) (\<lambda>_.
     chain (new_block env (new_file H5F_ACC_RDWR)) (\<lambda>file.
     cleanup (created_file env name flags fcpl fapl file) (RV_file_close (Some file)))))"

section \<open>Operations on files\<close>

datatype file_op = Flush | Reopen | Is_Accessible string hid | Delete string | Is_Equal

datatype file_answer = Done | Reopened nat | Accessible bool

text \<open>The file may be NULL, for the operations on a name.\<close>

definition RV_file_specific :: "'s env \<Rightarrow> nat option \<Rightarrow> file_op \<Rightarrow> ('s, file_answer) op" where
  "RV_file_specific env file fop =
     chain (case file of
              None \<Rightarrow> give ()
            | Some a \<Rightarrow> chain (fetch a) (\<lambda>ob. check (Simple H5E_BADVALUE) (obj_type ob = H5I_FILE))) (\<lambda>_.
     (case fop of
        Flush \<Rightarrow>
          chain (defined file) (\<lambda>a.
          chain (fetch a) (\<lambda>ob.
          chain (filename (domain ob)) (\<lambda>name.
          chain (attempt env (Simple H5E_CANTALLOC)) (\<lambda>_.
          chain (attempt env (Simple H5E_CANTALLOC)) (\<lambda>_.
          chain (exchange env H5E_NONE_MINOR
            \<lparr>http_method = HTTP_PUT [], url = base_url env @ ''/?flush=1&rescan=1'', host = name\<rparr>) (\<lambda>code.
          chain (check H5E_CANTFLUSH (code = 204)) (\<lambda>_. give Done)))))))
      | Reopen \<Rightarrow>
          chain (fetch_file file) (\<lambda>f.
          chain (defined (filepath_name f)) (\<lambda>name.
          chain (result (RV_file_open env name (intent f) (fapl_id f))) (\<lambda>r.
            (case r of Inl _ \<Rightarrow> throw H5E_CANTOPENOBJ | Inr a \<Rightarrow> give (Reopened a)))))
      | Is_Accessible name fapl \<Rightarrow>
          chain (result (RV_file_open env name 0 fapl)) (\<lambda>r.
            (case r of
               Inl _ \<Rightarrow> give (Accessible False)
             | Inr a \<Rightarrow>
                 chain (result (RV_file_close (Some a))) (\<lambda>r.
                   (case r of Inl _ \<Rightarrow> throw H5E_CANTCLOSEFILE | Inr _ \<Rightarrow> give (Accessible True)))))
      | Delete name \<Rightarrow>
          chain (attempt env (Simple H5E_CANTALLOC)) (\<lambda>_.
          chain (CURL_PERFORM env H5E_CLOSEERROR
            \<lparr>http_method = HTTP_DELETE, url = base_url env, host = name\<rparr>) (\<lambda>_. give Done))
      | Is_Equal \<Rightarrow> throw (Simple H5E_UNSUPPORTED)))"

end
