(* ===== verification/Object_Search.thy ===== *)
theory Object_Search
  imports Objects
begin

unbundle bit_operations_syntax

text \<open>
  The search for an object by its path, \<open>RV_find_object_by_path\<close> with its callbacks
  \<open>RV_copy_object_URI_callback\<close> and \<open>RV_copy_object_loc_info_callback\<close>, from \<open>rest_vol.c\<close>, and the groups
  of \<open>rest_vol_group.c\<close>.

  A server from 0.8.0 on follows links itself, and the search is one request.  With an older one the search asks
  for the group the path ends in, then for the link in it, and starts again with what the link points to; the
  recursion has fuel.
\<close>

section \<open>What a search finds\<close>

text \<open>
  \<open>callback_data_out\<close> of the callbacks of a search.  The URI is the caller's buffer; the callback that copies
  only the URI uses no other field.
\<close>

record loc_info =
  GCPL_base64 :: "string option"
  loc_domain :: "nat option"
  loc_URI :: "char option list"

type_synonym 's found_callback = "string \<Rightarrow> loc_info \<Rightarrow> ('s, loc_info) op"

definition no_callback :: "'s found_callback" where
  "no_callback r loc = give loc"

definition URI_callback :: "'s env \<Rightarrow> 's found_callback" where
  "URI_callback env r loc =
     chain (defined (RV_copy_object_URI_callback (parser env) r (loc_URI loc))) (\<lambda>(res, buf).
       case res of Inl e \<Rightarrow> throw (Simple e) | Inr _ \<Rightarrow> give (loc\<lparr>loc_URI := buf\<rparr>))"

text \<open>\<open>H5Pcopy\<close> without a check.\<close>

definition H5Pcopy :: "'s env \<Rightarrow> ('s, hid) op" where
  "H5Pcopy env =
     chain (result (new_list env H5E_CANTCOPY)) (\<lambda>r. give (case r of Inl _ \<Rightarrow> Invalid | Inr l \<Rightarrow> l))"

definition string_at :: "'s env \<Rightarrow> json \<Rightarrow> string \<Rightarrow> ('s, string) op" where
  "string_at env t key =
     chain (require (Simple H5E_BADVALUE) (tree_get (parser env) t [key] yajl_t_string)) (\<lambda>v.
     require (Simple H5E_BADVALUE) (YAJL_GET_STRING v))"

text \<open>A file for another domain, with the settings of the file \<open>old\<close> through which its object was accessed.\<close>

definition new_domain :: "'s env \<Rightarrow> string \<Rightarrow> string \<Rightarrow> nat option \<Rightarrow> ('s, nat) op" where
  "new_domain env name root old =
     chain (new_block env (new_file 0)) (\<lambda>file.
     chain (update file (\<lambda>ob. ob\<lparr>URI := map Some (strncpy_bytes root URI_MAX_LENGTH), domain := Some file\<rparr>)) (\<lambda>_.
     chain (attempt env (Simple H5E_CANTALLOC)) (\<lambda>_.
     chain (fetch_file old) (\<lambda>d.
     chain (H5Pcopy env) (\<lambda>fapl.
     chain (H5Pcopy env) (\<lambda>fcpl.
     chain (update_file file (\<lambda>f. f\<lparr>filepath_name := Some name, intent := intent d, fapl_id := fapl, fcpl_id := fcpl\<rparr>)) (\<lambda>_.
     chain (attempt env (Simple H5E_CANTALLOC)) (\<lambda>_.
     chain (update file (\<lambda>ob. ob\<lparr>handle_path := Some ''/''\<rparr>)) (\<lambda>_.
     chain (update_file file (\<lambda>f. f\<lparr>server_version := server_version d\<rparr>)) (\<lambda>_.
     give file))))))))))"

text \<open>It takes the place of the old one, which is closed.\<close>

definition replace_domain :: "'s env \<Rightarrow> string \<Rightarrow> string \<Rightarrow> loc_info \<Rightarrow> ('s, loc_info) op" where
  "replace_domain env name root loc =
     chain (new_domain env name root (loc_domain loc)) (\<lambda>file.
     chain (result (RV_file_close (loc_domain loc))) (\<lambda>r.
     chain (check (Simple H5E_CANTALLOC) (\<not> isl r)) (\<lambda>_.
     give (loc\<lparr>loc_domain := Some file\<rparr>))))"

definition creation_properties :: "'s env \<Rightarrow> json \<Rightarrow> ('s, string option) op" where
  "creation_properties env t w =
     Val (case RV_parse_creation_properties_callback (parser env) (succeeds env (calls w)) t of
            Inl _ \<Rightarrow> None | Inr s \<Rightarrow> Some s)
       (w\<lparr>calls := calls w + 1\<rparr>)"

definition RV_copy_object_loc_info_callback :: "'s env \<Rightarrow> 's found_callback" where
  "RV_copy_object_loc_info_callback env r loc =
     chain (require (Simple H5E_PARSEERROR) (tree_parse (parser env) r)) (\<lambda>t.
     chain (creation_properties env t) (\<lambda>gcpl.
     let loc = (if gcpl \<noteq> None then loc\<lparr>GCPL_base64 := gcpl\<rparr> else loc) in
     chain (string_at env t ''domain'') (\<lambda>name.
     chain (string_at env t ''root'') (\<lambda>root.
     chain (check (Simple H5E_BADVALUE) (length root \<le> URI_MAX_LENGTH)) (\<lambda>_.
     chain (filename (loc_domain loc)) (\<lambda>current.
     chain (if name \<noteq> current then replace_domain env name root loc else give loc) (\<lambda>loc.
     URI_callback env r loc)))))))"

section \<open>Requests of a search\<close>

text \<open>Leading points but the last one, for \<open>..\<close> is no parent group.\<close>

fun skip_dots :: "string \<Rightarrow> string" where
  "skip_dots (c # d # cs) = (if c = CHR ''.'' \<and> d = CHR ''.'' then skip_dots (d # cs) else c # d # cs)"
| "skip_dots cs = cs"

text \<open>The path without leading spaces, whether it is relative, and the type of the object as far as it is known.\<close>

definition prepare_path :: "object_type \<Rightarrow> object_type \<Rightarrow> string \<Rightarrow> string \<times> bool \<times> object_type" where
  "prepare_path parent_type otype path_arg =
     (let path = dropWhile (\<lambda>c. c = CHR '' '') path_arg
      in if path = ''.'' then (path, True, parent_type)
         else if path = ''/'' then (path, False, H5I_GROUP)
         else if path = [] \<or> hd path \<noteq> CHR ''/'' then (skip_dots path, True, otype)
         else (path, False, otype))"

definition encoded_path :: "'s env \<Rightarrow> string \<Rightarrow> ('s, string) op" where
  "encoded_path env path w =
     chain (defined (H5_rest_url_encode_path (\<lambda>_. succeeds env (calls w)) (escape_url env) (Some path)))
       (\<lambda>r. case r of Inl _ \<Rightarrow> throw H5E_CANTENCODE | Inr (s, _) \<Rightarrow> give s) (w\<lparr>calls := calls w + 1\<rparr>)"

definition URI_of :: "RV_object_t \<Rightarrow> ('s, string) op" where
  "URI_of ob = defined (c_string (URI ob))"

definition follows_links :: "server_api_version \<Rightarrow> bool" where
  "follows_links v \<longleftrightarrow> SERVER_VERSION_MATCHES_OR_EXCEEDS v 0 8 0"

definition new_server_url :: "'s env \<Rightarrow> RV_object_t \<Rightarrow> string \<Rightarrow> bool \<Rightarrow> ('s, string) op" where
  "new_server_url env ob path relative =
     chain (encoded_path env path) (\<lambda>p.
     chain (if relative then chain (URI_of ob) (\<lambda>u. give (''&parent_id='' @ u)) else give []) (\<lambda>parent_id.
     give (base_url env @ ''/?h5path='' @ p @ parent_id @ ''&follow_soft_links=1&follow_external_links=1'')))"

definition known_type_url :: "'s env \<Rightarrow> RV_object_t \<Rightarrow> string \<Rightarrow> bool \<Rightarrow> object_type \<Rightarrow> ('s, string) op" where
  "known_type_url env ob path relative otype =
     (case RV_set_object_type_header otype of
        Inl _ \<Rightarrow> throw (Simple H5E_BADVALUE)
      | Inr header \<Rightarrow>
          if path = ''.'' \<or> path = ''/''
          then chain (URI_of ob) (\<lambda>u. give (base_url env @ ''/'' @ header @ ''/'' @ u))
          else
            let is_group = (otype = H5I_GROUP \<or> otype = H5I_FILE)
            in chain (encoded_path env path) (\<lambda>p.
               chain (if relative then URI_of ob else give []) (\<lambda>u.
               give (base_url env @ ''/'' @ header @ ''/'' @
                 (if \<not> relative then ''?'' else if is_group then u @ ''?'' else ''?grpid='' @ u @ ''&'') @
                 ''h5path='' @ p))))"

definition uninit_buffer :: "char option list" where
  "uninit_buffer = replicate URI_MAX_LENGTH None"

definition no_loc :: "char option list \<Rightarrow> loc_info" where
  "no_loc buf = \<lparr>GCPL_base64 = None, loc_domain = None, loc_URI = buf\<rparr>"

text \<open>
  The request for the link to an object of unknown type.  \<open>search\<close> searches for the group that the path ends in.
\<close>

definition link_url ::
  "'s env \<Rightarrow> (string \<Rightarrow> ('s, bool \<times> object_type \<times> loc_info) op) \<Rightarrow> RV_object_t \<Rightarrow> string \<Rightarrow> ('s, string) op" where
  "link_url env search ob path =
     chain (attempt env (Simple H5E_CANTGET)) (\<lambda>_.
     chain (require (Simple H5E_CANTGET) (H5_rest_dirname True path)) (\<lambda>dirname.
     chain (if dirname \<noteq> []
            then chain (result (search dirname)) (\<lambda>r.
                   case r of
                     Inr (True, _, loc) \<Rightarrow> give (loc_URI loc)
                   | _ \<Rightarrow> throw H5E_PATH)
            else give (URI ob)) (\<lambda>buf.
     chain (require H5E_CANTENCODE (escape_url env (H5_rest_basename path))) (\<lambda>name.
     chain (defined (c_string buf)) (\<lambda>u.
     give (base_url env @ ''/groups/'' @ u @ ''/links/'' @ name))))))"

section \<open>Following a link\<close>

text \<open>The value of the link in the response.\<close>

definition read_link_value :: "'s env \<Rightarrow> string \<Rightarrow> ('s, char option list) op" where
  "read_link_value env r =
     chain (defined (RV_get_link_val_callback (parser env) r 0 None)) (\<lambda>(res, n, _).
     chain (check (Simple H5E_CANTGET) (\<not> isl res)) (\<lambda>_.
     chain (attempt env (Simple H5E_CANTALLOC)) (\<lambda>_.
     chain (defined (RV_get_link_val_callback (parser env) r n (Some (replicate (unat n) None)))) (\<lambda>(res, _, b).
     chain (check (Simple H5E_CANTGET) (\<not> isl res)) (\<lambda>_.
     defined b)))))"

text \<open>What is done at \<open>done\<close> in any case, whose failure is a failure.\<close>

definition always :: "('s, 'a) op \<Rightarrow> ('s, unit) op \<Rightarrow> ('s, 'a) op" where
  "always m c =
     chain (result m) (\<lambda>r.
     chain c (\<lambda>_. case r of Inl e \<Rightarrow> throw e | Inr a \<Rightarrow> give a))"

text \<open>
  \<open>search\<close> is the recursive call, on an object, a path and a type, and \<open>call\<close> the callback on what it finds.  The
  file of an external link is open until the end.
\<close>

definition follow_link ::
  "'s env \<Rightarrow> (nat \<Rightarrow> string \<Rightarrow> object_type \<Rightarrow> ('s, 'b) op) \<Rightarrow> RV_object_t \<Rightarrow> nat \<Rightarrow> string \<Rightarrow> object_type \<Rightarrow> ('s, 'b) op"
where
  "follow_link env search ob parent path otype =
     chain last_response (\<lambda>r.
     chain (defined (RV_get_link_info_callback (parser env) r)) (\<lambda>(res, info).
     chain (check (Simple H5E_CANTGET) (\<not> isl res)) (\<lambda>_.
     case info_type info of
       H5L_TYPE_HARD \<Rightarrow>
         (case RV_get_link_obj_type_callback (parser env) r otype of
            (Inl _, _) \<Rightarrow> throw (Simple H5E_CANTGET)
          | (Inr _, otype) \<Rightarrow> search parent path otype)
     | H5L_TYPE_SOFT \<Rightarrow>
         chain (read_link_value env r) (\<lambda>b.
         chain (defined (c_string b)) (\<lambda>path. search parent path otype))
     | H5L_TYPE_EXTERNAL \<Rightarrow>
         chain (read_link_value env r) (\<lambda>b.
         chain (require (Simple H5E_CANTGET) (unpack_elink env b)) (\<lambda>(name, path).
         chain (fetch_file (domain ob)) (\<lambda>f.
         chain (result (RV_file_open env name (intent f) (fapl_id f))) (\<lambda>r.
         case r of
           Inl _ \<Rightarrow> throw H5E_CANTOPENOBJ
         | Inr ext \<Rightarrow>
             always (search ext path otype)
               (chain (result (RV_file_close (Some ext))) (\<lambda>r. check H5E_CANTCLOSEOBJ (\<not> isl r))))))))))"

definition parse_type_of :: "'s env \<Rightarrow> object_type \<Rightarrow> ('s, object_type) op" where
  "parse_type_of env otype =
     chain last_response (\<lambda>r.
     case RV_parse_type (parser env) r otype of
       (Inl _, _) \<Rightarrow> throw (Simple H5E_CANTGET)
     | (Inr _, otype) \<Rightarrow> give otype)"

text \<open>The callback on the response, when the object was found.\<close>

definition call_found ::
  "'s found_callback \<Rightarrow> bool \<Rightarrow> object_type \<Rightarrow> loc_info \<Rightarrow> ('s, bool \<times> object_type \<times> loc_info) op" where
  "call_found cb found otype loc =
     (if found
      then chain last_response (\<lambda>r.
           chain (result (cb r loc)) (\<lambda>res.
           case res of
             Inl _ \<Rightarrow> throw (Simple H5E_CALLBACK)
           | Inr loc \<Rightarrow> give (found, otype, loc)))
      else give (found, otype, loc))"

section \<open>Search\<close>

primrec RV_find_object_by_path ::
  "nat \<Rightarrow> 's env \<Rightarrow> nat \<Rightarrow> string option \<Rightarrow> object_type \<Rightarrow> 's found_callback \<Rightarrow> loc_info
     \<Rightarrow> ('s, bool \<times> object_type \<times> loc_info) op" where
  "RV_find_object_by_path 0 env parent path_arg otype cb loc = (\<lambda>_. No_Fuel)"
| "RV_find_object_by_path (Suc fuel) env parent path_arg otype cb loc =
     chain (require (Simple H5E_BADVALUE) path_arg) (\<lambda>path.
     chain (fetch parent) (\<lambda>ob.
     chain (check (Simple H5E_BADVALUE)
       (obj_type ob = H5I_FILE \<or> obj_type ob = H5I_GROUP \<or> obj_type ob = H5I_DATATYPE \<or> obj_type ob = H5I_DATASET)) (\<lambda>_.
     chain (fetch_file (domain ob)) (\<lambda>f.
     let version = server_version f;
         (path, relative, otype) = prepare_path (obj_type ob) otype path
     in chain
          (if follows_links version then new_server_url env ob path relative
           else if otype = H5I_UNINIT
           then link_url env
                  (\<lambda>dirname. RV_find_object_by_path fuel env parent (Some dirname) H5I_GROUP (URI_callback env)
                     (no_loc uninit_buffer)) ob path
           else known_type_url env ob path relative otype) (\<lambda>url.
        chain (check (Simple H5E_SYSERRSTR) (length url < URL_MAX_LENGTH)) (\<lambda>_.
        chain (filename (domain ob)) (\<lambda>name.
        chain (attempt env (Simple H5E_CANTALLOC)) (\<lambda>_.
        chain (CURL_PERFORM env H5E_PATH \<lparr>http_method = HTTP_GET, url = url, host = name\<rparr>) (\<lambda>code.
          if follows_links version
          then chain (parse_type_of env otype) (\<lambda>otype. call_found cb (HTTP_SUCCESS code) otype loc)
          else if otype = H5I_UNINIT
          then follow_link env
                 (\<lambda>parent path otype.
                    chain (result (RV_find_object_by_path fuel env parent (Some path) otype cb loc)) (\<lambda>r.
                    case r of
                      Inr (True, otype, loc) \<Rightarrow> call_found cb True otype loc
                    | _ \<Rightarrow> throw H5E_PATH)) ob parent path otype
          else call_found cb (HTTP_SUCCESS code) otype loc)))))))))"

end
