(* ===== verification/Group_Objects.thy ===== *)
theory Group_Objects
  imports Object_Search
begin

unbundle bit_operations_syntax

text \<open>
  The operations of \<open>rest_vol_group.c\<close>: create, open, get and close.  A new group refers to the file of the object
  it is created or opened in, and the file counts the reference.
\<close>

section \<open>Closing a group\<close>

definition RV_group_close :: "nat option \<Rightarrow> ('s, unit) op" where
  "RV_group_close grp =
     (case grp of
        None \<Rightarrow> give ()
      | Some a \<Rightarrow>
          chain (fetch a) (\<lambda>ob.
          chain (check (Simple H5E_BADVALUE) (obj_type ob = H5I_GROUP)) (\<lambda>_.
          chain (unregister a) (\<lambda>_.
          chain (result (RV_file_close (domain ob))) (\<lambda>r.
          chain (free_block a) (\<lambda>_.
          check H5E_CANTCLOSEFILE (\<not> isl r)))))))"

section \<open>A new group\<close>

definition new_group :: "nat option \<Rightarrow> RV_object_t" where
  "new_group d =
     \<lparr>domain = d, obj_type = H5I_GROUP, URI = no_URI, handle_path = None,
      union = Group \<lparr>gapl_id = Invalid, gcpl_id = Invalid\<rparr>\<rparr>"

definition add_reference :: "nat option \<Rightarrow> ('s, unit) op" where
  "add_reference d = chain (defined d) (\<lambda>d. update_file d (\<lambda>f. f\<lparr>ref_count := ref_count f + 1\<rparr>))"

definition set_handle_path :: "'s env \<Rightarrow> nat \<Rightarrow> string option \<Rightarrow> string option \<Rightarrow> ('s, unit) op" where
  "set_handle_path env a name parent_path w =
     chain (defined (RV_set_object_handle_path (succeeds env (calls w)) name parent_path)) (\<lambda>r.
       case r of
         Inl _ \<Rightarrow> throw H5E_PATH
       | Inr None \<Rightarrow> give ()
       | Inr (Some b) \<Rightarrow>
           chain (defined (c_string b)) (\<lambda>s. update a (\<lambda>ob. ob\<lparr>handle_path := Some s\<rparr>)))
     (w\<lparr>calls := calls w + 1\<rparr>)"

definition set_lists :: "nat \<Rightarrow> (RV_group_t \<Rightarrow> RV_group_t) \<Rightarrow> ('s, unit) op" where
  "set_lists a g =
     chain (fetch a) (\<lambda>ob.
     case union ob of
       Group gr \<Rightarrow> store a (ob\<lparr>union := Group (g gr)\<rparr>)
     | File _ \<Rightarrow> (\<lambda>_. Undef))"

section \<open>Creating a group\<close>

definition group_body :: "string \<Rightarrow> string \<Rightarrow> string \<Rightarrow> string" where
  "group_body i name l =
     ''{'' @ json_quoted ''link'' @ '': {'' @ json_quoted ''id'' @ '': '' @ json_quoted i @ '', '' @
     json_quoted ''name'' @ '': '' @ json_quoted name @ ''},'' @
     json_quoted ''creationProperties'' @ '': '' @ json_quoted l @ ''}''"

text \<open>The group the path of a new group ends in; when it is not there, \<open>create\<close> is to create it.\<close>

definition parent_URI ::
  "nat \<Rightarrow> 's env \<Rightarrow> (string \<Rightarrow> ('s, nat) op) \<Rightarrow> hid \<Rightarrow> nat \<Rightarrow> string \<Rightarrow> ('s, char option list) op"
where
  "parent_URI fuel env create lcpl parent dirname =
     (let search = (\<lambda>path. result (RV_find_object_by_path fuel env parent (Some path) H5I_GROUP
                                   (URI_callback env) (no_loc uninit_buffer)))
      in chain (search dirname) (\<lambda>r.
         case r of
           Inr (True, _, loc) \<Rightarrow> give (loc_URI loc)
         | _ \<Rightarrow>
             chain (require (Simple H5E_CANTGET) (create_intermediate env lcpl)) (\<lambda>intermediate.
             if \<not> intermediate then throw H5E_PATH
             else
               let path = (if last dirname = CHR ''/'' then butlast dirname else dirname)
               in chain (result (create path)) (\<lambda>r.
                  case r of
                    Inl _ \<Rightarrow> throw H5E_CANTOPENOBJ
                  | Inr grp \<Rightarrow>
                      chain (search path) (\<lambda>r.
                      chain (result (RV_group_close (Some grp))) (\<lambda>_.
                      give (case r of Inr (True, _, loc) \<Rightarrow> loc_URI loc | _ \<Rightarrow> uninit_buffer)))))))"

text \<open>The body of the request, which links the group; there is none for a group without a name.\<close>

definition link_body ::
  "nat \<Rightarrow> 's env \<Rightarrow> (string \<Rightarrow> ('s, nat) op) \<Rightarrow> hid \<Rightarrow> hid \<Rightarrow> nat \<Rightarrow> string option \<Rightarrow> ('s, string) op"
where
  "link_body fuel env create lcpl gcpl parent name_arg =
     (case name_arg of
        None \<Rightarrow> give []
      | Some name \<Rightarrow>
          chain (attempt env (Simple H5E_BADVALUE)) (\<lambda>_.
          chain (require (Simple H5E_BADVALUE) (H5_rest_dirname True name)) (\<lambda>dirname.
          chain (if dirname \<noteq> [] then parent_URI fuel env create lcpl parent dirname
                 else chain (fetch parent) (\<lambda>ob. give (URI ob))) (\<lambda>buf.
          chain (encoded_list env gcpl) (\<lambda>l.
          chain (defined (c_string buf)) (\<lambda>u.
          chain (attempt env (Simple H5E_CANTALLOC)) (\<lambda>_.
          let body = group_body u (H5_rest_basename name) l
          in chain (check (Simple H5E_SYSERRSTR) (length body <
               length (group_body ''%s'' ''%s'' ''%s'') + length (H5_rest_basename name) + length u + length l + 1)) (\<lambda>_.
             give body))))))))"

text \<open>A new group, set up for a group that is created on the server.\<close>

definition created_group ::
  "nat \<Rightarrow> 's env \<Rightarrow> (string \<Rightarrow> ('s, nat) op) \<Rightarrow> nat \<Rightarrow> nat option \<Rightarrow> string \<Rightarrow> string option \<Rightarrow> hid \<Rightarrow> hid \<Rightarrow> hid
     \<Rightarrow> nat \<Rightarrow> ('s, nat) op"
where
  "created_group fuel env create parent d parent_path name lcpl gcpl gapl grp =
     chain (set_handle_path env grp name (Some parent_path)) (\<lambda>_.
     chain (copy_list env gapl) (\<lambda>l.
     chain (set_lists grp (\<lambda>g. g\<lparr>gapl_id := l\<rparr>)) (\<lambda>_.
     chain (copy_list env gcpl) (\<lambda>l.
     chain (set_lists grp (\<lambda>g. g\<lparr>gcpl_id := l\<rparr>)) (\<lambda>_.
     chain (link_body fuel env create lcpl gcpl parent name) (\<lambda>body.
     chain (filename d) (\<lambda>host.
     chain (attempt env (Simple H5E_CANTALLOC)) (\<lambda>_.
     chain (check (Simple H5E_SYSERRSTR) (length (base_url env @ ''/groups'') < URL_MAX_LENGTH)) (\<lambda>_.
     chain (CURL_PERFORM env (Simple H5E_CANTCREATE)
       \<lparr>http_method = HTTP_POST body, url = base_url env @ ''/groups'', host = host\<rparr>) (\<lambda>_.
     chain (parse_URI env (Simple H5E_CANTCREATE) no_URI) (\<lambda>buf.
     chain (update grp (\<lambda>ob. ob\<lparr>URI := buf\<rparr>)) (\<lambda>_.
     chain (register env grp) (\<lambda>_. give grp)))))))))))))"

primrec RV_group_create ::
  "nat \<Rightarrow> 's env \<Rightarrow> nat \<Rightarrow> string option \<Rightarrow> hid \<Rightarrow> hid \<Rightarrow> hid \<Rightarrow> ('s, nat) op" where
  "RV_group_create 0 env parent name lcpl gcpl gapl = (\<lambda>_. No_Fuel)"
| "RV_group_create (Suc fuel) env parent name lcpl gcpl gapl =
     chain (fetch parent) (\<lambda>p.
     chain (check (Simple H5E_BADVALUE) (obj_type p = H5I_FILE \<or> obj_type p = H5I_GROUP)) (\<lambda>_.
     chain (check (Simple H5E_BADVALUE) (gapl \<noteq> Invalid)) (\<lambda>_.
     chain (fetch_file (domain p)) (\<lambda>f.
     chain (check (Simple H5E_BADVALUE) (intent f AND H5F_ACC_RDWR \<noteq> 0)) (\<lambda>_.
     chain (new_block env (new_group (domain p))) (\<lambda>grp.
     chain (defined (handle_path p)) (\<lambda>parent_path.
     chain (add_reference (domain p)) (\<lambda>_.
     cleanup
       (created_group (Suc fuel) env (\<lambda>path. RV_group_create fuel env parent (Some path) lcpl gcpl gapl)
          parent (domain p) parent_path name lcpl gcpl gapl grp)
       (RV_group_close (Some grp))))))))))"

section \<open>Opening a group\<close>

text \<open>
  The condition as the macro \<open>SERVER_VERSION_MATCHES_OR_EXCEEDS\<close> expands: its \<open>||\<close> are not in parentheses, so
  that the creation properties are required for version 0.8 only.
\<close>

definition decodes_properties :: "server_api_version \<Rightarrow> string option \<Rightarrow> bool" where
  "decodes_properties v gcpl \<longleftrightarrow>
     major v > 0 \<or> (major v = 0 \<and> minor v > 8) \<or> (major v = 0 \<and> minor v = 8 \<and> patch v \<ge> 0 \<and> gcpl \<noteq> None)"

definition found_gcpl :: "'s env \<Rightarrow> server_api_version \<Rightarrow> string option \<Rightarrow> ('s, hid) op" where
  "found_gcpl env v gcpl =
     (if decodes_properties v gcpl
      then chain (defined gcpl) (\<lambda>text.
           chain (\<lambda>w. defined (RV_base64_decode (\<lambda>_. succeeds env (calls w)) (Some (map byte_of text)) (length text) True None)
                    (w\<lparr>calls := calls w + 1\<rparr>)) (\<lambda>r.
           chain (check H5E_CANTDECODE (\<not> isl r)) (\<lambda>_.
           new_list env H5E_CANTDECODE)))
      else new_list env (Simple H5E_CANTCREATE))"

text \<open>A new group, set up for a group that is on the server; the search may replace its domain.\<close>

definition opened_group ::
  "nat \<Rightarrow> 's env \<Rightarrow> nat \<Rightarrow> nat option \<Rightarrow> string \<Rightarrow> string option \<Rightarrow> hid \<Rightarrow> nat \<Rightarrow> ('s, nat) op"
where
  "opened_group fuel env parent d parent_path name gapl grp =
     chain (set_handle_path env grp name (Some parent_path)) (\<lambda>_.
     chain (RV_find_object_by_path fuel env parent name H5I_UNINIT (RV_copy_object_loc_info_callback env)
       \<lparr>GCPL_base64 = None, loc_domain = d, loc_URI = no_URI\<rparr>) (\<lambda>(found, _, loc).
     chain (check H5E_PATH found) (\<lambda>_.
     chain (update grp (\<lambda>ob. ob\<lparr>URI := loc_URI loc, domain := loc_domain loc\<rparr>)) (\<lambda>_.
     chain (fetch parent) (\<lambda>p.
     chain (fetch_file (domain p)) (\<lambda>f.
     chain (found_gcpl env (server_version f) (GCPL_base64 loc)) (\<lambda>l.
     chain (set_lists grp (\<lambda>g. g\<lparr>gcpl_id := l\<rparr>)) (\<lambda>_.
     chain (copy_list env gapl) (\<lambda>l.
     chain (set_lists grp (\<lambda>g. g\<lparr>gapl_id := l\<rparr>)) (\<lambda>_.
     chain (register env grp) (\<lambda>_. give grp)))))))))))"

definition RV_group_open :: "nat \<Rightarrow> 's env \<Rightarrow> nat \<Rightarrow> string option \<Rightarrow> hid \<Rightarrow> ('s, nat) op" where
  "RV_group_open fuel env parent name gapl =
     chain (fetch parent) (\<lambda>p.
     chain (check (Simple H5E_BADVALUE) (obj_type p = H5I_FILE \<or> obj_type p = H5I_GROUP)) (\<lambda>_.
     chain (require (Simple H5E_BADVALUE) (handle_path p)) (\<lambda>parent_path.
     chain (check (Simple H5E_BADVALUE) (gapl \<noteq> Invalid)) (\<lambda>_.
     chain (new_block env (new_group (domain p))) (\<lambda>grp.
     chain (add_reference (domain p)) (\<lambda>_.
     cleanup (opened_group fuel env parent (domain p) parent_path name gapl grp)
       (RV_group_close (Some grp))))))))"

section \<open>Information about a group\<close>

definition RV_get_group_info_callback :: "yajl \<Rightarrow> string \<Rightarrow> failure + u64" where
  "RV_get_group_info_callback y r =
     (case tree_parse y r of
        None \<Rightarrow> Inl H5E_PARSEERROR
      | Some t \<Rightarrow>
          (case tree_get y t [''linkCount''] yajl_t_number of
             None \<Rightarrow> Inl H5E_CANTGET
           | Some v \<Rightarrow>
               (case YAJL_GET_INTEGER v of
                  None \<Rightarrow> Inl H5E_BADVALUE
                | Some i \<Rightarrow> if i < 0 then Inl H5E_BADVALUE else Inr (of_int i))))"

datatype group_op = Get_GCPL | Get_Info | Get_Info_By_Name string hid | Get_Info_By_Idx | Get_Info_By_Token

datatype group_answer = Copied_List hid | Links u64

text \<open>The list of \<open>Get_GCPL\<close> is the copy of the identifier at that place of the object.\<close>

definition RV_group_get :: "nat \<Rightarrow> 's env \<Rightarrow> nat \<Rightarrow> group_op \<Rightarrow> ('s, group_answer) op" where
  "RV_group_get fuel env loc_obj gop =
     chain (fetch loc_obj) (\<lambda>ob.
     chain (check (Simple H5E_BADVALUE) (obj_type ob = H5I_FILE \<or> obj_type ob = H5I_GROUP)) (\<lambda>_.
     if gop = Get_GCPL then chain (new_list env H5E_CANTCOPY) (\<lambda>l. give (Copied_List l))
     else
       chain
         (case gop of
            Get_Info \<Rightarrow> URI_of ob
          | Get_Info_By_Name name lapl \<Rightarrow>
              chain (check (Simple H5E_BADVALUE) (lapl \<noteq> Invalid)) (\<lambda>_.
              chain (RV_find_object_by_path fuel env loc_obj (Some name) H5I_GROUP (RV_copy_object_loc_info_callback env)
                \<lparr>GCPL_base64 = None, loc_domain = domain ob, loc_URI = uninit_buffer\<rparr>) (\<lambda>(found, _, loc).
              chain (check H5E_PATH found) (\<lambda>_.
              chain (update loc_obj (\<lambda>ob. ob\<lparr>domain := loc_domain loc\<rparr>)) (\<lambda>_.
              defined (c_string (loc_URI loc))))))
          | Get_Info_By_Idx \<Rightarrow> throw (Simple H5E_UNSUPPORTED)
          | _ \<Rightarrow> throw (Simple H5E_BADVALUE)) (\<lambda>u.
       let request_url = base_url env @ ''/groups/'' @ u
       in chain (check (Simple H5E_SYSERRSTR) (length request_url < URL_MAX_LENGTH)) (\<lambda>_.
          chain (fetch loc_obj) (\<lambda>ob.
          chain (filename (domain ob)) (\<lambda>name.
          chain (attempt env (Simple H5E_CANTALLOC)) (\<lambda>_.
          chain (CURL_PERFORM env (Simple H5E_CANTGET) \<lparr>http_method = HTTP_GET, url = request_url, host = name\<rparr>) (\<lambda>_.
          chain last_response (\<lambda>r.
          case RV_get_group_info_callback (parser env) r of
            Inl _ \<Rightarrow> throw (Simple H5E_CANTGET)
          | Inr n \<Rightarrow> give (Links n))))))))))"

end
