(* ===== verification/Object_Logic.thy ===== *)
theory Object_Logic
  imports Group_Objects
begin

text \<open>
  Reasoning about the operations on objects: \<open>wp m Q E w\<close> says that \<open>m\<close> from \<open>w\<close> returns a value with \<open>Q\<close> or
  an error with \<open>E\<close>, and that its behaviour is defined.  The rules in \<open>wp\<close> decompose it along the code.
\<close>

named_theorems wp

definition wp :: "('s, 'a) op \<Rightarrow> ('a \<Rightarrow> 's world \<Rightarrow> bool) \<Rightarrow> (object_failure \<Rightarrow> 's world \<Rightarrow> bool) \<Rightarrow> 's world \<Rightarrow> bool" where
  "wp m Q E w = (case m w of Val a w \<Rightarrow> Q a w | Err e w \<Rightarrow> E e w | _ \<Rightarrow> False)"

lemma wp_mono:
  assumes "wp m Q E w" and "\<And>a w. Q a w \<Longrightarrow> Q' a w" and "\<And>e w. E e w \<Longrightarrow> E' e w"
  shows "wp m Q' E' w"
  using assms by (auto simp: wp_def split: outcome.splits)

lemma wp_chain [wp]: "wp m (\<lambda>a. wp (f a) Q E) E w \<Longrightarrow> wp (chain m f) Q E w"
  by (auto simp: wp_def chain_def split: outcome.splits)

lemma wp_give [wp]: "Q a w \<Longrightarrow> wp (give a) Q E w"
  by (simp add: wp_def give_def)

lemma wp_throw [wp]: "E e w \<Longrightarrow> wp (throw e) Q E w"
  by (simp add: wp_def throw_def)

lemma wp_cleanup [wp]: "wp m Q (\<lambda>e. wp c (\<lambda>_. E e) (\<lambda>_. E e)) w \<Longrightarrow> wp (cleanup m c) Q E w"
  by (auto simp: wp_def cleanup_def split: outcome.splits)

lemma wp_result [wp]: "wp m (\<lambda>a. Q (Inr a)) (\<lambda>e. Q (Inl e)) w \<Longrightarrow> wp (result m) Q E w"
  by (auto simp: wp_def result_def split: outcome.splits)

lemma wp_check [wp]: "(b \<Longrightarrow> Q () w) \<Longrightarrow> (\<not> b \<Longrightarrow> E e w) \<Longrightarrow> wp (check e b) Q E w"
  by (simp add: wp_def check_def give_def throw_def)

lemma wp_require [wp]:
  "(\<And>a. x = Some a \<Longrightarrow> Q a w) \<Longrightarrow> (x = None \<Longrightarrow> E e w) \<Longrightarrow> wp (require e x) Q E w"
  by (auto simp: wp_def require_def give_def throw_def split: option.splits)

lemma wp_defined [wp]: "x \<noteq> None \<Longrightarrow> (\<And>a. x = Some a \<Longrightarrow> Q a w) \<Longrightarrow> wp (defined x) Q E w"
  by (auto simp: wp_def defined_def)

lemma wp_last_response [wp]: "Q (response w) w \<Longrightarrow> wp last_response Q E w"
  by (simp add: wp_def last_response_def)

lemma wp_if [wp]: "(b \<Longrightarrow> wp m Q E w) \<Longrightarrow> (\<not> b \<Longrightarrow> wp n Q E w) \<Longrightarrow> wp (if b then m else n) Q E w"
  by simp

lemma wp_always [wp]:
  "wp m (\<lambda>a. wp c (\<lambda>_. Q a) E) (\<lambda>e. wp c (\<lambda>_. E e) E) w \<Longrightarrow> wp (always m c) Q E w"
  by (auto simp: wp_def always_def chain_def result_def give_def throw_def split: outcome.splits)

section \<open>Steps that keep the objects\<close>

definition same :: "'s world \<Rightarrow> 's world \<Rightarrow> bool" where
  "same w w' \<longleftrightarrow> objects w' = objects w \<and> next_block w' = next_block w \<and> response w' = response w"

lemma same_refl [simp]: "same w w"
  by (simp add: same_def)

lemma same_trans: "same w w' \<Longrightarrow> same w' w'' \<Longrightarrow> same w w''"
  by (simp add: same_def)

lemma same_calls [simp]:
  "same w (w'\<lparr>calls := n\<rparr>) = same w w'" "same w (w'\<lparr>next_list := n\<rparr>) = same w w'" "same w (w'\<lparr>registered := r\<rparr>) = same w w'"
  by (simp_all add: same_def)

text \<open>A step that keeps them, whatever it returns.\<close>

definition quiet :: "('s, 'a) op \<Rightarrow> bool" where
  "quiet m \<longleftrightarrow> (\<forall>w. wp m (\<lambda>_. same w) (\<lambda>_. same w) w)"

lemma quietI: "(\<And>w. wp m (\<lambda>_. same w) (\<lambda>_. same w) w) \<Longrightarrow> quiet m"
  by (simp add: quiet_def)

lemma wp_quiet:
  assumes "quiet m" and "\<And>a w'. same w w' \<Longrightarrow> Q a w'" and "\<And>e w'. same w w' \<Longrightarrow> E e w'"
  shows "wp m Q E w"
proof -
  from assms(1) have "wp m (\<lambda>_. same w) (\<lambda>_. same w) w" by (simp add: quiet_def)
  then show ?thesis by (rule wp_mono) (rule assms(2,3), assumption)+
qed

lemma quiet_chain:
  assumes "quiet m" and "\<And>a. quiet (f a)"
  shows "quiet (chain m f)"
proof (rule quietI)
  fix w
  show "wp (chain m f) (\<lambda>_. same w) (\<lambda>_. same w) w"
    by (rule wp_chain, rule wp_quiet [OF assms(1)], rule wp_quiet [OF assms(2)]) (auto elim: same_trans)
qed

lemma quiet_result: "quiet m \<Longrightarrow> quiet (result m)"
  unfolding quiet_def by (auto intro: wp_result)

lemma quiet_basic [simp]:
  "quiet (give x)" "quiet (throw e)" "quiet (check e b)" "quiet (require e y)" "quiet (attempt env e)"
  "quiet (new_list env e)" "quiet (register env a)" "quiet (unregister a)" "quiet last_response"
  by (auto simp: quiet_def wp_def give_def throw_def check_def require_def attempt_def new_list_def chain_def
      register_def unregister_def last_response_def Let_def split: option.splits)

lemma quiet_if: "quiet m \<Longrightarrow> quiet n \<Longrightarrow> quiet (if b then m else n)"
  by simp

lemma quiet_lists [simp]: "quiet (copy_list env l)" "quiet (H5Pcopy env)"
  by (simp_all add: copy_list_def H5Pcopy_def quiet_chain quiet_result)

lemmas wp_quiet_steps [wp] =
  wp_quiet [OF quiet_basic(5)] wp_quiet [OF quiet_basic(6)] wp_quiet [OF quiet_basic(7)]
  wp_quiet [OF quiet_basic(8)] wp_quiet [OF quiet_lists(1)] wp_quiet [OF quiet_lists(2)]

section \<open>Well-behaved environments\<close>

text \<open>
  A version the code tells apart correctly: with 0.8 the server follows links, and the creation properties of a
  group are optional.
\<close>

definition modern :: "server_api_version \<Rightarrow> bool" where
  "modern v \<longleftrightarrow> major v = 0 \<and> minor v = 8"

text \<open>
  What is relied on of a response that parses: the id of an object and of a domain fits its buffer, the response does not describe
  a link that has no id, the version is 0.8, and the creation properties decode inside the buffer.
\<close>

definition reply_ok :: "yajl \<Rightarrow> string \<Rightarrow> bool" where
  "reply_ok y r \<longleftrightarrow>
     (\<forall>t. tree_parse y r = Some t \<longrightarrow>
        parsed_uri y t \<noteq> Inr None \<and>
        (\<forall>u. parsed_uri y t = Inr (Some u) \<longrightarrow> length u < URI_MAX_LENGTH) \<and>
        (\<forall>u. tree_get y t [''root''] yajl_t_string = Some (YString u) \<longrightarrow> length u < URI_MAX_LENGTH) \<and>
        (\<forall>s ok. RV_parse_creation_properties_callback y True t = Inr s \<longrightarrow>
           RV_base64_decode (\<lambda>_. ok) (Some (map byte_of s)) (length s) True None \<noteq> None)) \<and>
     (\<forall>v v'. RV_parse_server_version y r v = (Inr (), v') \<longrightarrow> modern v')"

text \<open>Of yajl: a value that \<open>yajl_tree_get\<close> finds as a string is a C string.\<close>

definition yajl_strings :: "yajl \<Rightarrow> bool" where
  "yajl_strings y \<longleftrightarrow>
     (\<forall>t keys v. tree_get y t keys yajl_t_string = Some v \<longrightarrow> (\<exists>s. v = YString s \<and> CHR 0x00 \<notin> set s))"

definition well_behaved :: "'s env \<Rightarrow> bool" where
  "well_behaved env \<longleftrightarrow>
     yajl_strings (parser env) \<and>
     (\<forall>rq s. reply_ok (parser env) (fst (snd (transfer env rq s)))) \<and>
     (\<forall>t u. escape_url env t = Some u \<longrightarrow> length u \<le> 3 * length t) \<and>
     (\<forall>l bs. encode_list env l = Some bs \<longrightarrow> length bs < 2 ^ 32)"

lemma parsed_uri_string:
  assumes "yajl_strings y" and "tree_get y t [''root''] yajl_t_string \<noteq> None"
  shows "\<exists>u. parsed_uri y t = Inr u"
proof -
  have s: "\<exists>s. v = YString s" if "tree_get y t keys yajl_t_string = Some v" for keys v
    using assms(1) that unfolding yajl_strings_def by blast
  show ?thesis
    using assms(2) by (fastforce simp: parsed_uri_def found_uri_def Let_def dest: s split: option.splits)
qed

lemma parsed_uri_nul:
  assumes "yajl_strings y" and "parsed_uri y t = Inr (Some u)"
  shows "CHR 0x00 \<notin> set u"
proof -
  have s: "\<exists>s. v = YString s \<and> CHR 0x00 \<notin> set s" if "tree_get y t keys yajl_t_string = Some v" for keys v
    using assms(1) that unfolding yajl_strings_def by blast
  show ?thesis
    using assms(2) by (fastforce simp: parsed_uri_def found_uri_def Let_def dest: s split: option.splits if_splits)
qed

text \<open>The buffer of a URI, after it was copied.\<close>

definition URI_ok :: "char option list \<Rightarrow> bool" where
  "URI_ok buf \<longleftrightarrow> length buf = URI_MAX_LENGTH \<and> c_string buf \<noteq> None"

lemma no_URI_ok: "URI_ok no_URI"
  by (simp add: URI_ok_def no_URI_def URI_MAX_LENGTH_def)

lemma URI_ok_length: "URI_ok buf \<Longrightarrow> length buf = URI_MAX_LENGTH"
  by (simp add: URI_ok_def)

lemma copied_URI:
  assumes y: "yajl_strings y" and r: "reply_ok y r" and b: "length buf = URI_MAX_LENGTH"
  shows "\<exists>res buf'. RV_copy_object_URI_callback y r buf = Some (res, buf') \<and>
    (res = Inr () \<longrightarrow> URI_ok buf') \<and> (isl res \<longrightarrow> buf' = buf)"
proof (cases "tree_parse y r")
  case None
  then show ?thesis by (simp add: RV_copy_object_URI_callback_def)
next
  case (Some t)
  show ?thesis
  proof (cases "parsed_uri y t")
    case (Inl e)
    then show ?thesis using Some by (simp add: RV_copy_object_URI_callback_def)
  next
    case (Inr u)
    then obtain s where s: "parsed_uri y t = Inr (Some s)" using r Some unfolding reply_ok_def by (cases u) auto
    have l: "length s < URI_MAX_LENGTH" using r Some s unfolding reply_ok_def by blast
    have n: "CHR 0x00 \<notin> set s" by (rule parsed_uri_nul [OF y s])
    obtain b where "RV_copy_object_URI_callback y r buf = Some (Inr (), b)" "c_string b = Some s"
      using uri_callback_buffer [OF Some s n b] l by auto
    moreover have "length b = URI_MAX_LENGTH"
      using calculation(1) Some s assms(3)
      by (auto simp: RV_copy_object_URI_callback_def write_bytes_def strncpy_bytes_def split: if_splits)
    ultimately show ?thesis by (simp add: URI_ok_def)
  qed
qed

lemma copied_URI_root:
  assumes y: "yajl_strings y" and r: "reply_ok y r" and b: "length buf = URI_MAX_LENGTH"
    and t: "tree_parse y r = Some t" "tree_get y t [''root''] yajl_t_string \<noteq> None"
  shows "\<exists>buf'. RV_copy_object_URI_callback y r buf = Some (Inr (), buf') \<and> URI_ok buf'"
proof -
  obtain u where "parsed_uri y t = Inr u" using parsed_uri_string [OF y t(2)] by blast
  then have "\<exists>buf'. RV_copy_object_URI_callback y r buf = Some (Inr (), buf')"
    using t(1) b
    by (cases u) (auto simp: RV_copy_object_URI_callback_def write_bytes_def strncpy_bytes_def)
  with copied_URI [OF y r b] show ?thesis by auto
qed

section \<open>References\<close>

text \<open>
  \<open>h a\<close> is the number of references to the file \<open>a\<close> that are held outside of the objects, \<open>G\<close> the groups,
  \<open>ow\<close> the file each of them refers to and \<open>N\<close> the objects that are being set up.  With \<open>lk\<close> there may be objects
  that nothing refers to.
\<close>

definition refs :: "(nat \<Rightarrow> nat) \<Rightarrow> nat set \<Rightarrow> (nat \<Rightarrow> nat option) \<Rightarrow> nat \<Rightarrow> nat" where
  "refs h G ow a = h a + card {g \<in> G. ow g = Some a}"

definition file_ready :: "nat \<Rightarrow> RV_object_t \<Rightarrow> bool" where
  "file_ready a ob \<longleftrightarrow>
     domain ob = Some a \<and> handle_path ob \<noteq> None \<and> c_string (URI ob) \<noteq> None \<and>
     (\<forall>f. union ob = File f \<longrightarrow> filepath_name f \<noteq> None \<and> modern (server_version f))"

definition group_ready :: "nat option \<Rightarrow> RV_object_t \<Rightarrow> bool" where
  "group_ready d ob \<longleftrightarrow> d \<noteq> None \<and> domain ob = d \<and> c_string (URI ob) \<noteq> None"

text \<open>What is at the address \<open>a\<close>.\<close>

definition slot ::
  "bool \<Rightarrow> (nat \<Rightarrow> nat) \<Rightarrow> nat set \<Rightarrow> (nat \<Rightarrow> nat option) \<Rightarrow> nat set \<Rightarrow> nat \<Rightarrow> RV_object_t option \<Rightarrow> bool"
where
  "slot lk h G ow N a x \<longleftrightarrow>
     (case x of
        None \<Rightarrow> a \<notin> G \<and> refs h G ow a = 0
      | Some ob \<Rightarrow>
          (if a \<in> G
           then refs h G ow a = 0 \<and> length (URI ob) = URI_MAX_LENGTH \<and> obj_type ob = H5I_GROUP \<and> (\<exists>g. union ob = Group g) \<and>
             (a \<notin> N \<longrightarrow> group_ready (ow a) ob)
           else if refs h G ow a = 0 then lk
           else length (URI ob) = URI_MAX_LENGTH \<and> obj_type ob = H5I_FILE \<and>
             (\<exists>f. union ob = File f \<and> ref_count f = refs h G ow a) \<and> (a \<notin> N \<longrightarrow> file_ready a ob)))"

definition owned ::
  "bool \<Rightarrow> yajl \<Rightarrow> (nat \<Rightarrow> nat) \<Rightarrow> nat set \<Rightarrow> (nat \<Rightarrow> nat option) \<Rightarrow> nat set \<Rightarrow> 's world \<Rightarrow> bool"
where
  "owned lk y h G ow N w \<longleftrightarrow>
     finite G \<and> reply_ok y (response w) \<and> (\<forall>a \<ge> next_block w. objects w a = None) \<and>
     (\<forall>a. slot lk h G ow N a (objects w a))"

lemma owned_same: "owned lk y h G ow N w \<Longrightarrow> same w w' \<Longrightarrow> owned lk y h G ow N w'"
  by (simp add: owned_def same_def)

lemma owned_slot: "owned lk y h G ow N w \<Longrightarrow> objects w a = x \<Longrightarrow> slot lk h G ow N a x"
  by (auto simp: owned_def)

lemma owned_file:
  assumes "owned lk y h G ow N w" and "0 < refs h G ow a"
  obtains ob f where "objects w a = Some ob" "obj_type ob = H5I_FILE" "union ob = File f"
    "ref_count f = refs h G ow a" "length (URI ob) = URI_MAX_LENGTH" "a \<notin> N \<Longrightarrow> file_ready a ob" "a \<notin> G"
  using owned_slot [OF assms(1) refl, of a] assms(2)
  by (cases "objects w a") (auto simp: slot_def split: if_splits)

lemma owned_group:
  assumes "owned lk y h G ow N w" and "a \<in> G"
  obtains ob g where "objects w a = Some ob" "obj_type ob = H5I_GROUP" "union ob = Group g"
    "length (URI ob) = URI_MAX_LENGTH" "a \<notin> N \<Longrightarrow> group_ready (ow a) ob" "refs h G ow a = 0"
  using owned_slot [OF assms(1) refl, of a] assms(2)
  by (cases "objects w a") (auto simp: slot_def split: if_splits)

lemma owned_owner: "owned lk y h G ow N w \<Longrightarrow> g \<in> G \<Longrightarrow> ow g = Some d \<Longrightarrow> 0 < refs h G ow d"
  by (auto simp: owned_def refs_def card_gt_0_iff)

text \<open>A write of an object, with the same references.\<close>

definition put_object :: "nat \<Rightarrow> RV_object_t \<Rightarrow> 's world \<Rightarrow> 's world" where
  "put_object a ob w = w\<lparr>objects := (objects w)(a \<mapsto> ob)\<rparr>"

lemma put_object_simps [simp]:
  "objects (put_object a ob w) = (objects w)(a \<mapsto> ob)" "response (put_object a ob w) = response w"
  "next_block (put_object a ob w) = next_block w"
  by (simp_all add: put_object_def)

lemma owned_put:
  assumes "owned lk y h G ow N w" and "objects w a \<noteq> None" and "slot lk h G ow N a (Some ob)"
  shows "owned lk y h G ow N (put_object a ob w)"
  using assms by (auto simp: owned_def)

lemma slot_other:
  "refs h' G' ow' b = refs h G ow b \<Longrightarrow> (b \<in> G' \<longleftrightarrow> b \<in> G) \<Longrightarrow> (b \<in> N' \<longleftrightarrow> b \<in> N) \<Longrightarrow> (b \<in> G \<Longrightarrow> ow' b = ow b) \<Longrightarrow>
    slot lk h' G' ow' N' b x = slot lk h G ow N b x"
  by (simp add: slot_def split: option.split)

text \<open>A change of the objects and of the references that concerns the addresses in \<open>A\<close> only.\<close>

lemma owned_change:
  assumes "owned lk y h G ow N w" and "finite G'" and "reply_ok y (response w')"
    and "\<And>a. a \<ge> next_block w' \<Longrightarrow> objects w' a = None"
    and "\<And>b. b \<notin> A \<Longrightarrow> refs h' G' ow' b = refs h G ow b \<and> (b \<in> G' \<longleftrightarrow> b \<in> G) \<and> (b \<in> N' \<longleftrightarrow> b \<in> N) \<and>
      (b \<in> G \<longrightarrow> ow' b = ow b) \<and> objects w' b = objects w b"
    and "\<And>a. a \<in> A \<Longrightarrow> slot lk h' G' ow' N' a (objects w' a)"
  shows "owned lk y h' G' ow' N' w'"
proof -
  have "slot lk h' G' ow' N' a (objects w' a)" for a
  proof (cases "a \<in> A")
    case False
    note b = assms(5) [OF False]
    have "slot lk h' G' ow' N' a (objects w a) = slot lk h G ow N a (objects w a)"
      by (rule slot_other) (use b in blast)+
    moreover have "slot lk h G ow N a (objects w a)" by (rule owned_slot [OF assms(1) refl])
    moreover have "objects w' a = objects w a" using b by blast
    ultimately show ?thesis by simp
  qed (rule assms(6))
  then show ?thesis unfolding owned_def by (intro conjI allI impI assms(2-4))
qed

lemma owned_ready:
  assumes "owned lk y h G ow N w" and "slot lk h G ow (N - {a}) a (objects w a)"
  shows "owned lk y h G ow (N - {a}) w"
proof -
  have "finite G" "reply_ok y (response w)" "\<And>a. a \<ge> next_block w \<Longrightarrow> objects w a = None"
    using assms(1) by (simp_all add: owned_def)
  then show ?thesis by (rule owned_change [OF assms(1), of _ _ "{a}"]) (use assms(2) in auto)
qed

lemma owned_busy: "owned lk y h G ow N w \<Longrightarrow> owned lk y h G ow (insert a N) w"
proof -
  assume i: "owned lk y h G ow N w"
  have "slot lk h G ow N a x \<Longrightarrow> slot lk h G ow (insert b N) a x" for a b x
    by (simp add: slot_def split: option.splits if_splits)
  with i show ?thesis by (simp add: owned_def)
qed

section \<open>Steps on objects\<close>

lemma wp_fetch: "objects w a = Some ob \<Longrightarrow> Q ob w \<Longrightarrow> wp (fetch a) Q E w"
  by (simp add: wp_def fetch_def)

lemma wp_fetch_file:
  "d = Some a \<Longrightarrow> objects w a = Some ob \<Longrightarrow> union ob = File f \<Longrightarrow> Q f w \<Longrightarrow> wp (fetch_file d) Q E w"
  by (simp add: wp_def fetch_file_def chain_def defined_def fetch_def give_def)

lemma wp_filename:
  "d = Some a \<Longrightarrow> objects w a = Some ob \<Longrightarrow> union ob = File f \<Longrightarrow> filepath_name f = Some n \<Longrightarrow> Q n w \<Longrightarrow>
    wp (filename d) Q E w"
  by (simp add: wp_def filename_def fetch_file_def chain_def defined_def fetch_def give_def)

lemma wp_store: "objects w a \<noteq> None \<Longrightarrow> Q () (put_object a ob w) \<Longrightarrow> wp (store a ob) Q E w"
  by (simp add: wp_def store_def put_object_def)

lemma wp_update: "objects w a = Some ob \<Longrightarrow> Q () (put_object a (g ob) w) \<Longrightarrow> wp (update a g) Q E w"
  by (simp add: wp_def update_def chain_def fetch_def store_def put_object_def)

lemma wp_update_file:
  "objects w a = Some ob \<Longrightarrow> union ob = File f \<Longrightarrow> Q () (put_object a (ob\<lparr>union := File (g f)\<rparr>) w) \<Longrightarrow>
    wp (update_file a g) Q E w"
  by (simp add: wp_def update_file_def update_def fetch_file_def chain_def defined_def fetch_def give_def store_def put_object_def)

lemma wp_set_lists:
  "objects w a = Some ob \<Longrightarrow> union ob = Group gr \<Longrightarrow> Q () (put_object a (ob\<lparr>union := Group (g gr)\<rparr>) w) \<Longrightarrow>
    wp (set_lists a g) Q E w"
  by (simp add: wp_def set_lists_def chain_def fetch_def store_def put_object_def)

lemma wp_new_block:
  assumes "\<And>w'. same w w' \<Longrightarrow>
      Q (next_block w) (w'\<lparr>objects := (objects w)(next_block w \<mapsto> ob), next_block := next_block w + 1\<rparr>)"
    and "\<And>e w'. same w w' \<Longrightarrow> E e w'"
  shows "wp (new_block env ob) Q E w"
  unfolding new_block_def
proof (rule wp_chain, rule wp_quiet [OF quiet_basic(5)])
  fix w' :: "'a world" assume s: "same w w'"
  then show "wp (\<lambda>w. Val (next_block w) (w\<lparr>objects := (objects w)(next_block w \<mapsto> ob), next_block := next_block w + 1\<rparr>)) Q E w'"
    using assms(1) [OF s] by (simp add: wp_def same_def)
qed (rule assms(2))

text \<open>A transfer keeps the objects and leaves a reply.\<close>

lemma wp_exchange:
  assumes "well_behaved env" and "owned lk (parser env) h G ow N w"
    and "\<And>c w'. owned lk (parser env) h G ow N w' \<Longrightarrow> objects w' = objects w \<Longrightarrow> next_block w' = next_block w \<Longrightarrow> Q c w'"
    and "\<And>e w'. owned lk (parser env) h G ow N w' \<Longrightarrow> objects w' = objects w \<Longrightarrow> next_block w' = next_block w \<Longrightarrow> E e w'"
  shows "wp (exchange env e rq) Q E w"
proof (cases "options_ok env rq")
  case False
  then show ?thesis using assms(2,4) by (simp add: wp_def exchange_def)
next
  case True
  obtain c t s where t: "transfer env rq (server w) = (c, t, s)" by (cases "transfer env rq (server w)")
  have "reply_ok (parser env) (fst (snd (transfer env rq (server w))))" using assms(1) unfolding well_behaved_def by blast
  then have "reply_ok (parser env) t" by (simp add: t)
  then have "owned lk (parser env) h G ow N (w\<lparr>response := t, server := s\<rparr>)"
    using assms(2) by (simp add: owned_def)
  then show ?thesis using True t assms(3,4) by (cases c) (simp_all add: wp_def exchange_def Let_def)
qed

lemma wp_CURL_PERFORM:
  assumes "well_behaved env" and "owned lk (parser env) h G ow N w"
    and "\<And>c w'. HTTP_SUCCESS c \<Longrightarrow> owned lk (parser env) h G ow N w' \<Longrightarrow> objects w' = objects w \<Longrightarrow> next_block w' = next_block w \<Longrightarrow> Q c w'"
    and "\<And>e w'. owned lk (parser env) h G ow N w' \<Longrightarrow> objects w' = objects w \<Longrightarrow> next_block w' = next_block w \<Longrightarrow> E e w'"
  shows "wp (CURL_PERFORM env e rq) Q E w"
  unfolding CURL_PERFORM_def
  by (rule wp_chain, rule wp_exchange [OF assms(1,2)])
    (auto simp: HANDLE_RESPONSE_def HTTP_SUCCESS_def intro!: wp_give wp_throw assms(3,4))

lemma wp_parse_URI:
  assumes "well_behaved env" and "owned lk (parser env) h G ow N w" and "length buf = URI_MAX_LENGTH"
    and "\<And>buf. URI_ok buf \<Longrightarrow> Q buf w" and "\<And>e. E e w"
  shows "wp (parse_URI env e buf) Q E w"
proof -
  obtain res buf' where c: "RV_copy_object_URI_callback (parser env) (response w) buf = Some (res, buf')"
      "res = Inr () \<longrightarrow> URI_ok buf'"
    using copied_URI [of "parser env" "response w" buf] assms(1-3) by (auto simp: well_behaved_def owned_def)
  show ?thesis unfolding parse_URI_def
    by (intro wp_chain wp_last_response wp_defined)
      (cases res; auto simp: c(1) c(2) intro!: wp_chain wp_check wp_give assms(4,5) dest: c(2) [THEN mp])+
qed

lemma wp_parse_version:
  assumes "owned lk (parser env) h G ow N w" and "\<And>v. modern v \<Longrightarrow> Q v w" and "\<And>e. E e w"
  shows "wp (parse_version_of env v) Q E w"
proof -
  have "\<forall>v v'. RV_parse_server_version (parser env) (response w) v = (Inr (), v') \<longrightarrow> modern v'"
    using assms(1) by (simp add: owned_def reply_ok_def)
  then show ?thesis unfolding parse_version_of_def
    by (intro wp_chain wp_last_response) (auto intro!: wp_give wp_throw assms(2,3) split: prod.split sum.split)
qed

section \<open>References taken and dropped\<close>

lemma refs_direct: "refs (h(a := n)) G ow b = (if b = a then n + card {g \<in> G. ow g = Some a} else refs h G ow b)"
  by (simp add: refs_def)

lemma owned_parts:
  assumes "owned lk y h G ow N w"
  shows "finite G" "reply_ok y (response w)" "a \<ge> next_block w \<Longrightarrow> objects w a = None"
  using assms by (simp_all add: owned_def)

lemma owned_below: "owned lk y h G ow N w \<Longrightarrow> objects w a = Some ob \<Longrightarrow> a < next_block w"
  by (metis owned_parts(3) linorder_not_less option.distinct(1))

lemma file_ready_count: "union ob = File f \<Longrightarrow> file_ready a (ob\<lparr>union := File (f\<lparr>ref_count := n\<rparr>)\<rparr>) = file_ready a ob"
  by (simp add: file_ready_def)

text \<open>The last reference frees the file.\<close>

lemma wp_file_close:
  assumes o: "owned lk y h G ow N w" and a: "0 < h a"
    and Q: "\<And>w'. owned lk y (h(a := h a - 1)) G ow N w' \<Longrightarrow> (\<forall>b. b \<noteq> a \<longrightarrow> objects w' b = objects w b) \<Longrightarrow>
      response w' = response w \<Longrightarrow> next_block w' = next_block w \<Longrightarrow> Q () w'"
  shows "wp (RV_file_close (Some a)) Q E w"
proof -
  have "0 < refs h G ow a" using a by (simp add: refs_def)
  from owned_file [OF o this] obtain ob f where ob: "objects w a = Some ob" "obj_type ob = H5I_FILE" "union ob = File f"
    "ref_count f = refs h G ow a" "length (URI ob) = URI_MAX_LENGTH" "a \<notin> N \<Longrightarrow> file_ready a ob" "a \<notin> G" by metis
  let ?h = "h(a := h a - 1)"
  have r: "refs ?h G ow a = refs h G ow a - 1" using a by (simp add: refs_def)
  have change: "owned lk y ?h G ow N w'"
    if "objects w' = (objects w)(a := x)" "response w' = response w" "next_block w' = next_block w" "slot lk ?h G ow N a x"
    for w' :: "'a world" and x
  proof (rule owned_change [OF o, of _ _ "{a}"])
    show "finite G" "reply_ok y (response w')" using owned_parts [OF o] that(2) by simp_all
    show "objects w' b = None" if "b \<ge> next_block w'" for b
      using that owned_parts(3) [OF o, of b] owned_below [OF o ob(1)] \<open>next_block w' = _\<close> \<open>objects w' = _\<close> by auto
  qed (use that in \<open>auto simp: refs_direct\<close>)
  show ?thesis
  proof (cases "ref_count f = 1")
    case True
    then have "slot lk ?h G ow N a None" using r ob(4,7) by (simp add: slot_def)
    then have "Q () (w\<lparr>registered := registered w - {a}, objects := (objects w)(a := None)\<rparr>)"
      by (intro Q change [of _ None]) simp_all
    then show ?thesis using ob True
      by (simp add: wp_def RV_file_close_def chain_def fetch_def check_def give_def fetch_file_def defined_def
          unregister_def free_block_def)
  next
    case False
    let ?ob = "ob\<lparr>union := File (f\<lparr>ref_count := ref_count f - 1\<rparr>)\<rparr>"
    have "slot lk ?h G ow N a (Some ?ob)"
      using r ob False \<open>0 < refs h G ow a\<close> by (auto simp: slot_def file_ready_count)
    then have "Q () (put_object a ?ob w)" by (intro Q change [of _ "Some ?ob"]) simp_all
    then show ?thesis using ob False
      by (simp add: wp_def RV_file_close_def chain_def fetch_def check_def give_def fetch_file_def defined_def
          update_file_def update_def store_def put_object_def)
  qed
qed

lemma wp_add_reference:
  assumes o: "owned lk y h G ow N w" and a: "0 < refs h G ow a"
    and Q: "\<And>w'. owned lk y (h(a := h a + 1)) G ow N w' \<Longrightarrow> (\<forall>b. b \<noteq> a \<longrightarrow> objects w' b = objects w b) \<Longrightarrow>
      response w' = response w \<Longrightarrow> next_block w' = next_block w \<Longrightarrow> Q () w'"
  shows "wp (add_reference (Some a)) Q E w"
proof -
  from owned_file [OF o a] obtain ob f where ob: "objects w a = Some ob" "obj_type ob = H5I_FILE" "union ob = File f"
    "ref_count f = refs h G ow a" "length (URI ob) = URI_MAX_LENGTH" "a \<notin> N \<Longrightarrow> file_ready a ob" "a \<notin> G" by metis
  let ?h = "h(a := h a + 1)" and ?ob = "ob\<lparr>union := File (f\<lparr>ref_count := ref_count f + 1\<rparr>)\<rparr>"
  have r: "refs ?h G ow a = refs h G ow a + 1" by (simp add: refs_def)
  have s: "slot lk ?h G ow N a (Some ?ob)"
    using r ob by (auto simp: slot_def file_ready_count)
  have "owned lk y ?h G ow N (put_object a ?ob w)"
  proof (rule owned_change [OF o, of _ _ "{a}"])
    show "finite G" "reply_ok y (response (put_object a ?ob w))" using owned_parts [OF o] by simp_all
    show "objects (put_object a ?ob w) b = None" if "b \<ge> next_block (put_object a ?ob w)" for b
      using that owned_parts(3) [OF o, of b] owned_below [OF o ob(1)] by auto
  qed (use s in \<open>auto simp: refs_direct\<close>)
  then have "Q () (put_object a ?ob w)" by (rule Q) simp_all
  then show ?thesis unfolding add_reference_def
    by (intro wp_chain wp_defined) (auto intro!: wp_update_file [OF ob(1,3)])
qed

text \<open>A new object: a file with one reference that is held, or a group without a file.\<close>

lemma owned_new_block:
  assumes o: "owned lk y h G ow N w" and s: "slot lk h' G' ow' N' (next_block w) (Some ob)"
    and r: "\<And>b. b \<noteq> next_block w \<Longrightarrow>
      refs h' G' ow' b = refs h G ow b \<and> (b \<in> G' \<longleftrightarrow> b \<in> G) \<and> (b \<in> N' \<longleftrightarrow> b \<in> N) \<and> (b \<in> G \<longrightarrow> ow' b = ow b)"
    and G: "finite G'" and w': "same w w'"
  shows "owned lk y h' G' ow' N' (w'\<lparr>objects := (objects w)(next_block w \<mapsto> ob), next_block := next_block w + 1\<rparr>)"
proof (rule owned_change [OF o, of _ _ "{next_block w}"])
  show "objects (w'\<lparr>objects := (objects w)(next_block w \<mapsto> ob), next_block := next_block w + 1\<rparr>) b = None"
    if "b \<ge> next_block (w'\<lparr>objects := (objects w)(next_block w \<mapsto> ob), next_block := next_block w + 1\<rparr>)" for b
    using that owned_parts(3) [OF o, of b] by simp
qed (use s r G w' owned_parts(2) [OF o] in \<open>auto simp: same_def\<close>)

lemma wp_new_file:
  assumes o: "owned lk y h G ow N w"
    and Q: "\<And>w'. h (next_block w) = 0 \<Longrightarrow> objects w (next_block w) = None \<Longrightarrow> next_block w \<notin> G \<Longrightarrow>
      owned lk y (h(next_block w := 1)) G ow (insert (next_block w) N) w' \<Longrightarrow>
      objects w' = (objects w)(next_block w \<mapsto> new_file fl) \<Longrightarrow> response w' = response w \<Longrightarrow> Q (next_block w) w'"
    and E: "\<And>e w'. same w w' \<Longrightarrow> E e w'"
  shows "wp (new_block env (new_file fl)) Q E w"
proof (rule wp_new_block)
  fix w' assume s: "same w w'"
  let ?a = "next_block w"
  have n: "objects w ?a = None" by (rule owned_parts(3) [OF o]) simp
  with owned_slot [OF o n] have z: "?a \<notin> G" "refs h G ow ?a = 0" by (simp_all add: slot_def)
  then have h: "h ?a = 0" "card {g \<in> G. ow g = Some ?a} = 0" by (simp_all add: refs_def)
  have "slot lk (h(?a := 1)) G ow (insert ?a N) ?a (Some (new_file fl))"
    using z(1) h by (simp add: slot_def new_file_def refs_def no_URI_def URI_MAX_LENGTH_def)
  then show "Q ?a (w'\<lparr>objects := (objects w)(?a \<mapsto> new_file fl), next_block := ?a + 1\<rparr>)"
    using s owned_parts(1) [OF o]
    by (intro Q h(1) n z(1) owned_new_block [OF o]) (auto simp: refs_direct same_def)
qed (rule E)

lemma wp_new_group:
  assumes o: "owned lk y h G ow N w"
    and Q: "\<And>w'. h (next_block w) = 0 \<Longrightarrow> objects w (next_block w) = None \<Longrightarrow> next_block w \<notin> G \<Longrightarrow>
      owned lk y h (insert (next_block w) G) (ow(next_block w := None)) (insert (next_block w) N) w' \<Longrightarrow>
      objects w' = (objects w)(next_block w \<mapsto> new_group d) \<Longrightarrow> response w' = response w \<Longrightarrow> Q (next_block w) w'"
    and E: "\<And>e w'. same w w' \<Longrightarrow> E e w'"
  shows "wp (new_block env (new_group d)) Q E w"
proof (rule wp_new_block)
  fix w' assume s: "same w w'"
  let ?a = "next_block w"
  have n: "objects w ?a = None" by (rule owned_parts(3) [OF o]) simp
  with owned_slot [OF o n] have z: "?a \<notin> G" "refs h G ow ?a = 0" by (simp_all add: slot_def)
  then have h: "h ?a = 0" by (simp add: refs_def)
  have c: "{g \<in> insert ?a G. (ow(?a := None)) g = Some b} = {g \<in> G. ow g = Some b}" for b
    using z(1) by auto
  have r: "refs h (insert ?a G) (ow(?a := None)) b = refs h G ow b" for b
    unfolding refs_def c ..
  have "slot lk h (insert ?a G) (ow(?a := None)) (insert ?a N) ?a (Some (new_group d))"
    using z(2) by (simp add: slot_def new_group_def r no_URI_def URI_MAX_LENGTH_def)
  then show "Q ?a (w'\<lparr>objects := (objects w)(?a \<mapsto> new_group d), next_block := ?a + 1\<rparr>)"
    using s owned_parts(1) [OF o] h
    by (intro Q n z(1) owned_new_block [OF o]) (auto simp: r same_def)
qed (rule E)

text \<open>A held reference becomes the one of a group, and back.\<close>

lemma refs_give:
  assumes "g \<in> G" "ow g = None" "finite G"
  shows "refs h G (ow(g := Some d)) = refs (h(d := h d + 1)) G ow"
proof
  fix a
  have "{x \<in> G. (ow(g := Some d)) x = Some a} = (if a = d then insert g {x \<in> G. ow x = Some a} else {x \<in> G. ow x = Some a})"
    using assms(1,2) by auto
  then show "refs h G (ow(g := Some d)) a = refs (h(d := h d + 1)) G ow a"
    using assms by (simp add: refs_def)
qed

lemma owned_give:
  assumes "owned lk y (h(d := h d + 1)) G ow N w" and "g \<in> G" "ow g = None" "g \<in> N"
  shows "owned lk y h G (ow(g := Some d)) N w"
proof -
  have "slot lk h G (ow(g := Some d)) N a x = slot lk (h(d := h d + 1)) G ow N a x" for a x
    using assms(4) by (simp add: slot_def refs_give [of g G ow h d, OF assms(2,3) owned_parts(1) [OF assms(1)], simplified] split: option.split)
  then show ?thesis using assms(1) by (simp add: owned_def)
qed

lemma owned_take:
  assumes "owned lk y h G ow N w" and "g \<in> G" "ow g = Some d"
  shows "owned lk y (h(d := h d + 1)) G (ow(g := None)) (insert g N) w"
proof -
  have r: "refs (h(d := h d + 1)) G (ow(g := None)) = refs h G ow"
    using refs_give [of g G "ow(g := None)" h d] assms(2,3) owned_parts(1) [OF assms(1)] by (simp add: fun_upd_idem)
  have "slot lk (h(d := h d + 1)) G (ow(g := None)) (insert g N) a x" if "slot lk h G ow N a x" for a x
    using that by (simp add: slot_def r [simplified] split: option.splits if_splits)
  then show ?thesis using assms(1) by (simp add: owned_def)
qed

end
