(* ===== verification/Object_Life.thy ===== *)
theory Object_Life
  imports Object_Logic
begin

text \<open>
  Files and groups from their opening to their closing: what each operation does to the references, whatever the
  server replies and whichever call fails.
\<close>

section \<open>Setting up a file\<close>

definition building ::
  "bool \<Rightarrow> yajl \<Rightarrow> (nat \<Rightarrow> nat) \<Rightarrow> nat set \<Rightarrow> (nat \<Rightarrow> nat option) \<Rightarrow> nat set \<Rightarrow> nat \<Rightarrow> RV_object_t \<Rightarrow> 's world \<Rightarrow> bool"
where
  "building lk y h G ow N a ob w \<longleftrightarrow> owned lk y h G ow N w \<and> objects w a = Some ob \<and> a \<in> N \<and> a \<notin> G \<and>
     0 < refs h G ow a"

lemma building_owned: "building lk y h G ow N a ob w \<Longrightarrow> owned lk y h G ow N w"
  by (simp add: building_def)

lemma building_quiet:
  assumes "quiet m" and "building lk y h G ow N a ob w"
    and "\<And>x w'. building lk y h G ow N a ob w' \<Longrightarrow> Q x w'" and "\<And>e w'. building lk y h G ow N a ob w' \<Longrightarrow> E e w'"
  shows "wp m Q E w"
  by (rule wp_quiet [OF assms(1)])
    (use assms(2) in \<open>auto intro!: assms(3,4) simp: building_def same_def elim!: owned_same\<close>)

lemma building_length: "building lk y h G ow N a ob w \<Longrightarrow> length (URI ob) = URI_MAX_LENGTH"
  using owned_slot [of lk y h G ow N w a] by (auto simp: building_def slot_def split: if_splits)

lemma building_put:
  assumes b: "building lk y h G ow N a ob w" and "obj_type ob' = obj_type ob" "length (URI ob') = length (URI ob)"
    and "union ob' = union ob \<or> (\<exists>f f'. union ob = File f \<and> union ob' = File f' \<and> ref_count f' = ref_count f)"
  shows "building lk y h G ow N a ob' (put_object a ob' w)"
proof -
  have o: "owned lk y h G ow N w" "objects w a = Some ob" "a \<in> N" "a \<notin> G" "0 < refs h G ow a" using b by (simp_all add: building_def)
  have "slot lk h G ow N a (Some ob')"
    using owned_slot [OF o(1,2)] o(3-5) assms(2-4) by (auto simp: slot_def)
  then have "owned lk y h G ow N (put_object a ob' w)" using o by (intro owned_put) simp_all
  then show ?thesis using o by (simp add: building_def)
qed

lemma building_update:
  assumes "building lk y h G ow N a ob w" and "obj_type (g ob) = obj_type ob" "length (URI (g ob)) = length (URI ob)"
    "union (g ob) = union ob"
    and "\<And>w'. building lk y h G ow N a (g ob) w' \<Longrightarrow> Q () w'"
  shows "wp (update a g) Q E w"
proof -
  have "objects w a = Some ob" using assms(1) by (simp add: building_def)
  then show ?thesis by (rule wp_update) (intro assms(5) building_put [OF assms(1)] disjI1 assms(2-4))
qed

lemma building_update_file:
  assumes "building lk y h G ow N a ob w" and "union ob = File f" "ref_count (g f) = ref_count f"
    and "\<And>w'. building lk y h G ow N a (ob\<lparr>union := File (g f)\<rparr>) w' \<Longrightarrow> Q () w'"
  shows "wp (update_file a g) Q E w"
proof -
  have "objects w a = Some ob" using assms(1) by (simp add: building_def)
  then show ?thesis
    by (rule wp_update_file [OF _ assms(2)]) (intro assms(4) building_put [OF assms(1)]; simp add: assms(2,3))
qed

lemma building_exchange:
  assumes "well_behaved env" and "building lk (parser env) h G ow N a ob w"
    and "\<And>x w'. building lk (parser env) h G ow N a ob w' \<Longrightarrow> Q x w'"
    and "\<And>e w'. building lk (parser env) h G ow N a ob w' \<Longrightarrow> E e w'"
  shows "wp (exchange env e rq) Q E w" and "wp (CURL_PERFORM env e rq) Q E w"
proof -
  have b: "building lk (parser env) h G ow N a ob w'"
    if "owned lk (parser env) h G ow N w'" "objects w' = objects w" for w'
    using that assms(2) by (simp add: building_def)
  show "wp (exchange env e rq) Q E w" "wp (CURL_PERFORM env e rq) Q E w"
    by (rule wp_exchange [OF assms(1) building_owned [OF assms(2)]] wp_CURL_PERFORM [OF assms(1) building_owned [OF assms(2)]];
        intro assms(3,4) b; assumption)+
qed

lemma wp_describe_file:
  fixes w :: "'s world"
  assumes "well_behaved env" and b: "building lk (parser env) h G ow N a ob w" and f: "union ob = File f"
    and Q: "\<And>w' buf v. building lk (parser env) h G ow N a (ob\<lparr>URI := buf, union := File (f\<lparr>server_version := v\<rparr>)\<rparr>) w' \<Longrightarrow>
      URI_ok buf \<Longrightarrow> modern v \<Longrightarrow> Q () w'"
    and E: "\<And>e ob w'. building lk (parser env) h G ow N a ob w' \<Longrightarrow> E e w'"
  shows "wp (describe_file env e a) Q E w"
  unfolding describe_file_def
proof (rule wp_chain, rule wp_fetch, use b in \<open>simp add: building_def\<close>, rule wp_chain,
    rule wp_parse_URI [OF assms(1) building_owned [OF b] building_length [OF b]])
  fix buf assume buf: "URI_ok buf"
  show "wp (chain (update a (\<lambda>ob. ob\<lparr>URI := buf\<rparr>)) (\<lambda>_. chain (fetch_file (Some a)) (\<lambda>f.
      chain (parse_version_of env (server_version f)) (\<lambda>v. update_file a (\<lambda>f. f\<lparr>server_version := v\<rparr>))))) Q E w"
  proof (rule wp_chain, rule building_update [OF b])
    fix w' :: "'s world" assume b': "building lk (parser env) h G ow N a (ob\<lparr>URI := buf\<rparr>) w'"
    then have o: "objects w' a = Some (ob\<lparr>URI := buf\<rparr>)" by (simp add: building_def)
    show "wp (chain (fetch_file (Some a)) (\<lambda>f.
      chain (parse_version_of env (server_version f)) (\<lambda>v. update_file a (\<lambda>f. f\<lparr>server_version := v\<rparr>)))) Q E w'"
    proof (rule wp_chain, rule wp_fetch_file [OF refl o], simp add: f, rule wp_chain,
        rule wp_parse_version [OF building_owned [OF b']])
      fix v assume v: "modern v"
      show "wp (update_file a (\<lambda>f. f\<lparr>server_version := v\<rparr>)) Q E w'"
        by (rule building_update_file [OF b']) (use f buf v in \<open>auto intro: Q\<close>)
    qed (rule E [OF b'])
  qed (use buf building_length [OF b] in \<open>simp_all add: URI_ok_length\<close>)
qed (rule E [OF b])

lemma new_file_simps [simp]:
  "obj_type (new_file fl) = H5I_FILE" "URI (new_file fl) = no_URI"
  "union (new_file fl) = File \<lparr>intent = fl, ref_count = 1, filepath_name = None, fcpl_id = Invalid, fapl_id = Invalid,
     server_version = unset_version\<rparr>"
  by (simp_all add: new_file_def)

lemma building_ready:
  assumes "building lk y h G ow N a ob w" and "file_ready a ob"
  shows "owned lk y h G ow (N - {a}) w"
proof (rule owned_ready)
  show "owned lk y h G ow N w" using assms(1) by (simp add: building_def)
  show "slot lk h G ow (N - {a}) a (objects w a)"
    using owned_slot [of lk y h G ow N w a, OF _ refl] assms by (auto simp: building_def slot_def)
qed

lemma owned_gone:
  assumes "owned lk y h G ow N w" and "a \<notin> G" "refs h G ow a = 0"
  shows "owned lk y h G ow (N - {a}) w"
  by (rule owned_ready [OF assms(1)])
    (use owned_slot [OF assms(1) refl, of a] assms(2,3) in \<open>auto simp: slot_def split: option.splits\<close>)

lemma owned_gone_iff:
  assumes "owned lk y h G ow (insert a N) w" and "a \<notin> G" "refs h G ow a = 0"
  shows "owned lk y h G ow N w"
  using owned_gone [OF assms] by (cases "a \<in> N") (use assms(1) in \<open>auto simp: insert_absorb\<close>)

text \<open>
  A new file: when its setting up fails it is closed again, and when it ends the file is held.
\<close>

lemma wp_new_file_cleanup:
  fixes w :: "'s world"
  assumes o: "owned lk y h G ow N w"
    and Q: "\<And>a w'. h a = 0 \<Longrightarrow> a \<notin> G \<Longrightarrow> objects w a = None \<Longrightarrow> owned lk y (h(a := 1)) G ow (N - {a}) w' \<Longrightarrow> Q a w'"
    and E: "\<And>e w'. owned lk y h G ow N w' \<Longrightarrow> E e w'"
    and sets: "\<And>a h N (w :: 's world) Q E. building lk y h G ow N a (new_file fl) w \<Longrightarrow>
      (\<And>ob w'. building lk y h G ow N a ob w' \<Longrightarrow> file_ready a ob \<Longrightarrow> Q a w') \<Longrightarrow>
      (\<And>e ob w'. building lk y h G ow N a ob w' \<Longrightarrow> E e w') \<Longrightarrow> wp (m a) Q E w"
  shows "wp (chain (new_block env (new_file fl)) (\<lambda>a. cleanup (m a) (RV_file_close (Some a)))) Q E w"
proof (rule wp_chain, rule wp_new_file [OF o])
  fix w1 :: "'s world"
  let ?a = "next_block w" and ?N = "insert (next_block w) N"
  let ?h = "h(?a := 1)"
  assume a: "h ?a = 0" "objects w ?a = None" "?a \<notin> G" and o1: "owned lk y ?h G ow ?N w1"
    and w1: "objects w1 = (objects w)(?a \<mapsto> new_file fl)"
  have b: "building lk y ?h G ow ?N ?a (new_file fl) w1"
    using o1 w1 a by (simp add: building_def refs_def)
  have h: "?h(?a := ?h ?a - 1) = h" using a(1) by auto
  have "refs h G ow ?a = 0" using owned_slot [OF o a(2)] by (simp add: slot_def)
  note N = owned_gone_iff [OF _ a(3) this]
  show "wp (cleanup (m ?a) (RV_file_close (Some ?a))) Q E w1"
  proof (rule wp_cleanup, rule sets [OF b])
    fix ob and w' :: "'s world" assume r: "building lk y ?h G ow ?N ?a ob w'" "file_ready ?a ob"
    have "owned lk y ?h G ow (N - {?a}) w'" using building_ready [OF r] by (simp add: insert_Diff_if)
    then show "Q ?a w'" by (rule Q [OF a(1,3,2)])
  next
    fix e ob and w' :: "'s world" assume "building lk y ?h G ow ?N ?a ob w'"
    from building_owned [OF this] show "wp (RV_file_close (Some ?a)) (\<lambda>_. E e) (\<lambda>_. E e) w'"
    proof (rule wp_file_close)
      fix w2 :: "'s world" assume "owned lk y (?h(?a := ?h ?a - 1)) G ow ?N w2"
      then have "owned lk y h G ow ?N w2" unfolding h .
      then show "E e w2" by (rule E [OF N])
    qed simp
  qed
qed (rule E [OF owned_same [OF o]], assumption)

lemma encode_total:
  assumes "length bs < 2 ^ 32"
  shows "RV_base64_encode (\<lambda>_. ok) (Some bs) True (Some 0) \<noteq> None"
proof (cases ok)
  case True
  then show ?thesis using encode_ok [of bs "\<lambda>_. ok" "Some 0"] assms by auto
next
  case False
  then show ?thesis by (simp add: RV_base64_encode_def initial_buffer_def)
qed

lemma quiet_encoded_list:
  assumes "well_behaved env"
  shows "quiet (encoded_list env l)"
proof (cases "encode_list env l")
  case None
  then show ?thesis
    by (simp add: encoded_list_def quiet_def wp_def chain_def Objects.require_def throw_def)
next
  case (Some bs)
  then have "length bs < 2 ^ 32" using assms unfolding well_behaved_def by blast
  note n = encode_total [OF this]
  have g: "chain (Objects.require e (Some bs)) f = f bs" for e and f :: "u8 list \<Rightarrow> ('a, string) op"
    by (simp add: fun_eq_iff chain_def Objects.require_def give_def)
  have "quiet (\<lambda>w. defined (RV_base64_encode (\<lambda>_. succeeds env (calls w)) (Some bs) True (Some 0)) (w\<lparr>calls := calls w + 1\<rparr>))"
    using n by (fastforce simp: quiet_def wp_def defined_def split: option.split)
  then show ?thesis unfolding encoded_list_def Some g
    by (intro quiet_chain quiet_basic) (simp_all split: sum.split)
qed

lemmas building_steps =
  wp_chain wp_give wp_if wp_check building_quiet [OF quiet_basic(5)] building_quiet [OF quiet_basic(6)]
  building_quiet [OF quiet_basic(7)] building_quiet [OF quiet_lists(1)] building_update building_update_file

lemma wp_opened_file:
  fixes w :: "'s world"
  assumes env: "well_behaved env" and b: "building lk (parser env) h G ow N a (new_file fl) w"
    and fin: "\<And>ob w'. building lk (parser env) h G ow N a ob w' \<Longrightarrow> file_ready a ob \<Longrightarrow> Q a w'"
    and fails: "\<And>e ob w'. building lk (parser env) h G ow N a ob w' \<Longrightarrow> E e w'"
  shows "wp (opened_file env name fapl a) Q E w"
  unfolding opened_file_def name_file_def
  by (insert b) (assumption | rule building_steps env | rule building_exchange(2) [OF env] wp_describe_file [OF env]
      | (rule fails, assumption) | (rule fin, assumption) | (simp add: file_ready_def URI_ok_def; fail))+

lemma wp_created_file:
  fixes w :: "'s world"
  assumes env: "well_behaved env" and b: "building lk (parser env) h G ow N a (new_file fl) w"
    and fin: "\<And>ob w'. building lk (parser env) h G ow N a ob w' \<Longrightarrow> file_ready a ob \<Longrightarrow> Q a w'"
    and fails: "\<And>e ob w'. building lk (parser env) h G ow N a ob w' \<Longrightarrow> E e w'"
  shows "wp (created_file env name flags fcpl fapl a) Q E w"
  unfolding created_file_def name_file_def truncate_file_def
  by (insert b) (assumption | rule building_steps env building_quiet [OF quiet_encoded_list [OF env]]
      | rule building_exchange [OF env] wp_describe_file [OF env]
      | (rule fails, assumption) | (rule fin, assumption) | (simp add: file_ready_def URI_ok_def; fail))+

lemma wp_file_open:
  fixes w :: "'s world"
  assumes env: "well_behaved env" and o: "owned lk (parser env) h G ow N w"
    and Q: "\<And>a w'. h a = 0 \<Longrightarrow> a \<notin> G \<Longrightarrow> objects w a = None \<Longrightarrow> owned lk (parser env) (h(a := 1)) G ow (N - {a}) w' \<Longrightarrow> Q a w'"
    and E: "\<And>e w'. owned lk (parser env) h G ow N w' \<Longrightarrow> E e w'"
  shows "wp (RV_file_open env name flags fapl) Q E w"
  unfolding RV_file_open_def
  by (intro wp_chain wp_check wp_new_file_cleanup [OF o Q E wp_opened_file [OF env]] E [OF o])

lemma wp_file_create:
  fixes w :: "'s world"
  assumes env: "well_behaved env" and o: "owned lk (parser env) h G ow N w"
    and Q: "\<And>a w'. h a = 0 \<Longrightarrow> a \<notin> G \<Longrightarrow> objects w a = None \<Longrightarrow> owned lk (parser env) (h(a := 1)) G ow (N - {a}) w' \<Longrightarrow> Q a w'"
    and E: "\<And>e w'. owned lk (parser env) h G ow N w' \<Longrightarrow> E e w'"
  shows "wp (RV_file_create env name flags fcpl fapl) Q E w"
  unfolding RV_file_create_def
  by (intro wp_chain wp_check wp_new_file_cleanup [OF o Q E wp_created_file [OF env]] E [OF o])

end
