(* ===== verification/Group_Life.thy ===== *)
theory Group_Life
  imports Object_Life
begin

text \<open>
  Groups from their opening to their closing, with a server that follows links: what a search keeps of the references,
  what the callback does that may replace the domain of what it finds, and what each operation on groups does.
\<close>

section \<open>The search with a server that follows links\<close>

lemma chain_require: "chain (Objects.require e (Some x)) f = f x"
  by (simp add: fun_eq_iff chain_def Objects.require_def give_def)

definition still :: "'s world \<Rightarrow> 's world \<Rightarrow> bool" where
  "still w w' \<longleftrightarrow> objects w' = objects w \<and> next_block w' = next_block w"

lemma still_same: "same w w' \<Longrightarrow> still w w'"
  by (simp add: still_def same_def)

lemma wp_transfer:
  assumes "well_behaved env" and "reply_ok (parser env) (response w)"
    and "\<And>c w'. HTTP_SUCCESS c \<Longrightarrow> still w w' \<Longrightarrow> reply_ok (parser env) (response w') \<Longrightarrow> Q c w'"
    and "\<And>e w'. still w w' \<Longrightarrow> reply_ok (parser env) (response w') \<Longrightarrow> E e w'"
  shows "wp (CURL_PERFORM env e rq) Q E w"
proof -
  obtain c t s where t: "transfer env rq (server w) = (c, t, s)" by (cases "transfer env rq (server w)")
  have "reply_ok (parser env) (fst (snd (transfer env rq (server w))))" using assms(1) unfolding well_behaved_def by blast
  then have "reply_ok (parser env) t" by (simp add: t)
  then show ?thesis
    using t assms(2-4)
    by (cases c) (auto simp: wp_def CURL_PERFORM_def chain_def exchange_def Let_def HANDLE_RESPONSE_def HTTP_SUCCESS_def
        give_def throw_def still_def)
qed

lemma url_encode_total:
  assumes "\<And>t u. esc t = Some u \<Longrightarrow> length u \<le> 3 * length t" and "length path < 2 ^ 61"
  shows "H5_rest_url_encode_path (\<lambda>_. ok) esc (Some path) \<noteq> None"
proof (cases ok)
  case True
  then show ?thesis using url_encoded [of esc path "\<lambda>_. ok"] assms by (simp split: option.split)
next
  case False
  then show ?thesis by (simp add: H5_rest_url_encode_path_def Let_def)
qed

lemma quiet_encoded_path:
  fixes env :: "'s env"
  assumes "well_behaved env" and "length path < 2 ^ 61"
  shows "quiet (encoded_path env path)"
proof (rule quietI)
  fix w :: "'s world"
  have "H5_rest_url_encode_path (\<lambda>_. succeeds env (calls w)) (escape_url env) (Some path) \<noteq> None"
    using assms by (intro url_encode_total) (auto simp: well_behaved_def)
  then show "wp (encoded_path env path) (\<lambda>_. same w) (\<lambda>_. same w) w"
    by (auto simp: wp_def encoded_path_def chain_def defined_def give_def throw_def split: sum.split prod.split)
qed

lemma length_skip_dots: "length (skip_dots s) \<le> length s"
  by (induction s rule: skip_dots.induct) auto

lemma prepare_path_length:
  assumes "prepare_path pt t path = (p, r, t')"
  shows "length p \<le> length path"
proof -
  define s where "s = dropWhile (\<lambda>c. c = CHR '' '') path"
  have "length s \<le> length path" unfolding s_def by (rule length_dropWhile_le)
  moreover have "p = s \<or> p = skip_dots s"
    using assms unfolding prepare_path_def s_def [symmetric] Let_def by (simp split: if_splits)
  ultimately show ?thesis using length_skip_dots [of s] by auto
qed

lemma quiet_parse_type: "quiet (parse_type_of env t)"
  unfolding parse_type_of_def by (intro quiet_chain quiet_basic) (auto split: prod.split sum.split)

text \<open>What a search needs of the object it starts from.\<close>

definition searchable :: "'s world \<Rightarrow> nat \<Rightarrow> bool" where
  "searchable w p \<longleftrightarrow>
     (\<exists>ob d fob f. objects w p = Some ob \<and> (obj_type ob = H5I_FILE \<or> obj_type ob = H5I_GROUP) \<and>
        c_string (URI ob) \<noteq> None \<and> domain ob = Some d \<and> objects w d = Some fob \<and> union fob = File f \<and>
        filepath_name f \<noteq> None \<and> modern (server_version f))"

lemma modern_follows: "modern v \<Longrightarrow> follows_links v"
  by (simp add: modern_def follows_links_def SERVER_VERSION_MATCHES_OR_EXCEEDS_def)

definition steady :: "'s env \<Rightarrow> (loc_info \<Rightarrow> 's world \<Rightarrow> bool) \<Rightarrow> bool" where
  "steady env I \<longleftrightarrow>
     (\<forall>loc w w'. I loc w \<longrightarrow> reply_ok (parser env) (response w) \<and>
        (still w w' \<longrightarrow> reply_ok (parser env) (response w') \<longrightarrow> I loc w'))"

text \<open>What a callback keeps, when it is called on the last response.\<close>

definition keeps :: "'s env \<Rightarrow> (loc_info \<Rightarrow> 's world \<Rightarrow> bool) \<Rightarrow> 's found_callback \<Rightarrow> bool" where
  "keeps env I cb \<longleftrightarrow>
     (\<forall>loc w. I loc w \<longrightarrow>
        wp (cb (response w) loc) (\<lambda>loc' w'. I loc' w' \<and> URI_ok (loc_URI loc')) (\<lambda>_. I loc) w)"

lemma wp_find:
  assumes env: "well_behaved env" and I: "steady env I" "keeps env I cb" "I loc w"
    and p: "searchable w p" and path: "\<And>s. path = Some s \<Longrightarrow> length s < 2 ^ 61"
    and Q: "\<And>t loc' w'. I loc' w' \<Longrightarrow> URI_ok (loc_URI loc') \<Longrightarrow> Q (True, t, loc') w'"
    and E: "\<And>e w'. I loc w' \<Longrightarrow> E e w'"
  shows "wp (RV_find_object_by_path (Suc fuel) env p path t cb loc) Q E w"
proof -
  from p obtain ob d fob f where p: "objects w p = Some ob" "obj_type ob = H5I_FILE \<or> obj_type ob = H5I_GROUP"
    "c_string (URI ob) \<noteq> None" "domain ob = Some d" "objects w d = Some fob" "union fob = File f"
    "filepath_name f \<noteq> None" "modern (server_version f)" unfolding searchable_def by blast
  from p(7) obtain n where n: "filepath_name f = Some n" by blast
  note fl = modern_follows [OF p(8)]
  show ?thesis
  proof (cases path)
    case None
    then show ?thesis using E [OF I(3)] by (simp add: wp_def chain_def Objects.require_def throw_def)
  next
    case (Some s)
    obtain q r t' where q: "prepare_path (obj_type ob) t s = (q, r, t')" by (cases "prepare_path (obj_type ob) t s") auto
    have l: "length q < 2 ^ 61" using prepare_path_length [OF q] path [OF Some] by simp
    have keep: "I loc w'" if "still w w'" "reply_ok (parser env) (response w')" for w'
      using I(1,3) that unfolding steady_def by blast
    have r0: "reply_ok (parser env) (response w)" using I(1,3) unfolding steady_def by blast
    have quiet_url: "quiet (new_server_url env ob q r)"
      using p(3) unfolding new_server_url_def URI_of_def
      by (intro quiet_chain quiet_encoded_path env l) (auto simp: quiet_def wp_def chain_def defined_def give_def)
    have found: "wp (chain (parse_type_of env t') (\<lambda>t. call_found cb (HTTP_SUCCESS c) t loc)) Q E w'"
      if c: "HTTP_SUCCESS c" and w': "still w w'" "reply_ok (parser env) (response w')" for c w'
    proof (rule wp_chain, rule wp_quiet [OF quiet_parse_type])
      fix t w2 assume s: "same w' w2"
      then have "I loc w2" using w' by (intro keep) (auto simp: still_def same_def)
      then have "wp (cb (response w2) loc) (\<lambda>loc' w'. I loc' w' \<and> URI_ok (loc_URI loc')) (\<lambda>_. I loc) w2"
        using I(2) unfolding keeps_def by blast
      then have "wp (cb (response w2) loc) (\<lambda>loc'. Q (True, t, loc')) (\<lambda>e w. E (Simple H5E_CALLBACK) w) w2"
        by (rule wp_mono) (auto intro: Q E)
      then show "wp (call_found cb (HTTP_SUCCESS c) t loc) Q E w2"
        using c by (simp add: call_found_def wp_def chain_def last_response_def result_def give_def throw_def split: outcome.splits)
    next
      fix e w2 assume "same w' w2"
      then show "E e w2" using w' by (intro E keep) (auto simp: still_def same_def)
    qed
    have err: "E e w'" if "same w w'" for e w'
      using that r0 by (intro E keep) (auto simp: same_def still_def)
    have fetched: "wp (chain (filename (domain ob)) m) Q E w'" if "wp (m n) Q E w'" "same w w'" for m w'
      using that p n by (intro wp_chain wp_filename) (auto simp: same_def)
    have sent: "wp (chain (attempt env e) (\<lambda>_. chain (CURL_PERFORM env e' rq) (\<lambda>c.
        chain (parse_type_of env t') (\<lambda>t. call_found cb (HTTP_SUCCESS c) t loc)))) Q E w'"
      if w': "same w w'" for e e' rq w'
    proof (rule wp_chain, rule wp_quiet [OF quiet_basic(5)], rule wp_chain, rule wp_transfer [OF env])
      fix w2 assume "same w' w2"
      then show "reply_ok (parser env) (response w2)" using w' r0 by (simp add: same_def)
    next
      fix c w2 w3 assume a: "HTTP_SUCCESS c" "same w' w2" "still w2 w3" "reply_ok (parser env) (response w3)"
      then show "wp (chain (parse_type_of env t') (\<lambda>t. call_found cb (HTTP_SUCCESS c) t loc)) Q E w3"
        using w' by (intro found) (simp_all add: same_def still_def)
    next
      fix e w2 w3 assume "same w' w2" "still w2 w3" "reply_ok (parser env) (response w3)"
      then show "E e w3" using w' by (intro E keep) (simp_all add: same_def still_def)
    next
      fix e w2 assume "same w' w2"
      then show "E e w2" using w' by (intro err) (rule same_trans)
    qed
    show ?thesis
      unfolding Some RV_find_object_by_path.simps
      by (simp only: chain_require, rule wp_chain, rule wp_fetch, rule p(1), rule wp_chain, rule wp_check,
          rule wp_chain, rule wp_fetch_file, rule p(4), rule p(5), rule p(6),
          simp only: Let_def q fl prod.case if_True,
          rule wp_chain, rule wp_quiet [OF quiet_url], rule wp_chain, rule wp_check,
          rule fetched, rule sent)
        (auto intro: err)
  qed
qed

section \<open>The callbacks\<close>

lemma wp_URI_callback:
  assumes y: "yajl_strings (parser env)" and r: "reply_ok (parser env) r" and l: "length (loc_URI loc) = URI_MAX_LENGTH"
    and Q: "\<And>buf. URI_ok buf \<Longrightarrow> Q (loc\<lparr>loc_URI := buf\<rparr>) w" and E: "\<And>e. E e w"
  shows "wp (URI_callback env r loc) Q E w"
proof -
  obtain res buf where c: "RV_copy_object_URI_callback (parser env) r (loc_URI loc) = Some (res, buf)"
    "res = Inr () \<longrightarrow> URI_ok buf" using copied_URI [OF y r l] by blast
  show ?thesis
    using c(2) by (cases res) (auto simp: URI_callback_def c(1) wp_def chain_def defined_def give_def throw_def intro: Q E)
qed

lemma wp_URI_callback_root:
  assumes y: "yajl_strings (parser env)" and r: "reply_ok (parser env) r" and l: "length (loc_URI loc) = URI_MAX_LENGTH"
    and t: "tree_parse (parser env) r = Some t" "tree_get (parser env) t [''root''] yajl_t_string \<noteq> None"
    and Q: "\<And>buf. URI_ok buf \<Longrightarrow> Q (loc\<lparr>loc_URI := buf\<rparr>) w"
  shows "wp (URI_callback env r loc) Q E w"
proof -
  obtain buf where c: "RV_copy_object_URI_callback (parser env) r (loc_URI loc) = Some (Inr (), buf)" "URI_ok buf"
    using copied_URI_root [OF y r l t] by blast
  then show ?thesis using Q [OF c(2)] by (simp add: URI_callback_def wp_def chain_def defined_def give_def)
qed

lemma URI_callback_keeps:
  assumes env: "well_behaved env" and I: "\<And>loc w. I loc w \<longleftrightarrow> P w \<and> length (loc_URI loc) = URI_MAX_LENGTH"
    and P: "\<And>w. P w \<Longrightarrow> reply_ok (parser env) (response w)"
  shows "keeps env I (URI_callback env)"
  unfolding keeps_def
proof (intro allI impI)
  fix loc w assume i: "I loc w"
  have "yajl_strings (parser env)" using env by (simp add: well_behaved_def)
  then show "wp (URI_callback env (response w) loc) (\<lambda>loc' w'. I loc' w' \<and> URI_ok (loc_URI loc')) (\<lambda>_. I loc) w"
    by (rule wp_URI_callback) (use i in \<open>auto simp: I P URI_ok_length\<close>)
qed

text \<open>
  The group \<open>g\<close> that is opened refers to the domain that was found; the domain it replaces loses that reference.
\<close>

definition decodable :: "string \<Rightarrow> bool" where
  "decodable s \<longleftrightarrow> (\<forall>ok. RV_base64_decode (\<lambda>_. ok) (Some (map byte_of s)) (length s) True None \<noteq> None)"

definition loc_owned ::
  "bool \<Rightarrow> yajl \<Rightarrow> (nat \<Rightarrow> nat) \<Rightarrow> nat set \<Rightarrow> (nat \<Rightarrow> nat option) \<Rightarrow> nat set \<Rightarrow> nat \<Rightarrow> loc_info \<Rightarrow> 's world \<Rightarrow> bool"
where
  "loc_owned lk y h G ow N g loc w \<longleftrightarrow>
     (\<exists>M \<subseteq> N. owned lk y h G (ow(g := loc_domain loc)) M w \<and> g \<in> M \<and> (\<exists>d. loc_domain loc = Some d \<and> d \<notin> M)) \<and>
     g \<in> G \<and> length (loc_URI loc) = URI_MAX_LENGTH \<and> (\<forall>s. GCPL_base64 loc = Some s \<longrightarrow> decodable s)"

text \<open>The allocations succeed, or objects may leak.\<close>

definition leak_or_alloc :: "bool \<Rightarrow> 's env \<Rightarrow> bool" where
  "leak_or_alloc lk env \<longleftrightarrow> lk \<or> (\<forall>n. succeeds env n)"

lemma owned_leak:
  assumes "building True y (h(a := 1)) G ow (insert a N) a ob w" and "h a = 0" "refs h G ow a = 0"
  shows "owned True y h G ow N w"
proof -
  have b: "owned True y (h(a := 1)) G ow (insert a N) w" "a \<notin> G" using assms(1) by (simp_all add: building_def)
  show ?thesis
  proof (rule owned_change [OF b(1), of _ _ "{a}"])
    show "finite G" "reply_ok y (response w)" "\<And>a. a \<ge> next_block w \<Longrightarrow> objects w a = None"
      by (rule owned_parts [OF b(1)], assumption?)+
  qed (use assms(3) b(2) in \<open>auto simp: refs_direct slot_def split: option.split\<close>)
qed

lemma building_attempt:
  assumes la: "leak_or_alloc lk env" and b: "building lk y (h(a := 1)) G ow (insert a N) a ob w"
    and h: "h a = 0" "refs h G ow a = 0"
    and Q: "\<And>w'. building lk y (h(a := 1)) G ow (insert a N) a ob w' \<Longrightarrow> Q () w'"
    and E: "\<And>e w'. owned lk y h G ow N w' \<Longrightarrow> E e w'"
  shows "wp (attempt env e) Q E w"
proof -
  let ?w = "w\<lparr>calls := calls w + 1\<rparr>"
  have b': "building lk y (h(a := 1)) G ow (insert a N) a ob ?w"
    using b by (simp add: building_def owned_def)
  have "E e ?w" if "\<not> succeeds env (calls w)"
  proof -
    have lk using la that by (auto simp: leak_or_alloc_def)
    with owned_leak [of y h a G ow N ob ?w] b' h show ?thesis by (intro E) simp
  qed
  then show ?thesis using Q [OF b'] by (simp add: wp_def attempt_def Let_def)
qed

lemma root_URI_ok:
  assumes "length root < URI_MAX_LENGTH" and "CHR 0x00 \<notin> set root"
  shows "URI_ok (map Some (strncpy_bytes root URI_MAX_LENGTH))"
proof -
  obtain k where k: "URI_MAX_LENGTH - length root = Suc k" using assms(1) by (metis Suc_diff_Suc)
  have "map Some (strncpy_bytes root URI_MAX_LENGTH) = map Some root @ Some (CHR 0x00) # map Some (replicate k (CHR 0x00))"
    using k assms(1) by (simp add: strncpy_bytes_fits)
  with c_string_terminated [OF assms(2)] k show ?thesis by (simp add: URI_ok_def)
qed

lemma building_fetch:
  assumes "building lk y h G ow N a ob w" and "0 < refs h G ow d" "d \<notin> N"
    and "\<And>f. modern (server_version f) \<Longrightarrow> Q f w"
  shows "wp (fetch_file (Some d)) Q E w"
proof -
  have "\<exists>fob f. objects w d = Some fob \<and> union fob = File f \<and> modern (server_version f)"
    using owned_file [OF building_owned [OF assms(1)] assms(2)] assms(3) by (metis file_ready_def)
  then show ?thesis by (auto intro: wp_fetch_file assms(4))
qed

lemma no_URI_length: "length no_URI = URI_MAX_LENGTH"
  by (rule URI_ok_length [OF no_URI_ok])

lemma length_strncpy_bytes [simp]: "length (strncpy_bytes s n) = n"
  by (simp add: strncpy_bytes_def)

lemma wp_new_domain:
  fixes w :: "'s world"
  assumes la: "leak_or_alloc lk env" and o: "owned lk y h G ow M w" and d: "0 < refs h G ow d" "d \<notin> M"
    and root: "length root < URI_MAX_LENGTH" "CHR 0x00 \<notin> set root"
    and Q: "\<And>a w'. h a = 0 \<Longrightarrow> a \<notin> G \<Longrightarrow> a \<noteq> d \<Longrightarrow> owned lk y (h(a := 1)) G ow (M - {a}) w' \<Longrightarrow> Q a w'"
    and E: "\<And>e w'. owned lk y h G ow M w' \<Longrightarrow> E e w'"
  shows "wp (new_domain env name root (Some d)) Q E w"
  unfolding new_domain_def
proof (rule wp_chain, rule wp_new_file [OF o])
  fix w1 :: "'s world"
  let ?a = "next_block w" and ?buf = "map Some (strncpy_bytes root URI_MAX_LENGTH)"
  let ?h = "h(?a := 1)" and ?N = "insert ?a M"
  assume a: "h ?a = 0" "objects w ?a = None" "?a \<notin> G" and o1: "owned lk y ?h G ow ?N w1"
    and w1: "objects w1 = (objects w)(?a \<mapsto> new_file 0)"
  have b: "building lk y ?h G ow ?N ?a (new_file 0) w1"
    using o1 w1 a by (simp add: building_def refs_def)
  have r: "refs h G ow ?a = 0" using owned_slot [OF o a(2)] by (simp add: slot_def)
  have da: "d \<noteq> ?a" using d(1) r by auto
  have dom: "0 < refs ?h G ow d" "d \<notin> ?N" using d da by (simp_all add: refs_direct)
  have buf: "c_string ?buf \<noteq> None" using root_URI_ok [OF root] by (simp add: URI_ok_def)
  have fin: "Q ?a w'" if "building lk y ?h G ow ?N ?a ob w'" "file_ready ?a ob" for ob and w' :: "'s world"
  proof (rule Q [OF a(1,3)])
    show "owned lk y ?h G ow (M - {?a}) w'" using building_ready [OF that] by (simp add: insert_Diff_if)
  qed (use da in simp)
  note att = building_attempt [OF la _ a(1) r _ E]
  show "wp (chain (update ?a (\<lambda>ob. ob\<lparr>URI := ?buf, domain := Some ?a\<rparr>)) (\<lambda>_.
     chain (attempt env (Simple H5E_CANTALLOC)) (\<lambda>_.
     chain (fetch_file (Some d)) (\<lambda>d.
     chain (H5Pcopy env) (\<lambda>fapl.
     chain (H5Pcopy env) (\<lambda>fcpl.
     chain (update_file ?a (\<lambda>f. f\<lparr>filepath_name := Some name, intent := intent d, fapl_id := fapl, fcpl_id := fcpl\<rparr>)) (\<lambda>_.
     chain (attempt env (Simple H5E_CANTALLOC)) (\<lambda>_.
     chain (update ?a (\<lambda>ob. ob\<lparr>handle_path := Some ''/''\<rparr>)) (\<lambda>_.
     chain (update_file ?a (\<lambda>f. f\<lparr>server_version := server_version d\<rparr>)) (\<lambda>_.
     give ?a)))))))))) Q E w1"
    by (insert b, unfold H5Pcopy_def)
      (assumption | rule wp_chain wp_give wp_result att building_update building_update_file
         | (rule building_fetch [OF _ dom], assumption)
         | rule building_quiet [OF quiet_basic(6)] | (rule fin, assumption)
         | (simp add: file_ready_def no_URI_length buf; fail))+
qed (rule E [OF owned_same [OF o]], assumption)

text \<open>The reference of the group \<open>g\<close> to \<open>d\<close> is dropped and it takes the one that is held to \<open>a\<close>.\<close>

lemma wp_swap_reference:
  assumes o: "owned lk y (h(a := 1)) G (ow(g := Some d)) M w" and h: "h a = 0" "a \<noteq> d" and g: "g \<in> G" "g \<in> M"
    and Q: "\<And>w'. owned lk y h G (ow(g := Some a)) M w' \<Longrightarrow> Q () w'"
  shows "wp (RV_file_close (Some d)) Q E w"
proof -
  let ?h = "h(a := 1)" and ?ow = "ow(g := Some d)"
  have "owned lk y (?h(d := ?h d + 1)) G (?ow(g := None)) (insert g M) w"
    by (rule owned_take [OF o g(1)]) simp
  then have t: "owned lk y (?h(d := ?h d + 1)) G (ow(g := None)) M w" using g(2) by (simp add: insert_absorb)
  show ?thesis
  proof (rule wp_file_close [OF t])
    fix w' :: "'a world"
    assume "owned lk y (?h(d := ?h d + 1, d := (?h(d := ?h d + 1)) d - 1)) G (ow(g := None)) M w'"
    moreover have "?h(d := ?h d + 1, d := (?h(d := ?h d + 1)) d - 1) = h(a := h a + 1)"
      using h by (auto simp: fun_eq_iff)
    ultimately have "owned lk y (h(a := h a + 1)) G (ow(g := None)) M w'" by simp
    from owned_give [OF this g(1) _ g(2)] have "owned lk y h G (ow(g := Some a)) M w'" by simp
    then show "Q () w'" by (rule Q)
  qed simp
qed

lemma wp_replace_domain:
  fixes w :: "'s world"
  assumes la: "leak_or_alloc lk env" and lo: "loc_owned lk y h G ow N g loc w"
    and root: "length root < URI_MAX_LENGTH" "CHR 0x00 \<notin> set root"
    and Q: "\<And>a w'. loc_owned lk y h G ow N g (loc\<lparr>loc_domain := Some a\<rparr>) w' \<Longrightarrow> Q (loc\<lparr>loc_domain := Some a\<rparr>) w'"
    and E: "\<And>e w'. loc_owned lk y h G ow N g loc w' \<Longrightarrow> E e w'"
  shows "wp (replace_domain env name root loc) Q E w"
proof -
  from lo obtain M d where M: "M \<subseteq> N" "owned lk y h G (ow(g := Some d)) M w" "g \<in> M" "loc_domain loc = Some d" "d \<notin> M"
    and g: "g \<in> G" and l: "length (loc_URI loc) = URI_MAX_LENGTH" "\<forall>s. GCPL_base64 loc = Some s \<longrightarrow> decodable s"
    unfolding loc_owned_def by auto
  have d: "0 < refs h G (ow(g := Some d)) d" by (rule owned_owner [OF M(2) g]) simp
  show ?thesis unfolding replace_domain_def M(4)
  proof (rule wp_chain, rule wp_new_domain [OF la M(2) d M(5) root])
    fix e and w' :: "'s world" assume "owned lk y h G (ow(g := Some d)) M w'"
    then show "E e w'" using M g l by (intro E) (auto simp: loc_owned_def)
  next
    fix a and w' :: "'s world"
    assume a: "h a = 0" "a \<notin> G" "a \<noteq> d" and o: "owned lk y (h(a := 1)) G (ow(g := Some d)) (M - {a}) w'"
    have gM: "g \<in> M - {a}" using M(3) a(2) g by auto
    have close: "wp (RV_file_close (Some d)) Q' E' w'"
      if "\<And>w'. loc_owned lk y h G ow N g (loc\<lparr>loc_domain := Some a\<rparr>) w' \<Longrightarrow> Q' () w'" for Q' E'
    proof (rule wp_swap_reference [OF o a(1,3) g gM], rule that)
      fix w2 :: "'s world" assume "owned lk y h G (ow(g := Some a)) (M - {a}) w2"
      then show "loc_owned lk y h G ow N g (loc\<lparr>loc_domain := Some a\<rparr>) w2"
        using M(1) gM g l by (simp add: loc_owned_def) (rule exI [of _ "M - {a}"], auto)
    qed
    show "wp (chain (result (RV_file_close (Some d))) (\<lambda>r. chain (Objects.check (Simple H5E_CANTALLOC) (\<not> isl r))
        (\<lambda>_. give (loc\<lparr>loc_domain := Some a\<rparr>)))) Q E w'"
      by (rule wp_chain, rule wp_result, rule close) (intro wp_chain wp_check wp_give; simp add: Q)
  qed
qed

lemma quiet_string_at: "quiet (string_at env t key)"
  by (simp add: string_at_def quiet_chain)

lemma wp_creation_properties:
  assumes "reply_ok (parser env) r" and "tree_parse (parser env) r = Some t"
    and "\<And>gcpl w'. same w w' \<Longrightarrow> (\<And>s. gcpl = Some s \<Longrightarrow> decodable s) \<Longrightarrow> Q gcpl w'"
  shows "wp (creation_properties env t) Q E w"
proof -
  have "decodable s" if "RV_parse_creation_properties_callback (parser env) ok t = Inr s" for ok s
  proof -
    have "RV_parse_creation_properties_callback (parser env) True t = Inr s"
      using that by (auto simp: RV_parse_creation_properties_callback_def split: option.splits if_splits)
    then show ?thesis using assms(1,2) unfolding reply_ok_def decodable_def by blast
  qed
  then show ?thesis by (auto simp: wp_def creation_properties_def intro!: assms(3) split: sum.splits)
qed

lemma quiet_creation_properties: "quiet (creation_properties env t)"
  by (simp add: quiet_def wp_def creation_properties_def)

lemma wp_string_at:
  assumes "\<And>v. tree_get (parser env) t [key] yajl_t_string = Some (YString v) \<Longrightarrow> Q v w" and "\<And>e. E e w"
  shows "wp (string_at env t key) Q E w"
proof -
  have "v = YString s" if "YAJL_GET_STRING v = Some s" for v s
    using that by (cases v rule: YAJL_GET_STRING.cases) simp_all
  then show ?thesis unfolding string_at_def
    by (intro wp_chain wp_require) (use assms in auto)
qed

lemma loc_owned_still:
  "loc_owned lk y h G ow N g loc w \<Longrightarrow> still w w' \<Longrightarrow> reply_ok y (response w') \<Longrightarrow> loc_owned lk y h G ow N g loc w'"
  by (auto simp: loc_owned_def owned_def still_def)

lemma loc_owned_reply: "loc_owned lk y h G ow N g loc w \<Longrightarrow> reply_ok y (response w)"
  by (auto simp: loc_owned_def owned_def)

lemma loc_owned_other:
  "loc_owned lk y h G ow N g loc w \<Longrightarrow> loc_domain loc' = loc_domain loc \<Longrightarrow> length (loc_URI loc') = URI_MAX_LENGTH \<Longrightarrow>
    (\<And>s. GCPL_base64 loc' = Some s \<Longrightarrow> decodable s) \<Longrightarrow> loc_owned lk y h G ow N g loc' w"
  by (auto simp: loc_owned_def)

lemma loc_info_keeps:
  assumes env: "well_behaved env" and la: "leak_or_alloc lk env"
  shows "keeps env (loc_owned lk (parser env) h G ow N g) (RV_copy_object_loc_info_callback env)"
  unfolding keeps_def
proof (intro allI impI)
  fix loc and w :: "'a world"
  let ?I = "loc_owned lk (parser env) h G ow N g"
  assume i: "?I loc w"
  let ?Q = "\<lambda>loc' w'. ?I loc' w' \<and> URI_ok (loc_URI loc')"
  have y: "yajl_strings (parser env)" using env by (simp add: well_behaved_def)
  note r = loc_owned_reply [OF i]
  have err: "?I loc w'" if "same w w'" for w'
    by (rule loc_owned_still [OF i]) (use that r in \<open>auto simp: same_def still_def\<close>)
  show "wp (RV_copy_object_loc_info_callback env (response w) loc) ?Q (\<lambda>_. ?I loc) w"
    unfolding RV_copy_object_loc_info_callback_def Let_def
  proof (rule wp_chain, rule wp_require, rule wp_chain, rule wp_creation_properties [OF r], assumption,
      rule wp_chain, rule wp_quiet [OF quiet_string_at], rule wp_chain, rule wp_string_at, rule wp_chain, rule wp_check)
    fix t gcpl name root and w1 w2 :: "'a world"
    let ?loc = "if gcpl \<noteq> None then loc\<lparr>GCPL_base64 := gcpl\<rparr> else loc"
    assume t: "tree_parse (parser env) (response w) = Some t" and s: "same w w1" "same w1 w2"
      and dec: "\<And>s. gcpl = Some s \<Longrightarrow> decodable s"
      and root: "tree_get (parser env) t [''root''] yajl_t_string = Some (YString root)"
    have i2: "?I ?loc w2"
      by (rule loc_owned_other [OF err]) (use s i dec in \<open>auto simp: same_def loc_owned_def split: if_splits\<close>)
    then obtain M d where M: "owned lk (parser env) h G (ow(g := Some d)) M w2" "d \<notin> M" "loc_domain ?loc = Some d" "g \<in> G"
      unfolding loc_owned_def by auto
    have "0 < refs h G (ow(g := Some d)) d" by (rule owned_owner [OF M(1,4)]) simp
    from owned_file [OF M(1) this] M(2) obtain fob f n where
      f: "objects w2 d = Some fob" "union fob = File f" "filepath_name f = Some n" by (metis file_ready_def not_None_eq)
    have n: "CHR 0x00 \<notin> set root" using y root unfolding yajl_strings_def by fastforce
    have l: "length root < URI_MAX_LENGTH" using r t root unfolding reply_ok_def by blast
    have uri: "wp (URI_callback env (response w) loc') ?Q (\<lambda>_. ?I loc) w'" if "?I loc' w'" for loc' w'
    proof (rule wp_URI_callback_root [OF y r _ t])
      show "length (loc_URI loc') = URI_MAX_LENGTH" using that by (simp add: loc_owned_def)
      fix buf assume "URI_ok buf"
      then show "?Q (loc'\<lparr>loc_URI := buf\<rparr>) w'"
        using loc_owned_other [OF that, of "loc'\<lparr>loc_URI := buf\<rparr>"] that by (simp add: URI_ok_length loc_owned_def)
    qed (use root in simp)
    show "wp (chain (filename (loc_domain ?loc)) (\<lambda>current.
        chain (if name \<noteq> current then replace_domain env name root ?loc else give ?loc) (URI_callback env (response w))))
        ?Q (\<lambda>_. ?I loc) w2"
    proof (rule wp_chain, rule wp_filename [OF M(3) f], rule wp_chain, rule wp_if, rule wp_replace_domain [OF la i2 l n])
      fix e and w' :: "'a world" assume "?I ?loc w'"
      then show "?I loc w'" by (rule loc_owned_other) (use i in \<open>auto simp: loc_owned_def\<close>)
    qed (rule uri, assumption, rule wp_give, rule uri, rule i2)
  qed (use i in \<open>auto intro: err same_trans\<close>)
qed

section \<open>Objects that are not touched\<close>

definition keeps_at :: "nat \<Rightarrow> 's world \<Rightarrow> ('s, 'a) outcome \<Rightarrow> bool" where
  "keeps_at g w r \<longleftrightarrow>
     (case r of
        Val _ w' \<Rightarrow> objects w' g = objects w g \<and> g < next_block w'
      | Err _ w' \<Rightarrow> objects w' g = objects w g \<and> g < next_block w'
      | _ \<Rightarrow> True)"

lemma keeps_at_simps [simp]:
  "keeps_at g w (Val a w') = (objects w' g = objects w g \<and> g < next_block w')"
  "keeps_at g w (Err e w') = (objects w' g = objects w g \<and> g < next_block w')"
  "keeps_at g w Undef" "keeps_at g w No_Fuel"
  by (simp_all add: keeps_at_def)

definition untouched :: "nat \<Rightarrow> ('s, 'a) op \<Rightarrow> bool" where
  "untouched g m \<longleftrightarrow> (\<forall>w. g < next_block w \<longrightarrow> keeps_at g w (m w))"

lemma untouchedD: "untouched g m \<Longrightarrow> g < next_block w \<Longrightarrow> keeps_at g w (m w)"
  by (simp add: untouched_def)

lemma untouchedI: "(\<And>w. g < next_block w \<Longrightarrow> keeps_at g w (m w)) \<Longrightarrow> untouched g m"
  by (simp add: untouched_def)

lemma untouched_chain:
  assumes "untouched g m" and "\<And>a. untouched g (f a)"
  shows "untouched g (chain m f)"
proof (rule untouchedI)
  fix w :: "'a world" assume "g < next_block w"
  note m = untouchedD [OF assms(1) this]
  show "keeps_at g w (chain m f w)"
  proof (cases "m w")
    case (Val a w')
    with m have w': "objects w' g = objects w g" "g < next_block w'" by simp_all
    from untouchedD [OF assms(2) this(2), of a] show ?thesis
      by (cases "f a w'") (simp_all add: chain_def Val w'(1))
  qed (use m in \<open>simp_all add: chain_def\<close>)
qed

lemma untouched_result:
  assumes "untouched g m" shows "untouched g (result m)"
proof (rule untouchedI)
  fix w :: "'a world" assume "g < next_block w"
  from untouchedD [OF assms this] show "keeps_at g w (result m w)" by (cases "m w") (simp_all add: result_def)
qed

lemma untouched_quiet:
  assumes "quiet m" shows "untouched g m"
proof (rule untouchedI)
  fix w :: "'a world" assume "g < next_block w"
  moreover have "wp m (\<lambda>_. same w) (\<lambda>_. same w) w" using assms by (simp add: quiet_def)
  ultimately show "keeps_at g w (m w)" by (cases "m w") (simp_all add: wp_def same_def)
qed

lemmas untouched_steps = quiet_basic [THEN untouched_quiet] quiet_lists [THEN untouched_quiet]
  quiet_string_at [THEN untouched_quiet] quiet_creation_properties [THEN untouched_quiet]

lemma untouched_basic:
  "untouched g (defined x)" "untouched g (fetch a)" "untouched g (\<lambda>_. Undef)" "b \<noteq> g \<Longrightarrow> untouched g (free_block b)"
  "b \<noteq> g \<Longrightarrow> untouched g (store b ob)"
  by (simp_all add: untouched_def defined_def fetch_def free_block_def store_def split: option.split)

lemma untouched_if: "untouched g m \<Longrightarrow> untouched g n \<Longrightarrow> untouched g (if b then m else n)"
  by simp

lemma untouched_union: "(\<And>f. untouched g (m f)) \<Longrightarrow> (\<And>x. untouched g (n x)) \<Longrightarrow>
    untouched g (case u of File f \<Rightarrow> m f | Group x \<Rightarrow> n x)"
  by (cases u) simp_all

lemma untouched_fetch_file: "untouched g (fetch_file d)"
  unfolding fetch_file_def by (intro untouched_chain untouched_basic untouched_union untouched_steps)

lemma untouched_filename: "untouched g (filename d)"
  unfolding filename_def by (intro untouched_chain untouched_fetch_file untouched_basic)

lemma untouched_update: "a \<noteq> g \<Longrightarrow> untouched g (update a f)"
  unfolding update_def by (intro untouched_chain untouched_basic)

lemma untouched_update_file: "a \<noteq> g \<Longrightarrow> untouched g (update_file a f)"
  unfolding update_file_def by (intro untouched_chain untouched_fetch_file untouched_update)

lemma untouched_new_block:
  assumes "\<And>a. a \<noteq> g \<Longrightarrow> untouched g (f a)"
  shows "untouched g (chain (new_block env ob) f)"
proof (rule untouchedI)
  fix w :: "'a world" assume g: "g < next_block w"
  let ?w = "w\<lparr>calls := calls w + 1, objects := (objects w)(next_block w \<mapsto> ob), next_block := next_block w + 1\<rparr>"
  have "untouched g (f (next_block w))" using assms g by simp
  from untouchedD [OF this, of ?w] g show "keeps_at g w (chain (new_block env ob) f w)"
    by (cases "f (next_block w) ?w") (simp_all add: chain_def new_block_def attempt_def Let_def)
qed

lemma untouched_file_close: "d \<noteq> Some g \<Longrightarrow> untouched g (RV_file_close d)"
  unfolding RV_file_close_def
  by (cases d) (auto intro!: untouched_chain untouched_fetch_file untouched_update_file untouched_basic untouched_steps)

lemma untouched_loc_info:
  assumes "loc_domain loc \<noteq> Some g"
  shows "untouched g (RV_copy_object_loc_info_callback env r loc)"
proof -
  have "untouched g (new_domain env name root d)" for name root d
    unfolding new_domain_def
    by (intro untouched_new_block untouched_chain untouched_fetch_file untouched_update untouched_update_file untouched_steps)
  then have r: "untouched g (replace_domain env name root loc')" if "loc_domain loc' \<noteq> Some g" for name root loc'
    unfolding replace_domain_def using that
    by (intro untouched_chain untouched_result untouched_file_close untouched_steps) simp
  have u: "untouched g (URI_callback env r loc')" for loc'
    unfolding URI_callback_def
    by (intro untouched_chain untouched_basic) (auto intro: untouched_steps split: prod.split sum.split)
  show ?thesis unfolding RV_copy_object_loc_info_callback_def Let_def
    by (intro untouched_chain untouched_filename untouched_if untouched_steps r u) (use assms in auto)
qed

section \<open>Closing a group\<close>

lemma owned_fewer: "owned lk y h G ow N w \<Longrightarrow> N \<subseteq> M \<Longrightarrow> owned lk y h G ow M w"
proof -
  assume o: "owned lk y h G ow N w" and "N \<subseteq> M"
  then have "slot lk h G ow N a x \<Longrightarrow> slot lk h G ow M a x" for a x
    by (auto simp: slot_def split: option.splits if_splits)
  with o show ?thesis by (simp add: owned_def)
qed

lemma owned_cong:
  assumes "\<And>x. x \<in> G \<Longrightarrow> ow x = ow' x"
  shows "owned lk y h G ow N w = owned lk y h G ow' N w"
proof -
  have "refs h G ow = refs h G ow'" unfolding refs_def fun_eq_iff using assms by (metis (mono_tags, lifting) Collect_cong)
  then have "slot lk h G ow N a x = slot lk h G ow' N a x" for a x
    using assms by (auto simp: slot_def split: option.split)
  then show ?thesis by (simp add: owned_def)
qed

lemma owned_free_group:
  assumes o: "owned lk y h G ow N w" and g: "g \<in> G" "ow g = None"
  shows "owned lk y h (G - {g}) ow (N - {g}) (w\<lparr>objects := (objects w)(g := None)\<rparr>)"
proof -
  have "{x \<in> G - {g}. ow x = Some b} = {x \<in> G. ow x = Some b}" for b using g(2) by auto
  then have r: "refs h (G - {g}) ow b = refs h G ow b" for b by (simp add: refs_def)
  have "refs h G ow g = 0" using owned_group [OF o g(1)] by metis
  then have s: "slot lk h (G - {g}) ow (N - {g}) g None" by (simp add: slot_def r)
  show ?thesis
  proof (rule owned_change [OF o, of _ _ "{g}"])
    show "objects (w\<lparr>objects := (objects w)(g := None)\<rparr>) b = None"
      if "b \<ge> next_block (w\<lparr>objects := (objects w)(g := None)\<rparr>)" for b
      using that owned_parts(3) [OF o, of b] by simp
  qed (use s r owned_parts(1,2) [OF o] in auto)
qed

lemma wp_group_close:
  assumes o: "owned lk y h G ow N w" and g: "g \<in> G" "ow g = Some d" and ob: "objects w g = Some ob" "domain ob = Some d"
    and Q: "\<And>w'. owned lk y h (G - {g}) ow (N - {g}) w' \<Longrightarrow> Q () w'"
  shows "wp (RV_group_close (Some g)) Q E w"
proof -
  have t: "obj_type ob = H5I_GROUP" using owned_group [OF o g(1)] ob(1) by (metis option.inject)
  have d: "d \<noteq> g"
  proof
    assume "d = g"
    then have "0 < refs h G ow g" using owned_owner [OF o g] by simp
    then show False using owned_group [OF o g(1)] by (metis less_irrefl)
  qed
  let ?h = "h(d := h d + 1)"
  have o1: "owned lk y ?h G (ow(g := None)) (insert g N) (w\<lparr>registered := registered w - {g}\<rparr>)"
    using owned_take [OF o g] by (rule owned_same) simp
  have close: "wp (RV_file_close (Some d)) (\<lambda>_. wp (free_block g) Q E) E' (w\<lparr>registered := registered w - {g}\<rparr>)" for E'
  proof (rule wp_file_close [OF o1])
    fix w' :: "'a world"
    assume "owned lk y (?h(d := ?h d - 1)) G (ow(g := None)) (insert g N) w'"
      and f: "\<forall>b. b \<noteq> d \<longrightarrow> objects w' b = objects (w\<lparr>registered := registered w - {g}\<rparr>) b"
    then have o2: "owned lk y h G (ow(g := None)) (insert g N) w'" by simp
    have "owned lk y h (G - {g}) (ow(g := None)) (N - {g}) (w'\<lparr>objects := (objects w')(g := None)\<rparr>)"
      using owned_free_group [OF o2 g(1)] by simp
    then have "Q () (w'\<lparr>objects := (objects w')(g := None)\<rparr>)"
      by (intro Q) (subst owned_cong [of "G - {g}" ow "ow(g := None)"], simp_all)
    moreover have "objects w' g \<noteq> None" using f d ob(1) by simp
    ultimately show "wp (free_block g) Q E w'" by (simp add: wp_def free_block_def)
  qed simp
  show ?thesis
    unfolding RV_group_close_def option.case
    by (rule wp_chain, rule wp_fetch, rule ob(1), rule wp_chain, rule wp_check, rule wp_chain)
      (insert close [of "\<lambda>_ _. False"] ob(2) t,
        auto simp: wp_def unregister_def chain_def result_def Objects.check_def give_def throw_def split: outcome.splits)
qed

section \<open>Setting up a group\<close>

text \<open>An object that a program holds: a group that is set up, with its file, or a file.\<close>

definition usable :: "(nat \<Rightarrow> nat) \<Rightarrow> nat set \<Rightarrow> (nat \<Rightarrow> nat option) \<Rightarrow> nat set \<Rightarrow> nat \<Rightarrow> nat \<Rightarrow> bool" where
  "usable h G ow N p d \<longleftrightarrow> p \<notin> N \<and> d \<notin> N \<and> (if p \<in> G then ow p = Some d else 0 < h p \<and> d = p)"

lemma usable_refs: "owned lk y h G ow N w \<Longrightarrow> usable h G ow N p d \<Longrightarrow> 0 < refs h G ow d"
  using owned_owner by (fastforce simp: usable_def refs_def split: if_splits)

lemma usable_object:
  assumes o: "owned lk y h G ow N w" and u: "usable h G ow N p d"
  obtains ob fob f n where "objects w p = Some ob" "obj_type ob = H5I_FILE \<or> obj_type ob = H5I_GROUP"
    "URI_ok (URI ob)" "domain ob = Some d" "objects w d = Some fob" "union fob = File f" "filepath_name f = Some n"
    "modern (server_version f)"
proof -
  have "d \<notin> N" using u by (simp add: usable_def)
  with owned_file [OF o usable_refs [OF o u]] obtain fob f where
    f: "objects w d = Some fob" "obj_type fob = H5I_FILE" "union fob = File f"
      "length (URI fob) = URI_MAX_LENGTH" "file_ready d fob" by metis
  from f(3,5) obtain n where n: "filepath_name f = Some n" "modern (server_version f)" by (auto simp: file_ready_def)
  show ?thesis
  proof (cases "p \<in> G")
    case True
    with u have g: "p \<notin> N" "ow p = Some d" by (simp_all add: usable_def)
    from owned_group [OF o True] g(1) obtain ob where
      "objects w p = Some ob" "obj_type ob = H5I_GROUP" "length (URI ob) = URI_MAX_LENGTH" "group_ready (ow p) ob" by metis
    then show ?thesis using f(1,3) n g(2) by (intro that [of ob fob f n]) (simp_all add: group_ready_def URI_ok_def)
  next
    case False
    then have "d = p" using u by (simp add: usable_def)
    then show ?thesis using f n by (intro that [of fob fob f n]) (simp_all add: file_ready_def URI_ok_def)
  qed
qed

lemma usable_searchable: "owned lk y h G ow N w \<Longrightarrow> usable h G ow N p d \<Longrightarrow> searchable w p"
  by (erule (1) usable_object) (auto simp: searchable_def URI_ok_def)

text \<open>A group that is being set up: its object is known, and it refers to the file of the object.\<close>

definition group_at ::
  "bool \<Rightarrow> yajl \<Rightarrow> (nat \<Rightarrow> nat) \<Rightarrow> nat set \<Rightarrow> (nat \<Rightarrow> nat option) \<Rightarrow> nat set \<Rightarrow> nat \<Rightarrow> nat \<Rightarrow> 's world \<Rightarrow> bool"
where
  "group_at lk y h G ow N g d w \<longleftrightarrow>
     (\<exists>M \<subseteq> N. owned lk y h G (ow(g := Some d)) M w \<and> g \<in> M \<and> d \<notin> M) \<and> g \<in> G \<and>
     (\<exists>ob. objects w g = Some ob \<and> domain ob = Some d \<and> c_string (URI ob) \<noteq> None)"

lemma wp_new_group_cleanup:
  fixes w :: "'s world"
  assumes o: "owned lk y h G ow N w" and d: "0 < refs h G ow d" "d \<notin> N"
    and Q: "\<And>a d w'. h a = 0 \<Longrightarrow> a \<notin> G \<Longrightarrow> objects w a = None \<Longrightarrow> group_at lk y h (insert a G) ow (insert a N) a d w' \<Longrightarrow> Q a w'"
    and E: "\<And>e w'. owned lk y h G ow N w' \<Longrightarrow> E e w'"
    and sets: "\<And>a (w1 :: 's world) Q E. h a = 0 \<Longrightarrow> a \<notin> G \<Longrightarrow> objects w a = None \<Longrightarrow>
      group_at lk y h (insert a G) ow (insert a N) a d w1 \<Longrightarrow>
      (\<And>d w'. group_at lk y h (insert a G) ow (insert a N) a d w' \<Longrightarrow> Q a w') \<Longrightarrow>
      (\<And>e d w'. group_at lk y h (insert a G) ow (insert a N) a d w' \<Longrightarrow> E e w') \<Longrightarrow> wp (m a) Q E w1"
  shows "wp (chain (new_block env (new_group (Some d))) (\<lambda>a. chain (add_reference (Some d)) (\<lambda>_.
     cleanup (m a) (RV_group_close (Some a))))) Q E w"
proof (rule wp_chain, rule wp_new_group [OF o])
  fix w1 :: "'s world"
  let ?a = "next_block w"
  let ?G = "insert ?a G" and ?N = "insert ?a N" and ?ow = "ow(?a := None)"
  assume a: "h ?a = 0" "objects w ?a = None" "?a \<notin> G" and o1: "owned lk y h ?G ?ow ?N w1"
    and w1: "objects w1 = (objects w)(?a \<mapsto> new_group (Some d))"
  have "refs h G ow ?a = 0" using owned_slot [OF o a(2)] by (simp add: slot_def)
  then have da: "d \<noteq> ?a" using d(1) by auto
  have "{x \<in> ?G. ?ow x = Some d} = {x \<in> G. ow x = Some d}" using a(3) by auto
  then have r: "0 < refs h ?G ?ow d" using d(1) by (simp add: refs_def)
  show "wp (chain (add_reference (Some d)) (\<lambda>_. cleanup (m ?a) (RV_group_close (Some ?a)))) Q E w1"
  proof (rule wp_chain, rule wp_add_reference [OF o1 r])
    fix w2 :: "'s world"
    assume o2: "owned lk y (h(d := h d + 1)) ?G ?ow ?N w2" and f: "\<forall>b. b \<noteq> d \<longrightarrow> objects w2 b = objects w1 b"
    have "owned lk y h ?G (?ow(?a := Some d)) ?N w2" by (rule owned_give [OF o2]) simp_all
    then have o3: "owned lk y h ?G (ow(?a := Some d)) ?N w2" by simp
    have at: "group_at lk y h ?G ow ?N ?a d w2"
      unfolding group_at_def
    proof (intro conjI exI [of _ ?N] exI [of _ "new_group (Some d)"] subset_refl o3)
      show "objects w2 ?a = Some (new_group (Some d))" using f da w1 by simp
      show "c_string (URI (new_group (Some d))) \<noteq> None"
        using no_URI_ok by (simp add: new_group_def URI_ok_def)
    qed (use da d(2) in \<open>simp_all add: new_group_def\<close>)
    show "wp (cleanup (m ?a) (RV_group_close (Some ?a))) Q E w2"
    proof (rule wp_cleanup, rule sets [OF a(1,3,2) at])
      fix d' and w' :: "'s world" assume "group_at lk y h ?G ow ?N ?a d' w'"
      then show "Q ?a w'" by (rule Q [OF a(1,3,2)])
    next
      fix e d' and w' :: "'s world" assume "group_at lk y h ?G ow ?N ?a d' w'"
      then obtain M ob where M: "M \<subseteq> ?N" "owned lk y h ?G (ow(?a := Some d')) M w'" "objects w' ?a = Some ob" "domain ob = Some d'"
        unfolding group_at_def by blast
      show "wp (RV_group_close (Some ?a)) (\<lambda>_. E e) (\<lambda>_. E e) w'"
      proof (rule wp_group_close [OF M(2) _ _ M(3,4)])
        fix w3 :: "'s world" assume "owned lk y h (?G - {?a}) (ow(?a := Some d')) (M - {?a}) w3"
        then have "owned lk y h G (ow(?a := Some d')) (M - {?a}) w3" using a(3) by simp
        then have "owned lk y h G ow (M - {?a}) w3"
          by (subst owned_cong [of G ow "ow(?a := Some d')"]) (use a(3) in auto)
        then show "E e w3" using M(1) by (intro E owned_fewer [of lk y h G ow "M - {?a}" w3 N]) auto
      qed simp_all
    qed
  qed
qed (rule E [OF owned_same [OF o]], assumption)

lemma group_at_still:
  "group_at lk y h G ow N g d w \<Longrightarrow> still w w' \<Longrightarrow> reply_ok y (response w') \<Longrightarrow> group_at lk y h G ow N g d w'"
  by (auto simp: group_at_def owned_def still_def)

lemma group_at_reply: "group_at lk y h G ow N g d w \<Longrightarrow> reply_ok y (response w)"
  by (auto simp: group_at_def owned_def)

lemma group_at_quiet:
  assumes "quiet m" and g: "group_at lk y h G ow N g d w"
    and "\<And>x w'. group_at lk y h G ow N g d w' \<Longrightarrow> Q x w'" and "\<And>e w'. group_at lk y h G ow N g d w' \<Longrightarrow> E e w'"
  shows "wp m Q E w"
proof -
  have "group_at lk y h G ow N g d w'" if "same w w'" for w'
    by (rule group_at_still [OF g]) (use that group_at_reply [OF g] in \<open>simp_all add: still_def same_def\<close>)
  then show ?thesis by (intro wp_quiet [OF assms(1)] assms(3,4))
qed

lemma group_at_transfer:
  assumes "well_behaved env" and g: "group_at lk (parser env) h G ow N g d w"
    and "\<And>x w'. group_at lk (parser env) h G ow N g d w' \<Longrightarrow> Q x w'"
    and "\<And>e w'. group_at lk (parser env) h G ow N g d w' \<Longrightarrow> E e w'"
  shows "wp (CURL_PERFORM env e rq) Q E w"
  by (rule wp_transfer [OF assms(1) group_at_reply [OF g]]) (auto intro: assms(3,4) group_at_still [OF g])

lemma group_at_put:
  assumes g: "group_at lk y h G ow N g d w" and ob: "objects w g = Some ob"
    and ob': "domain ob' = Some d" "URI ob' = URI ob \<or> URI_ok (URI ob')" "obj_type ob' = obj_type ob" "\<exists>gr. union ob' = Group gr"
  shows "group_at lk y h G ow N g d (put_object g ob' w)"
proof -
  from g ob obtain M where M: "M \<subseteq> N" "owned lk y h G (ow(g := Some d)) M w" "g \<in> M" "d \<notin> M" "g \<in> G" "domain ob = Some d"
    "c_string (URI ob) \<noteq> None" unfolding group_at_def by auto
  have "slot lk h G (ow(g := Some d)) M g (Some ob')"
    using owned_slot [OF M(2) ob] M(3,5) ob' by (auto simp: slot_def URI_ok_def)
  then have "owned lk y h G (ow(g := Some d)) M (put_object g ob' w)" using ob by (intro owned_put [OF M(2)]) simp_all
  then show ?thesis unfolding group_at_def using M ob' by (auto simp: URI_ok_def)
qed

lemma group_at_object:
  assumes "group_at lk y h G ow N g d w"
  obtains ob gr where "objects w g = Some ob" "domain ob = Some d" "union ob = Group gr"
proof -
  from assms obtain M ob where M: "owned lk y h G (ow(g := Some d)) M w" "g \<in> G" and ob: "objects w g = Some ob" "domain ob = Some d"
    unfolding group_at_def by blast
  from owned_group [OF M] ob show ?thesis by (metis that option.inject)
qed

lemma group_at_set_lists:
  assumes g: "group_at lk y h G ow N g d w" and Q: "\<And>w'. group_at lk y h G ow N g d w' \<Longrightarrow> Q () w'"
  shows "wp (set_lists g f) Q E w"
proof -
  obtain ob gr where ob: "objects w g = Some ob" "domain ob = Some d" "union ob = Group gr" by (rule group_at_object [OF g])
  show ?thesis
    by (rule wp_set_lists [OF ob(1,3)], rule Q, rule group_at_put [OF g ob(1)]) (simp_all add: ob(2))
qed

lemma c_string_ended: "c_string (map Some s @ Some (CHR 0x00) # b) \<noteq> None"
  by (induction s) auto

lemma handle_path_total:
  "\<exists>r. RV_set_object_handle_path ok name parent = Some r \<and> (\<forall>b. r = Inr (Some b) \<longrightarrow> c_string b \<noteq> None)"
proof (cases "name = None \<or> \<not> ok")
  case True
  then show ?thesis by (cases name) (auto simp: RV_set_object_handle_path_def Let_def)
next
  case False
  then obtain obj where n: "name = Some obj" "ok" by (cases name) auto
  have e: "c_string (map Some p @ Some (CHR ''/'') # map Some s @ [Some (CHR 0x00)]) \<noteq> None" for p s
    using c_string_ended [of "p @ CHR ''/'' # s" "[]"] by simp
  show ?thesis
    using n e [of "[]" obj] e [of "the parent" obj] c_string_ended [of obj "[]"] c_string_ended [of obj "[Some (CHR 0x00)]"]
    by (auto simp: RV_set_object_handle_path_def Let_def write_bytes_def strncpy_bytes_fits)
qed

lemma group_at_set_handle_path:
  assumes g: "group_at lk y h G ow N g d w" and Q: "\<And>w'. group_at lk y h G ow N g d w' \<Longrightarrow> Q () w'"
    and E: "\<And>e w'. group_at lk y h G ow N g d w' \<Longrightarrow> E e w'"
  shows "wp (set_handle_path env g name parent) Q E w"
proof -
  let ?w = "w\<lparr>calls := calls w + 1\<rparr>"
  obtain r where r: "RV_set_object_handle_path (succeeds env (calls w)) name parent = Some r"
    "\<forall>b. r = Inr (Some b) \<longrightarrow> c_string b \<noteq> None" using handle_path_total by blast
  have g': "group_at lk y h G ow N g d ?w" using g by (simp add: group_at_def owned_def)
  obtain ob gr where ob: "objects ?w g = Some ob" "domain ob = Some d" "union ob = Group gr" by (rule group_at_object [OF g'])
  have "wp (chain (defined (Some r)) (\<lambda>r.
       case r of
         Inl _ \<Rightarrow> throw H5E_PATH
       | Inr None \<Rightarrow> give ()
       | Inr (Some b) \<Rightarrow>
           chain (defined (c_string b)) (\<lambda>s. update g (\<lambda>ob. ob\<lparr>handle_path := Some s\<rparr>)))) Q E ?w"
  proof (rule wp_chain, rule wp_defined, simp, simp only: option.inject, erule subst)
    consider (err) e where "r = Inl e" | (none) "r = Inr None" | (some) b where "r = Inr (Some b)"
      by (cases r) (auto intro: option.exhaust)
    then show "wp (case r of Inl _ \<Rightarrow> throw H5E_PATH | Inr None \<Rightarrow> give () | Inr (Some b) \<Rightarrow>
           chain (defined (c_string b)) (\<lambda>s. update g (\<lambda>ob. ob\<lparr>handle_path := Some s\<rparr>))) Q E ?w"
    proof cases
      case some
      then obtain s where s: "c_string b = Some s" using r(2) by blast
      show ?thesis unfolding some sum.case option.case s
        by (rule wp_chain, rule wp_defined, simp, rule wp_update [OF ob(1)], rule Q, rule group_at_put [OF g' ob(1)])
          (simp_all add: ob)
    next
      case err
      show ?thesis unfolding err sum.case by (rule wp_throw, rule E [OF g'])
    next
      case none
      show ?thesis unfolding none sum.case option.case by (rule wp_give, rule Q [OF g'])
    qed
  qed
  then show ?thesis by (simp add: wp_def set_handle_path_def r(1))
qed

section \<open>Creating a group\<close>

lemma group_at_usable:
  assumes g: "group_at lk y h (insert a G) ow (insert a N) a d w" and u: "usable h G ow N p dp" and a: "p \<noteq> a" "dp \<noteq> a"
  obtains M where "owned lk y h (insert a G) (ow(a := Some d)) M w" "usable h (insert a G) (ow(a := Some d)) M p dp"
proof -
  from g obtain M where "M \<subseteq> insert a N" "owned lk y h (insert a G) (ow(a := Some d)) M w" unfolding group_at_def by blast
  then show ?thesis using u a by (intro that [of M]) (auto simp: usable_def)
qed

lemma usable_length_dirname: "H5_rest_dirname ok name = Some s \<Longrightarrow> length s \<le> length name"
  by (auto simp: H5_rest_dirname_def Let_def split: if_splits)

text \<open>The buffer of the URI that the new group is linked to.\<close>

lemma group_at_parent_URI:
  assumes env: "well_behaved env" and im: "create_intermediate env lcpl \<noteq> Some True"
    and g: "group_at lk (parser env) h (insert a G) ow (insert a N) a d w" and u: "usable h G ow N p dp" "p \<noteq> a" "dp \<noteq> a"
    and n: "length dirname < 2 ^ 61"
    and Q: "\<And>buf w'. URI_ok buf \<Longrightarrow> group_at lk (parser env) h (insert a G) ow (insert a N) a d w' \<Longrightarrow> Q buf w'"
    and E: "\<And>e w'. group_at lk (parser env) h (insert a G) ow (insert a N) a d w' \<Longrightarrow> E e w'"
  shows "wp (parent_URI (Suc fuel) env create lcpl p dirname) Q E w"
proof -
  let ?P = "group_at lk (parser env) h (insert a G) ow (insert a N) a d"
  let ?I = "\<lambda>loc w. ?P w \<and> length (loc_URI loc) = URI_MAX_LENGTH"
  have I: "steady env ?I" "keeps env ?I (URI_callback env)" "?I (no_loc uninit_buffer) w"
    using g by (auto simp: steady_def no_loc_def uninit_buffer_def intro: group_at_still group_at_reply URI_callback_keeps [OF env])
  from group_at_usable [OF g u] have s: "searchable w p" by (metis usable_searchable)
  have err: "wp (chain (Objects.require (Simple H5E_CANTGET) (create_intermediate env lcpl)) (\<lambda>intermediate.
     if \<not> intermediate then throw H5E_PATH else f)) Q E w'" if "?P w'" for f w'
    using im that by (cases "create_intermediate env lcpl")
      (auto simp: wp_def chain_def Objects.require_def throw_def give_def intro: E)
  show ?thesis unfolding parent_URI_def Let_def
    by (rule wp_chain, rule wp_result, rule wp_find [OF env I s]) (use n in \<open>auto intro: wp_give Q err\<close>)
qed

lemma group_at_link_body:
  fixes w :: "'s world"
  assumes env: "well_behaved env" and im: "create_intermediate env lcpl \<noteq> Some True"
    and g: "group_at lk (parser env) h (insert a G) ow (insert a N) a d w" and u: "usable h G ow N p dp" "p \<noteq> a" "dp \<noteq> a"
    and n: "\<And>s. name = Some s \<Longrightarrow> length s < 2 ^ 61"
    and Q: "\<And>body w'. group_at lk (parser env) h (insert a G) ow (insert a N) a d w' \<Longrightarrow> Q body w'"
    and E: "\<And>e w'. group_at lk (parser env) h (insert a G) ow (insert a N) a d w' \<Longrightarrow> E e w'"
  shows "wp (link_body (Suc fuel) env create lcpl gcpl p name) Q E w"
proof (cases name)
  case None
  then show ?thesis using Q [OF g] by (simp add: link_body_def wp_give)
next
  case (Some nm)
  let ?P = "group_at lk (parser env) h (insert a G) ow (insert a N) a d"
  let ?rest = "\<lambda>buf. chain (encoded_list env gcpl) (\<lambda>l.
          chain (defined (c_string buf)) (\<lambda>u.
          chain (attempt env (Simple H5E_CANTALLOC)) (\<lambda>_.
          let body = group_body u (H5_rest_basename nm) l
          in chain (Objects.check (Simple H5E_SYSERRSTR) (length body <
               length (group_body ''%s'' ''%s'' ''%s'') + length (H5_rest_basename nm) + length u + length l + 1)) (\<lambda>_.
             give body))))"
  have rest: "wp (?rest buf) Q E w'" if "URI_ok buf" "?P w'" for buf w'
    unfolding Let_def using that(1)
    by (intro wp_chain group_at_quiet [OF quiet_encoded_list [OF env] that(2)] wp_defined group_at_quiet [OF quiet_basic(5)]
        wp_check wp_give Q E) (auto simp: URI_ok_def)
  show ?thesis unfolding link_body_def Some option.case
  proof (rule wp_chain, rule group_at_quiet [OF quiet_basic(5) g], rule wp_chain, rule wp_require, rule wp_chain, rule wp_if)
    fix dirname and w' :: "'s world" assume "H5_rest_dirname True nm = Some dirname" "?P w'"
    then show "wp (parent_URI (Suc fuel) env create lcpl p dirname) (\<lambda>buf. wp (?rest buf) Q E) E w'"
      using usable_length_dirname [of True nm dirname] n [OF Some] by (intro group_at_parent_URI [OF env im _ u] rest E) simp_all
  next
    fix dirname and w' :: "'s world" assume P: "?P w'"
    obtain M where M: "owned lk (parser env) h (insert a G) (ow(a := Some d)) M w'" "usable h (insert a G) (ow(a := Some d)) M p dp"
      by (rule group_at_usable [OF P u])
    obtain ob where ob: "objects w' p = Some ob" "URI_ok (URI ob)" using usable_object [OF M] by metis
    show "wp (chain (fetch p) (\<lambda>ob. give (URI ob))) (\<lambda>buf. wp (?rest buf) Q E) E w'"
      by (rule wp_chain, rule wp_fetch [OF ob(1)], rule wp_give, rule rest [OF ob(2) P])
  qed (rule E, assumption)+
qed

lemma wp_created_group:
  assumes env: "well_behaved env" and im: "create_intermediate env lcpl \<noteq> Some True"
    and g: "group_at lk (parser env) h (insert a G) ow (insert a N) a d w" and u: "usable h G ow N p dp" "p \<noteq> a" "dp \<noteq> a"
    and n: "\<And>s. name = Some s \<Longrightarrow> length s < 2 ^ 61"
    and Q: "\<And>d w'. group_at lk (parser env) h (insert a G) ow (insert a N) a d w' \<Longrightarrow> Q a w'"
    and E: "\<And>e d w'. group_at lk (parser env) h (insert a G) ow (insert a N) a d w' \<Longrightarrow> E e w'"
  shows "wp (created_group (Suc fuel) env create p (Some dp) parent_path name lcpl gcpl gapl a) Q E w"
proof -
  let ?P = "group_at lk (parser env) h (insert a G) ow (insert a N) a d"
  have sent: "wp (chain (filename (Some dp)) m) Q E w'" if P: "?P w'" and m: "\<And>n. wp (m n) Q E w'" for m w'
  proof -
    obtain M where M: "owned lk (parser env) h (insert a G) (ow(a := Some d)) M w'" "usable h (insert a G) (ow(a := Some d)) M p dp"
      by (rule group_at_usable [OF P u])
    obtain fob f nm where "objects w' dp = Some fob" "union fob = File f" "filepath_name f = Some nm"
      using usable_object [OF M] by metis
    then show ?thesis by (intro wp_chain wp_filename [OF refl] m)
  qed
  have uri: "wp (chain (parse_URI env e no_URI) (\<lambda>buf. chain (update a (\<lambda>ob. ob\<lparr>URI := buf\<rparr>)) (\<lambda>_.
     chain (register env a) (\<lambda>_. give a)))) Q E w'" if P: "?P w'" for e w'
  proof -
    obtain M where M: "owned lk (parser env) h (insert a G) (ow(a := Some d)) M w'" using P unfolding group_at_def by blast
    obtain ob gr where ob: "objects w' a = Some ob" "domain ob = Some d" "union ob = Group gr" by (rule group_at_object [OF P])
    show ?thesis
    proof (rule wp_chain, rule wp_parse_URI [OF env M no_URI_length], rule wp_chain, rule wp_update [OF ob(1)], rule wp_chain)
      fix buf assume "URI_ok buf"
      then have "?P (put_object a (ob\<lparr>URI := buf\<rparr>) w')" by (intro group_at_put [OF P ob(1)]) (simp_all add: ob)
      then show "wp (register env a) (\<lambda>_. wp (give a) Q E) E (put_object a (ob\<lparr>URI := buf\<rparr>) w')"
        by (rule group_at_quiet [OF quiet_basic(7)]) (auto intro: wp_give Q E)
    qed (rule E [OF P])
  qed
  show ?thesis unfolding created_group_def
    by (insert g)
      (assumption | rule wp_chain group_at_set_handle_path group_at_set_lists group_at_quiet [OF quiet_lists(1)]
         group_at_link_body [OF env im _ u n] sent uri group_at_quiet [OF quiet_basic(5)] wp_check group_at_transfer [OF env]
       | (rule E, assumption))+
qed

lemma chain_defined: "chain (defined (Some x)) f = f x"
  by (simp add: fun_eq_iff chain_def defined_def)

lemma wp_group_create:
  fixes w :: "'s world"
  assumes env: "well_behaved env" and im: "create_intermediate env lcpl \<noteq> Some True"
    and o: "owned lk (parser env) h G ow N w" and u: "usable h G ow N p dp"
    and pp: "\<And>ob. objects w p = Some ob \<Longrightarrow> handle_path ob \<noteq> None"
    and n: "\<And>s. name = Some s \<Longrightarrow> length s < 2 ^ 61"
    and Q: "\<And>a d w'. h a = 0 \<Longrightarrow> a \<notin> G \<Longrightarrow> objects w a = None \<Longrightarrow>
      group_at lk (parser env) h (insert a G) ow (insert a N) a d w' \<Longrightarrow> Q a w'"
    and E: "\<And>e w'. owned lk (parser env) h G ow N w' \<Longrightarrow> E e w'"
  shows "wp (RV_group_create (Suc fuel) env p name lcpl gcpl gapl) Q E w"
proof -
  obtain ob fob f where ob: "objects w p = Some ob" "domain ob = Some dp" "objects w dp = Some fob" "union fob = File f"
    using usable_object [OF o u] by metis
  from pp [OF ob(1)] obtain path where path: "handle_path ob = Some path" by blast
  have dp: "dp \<notin> N" using u by (simp add: usable_def)
  show ?thesis unfolding RV_group_create.simps
  proof (rule wp_chain, rule wp_fetch [OF ob(1)], rule wp_chain, rule wp_check, rule wp_chain, rule wp_check,
      rule wp_chain, rule wp_fetch_file [OF ob(2-4)], rule wp_chain, rule wp_check, unfold ob(2) path chain_defined)
    show "wp (chain (new_block env (new_group (Some dp))) (\<lambda>grp. chain (add_reference (Some dp)) (\<lambda>_.
      cleanup (created_group (Suc fuel) env (\<lambda>path. RV_group_create fuel env p (Some path) lcpl gcpl gapl)
          p (Some dp) path name lcpl gcpl gapl grp) (RV_group_close (Some grp))))) Q E w"
    proof (rule wp_new_group_cleanup [OF o usable_refs [OF o u] dp Q E])
      fix a and w1 :: "'s world" and Q :: "nat \<Rightarrow> 's world \<Rightarrow> bool" and E :: "object_failure \<Rightarrow> 's world \<Rightarrow> bool"
      assume a: "objects w a = None" and g: "group_at lk (parser env) h (insert a G) ow (insert a N) a dp w1"
        and fin: "\<And>d w'. group_at lk (parser env) h (insert a G) ow (insert a N) a d w' \<Longrightarrow> Q a w'"
        and fails: "\<And>e d w'. group_at lk (parser env) h (insert a G) ow (insert a N) a d w' \<Longrightarrow> E e w'"
      have "p \<noteq> a" "dp \<noteq> a" using a ob(1,3) by auto
      then show "wp (created_group (Suc fuel) env (\<lambda>path. RV_group_create fuel env p (Some path) lcpl gcpl gapl)
          p (Some dp) path name lcpl gcpl gapl a) Q E w1"
        by (rule wp_created_group [OF env im g u]) (fact n fin fails)+
    qed
  qed (rule E [OF o])+
qed

section \<open>Opening a group\<close>

lemma wp_untouched:
  assumes "wp m Q E w" and "untouched g m" and "g < next_block w"
  shows "wp m (\<lambda>x w'. Q x w' \<and> objects w' g = objects w g \<and> g < next_block w')
    (\<lambda>e w'. E e w' \<and> objects w' g = objects w g \<and> g < next_block w') w"
  using assms(1) untouchedD [OF assms(2,3)] by (cases "m w") (simp_all add: wp_def)

definition group_found ::
  "bool \<Rightarrow> yajl \<Rightarrow> (nat \<Rightarrow> nat) \<Rightarrow> nat set \<Rightarrow> (nat \<Rightarrow> nat option) \<Rightarrow> nat set \<Rightarrow> nat \<Rightarrow> RV_object_t \<Rightarrow> loc_info \<Rightarrow> 's world \<Rightarrow> bool"
where
  "group_found lk y h G ow N g ob loc w \<longleftrightarrow>
     loc_owned lk y h G ow N g loc w \<and> objects w g = Some ob \<and> g < next_block w"

lemma group_found_steady: "steady env (group_found lk (parser env) h G ow N g ob)"
  unfolding steady_def group_found_def by (auto intro: loc_owned_still loc_owned_reply simp: still_def)

lemma group_found_keeps:
  assumes "well_behaved env" and "leak_or_alloc lk env"
  shows "keeps env (group_found lk (parser env) h G ow N g ob) (RV_copy_object_loc_info_callback env)"
  unfolding keeps_def
proof (intro allI impI)
  fix loc and w :: "'a world"
  assume i: "group_found lk (parser env) h G ow N g ob loc w"
  then obtain M d where M: "owned lk (parser env) h G (ow(g := Some d)) M w" "loc_domain loc = Some d" "g \<in> G"
    unfolding group_found_def loc_owned_def by auto
  have "0 < refs h G (ow(g := Some d)) d" by (rule owned_owner [OF M(1,3)]) simp
  then have "loc_domain loc \<noteq> Some g" using owned_group [OF M(1,3)] M(2) by (metis less_irrefl option.inject)
  note u = untouched_loc_info [OF this]
  have "wp (RV_copy_object_loc_info_callback env (response w) loc)
    (\<lambda>loc' w'. loc_owned lk (parser env) h G ow N g loc' w' \<and> URI_ok (loc_URI loc'))
    (\<lambda>_. loc_owned lk (parser env) h G ow N g loc) w"
    using loc_info_keeps [OF assms] i unfolding keeps_def group_found_def by blast
  from wp_untouched [OF this u] i
  show "wp (RV_copy_object_loc_info_callback env (response w) loc)
    (\<lambda>loc' w'. group_found lk (parser env) h G ow N g ob loc' w' \<and> URI_ok (loc_URI loc'))
    (\<lambda>_. group_found lk (parser env) h G ow N g ob loc) w"
    by (auto simp: group_found_def elim: wp_mono)
qed

lemma group_found_at:
  assumes f: "group_found lk y h G ow N g ob loc w" and d: "domain ob = loc_domain loc" "c_string (URI ob) \<noteq> None"
  shows "\<exists>d. loc_domain loc = Some d \<and> group_at lk y h G ow N g d w"
proof -
  from f obtain M d' where "M \<subseteq> N" "owned lk y h G (ow(g := Some d')) M w" "g \<in> M" "loc_domain loc = Some d'" "d' \<notin> M" "g \<in> G"
    and "objects w g = Some ob" unfolding group_found_def loc_owned_def by auto
  then have "group_at lk y h G ow N g d' w"
    unfolding group_at_def using d by (intro conjI exI [of _ M] exI [of _ ob]) simp_all
  with \<open>loc_domain loc = Some d'\<close> show ?thesis by blast
qed

text \<open>The group takes the domain that was found.\<close>

lemma group_found_put:
  assumes f: "group_found lk y h G ow N g ob loc w" and ob': "domain ob' = loc_domain loc" "URI_ok (URI ob')"
    "obj_type ob' = obj_type ob" "union ob' = union ob"
  shows "\<exists>d. group_at lk y h G ow N g d (put_object g ob' w)"
proof -
  from f obtain M d where M: "M \<subseteq> N" "owned lk y h G (ow(g := Some d)) M w" "g \<in> M" "loc_domain loc = Some d" "d \<notin> M" "g \<in> G"
    and ob: "objects w g = Some ob" unfolding group_found_def loc_owned_def by auto
  have "slot lk h G (ow(g := Some d)) M g (Some ob')"
    using owned_slot [OF M(2) ob] M(3,6) ob' by (auto simp: slot_def URI_ok_def)
  then have "owned lk y h G (ow(g := Some d)) M (put_object g ob' w)" using ob by (intro owned_put [OF M(2)]) simp_all
  then have "group_at lk y h G ow N g d (put_object g ob' w)"
    unfolding group_at_def
    by (intro conjI exI [of _ M] exI [of _ ob'] M) (use M(4) ob' in \<open>simp_all add: URI_ok_def\<close>)
  then show ?thesis ..
qed

lemma quiet_found_gcpl:
  assumes "modern v" and "\<And>s. gcpl = Some s \<Longrightarrow> decodable s"
  shows "quiet (found_gcpl env v gcpl)"
proof (cases gcpl)
  case None
  then show ?thesis using assms(1) by (simp add: found_gcpl_def decodes_properties_def modern_def)
next
  case (Some s)
  have "quiet (\<lambda>w. defined (RV_base64_decode (\<lambda>_. succeeds env (calls w)) (Some (map byte_of s)) (length s) True None)
      (w\<lparr>calls := calls w + 1\<rparr>))"
    using assms(2) [OF Some] by (fastforce simp: decodable_def quiet_def wp_def defined_def split: option.split)
  then show ?thesis unfolding found_gcpl_def Some chain_defined
    by (intro quiet_if quiet_chain quiet_basic)
qed

lemma wp_opened_group:
  fixes w :: "'s world"
  assumes env: "well_behaved env" and la: "leak_or_alloc lk env"
    and g: "group_at lk (parser env) h (insert a G) ow (insert a N) a dp w" and u: "usable h G ow N p dp" "p \<noteq> a" "dp \<noteq> a"
    and n: "\<And>s. name = Some s \<Longrightarrow> length s < 2 ^ 61"
    and Q: "\<And>d w'. group_at lk (parser env) h (insert a G) ow (insert a N) a d w' \<Longrightarrow> Q a w'"
    and E: "\<And>e d w'. group_at lk (parser env) h (insert a G) ow (insert a N) a d w' \<Longrightarrow> E e w'"
  shows "wp (opened_group (Suc fuel) env p (Some dp) parent_path name gapl a) Q E w"
proof -
  let ?P = "group_at lk (parser env) h (insert a G) ow (insert a N) a"
  let ?loc = "\<lparr>GCPL_base64 = None, loc_domain = Some dp, loc_URI = no_URI\<rparr>"
  have rest: "wp (chain (fetch p) (\<lambda>p.
     chain (fetch_file (domain p)) (\<lambda>f.
     chain (found_gcpl env (server_version f) gcpl) (\<lambda>l.
     chain (set_lists a (\<lambda>g. g\<lparr>gcpl_id := l\<rparr>)) (\<lambda>_.
     chain (copy_list env gapl) (\<lambda>l.
     chain (set_lists a (\<lambda>g. g\<lparr>gapl_id := l\<rparr>)) (\<lambda>_.
     chain (register env a) (\<lambda>_. give a)))))))) Q E w'"
    if P: "?P d w'" and dec: "\<And>s. gcpl = Some s \<Longrightarrow> decodable s" for d gcpl w'
  proof -
    obtain M where M: "owned lk (parser env) h (insert a G) (ow(a := Some d)) M w'" "usable h (insert a G) (ow(a := Some d)) M p dp"
      by (rule group_at_usable [OF P u])
    obtain ob fob f where ob: "objects w' p = Some ob" "domain ob = Some dp" "objects w' dp = Some fob" "union fob = File f"
      "modern (server_version f)" using usable_object [OF M] by metis
    show ?thesis
      by (rule wp_chain, rule wp_fetch [OF ob(1)], rule wp_chain, rule wp_fetch_file [OF ob(2-4)], insert P)
        (assumption | rule wp_chain wp_give group_at_quiet [OF quiet_found_gcpl [OF ob(5) dec]] group_at_set_lists
            group_at_quiet [OF quiet_lists(1)] group_at_quiet [OF quiet_basic(7)]
         | (rule Q, assumption) | (rule E, assumption))+
  qed
  have find: "wp (RV_find_object_by_path (Suc fuel) env p name t (RV_copy_object_loc_info_callback env) ?loc) Q' E' w'"
    if P: "?P dp w'" and Q': "\<And>t loc ob w'. group_found lk (parser env) h (insert a G) ow (insert a N) a ob loc w' \<Longrightarrow>
        URI_ok (loc_URI loc) \<Longrightarrow> Q' (True, t, loc) w'"
      and E': "\<And>e w'. ?P dp w' \<Longrightarrow> E' e w'" for t Q' E' w'
  proof -
    obtain M where M: "owned lk (parser env) h (insert a G) (ow(a := Some dp)) M w'" "usable h (insert a G) (ow(a := Some dp)) M p dp"
      by (rule group_at_usable [OF P u])
    obtain ob where ob: "objects w' a = Some ob" "domain ob = Some dp" "c_string (URI ob) \<noteq> None"
      using P unfolding group_at_def by blast
    have f: "group_found lk (parser env) h (insert a G) ow (insert a N) a ob ?loc w'"
      unfolding group_found_def loc_owned_def using P ob owned_below [OF M(1) ob(1)]
      by (auto simp: group_at_def no_URI_length)
    show ?thesis
    proof (rule wp_find [OF env group_found_steady group_found_keeps [OF env la] f usable_searchable [OF M]])
      fix e and w2 :: "'s world" assume "group_found lk (parser env) h (insert a G) ow (insert a N) a ob ?loc w2"
      from group_found_at [OF this] ob show "E' e w2" by (auto intro: E')
    qed (fact n Q')+
  qed
  show ?thesis unfolding opened_group_def
  proof (rule wp_chain, rule group_at_set_handle_path [OF g], rule wp_chain, rule find, assumption)
    fix t loc ob and w' :: "'s world"
    assume f: "group_found lk (parser env) h (insert a G) ow (insert a N) a ob loc w'" "URI_ok (loc_URI loc)"
    from group_found_put [OF f(1), of "ob\<lparr>URI := loc_URI loc, domain := loc_domain loc\<rparr>"] f(2) obtain d where
      d: "?P d (put_object a (ob\<lparr>URI := loc_URI loc, domain := loc_domain loc\<rparr>) w')" by auto
    have ob: "objects w' a = Some ob" and dec: "\<And>s. GCPL_base64 loc = Some s \<Longrightarrow> decodable s"
      using f(1) by (auto simp: group_found_def loc_owned_def)
    show "wp (case (True, t, loc) of (found, _, loc) \<Rightarrow>
      chain (Objects.check H5E_PATH found) (\<lambda>_.
      chain (update a (\<lambda>ob. ob\<lparr>URI := loc_URI loc, domain := loc_domain loc\<rparr>)) (\<lambda>_. chain (fetch p) (\<lambda>p.
     chain (fetch_file (domain p)) (\<lambda>f.
     chain (found_gcpl env (server_version f) (GCPL_base64 loc)) (\<lambda>l.
     chain (set_lists a (\<lambda>g. g\<lparr>gcpl_id := l\<rparr>)) (\<lambda>_.
     chain (copy_list env gapl) (\<lambda>l.
     chain (set_lists a (\<lambda>g. g\<lparr>gapl_id := l\<rparr>)) (\<lambda>_.
     chain (register env a) (\<lambda>_. give a)))))))))) Q E w'"
      unfolding prod.case
      by (rule wp_chain, rule wp_check, rule wp_chain, rule wp_update [OF ob], rule rest [OF d dec]) simp_all
  qed (rule E, assumption)+
qed

lemma chain_require': "chain (Objects.require e None) f w = Err e w"
  by (simp add: chain_def Objects.require_def throw_def)

lemma wp_group_open:
  fixes w :: "'s world"
  assumes env: "well_behaved env" and la: "leak_or_alloc lk env"
    and o: "owned lk (parser env) h G ow N w" and u: "usable h G ow N p dp"
    and n: "\<And>s. name = Some s \<Longrightarrow> length s < 2 ^ 61"
    and Q: "\<And>a d w'. h a = 0 \<Longrightarrow> a \<notin> G \<Longrightarrow> objects w a = None \<Longrightarrow>
      group_at lk (parser env) h (insert a G) ow (insert a N) a d w' \<Longrightarrow> Q a w'"
    and E: "\<And>e w'. owned lk (parser env) h G ow N w' \<Longrightarrow> E e w'"
  shows "wp (RV_group_open (Suc fuel) env p name gapl) Q E w"
proof -
  obtain ob fob f where ob: "objects w p = Some ob" "domain ob = Some dp" "objects w dp = Some fob" "union fob = File f"
    using usable_object [OF o u] by metis
  have dp: "dp \<notin> N" using u by (simp add: usable_def)
  show ?thesis unfolding RV_group_open_def
  proof (rule wp_chain, rule wp_fetch [OF ob(1)], rule wp_chain, rule wp_check, rule wp_chain, rule wp_require,
      rule wp_chain, rule wp_check, unfold ob(2))
    fix path
    show "wp (chain (new_block env (new_group (Some dp))) (\<lambda>grp. chain (add_reference (Some dp)) (\<lambda>_.
      cleanup (opened_group (Suc fuel) env p (Some dp) path name gapl grp) (RV_group_close (Some grp))))) Q E w"
    proof (rule wp_new_group_cleanup [OF o usable_refs [OF o u] dp Q E])
      fix a and w1 :: "'s world" and Q :: "nat \<Rightarrow> 's world \<Rightarrow> bool" and E :: "object_failure \<Rightarrow> 's world \<Rightarrow> bool"
      assume a: "objects w a = None" and g: "group_at lk (parser env) h (insert a G) ow (insert a N) a dp w1"
        and fin: "\<And>d w'. group_at lk (parser env) h (insert a G) ow (insert a N) a d w' \<Longrightarrow> Q a w'"
        and fails: "\<And>e d w'. group_at lk (parser env) h (insert a G) ow (insert a N) a d w' \<Longrightarrow> E e w'"
      have "p \<noteq> a" "dp \<noteq> a" using a ob(1,3) by auto
      then show "wp (opened_group (Suc fuel) env p (Some dp) path name gapl a) Q E w1"
        by (rule wp_opened_group [OF env la g u]) (fact n fin fails)+
    qed
  qed (rule E [OF o])+
qed

end
