(* ===== verification/Handles.thy ===== *)
theory Handles
  imports Group_Life
begin

text \<open>
  Programs that use the handles of files and groups: sequences of calls of the connector, each on a handle that
  the program holds.
\<close>

section \<open>Calls\<close>

datatype api_call =
    Create_File string u32 hid hid | Open_File string u32 hid | Close_File nat | Specific "nat option" file_op
  | Create_Group nat "string option" hid hid hid | Open_Group nat "string option" hid | Close_Group nat
  | Get_Group nat group_op

text \<open>A call with what it does to the handles that are held.\<close>

definition perform :: "nat \<Rightarrow> 's env \<Rightarrow> api_call \<Rightarrow> ('s, nat set \<Rightarrow> nat set) op" where
  "perform fuel env c =
     (case c of
        Create_File name flags fcpl fapl \<Rightarrow> chain (RV_file_create env name flags fcpl fapl) (\<lambda>a. give (insert a))
      | Open_File name flags fapl \<Rightarrow> chain (RV_file_open env name flags fapl) (\<lambda>a. give (insert a))
      | Close_File a \<Rightarrow> chain (RV_file_close (Some a)) (\<lambda>_. give (\<lambda>H. H - {a}))
      | Specific file fop \<Rightarrow>
          chain (RV_file_specific env file fop) (\<lambda>r. give (case r of Reopened a \<Rightarrow> insert a | _ \<Rightarrow> id))
      | Create_Group p name lcpl gcpl gapl \<Rightarrow>
          chain (RV_group_create fuel env p name lcpl gcpl gapl) (\<lambda>a. give (insert a))
      | Open_Group p name gapl \<Rightarrow> chain (RV_group_open fuel env p name gapl) (\<lambda>a. give (insert a))
      | Close_Group a \<Rightarrow> chain (RV_group_close (Some a)) (\<lambda>_. give (\<lambda>H. H - {a}))
      | Get_Group p gop \<Rightarrow> chain (RV_group_get fuel env p gop) (\<lambda>_. give id))"

definition is_group :: "'s world \<Rightarrow> nat \<Rightarrow> bool" where
  "is_group w a \<longleftrightarrow> (case objects w a of Some ob \<Rightarrow> obj_type ob = H5I_GROUP | None \<Rightarrow> False)"

text \<open>
  What a program may call: with handles it holds, of the right kind, and with names that fit the memory.  A group
  is not created below one that has no name, and intermediate groups are not asked for; the information of a group
  by its name is asked of groups only.
\<close>

definition allowed :: "'s env \<Rightarrow> nat set \<Rightarrow> 's world \<Rightarrow> api_call \<Rightarrow> bool" where
  "allowed env H w c =
     (case c of
        Close_File a \<Rightarrow> a \<in> H \<and> \<not> is_group w a
      | Specific (Some a) _ \<Rightarrow> a \<in> H
      | Specific None fop \<Rightarrow> fop \<noteq> Flush \<and> fop \<noteq> Reopen
      | Create_Group p name lcpl _ _ \<Rightarrow>
          p \<in> H \<and> (case objects w p of Some ob \<Rightarrow> handle_path ob \<noteq> None | None \<Rightarrow> False) \<and>
          (case name of Some s \<Rightarrow> length s < 2 ^ 61 | None \<Rightarrow> True) \<and> create_intermediate env lcpl \<noteq> Some True
      | Open_Group p name _ \<Rightarrow> p \<in> H \<and> (case name of Some s \<Rightarrow> length s < 2 ^ 61 | None \<Rightarrow> True)
      | Close_Group a \<Rightarrow> a \<in> H \<and> is_group w a
      | Get_Group p gop \<Rightarrow>
          p \<in> H \<and> (case gop of Get_Info_By_Name s _ \<Rightarrow> is_group w p \<and> length s < 2 ^ 61 | _ \<Rightarrow> True)
      | _ \<Rightarrow> True)"

text \<open>A program; a call that is not allowed is left out.  \<open>None\<close> is undefined behaviour.\<close>

fun session :: "nat \<Rightarrow> 's env \<Rightarrow> api_call list \<Rightarrow> nat set \<Rightarrow> 's world \<Rightarrow> (nat set \<times> 's world) option" where
  "session fuel env [] H w = Some (H, w)"
| "session fuel env (c # cs) H w =
     (if allowed env H w c
      then (case perform fuel env c w of
              Val upd w' \<Rightarrow> session fuel env cs (upd H) w'
            | Err _ w' \<Rightarrow> session fuel env cs H w'
            | _ \<Rightarrow> None)
      else session fuel env cs H w)"

section \<open>The handles that are held\<close>

definition holds :: "bool \<Rightarrow> 's env \<Rightarrow> nat set \<Rightarrow> 's world \<Rightarrow> bool" where
  "holds lk env H w \<longleftrightarrow>
     (\<exists>h G ow. owned lk (parser env) h G ow {} w \<and> (\<forall>a. h a \<le> 1) \<and> H = {a. h a = 1} \<union> G)"

lemma holdsI:
  "owned lk (parser env) h G ow {} w \<Longrightarrow> (\<And>a. h a \<le> 1) \<Longrightarrow> H = {a. h a = 1} \<union> G \<Longrightarrow> holds lk env H w"
  by (auto simp: holds_def)

lemma held_usable:
  assumes "owned lk (parser env) h G ow {} w" and "\<And>a. h a \<le> 1" and "p \<in> {a. h a = 1} \<union> G"
  shows "\<exists>d. usable h G ow {} p d"
proof (cases "p \<in> G")
  case True
  from owned_group [OF assms(1) True] obtain ob where "p \<notin> {} \<Longrightarrow> group_ready (ow p) ob" by metis
  then obtain d where "ow p = Some d" by (auto simp: group_ready_def)
  then show ?thesis using True by (auto simp: usable_def)
next
  case False
  then show ?thesis using assms(3) by (auto simp: usable_def)
qed

lemma group_at_done:
  assumes g: "group_at lk y h G ow {g} g d w"
  shows "owned lk y h G (ow(g := Some d)) {} w"
proof -
  from g obtain M ob where M: "M \<subseteq> {g}" "owned lk y h G (ow(g := Some d)) M w" "g \<in> G"
    and ob: "objects w g = Some ob" "domain ob = Some d" "c_string (URI ob) \<noteq> None" unfolding group_at_def by blast
  have "slot lk h G (ow(g := Some d)) (M - {g}) g (objects w g)"
    using owned_slot [OF M(2) ob(1)] M(3) ob by (simp add: slot_def group_ready_def)
  from owned_ready [OF M(2) this] M(1) show ?thesis by (metis Diff_eq_empty_iff)
qed

lemma is_group_held:
  assumes "owned lk y h G ow {} w" and "p \<in> {a. h a = 1} \<union> G"
  shows "is_group w p \<longleftrightarrow> p \<in> G"
proof (cases "p \<in> G")
  case True
  obtain ob where "objects w p = Some ob" "obj_type ob = H5I_GROUP" by (rule owned_group [OF assms(1) True])
  with True show ?thesis by (simp add: is_group_def)
next
  case False
  then have "0 < refs h G ow p" using assms(2) by (simp add: refs_def)
  then obtain ob where "objects w p = Some ob" "obj_type ob = H5I_FILE" by (rule owned_file [OF assms(1)])
  with False show ?thesis by (simp add: is_group_def)
qed

section \<open>Every call\<close>

text \<open>What a new handle does to those that are held.\<close>

lemma holds_file:
  assumes "owned lk (parser env) (h(a := Suc 0)) G ow {} w" and "\<And>a. h a \<le> 1"
  shows "holds lk env (insert a ({a. h a = 1} \<union> G)) w"
  by (rule holdsI [of lk env "h(a := 1)" G ow]) (use assms in auto)

lemma holds_group:
  assumes "group_at lk (parser env) h (insert a G) ow (insert a {}) a d w" and "\<And>a. h a \<le> 1"
  shows "holds lk env (insert a ({a. h a = 1} \<union> G)) w"
  by (rule holdsI [OF group_at_done [OF assms(1)] assms(2)]) auto

lemma wp_specific:
  fixes w :: "'s world"
  assumes env: "well_behaved env" and o: "owned lk (parser env) h G ow {} w" and h: "\<And>a. h a \<le> 1"
    and a: "\<And>a. file = Some a \<Longrightarrow> a \<in> {a. h a = 1} \<union> G" "file = None \<Longrightarrow> fop \<noteq> Flush \<and> fop \<noteq> Reopen"
    and Q: "\<And>w'. owned lk (parser env) h G ow {} w' \<Longrightarrow> Q Done w'"
    and Q': "\<And>b w'. owned lk (parser env) h G ow {} w' \<Longrightarrow> Q (Accessible b) w'"
    and R: "\<And>a w'. owned lk (parser env) (h(a := Suc 0)) G ow {} w' \<Longrightarrow> Q (Reopened a) w'"
    and E: "\<And>e w'. owned lk (parser env) h G ow {} w' \<Longrightarrow> E e w'"
  shows "wp (RV_file_specific env file fop) Q E w"
proof -
  have the_file: "\<exists>ob f n. objects w x = Some ob \<and> domain ob = Some x \<and> union ob = File f \<and> filepath_name f = Some n"
    if x: "file = Some x" and t: "\<And>ob. objects w x = Some ob \<Longrightarrow> obj_type ob = H5I_FILE" for x
  proof -
    have "x \<notin> G"
    proof
      assume "x \<in> G"
      then obtain ob where "objects w x = Some ob" "obj_type ob = H5I_GROUP" by (rule owned_group [OF o])
      then show False using t by auto
    qed
    then have "0 < refs h G ow x" using a(1) [OF x] by (simp add: refs_def)
    then obtain ob f where "objects w x = Some ob" "union ob = File f" "file_ready x ob"
      by (rule owned_file [OF o]) simp
    then show ?thesis by (auto simp: file_ready_def)
  qed
  have live: "\<exists>ob. objects w x = Some ob" if x: "file = Some x" for x
  proof -
    obtain d where "usable h G ow {} x d" using held_usable [OF o h a(1) [OF x]] by blast
    then obtain ob where "objects w x = Some ob" by (rule usable_object [OF o])
    then show ?thesis ..
  qed
  note att = wp_quiet [OF quiet_basic(5)]
  have ops: "wp (case fop of
        Flush \<Rightarrow>
          chain (defined file) (\<lambda>a.
          chain (fetch a) (\<lambda>ob.
          chain (filename (domain ob)) (\<lambda>name.
          chain (attempt env (Simple H5E_CANTALLOC)) (\<lambda>_.
          chain (attempt env (Simple H5E_CANTALLOC)) (\<lambda>_.
          chain (exchange env H5E_NONE_MINOR
            \<lparr>http_method = HTTP_PUT [], url = base_url env @ ''/?flush=1&rescan=1'', host = name\<rparr>) (\<lambda>code.
          chain (Objects.check H5E_CANTFLUSH (code = 204)) (\<lambda>_. give Done)))))))
      | Reopen \<Rightarrow>
          chain (fetch_file file) (\<lambda>f.
          chain (defined (filepath_name f)) (\<lambda>name.
          chain (result (RV_file_open env name (intent f) (fapl_id f))) (\<lambda>r.
            (case r of Inl _ \<Rightarrow> throw H5E_CANTOPENOBJ | Inr a \<Rightarrow> give (Reopened a)))))
      | Is_Accessible name fapl \<Rightarrow>
          chain (result (RV_file_open env name 0 fapl)) (\<lambda>r.
            (case r of
               Inl _ \<Rightarrow> give (Accessible False)
             | Inr a \<Rightarrow>
                 chain (result (RV_file_close (Some a))) (\<lambda>r.
                   (case r of Inl _ \<Rightarrow> throw H5E_CANTCLOSEFILE | Inr _ \<Rightarrow> give (Accessible True)))))
      | Delete name \<Rightarrow>
          chain (attempt env (Simple H5E_CANTALLOC)) (\<lambda>_.
          chain (CURL_PERFORM env H5E_CLOSEERROR
            \<lparr>http_method = HTTP_DELETE, url = base_url env, host = name\<rparr>) (\<lambda>_. give Done))
      | Is_Equal \<Rightarrow> throw (Simple H5E_UNSUPPORTED)) Q E w"
    if t: "\<And>x ob. file = Some x \<Longrightarrow> objects w x = Some ob \<Longrightarrow> obj_type ob = H5I_FILE"
  proof (cases fop)
    case Flush
    then obtain x where x: "file = Some x" using a(2) by auto
    from the_file [OF x] t [OF x] obtain ob f n where
      ob: "objects w x = Some ob" "domain ob = Some x" "union ob = File f" "filepath_name f = Some n" by blast
    show ?thesis unfolding Flush file_op.case x chain_defined
    proof (rule wp_chain, rule wp_fetch [OF ob(1)], unfold ob(2), rule wp_chain, rule wp_filename [OF refl ob(1,3,4)],
        rule wp_chain, rule att, rule wp_chain, rule att, rule wp_chain)
      fix w1 w2 :: "'s world" assume s: "same w w1" "same w1 w2"
      have o2: "owned lk (parser env) h G ow {} w2" by (rule owned_same [OF owned_same [OF o s(1)] s(2)])
      show "wp (exchange env H5E_NONE_MINOR
            \<lparr>http_method = HTTP_PUT [], url = base_url env @ ''/?flush=1&rescan=1'', host = n\<rparr>) (\<lambda>code.
          wp (chain (Objects.check H5E_CANTFLUSH (code = 204)) (\<lambda>_. give Done)) Q E) E w2"
        by (rule wp_exchange [OF env o2]) (auto intro!: wp_chain wp_check wp_give Q E)
    qed (auto intro: E owned_same [OF o] owned_same [OF owned_same [OF o]])
  next
    case Reopen
    then obtain x where x: "file = Some x" using a(2) by auto
    from the_file [OF x] t [OF x] obtain ob f n where
      ob: "objects w x = Some ob" "union ob = File f" "filepath_name f = Some n" by blast
    show ?thesis unfolding Reopen file_op.case x
      by (rule wp_chain, rule wp_fetch_file [OF refl ob(1,2)], unfold ob(3) chain_defined, rule wp_chain, rule wp_result,
          rule wp_file_open [OF env o]) (auto intro!: wp_give wp_throw R E)
  next
    case (Is_Accessible name fapl)
    show ?thesis unfolding Is_Accessible file_op.case
    proof (rule wp_chain, rule wp_result, rule wp_file_open [OF env o])
      fix x and w' :: "'s world"
      assume x: "h x = 0" and o': "owned lk (parser env) (h(x := 1)) G ow ({} - {x}) w'"
      have "h(x := 1, x := (h(x := 1)) x - 1) = h" using x by auto
      then have "wp (RV_file_close (Some x)) (\<lambda>_. Q (Accessible True)) (\<lambda>_. E H5E_CANTCLOSEFILE) w'"
        by (intro wp_file_close [OF o'] Q') simp_all
      then show "wp (case Inr x of Inl _ \<Rightarrow> give (Accessible False)
             | Inr a \<Rightarrow> chain (result (RV_file_close (Some a))) (\<lambda>r.
                   case r of Inl _ \<Rightarrow> throw H5E_CANTCLOSEFILE | Inr _ \<Rightarrow> give (Accessible True))) Q E w'"
        by (auto simp: wp_def chain_def result_def give_def throw_def split: outcome.splits)
    qed (auto intro: wp_give Q')
  next
    case (Delete name)
    show ?thesis unfolding Delete file_op.case
      by (rule wp_chain, rule att, rule wp_chain, rule wp_CURL_PERFORM [OF env owned_same [OF o]])
        (auto intro: wp_give Q E owned_same [OF o])
  qed (auto intro: wp_throw E [OF o])
  show ?thesis
  proof (cases "file")
    case None
    show ?thesis unfolding RV_file_specific_def
      by (rule wp_chain, unfold None option.case, rule wp_give, fold None, rule ops) (simp add: None)
  next
    case (Some x)
    from live [OF Some] obtain ob where ob: "objects w x = Some ob" ..
    show ?thesis unfolding RV_file_specific_def
      by (rule wp_chain, unfold Some option.case, rule wp_chain, rule wp_fetch [OF ob], rule wp_check, fold Some, rule ops)
        (auto simp: Some ob intro: E [OF o])
  qed
qed

lemma wp_group_get:
  fixes w :: "'s world"
  assumes env: "well_behaved env" and la: "leak_or_alloc lk env" and o: "owned lk (parser env) h G ow {} w"
    and u: "usable h G ow {} p dp"
    and nm: "\<And>s l. gop = Get_Info_By_Name s l \<Longrightarrow> p \<in> G \<and> length s < 2 ^ 61"
    and Q: "\<And>x ow w'. owned lk (parser env) h G ow {} w' \<Longrightarrow> Q x w'"
    and E: "\<And>e ow w'. owned lk (parser env) h G ow {} w' \<Longrightarrow> E e w'"
  shows "wp (RV_group_get (Suc fuel) env p gop) Q E w"
proof -
  obtain ob where ob: "objects w p = Some ob" "URI_ok (URI ob)" "domain ob = Some dp" using usable_object [OF o u] by metis
  let ?send = "\<lambda>u. let request_url = base_url env @ ''/groups/'' @ u
       in chain (Objects.check (Simple H5E_SYSERRSTR) (length request_url < URL_MAX_LENGTH)) (\<lambda>_.
          chain (fetch p) (\<lambda>ob.
          chain (filename (domain ob)) (\<lambda>name.
          chain (attempt env (Simple H5E_CANTALLOC)) (\<lambda>_.
          chain (CURL_PERFORM env (Simple H5E_CANTGET) \<lparr>http_method = HTTP_GET, url = request_url, host = name\<rparr>) (\<lambda>_.
          chain last_response (\<lambda>r.
          case RV_get_group_info_callback (parser env) r of
            Inl _ \<Rightarrow> throw (Simple H5E_CANTGET)
          | Inr n \<Rightarrow> give (Links n)))))))"
  have send: "wp (?send s) Q E w'" if o': "owned lk (parser env) h G ow' {} w'" and u': "usable h G ow' {} p dp'" for s ow' dp' w'
  proof -
    obtain ob fob f n where ob: "objects w' p = Some ob" "domain ob = Some dp'" "objects w' dp' = Some fob" "union fob = File f"
      "filepath_name f = Some n" using usable_object [OF o' u'] by metis
    show ?thesis unfolding Let_def
    proof (rule wp_chain, rule wp_check, rule wp_chain, rule wp_fetch [OF ob(1)], rule wp_chain,
        rule wp_filename [OF ob(2-5)], rule wp_chain, rule wp_quiet [OF quiet_basic(5)], rule wp_chain,
        rule wp_CURL_PERFORM [OF env owned_same [OF o']], assumption)
      fix c and w2 :: "'s world" assume "owned lk (parser env) h G ow' {} w2"
      then show "wp (chain last_response (\<lambda>r. case RV_get_group_info_callback (parser env) r of
            Inl _ \<Rightarrow> throw (Simple H5E_CANTGET) | Inr n \<Rightarrow> give (Links n))) Q E w2"
        by (intro wp_chain wp_last_response) (auto intro: wp_give wp_throw Q E split: sum.split)
    qed (auto intro: E [OF owned_same [OF o']] E o')
  qed
  have by_name: "wp (chain (RV_find_object_by_path (Suc fuel) env p (Some s) H5I_GROUP (RV_copy_object_loc_info_callback env)
                \<lparr>GCPL_base64 = None, loc_domain = Some dp, loc_URI = uninit_buffer\<rparr>) (\<lambda>(found, _, loc).
              chain (Objects.check H5E_PATH found) (\<lambda>_.
              chain (update p (\<lambda>ob. ob\<lparr>domain := loc_domain loc\<rparr>)) (\<lambda>_.
              defined (c_string (loc_URI loc)))))) (\<lambda>u. wp (?send u) Q E) E w"
    if g: "p \<in> G" and l: "length s < 2 ^ 61" for s
  proof -
    let ?loc = "\<lparr>GCPL_base64 = None, loc_domain = Some dp, loc_URI = uninit_buffer\<rparr>"
    let ?I = "group_found lk (parser env) h G ow {p} p ob"
    have "ow p = Some dp" using u g by (simp add: usable_def)
    then have "owned lk (parser env) h G (ow(p := Some dp)) {p} w"
      using owned_busy [OF o, of p] by (simp add: fun_upd_idem)
    moreover have "p \<noteq> dp" using usable_refs [OF o u] owned_group [OF o g] by (metis less_irrefl)
    ultimately have f: "?I ?loc w"
      using g ob(1) owned_below [OF o ob(1)] by (auto simp: group_found_def loc_owned_def uninit_buffer_def)
    show ?thesis
    proof (rule wp_chain, rule wp_find [OF env group_found_steady group_found_keeps [OF env la] f usable_searchable [OF o u]])
      fix t loc and w' :: "'s world" assume i: "?I loc w'" "URI_ok (loc_URI loc)"
      then have ob': "objects w' p = Some ob" by (simp add: group_found_def)
      from group_found_put [OF i(1), of "ob\<lparr>domain := loc_domain loc\<rparr>"] ob(2) obtain d where
        "group_at lk (parser env) h G ow {p} p d (put_object p (ob\<lparr>domain := loc_domain loc\<rparr>) w')" by auto
      note o2 = group_at_done [OF this]
      have u2: "usable h G (ow(p := Some d)) {} p d" using g by (simp add: usable_def)
      show "wp (case (True, t, loc) of (found, _, loc) \<Rightarrow>
              chain (Objects.check H5E_PATH found) (\<lambda>_.
              chain (update p (\<lambda>ob. ob\<lparr>domain := loc_domain loc\<rparr>)) (\<lambda>_.
              defined (c_string (loc_URI loc))))) (\<lambda>u. wp (?send u) Q E) E w'"
        unfolding prod.case using i(2)
        by (intro wp_chain wp_check wp_update [OF ob'] wp_defined send [OF o2 u2]) (simp_all add: URI_ok_def)
    next
      fix e and w' :: "'s world" assume "?I ?loc w'"
      from group_found_at [OF this] ob have "group_at lk (parser env) h G ow {p} p dp w'" by (auto simp: URI_ok_def)
      then show "E e w'" by (rule E [OF group_at_done])
    qed (use l in simp)
  qed
  have send_self: "wp (URI_of ob) (\<lambda>u. wp (?send u) Q E) E w"
    unfolding URI_of_def using ob(2) by (intro wp_defined send [OF o u]) (simp add: URI_ok_def)
  show ?thesis unfolding RV_group_get_def
  proof (rule wp_chain, rule wp_fetch [OF ob(1)], rule wp_chain, rule wp_check, rule wp_if)
    show "wp (chain (new_list env H5E_CANTCOPY) (\<lambda>l. give (Copied_List l))) Q E w"
      by (rule wp_chain, rule wp_quiet [OF quiet_basic(6)]) (auto intro: wp_give Q E owned_same [OF o])
    show "wp (chain (case gop of
            Get_Info \<Rightarrow> URI_of ob
          | Get_Info_By_Name name lapl \<Rightarrow>
              chain (Objects.check (Simple H5E_BADVALUE) (lapl \<noteq> Invalid)) (\<lambda>_.
              chain (RV_find_object_by_path (Suc fuel) env p (Some name) H5I_GROUP (RV_copy_object_loc_info_callback env)
                \<lparr>GCPL_base64 = None, loc_domain = domain ob, loc_URI = uninit_buffer\<rparr>) (\<lambda>(found, _, loc).
              chain (Objects.check H5E_PATH found) (\<lambda>_.
              chain (update p (\<lambda>ob. ob\<lparr>domain := loc_domain loc\<rparr>)) (\<lambda>_.
              defined (c_string (loc_URI loc))))))
          | Get_Info_By_Idx \<Rightarrow> throw (Simple H5E_UNSUPPORTED)
          | _ \<Rightarrow> throw (Simple H5E_BADVALUE)) ?send) Q E w" if "gop \<noteq> Get_GCPL"
    proof (rule wp_chain, cases gop)
      case (Get_Info_By_Name s l)
      show "wp (case gop of
            Get_Info \<Rightarrow> URI_of ob
          | Get_Info_By_Name name lapl \<Rightarrow>
              chain (Objects.check (Simple H5E_BADVALUE) (lapl \<noteq> Invalid)) (\<lambda>_.
              chain (RV_find_object_by_path (Suc fuel) env p (Some name) H5I_GROUP (RV_copy_object_loc_info_callback env)
                \<lparr>GCPL_base64 = None, loc_domain = domain ob, loc_URI = uninit_buffer\<rparr>) (\<lambda>(found, _, loc).
              chain (Objects.check H5E_PATH found) (\<lambda>_.
              chain (update p (\<lambda>ob. ob\<lparr>domain := loc_domain loc\<rparr>)) (\<lambda>_.
              defined (c_string (loc_URI loc))))))
          | Get_Info_By_Idx \<Rightarrow> throw (Simple H5E_UNSUPPORTED)
          | _ \<Rightarrow> throw (Simple H5E_BADVALUE)) (\<lambda>u. wp (?send u) Q E) E w"
        unfolding Get_Info_By_Name group_op.case ob(3)
        by (rule wp_chain, rule wp_check, rule by_name) (use nm [OF Get_Info_By_Name] E [OF o] in auto)
    qed (use that send_self in \<open>auto intro: wp_throw E [OF o]\<close>)
  qed (rule E [OF o])
qed

text \<open>Every allowed call is defined, and the handles are held as before with what it does to them.\<close>

lemma perform_holds:
  fixes w :: "'s world"
  assumes env: "well_behaved env" and la: "leak_or_alloc lk env" and al: "allowed env H w c" and hd: "holds lk env H w"
  shows "wp (perform (Suc fuel) env c) (\<lambda>upd. holds lk env (upd H)) (\<lambda>_. holds lk env H) w"
proof -
  from hd obtain h G ow where o: "owned lk (parser env) h G ow {} w" and h: "\<And>a. h a \<le> 1" and H: "H = {a. h a = 1} \<union> G"
    unfolding holds_def by blast
  have keep: "holds lk env H w'" if "owned lk (parser env) h G ow {} w'" for ow and w' :: "'s world"
    by (rule holdsI [OF that h H])
  have hfile: "holds lk env (insert a H) w'" if "owned lk (parser env) (h(a := Suc 0)) G ow {} w'" for a and w' :: "'s world"
    using holds_file [OF that h] by (simp add: H)
  have group: "holds lk env (insert a H) w'" if "group_at lk (parser env) h (insert a G) ow (insert a {}) a d w'"
    for a d and w' :: "'s world"
    using holds_group [OF that h] by (simp add: H)
  show ?thesis
  proof (cases c)
    case (Create_File name flags fcpl fapl)
    show ?thesis unfolding Create_File perform_def api_call.case
      by (rule wp_chain, rule wp_file_create [OF env o]) (auto intro!: wp_give hfile keep)
  next
    case (Open_File name flags fapl)
    show ?thesis unfolding Open_File perform_def api_call.case
      by (rule wp_chain, rule wp_file_open [OF env o]) (auto intro!: wp_give hfile keep)
  next
    case (Close_File a)
    then have a: "a \<in> H" "a \<notin> G" using al is_group_held [OF o, of a] by (simp_all add: allowed_def H)
    then have ha: "h a = 1" by (simp add: H)
    have "wp (RV_file_close (Some a)) (\<lambda>_. holds lk env (H - {a})) (\<lambda>_. holds lk env H) w"
    proof (rule wp_file_close [OF o])
      fix w' :: "'s world" assume "owned lk (parser env) (h(a := h a - 1)) G ow {} w'"
      then show "holds lk env (H - {a}) w'" by (rule holdsI) (use ha a(2) h in \<open>auto simp: H\<close>)
    qed (simp add: ha)
    then show ?thesis unfolding Close_File perform_def api_call.case by (intro wp_chain) (auto simp: wp_def give_def split: outcome.splits)
  next
    case (Specific f fop)
    have f: "\<And>a. f = Some a \<Longrightarrow> a \<in> {a. h a = 1} \<union> G" "f = None \<Longrightarrow> fop \<noteq> Flush \<and> fop \<noteq> Reopen"
      using al Specific by (auto simp: allowed_def H split: option.splits)
    show ?thesis unfolding Specific perform_def api_call.case
      by (rule wp_chain, rule wp_specific [OF env o h f]) (auto intro!: wp_give hfile keep)
  next
    case (Create_Group p name lcpl gcpl gapl)
    then have p: "p \<in> H" "create_intermediate env lcpl \<noteq> Some True" "\<And>s. name = Some s \<Longrightarrow> length s < 2 ^ 61"
      "\<And>ob. objects w p = Some ob \<Longrightarrow> handle_path ob \<noteq> None" using al by (auto simp: allowed_def split: option.splits)
    obtain d where u: "usable h G ow {} p d" using held_usable [OF o h] p(1) by (auto simp: H)
    show ?thesis unfolding Create_Group perform_def api_call.case
      by (rule wp_chain, rule wp_group_create [OF env p(2) o u p(4,3)]) (auto intro!: wp_give group keep)
  next
    case (Open_Group p name gapl)
    then have p: "p \<in> H" "\<And>s. name = Some s \<Longrightarrow> length s < 2 ^ 61" using al by (auto simp: allowed_def split: option.splits)
    obtain d where u: "usable h G ow {} p d" using held_usable [OF o h] p(1) by (auto simp: H)
    show ?thesis unfolding Open_Group perform_def api_call.case
      by (rule wp_chain, rule wp_group_open [OF env la o u p(2)]) (auto intro!: wp_give group keep)
  next
    case (Close_Group a)
    then have a: "a \<in> G" using al is_group_held [OF o, of a] by (simp add: allowed_def H)
    from owned_group [OF o a] obtain ob where ob: "objects w a = Some ob" "a \<notin> {} \<Longrightarrow> group_ready (ow a) ob" "refs h G ow a = 0"
      by metis
    then obtain d where d: "ow a = Some d" "domain ob = Some d" by (auto simp: group_ready_def)
    have ha: "h a = 0" using ob(3) by (simp add: refs_def)
    have "wp (RV_group_close (Some a)) (\<lambda>_. holds lk env (H - {a})) (\<lambda>_. holds lk env H) w"
    proof (rule wp_group_close [OF o a d(1) ob(1) d(2)])
      fix w' :: "'s world" assume "owned lk (parser env) h (G - {a}) ow ({} - {a}) w'"
      then have "owned lk (parser env) h (G - {a}) ow {} w'" by simp
      then show "holds lk env (H - {a}) w'" by (rule holdsI [OF _ h]) (use ha in \<open>auto simp: H\<close>)
    qed
    then show ?thesis unfolding Close_Group perform_def api_call.case by (intro wp_chain) (auto simp: wp_def give_def split: outcome.splits)
  next
    case (Get_Group p gop)
    then have p: "p \<in> H" using al by (simp add: allowed_def)
    obtain d where u: "usable h G ow {} p d" using held_usable [OF o h] p by (auto simp: H)
    have nm: "p \<in> G \<and> length s < 2 ^ 61" if "gop = Get_Info_By_Name s l" for s l
      using al Get_Group that is_group_held [OF o, of p] p by (simp add: allowed_def H)
    show ?thesis unfolding Get_Group perform_def api_call.case
      by (rule wp_chain, rule wp_group_get [OF env la o u nm]) (auto intro!: wp_give keep)
  qed
qed

lemma session_holds:
  assumes env: "well_behaved env" and la: "leak_or_alloc lk env" and hd: "holds lk env H w"
  shows "\<exists>H' w'. session (Suc fuel) env cs H w = Some (H', w') \<and> holds lk env H' w'"
  using hd
proof (induction cs arbitrary: H w)
  case (Cons c cs)
  show ?case
  proof (cases "allowed env H w c")
    case True
    from perform_holds [OF env la True Cons.prems, of fuel]
    show ?thesis using Cons.IH True by (cases "perform (Suc fuel) env c w") (auto simp: wp_def)
  next
    case False
    then show ?thesis using Cons by simp
  qed
qed simp

lemma holds_empty:
  assumes "objects w = (\<lambda>_. None)" and "reply_ok (parser env) (response w)"
  shows "holds lk env {} w"
proof (rule holdsI [of lk env "\<lambda>_. 0" "{}" "\<lambda>_. None"])
  show "owned lk (parser env) (\<lambda>_. 0) {} (\<lambda>_. None) {} w"
    using assms by (simp add: owned_def slot_def refs_def)
qed auto

section \<open>What the handles mean\<close>

text \<open>The domain of a group.\<close>

definition group_domain :: "'s world \<Rightarrow> nat \<Rightarrow> nat option" where
  "group_domain w g = (case objects w g of Some ob \<Rightarrow> if obj_type ob = H5I_GROUP then domain ob else None | None \<Rightarrow> None)"

definition file_at :: "'s world \<Rightarrow> nat \<Rightarrow> RV_file_t option" where
  "file_at w a =
     (case objects w a of
        Some ob \<Rightarrow> (case union ob of File f \<Rightarrow> if obj_type ob = H5I_FILE then Some f else None | _ \<Rightarrow> None)
      | None \<Rightarrow> None)"

definition nothing_open :: "'s env \<Rightarrow> 's world \<Rightarrow> bool" where
  "nothing_open env w \<longleftrightarrow> objects w = (\<lambda>_. None) \<and> reply_ok (parser env) (response w)"

lemma owned_group_domain:
  assumes o: "owned lk y h G ow {} w" and g: "g \<in> G"
  shows "group_domain w g = ow g" "ow g \<noteq> None" "is_group w g"
proof -
  from owned_group [OF o g] obtain ob where "objects w g = Some ob" "obj_type ob = H5I_GROUP" "g \<notin> {} \<Longrightarrow> group_ready (ow g) ob"
    by metis
  then show "group_domain w g = ow g" "ow g \<noteq> None" "is_group w g"
    by (auto simp: group_domain_def group_ready_def is_group_def)
qed

lemma owned_file_at:
  assumes o: "owned lk y h G ow {} w" and a: "0 < refs h G ow a"
  shows "\<exists>f. file_at w a = Some f \<and> ref_count f = refs h G ow a \<and> filepath_name f \<noteq> None \<and> \<not> is_group w a"
proof -
  from owned_file [OF o a] obtain ob f where "objects w a = Some ob" "obj_type ob = H5I_FILE" "union ob = File f"
    "ref_count f = refs h G ow a" "a \<notin> {} \<Longrightarrow> file_ready a ob" by metis
  then show ?thesis by (auto simp: file_at_def file_ready_def is_group_def)
qed

lemma holds_facts:
  assumes "holds lk env H w"
  shows "a \<in> H \<Longrightarrow> \<not> is_group w a \<Longrightarrow> \<exists>f. file_at w a = Some f"
    and "g \<in> H \<Longrightarrow> is_group w g \<Longrightarrow> \<exists>d f. group_domain w g = Some d \<and> file_at w d = Some f \<and> filepath_name f \<noteq> None"
    and "a \<in> H \<or> (\<exists>g \<in> H. group_domain w g = Some a) \<Longrightarrow> file_at w a = Some f \<Longrightarrow>
      ref_count f = (if a \<in> H then 1 else 0) + card {g \<in> H. group_domain w g = Some a}"
    and "\<not> lk \<Longrightarrow> objects w a \<noteq> None \<Longrightarrow> a \<in> H \<or> (\<exists>g \<in> H. group_domain w g = Some a)"
proof -
  from assms obtain h G ow where o: "owned lk (parser env) h G ow {} w" and h: "\<And>a. h a \<le> 1" and H: "H = {a. h a = 1} \<union> G"
    unfolding holds_def by blast
  have G: "g \<in> G \<longleftrightarrow> is_group w g" if "g \<in> H" for g using is_group_held [OF o] that H by blast
  have none: "group_domain w g = None" if "g \<in> H" "g \<notin> G" for g
    using G that by (auto simp: group_domain_def is_group_def split: option.split)
  have card: "{g \<in> H. group_domain w g = Some a} = {g \<in> G. ow g = Some a}" for a
    using none owned_group_domain(1) [OF o] H by force
  have h1: "h a = (if a \<in> H \<and> a \<notin> G then 1 else 0)" for a
  proof -
    have "h a = 0" if g: "a \<in> G"
    proof -
      have "refs h G ow a = 0" by (rule owned_group [OF o g])
      then show ?thesis by (simp add: refs_def)
    qed
    then show ?thesis using h [of a] H by (auto simp: le_Suc_eq)
  qed
  have r: "0 < refs h G ow a" if "a \<in> H" "a \<notin> G" for a using h1 [of a] that by (simp add: refs_def)
  show "\<exists>f. file_at w a = Some f" if "a \<in> H" "\<not> is_group w a"
    using owned_file_at [OF o r] that G by blast
  show "\<exists>d f. group_domain w g = Some d \<and> file_at w d = Some f \<and> filepath_name f \<noteq> None" if "g \<in> H" "is_group w g"
  proof -
    have g: "g \<in> G" using that G by blast
    from owned_group_domain [OF o g] obtain d where d: "ow g = Some d" "group_domain w g = Some d" by auto
    from owned_file_at [OF o owned_owner [OF o g d(1)]] d show ?thesis by blast
  qed
  show "ref_count f = (if a \<in> H then 1 else 0) + card {g \<in> H. group_domain w g = Some a}"
    if a: "a \<in> H \<or> (\<exists>g \<in> H. group_domain w g = Some a)" and f: "file_at w a = Some f"
  proof -
    have ng: "a \<notin> G"
    proof
      assume "a \<in> G"
      then obtain ob where "objects w a = Some ob" "obj_type ob = H5I_GROUP" by (rule owned_group [OF o])
      with f show False by (auto simp: file_at_def split: object_union.splits)
    qed
    have "0 < refs h G ow a"
      using a r ng owned_owner [OF o] none owned_group_domain(1) [OF o] by (metis option.distinct(1))
    from owned_file_at [OF o this] f have "ref_count f = refs h G ow a" by auto
    then show ?thesis using ng h1 [of a] by (simp add: refs_def card)
  qed
  show "a \<in> H \<or> (\<exists>g \<in> H. group_domain w g = Some a)" if "\<not> lk" "objects w a \<noteq> None"
  proof (rule ccontr)
    assume n: "\<not> (a \<in> H \<or> (\<exists>g \<in> H. group_domain w g = Some a))"
    then have e: "{g \<in> G. ow g = Some a} = {}" using card [of a] by auto
    have "refs h G ow a = 0" using n h1 [of a] unfolding refs_def e by simp
    moreover have "a \<notin> G" using n H by blast
    ultimately show False using that owned_slot [OF o refl, of a] by (auto simp: slot_def)
  qed
qed

lemma session_from_nothing:
  assumes "well_behaved env" and "nothing_open env w" and "leak_or_alloc lk env"
  shows "\<exists>H w'. session (Suc fuel) env cs {} w = Some (H, w') \<and> holds lk env H w'"
proof -
  have "holds lk env {} w" using assms(2) by (intro holds_empty) (simp_all add: nothing_open_def)
  then show ?thesis by (rule session_holds [OF assms(1,3)])
qed

end
