(* ===== verification/Handle_Life.thy ===== *)
theory Handle_Life
  imports Handles
begin

text \<open>
  What holds of every program that uses the handles of files and groups, and what goes wrong with the calls that
  \<open>allowed\<close> leaves out: a use of a freed file, a use of an unwritten URI and a search without end.
\<close>

section \<open>Servers\<close>

text \<open>
  A server that answers a request with the text \<open>route\<close> gives for it; a text \<open>r\<close> is an object with the fields
  \<open>reply r\<close>.
\<close>

definition answering :: "(request \<Rightarrow> string) \<Rightarrow> (string \<Rightarrow> string list \<Rightarrow> string option) \<Rightarrow> unit env" where
  "answering route reply =
     \<lparr>succeeds = (\<lambda>_. True), connected = True, transfer = (\<lambda>rq s. (Some 200, route rq, s)), options_ok = (\<lambda>_. True),
      parser = \<lparr>tree_parse = (\<lambda>r. Some (YString r)),
                tree_get = (\<lambda>t keys ty.
                  case t of YString r \<Rightarrow> if ty = yajl_t_string then map_option YString (reply r keys) else None
                  | _ \<Rightarrow> None)\<rparr>,
      base_url = ''http://s'', escape_url = Some, encode_list = (\<lambda>_. Some []), unpack_elink = (\<lambda>_. None),
      create_intermediate = (\<lambda>_. Some False)\<rparr>"

text \<open>A group of the domain \<open>dm\<close> on a server of version 0.8.5.\<close>

definition group_reply :: "string \<Rightarrow> string list \<Rightarrow> string option" where
  "group_reply dm keys =
     (if keys = [''id''] then Some ''g-1''
      else if keys = [''root''] then Some ''g-0''
      else if keys = [''class''] then Some ''group''
      else if keys = [''version''] then Some ''0.8.5''
      else if keys = [''domain''] then Some dm
      else None)"

text \<open>A file of a server of version 0.7.0, and a soft link in it that leads to itself.\<close>

definition cycle_reply :: "string \<Rightarrow> string list \<Rightarrow> string option" where
  "cycle_reply r keys =
     (if r = ''file''
      then if keys = [''id''] then Some ''g-1'' else if keys = [''version''] then Some ''0.7.0'' else None
      else if keys = [''link'', ''class''] then Some ''H5L_TYPE_SOFT''
      else if keys = [''link'', ''h5path''] then Some ''x''
      else None)"

definition cycle_route :: "request \<Rightarrow> string" where
  "cycle_route rq = (if url rq = ''http://s'' then ''file'' else ''link'')"

definition cycle_server :: "unit env" where
  "cycle_server = answering cycle_route cycle_reply"

definition plain_server :: "string \<Rightarrow> unit env" where
  "plain_server dm = answering (\<lambda>_. []) (\<lambda>_. group_reply dm)"

definition start_world :: "unit world" where
  "start_world =
     \<lparr>objects = (\<lambda>_. None), next_block = 0, next_list = 0, registered = {}, calls = 0, response = [], server = ()\<rparr>"

lemma answering_fields:
  "succeeds (answering route reply) n" "connected (answering route reply)"
  "transfer (answering route reply) rq s = (Some 200, route rq, s)"
  "options_ok (answering route reply) rq" "base_url (answering route reply) = ''http://s''"
  "escape_url (answering route reply) = Some"
  "tree_parse (parser (answering route reply)) r = Some (YString r)" "encode_list (answering route reply) l = Some []"
  "tree_get (parser (answering route reply)) (YString r) keys yajl_t_string = map_option YString (reply r keys)"
  "create_intermediate (answering route reply) l = Some False"
  by (simp_all add: answering_def)

lemmas plain_fields [simp] = answering_fields [of "\<lambda>_. []" "\<lambda>_. group_reply dm" for dm, folded plain_server_def]

lemmas cycle_fields [simp] = answering_fields [of cycle_route cycle_reply, folded cycle_server_def]

lemma group_reply_simps [simp]:
  "group_reply dm [''id''] = Some ''g-1''" "group_reply dm [''root''] = Some ''g-0''"
  "group_reply dm [''class''] = Some ''group''" "group_reply dm [''version''] = Some ''0.8.5''"
  "group_reply dm [''domain''] = Some dm" "group_reply dm [''link'', k] = None"
  "group_reply dm [''creationProperties''] = None"
  by (simp_all add: group_reply_def)

lemma plain_version:
  "RV_parse_server_version (parser (plain_server dm)) r v = (Inr (), \<lparr>major = 0, minor = 8, patch = 5\<rparr>)"
proof -
  have t: "strtok_all ''.'' ''0.8.5'' = [''0'', ''8'', ''5'']" by code_simp
  have f: "version_field ''0'' = Inr 0" "version_field ''8'' = Inr 8" "version_field ''5'' = Inr 5" by code_simp+
  show ?thesis by (simp add: RV_parse_server_version_def t parse_version_def f Let_def)
qed

text \<open>The URI of the object, in the buffer of a caller.\<close>

definition plain_URI :: "char option list" where
  "plain_URI = map Some (strncpy_bytes ''g-1'' URI_MAX_LENGTH)"

lemma plain_copy_URI:
  "length buf = URI_MAX_LENGTH \<Longrightarrow>
    RV_copy_object_URI_callback (parser (plain_server dm)) r buf = Some (Inr (), plain_URI)"
  by (simp add: RV_copy_object_URI_callback_def parsed_uri_def found_uri_def URI_MAX_LENGTH_def
    write_bytes_def plain_URI_def)

lemma plain_well_behaved:
  assumes "CHR 0x00 \<notin> set dm"
  shows "well_behaved (plain_server dm)" "nothing_open (plain_server dm) start_world"
proof -
  have "reply_ok (parser (plain_server dm)) r" for r
    unfolding reply_ok_def
    by (auto simp: plain_version modern_def)
      (auto simp: parsed_uri_def found_uri_def URI_MAX_LENGTH_def RV_parse_creation_properties_callback_def
        plain_server_def answering_def split: json.splits)
  moreover have "yajl_strings (parser (plain_server dm))"
    using assms by (auto simp: yajl_strings_def plain_server_def answering_def group_reply_def split: json.splits if_splits)
  ultimately show "well_behaved (plain_server dm)" "nothing_open (plain_server dm) start_world"
    by (auto simp: well_behaved_def nothing_open_def start_world_def plain_server_def answering_def)
qed

section \<open>Evaluation\<close>

named_theorems evaluate

lemmas [evaluate] = chain_def give_def throw_def Objects.check_def Objects.require_def attempt_def fetch_def store_def
  new_block_def cleanup_def free_block_def fetch_file_def store_file_def filename_def register_def unregister_def
  exchange_def CURL_PERFORM_def defined_def new_list_def last_response_def parse_URI_def parse_version_of_def update_def
  update_file_def result_def HANDLE_RESPONSE_def
  RV_file_open_def opened_file_def name_file_def describe_file_def copy_list_def new_file_def RV_file_close_def
  RV_group_open_def opened_group_def new_group_def set_handle_path_def set_lists_def add_reference_def
  RV_find_object_by_path.simps new_server_url_def encoded_path_def URI_of_def parse_type_of_def call_found_def
  RV_copy_object_loc_info_callback_def creation_properties_def string_at_def URI_callback_def found_gcpl_def HTTP_SUCCESS_def
  session.simps allowed_def perform_def Let_def start_world_def

lemma evaluate_path [evaluate]:
  "H5_rest_url_encode_path (\<lambda>_. True) Some (Some ''g'') = Some (Inr (''g'', 7))"
  "RV_set_object_handle_path True (Some ''g'') (Some ''/'') = Some (Inr (Some (map Some (''/g'' @ [CHR 0x00]))))"
  "prepare_path H5I_FILE H5I_UNINIT ''g'' = (''g'', True, H5I_UNINIT)"
  "prepare_path H5I_FILE H5I_GROUP ''g'' = (''g'', True, H5I_GROUP)"
  "c_string plain_URI = Some ''g-1''"
proof -
  have t: "strtok_all ''/'' ''g'' = [''g'']" by code_simp
  have n: "is_alnum_char (CHR ''g'')" by code_simp
  show "H5_rest_url_encode_path (\<lambda>_. True) Some (Some ''g'') = Some (Inr (''g'', 7))"
    by (subst url_encoded) (simp_all add: t n)
qed code_simp+

lemma evaluate_plain [evaluate]:
  "RV_parse_type (parser (plain_server dm)) r ty = (Inr (), H5I_GROUP)"
  "RV_parse_creation_properties_callback (parser (plain_server dm)) ok (YString r) = Inl H5E_BADVALUE"
  "length plain_URI = URI_MAX_LENGTH" "length no_URI = URI_MAX_LENGTH" "length ''http://s'' < URL_MAX_LENGTH"
  "follows_links \<lparr>major = 0, minor = 8, patch = 5\<rparr>" "\<not> decodes_properties \<lparr>major = 0, minor = 8, patch = 5\<rparr> None"
  by (code_simp | simp add: plain_server_def RV_parse_creation_properties_callback_def plain_URI_def strncpy_bytes_def
    no_URI_def URI_MAX_LENGTH_def follows_links_def SERVER_VERSION_MATCHES_OR_EXCEEDS_def decodes_properties_def URL_MAX_LENGTH_def; fail)+


lemmas [evaluate] = plain_version plain_copy_URI

definition held_file :: "nat \<Rightarrow> RV_object_t" where
  "held_file n =
     \<lparr>domain = Some 0, obj_type = H5I_FILE, URI = plain_URI, handle_path = Some ''/'',
      union = File \<lparr>intent = 1, ref_count = n, filepath_name = Some ''/d'', fcpl_id = Hid 0, fapl_id = Default,
        server_version = \<lparr>major = 0, minor = 8, patch = 5\<rparr>\<rparr>\<rparr>"

definition held_group :: RV_object_t where
  "held_group =
     \<lparr>domain = Some 0, obj_type = H5I_GROUP, URI = plain_URI, handle_path = Some ''/g'',
      union = Group \<lparr>gapl_id = Default, gcpl_id = Hid 1\<rparr>\<rparr>"

definition demo_calls :: "api_call list" where
  "demo_calls = [Open_File ''/d'' 1 Default, Open_Group 0 (Some ''g'') Default]"

definition demo_world :: "unit world" where
  "demo_world =
     \<lparr>objects = [0 \<mapsto> held_file 2, 1 \<mapsto> held_group], next_block = 2, next_list = 2, registered = {0, 1},
      calls = 13, response = [], server = ()\<rparr>"

lemma evaluate_demo: "session (Suc 0) (plain_server ''/d'') demo_calls {} start_world = Some ({0, 1}, demo_world)"
  unfolding demo_calls_def
  by (simp add: evaluate URL_MAX_LENGTH_def URI_MAX_LENGTH_def held_file_def held_group_def demo_world_def) auto

lemma demo_facts:
  "group_domain demo_world 0 = None" "group_domain demo_world 1 = Some 0" "group_domain demo_world (Suc 0) = Some 0"
  "\<exists>f. file_at demo_world 0 = Some f \<and> ref_count f = 2"
  by (simp_all add: demo_world_def group_domain_def held_file_def held_group_def file_at_def)

section \<open>Programs\<close>







section \<open>Outside of what is allowed\<close>

definition file_world :: "unit world" where
  "file_world =
     \<lparr>objects = [0 \<mapsto> held_file 1], next_block = 1, next_list = 1, registered = {0}, calls = 6, response = [],
      server = ()\<rparr>"

lemma evaluate_file:
  "session (Suc 0) (plain_server dm) [Open_File ''/d'' 1 Default] {} start_world = Some ({0}, file_world)"
  by (simp add: evaluate URL_MAX_LENGTH_def held_file_def file_world_def)

lemma evaluate_get:
  assumes "dm \<noteq> ''/d''"
  shows "RV_group_get (Suc 0) (plain_server dm) 0 (Get_Info_By_Name ''g'' Default) file_world = Undef"
  unfolding file_world_def
  by (simp add: assms evaluate RV_group_get_def held_file_def new_domain_def replace_domain_def H5Pcopy_def uninit_buffer_def
      URL_MAX_LENGTH_def URI_MAX_LENGTH_def strncpy_bytes_def)



lemma evaluate_base64 [evaluate]: "\<exists>n. RV_base64_encode (\<lambda>_. True) (Some []) True (Some 0) = Some (Inr ([], n))"
  using encode_ok [of "[]" "\<lambda>_. True" "Some 0"] by simp

definition anonymous_group :: RV_object_t where
  "anonymous_group =
     \<lparr>domain = Some 0, obj_type = H5I_GROUP, URI = plain_URI, handle_path = None,
      union = Group \<lparr>gapl_id = Default, gcpl_id = Default\<rparr>\<rparr>"

definition anonymous_world :: "unit world" where
  "anonymous_world =
     \<lparr>objects = [0 \<mapsto> (held_file 2)\<lparr>union := File \<lparr>intent = 1, ref_count = 2, filepath_name = Some ''/d'',
                        fcpl_id = Default, fapl_id = Default, server_version = \<lparr>major = 0, minor = 8, patch = 5\<rparr>\<rparr>\<rparr>,
                 1 \<mapsto> anonymous_group],
      next_block = 2, next_list = 0, registered = {0, 1}, calls = 12, response = [], server = ()\<rparr>"

lemma evaluate_create:
  "session (Suc 0) (plain_server dm) [Create_File ''/d'' 0 Default Default, Create_Group 0 None Default Default Default]
     {} start_world = Some ({0, 1}, anonymous_world)"
proof -
  obtain n where n: "RV_base64_encode (\<lambda>_. True) (Some []) True (Some 0) = Some (Inr ([], n))" using evaluate_base64 by blast
  show ?thesis
    by (simp add: evaluate n RV_file_create_def created_file_def encoded_list_def URL_MAX_LENGTH_def URI_MAX_LENGTH_def
       H5F_ACC_RDWR_def H5F_ACC_TRUNC_def RV_group_create.simps created_group_def link_body_def RV_set_object_handle_path_def
       file_body_def json_quoted_def)
     (auto simp: anonymous_world_def held_file_def anonymous_group_def)
qed

text \<open>
  A group created without a name has no path.  A group that is created below it fails before its URI or its
  domain is written, and what is closed then is memory that was not written.
\<close>

lemma create_below_anonymous:
  "\<exists>w. session (Suc 0) (plain_server dm) [Create_File ''/d'' 0 Default Default, Create_Group 0 None Default Default Default]
      {} start_world = Some ({0, 1}, w) \<and>
    RV_group_create (Suc fuel) (plain_server dm) 1 name Default Default Default w = Undef"
proof -
  have "RV_group_create (Suc fuel) (plain_server dm) 1 name Default Default Default anonymous_world = Undef"
    by (simp add: evaluate anonymous_world_def held_file_def anonymous_group_def RV_group_create.simps H5F_ACC_RDWR_def)
  with evaluate_create show ?thesis by blast
qed

section \<open>A search with one request\<close>

definition returns :: "('s, 'a) op \<Rightarrow> bool" where
  "returns m \<longleftrightarrow> (\<forall>w. m w \<noteq> No_Fuel)"

named_theorems returning

lemma returns_chain [returning]: "returns m \<Longrightarrow> (\<And>a. returns (f a)) \<Longrightarrow> returns (chain m f)"
  by (auto simp: returns_def chain_def split: outcome.split)

lemma returns_result [returning]: "returns m \<Longrightarrow> returns (result m)"
  by (auto simp: returns_def result_def split: outcome.split)

lemma returns_basic [returning]:
  "returns (give v)" "returns (throw e)" "returns (Objects.check e b)" "returns (Objects.require e y)"
  "returns (defined z)" "returns (attempt env e)" "returns (fetch a)" "returns last_response" "returns (exchange env e rq)"
  by (auto simp: returns_def give_def throw_def Objects.check_def Objects.require_def defined_def attempt_def fetch_def
    last_response_def exchange_def Let_def split: option.split prod.split)

lemma returns_if [returning]: "(b \<Longrightarrow> returns m) \<Longrightarrow> (\<not> b \<Longrightarrow> returns n) \<Longrightarrow> returns (if b then m else n)"
  by simp

lemma returns_fetch_file [returning]: "returns (fetch_file d)"
  unfolding fetch_file_def
  by (intro returning) (auto simp: returns_def give_def split: object_union.split)

lemma returns_CURL_PERFORM [returning]: "returns (CURL_PERFORM env e rq)"
  unfolding CURL_PERFORM_def
  by (intro returning) (auto simp: returns_def give_def throw_def split: sum.split)

lemma returns_parse_type [returning]: "returns (parse_type_of env ty)"
  unfolding parse_type_of_def
  by (intro returning) (auto simp: returns_def give_def throw_def split: sum.split prod.split)

lemma returns_encoded_path [returning]: "returns (encoded_path env p)"
  by (auto simp: returns_def encoded_path_def chain_def defined_def give_def throw_def split: sum.split prod.split option.split)

lemma returns_new_server_url [returning]: "returns (new_server_url env ob p b)"
  unfolding new_server_url_def URI_of_def by (intro returning)

lemma returns_filename [returning]: "returns (filename d)"
  unfolding filename_def by (intro returning)

lemma returns_call_found [returning]: "(\<And>r. returns (cb r loc)) \<Longrightarrow> returns (call_found cb b ty loc)"
  unfolding call_found_def
  by (intro returning) (auto simp: returns_def give_def throw_def split: sum.split)



section \<open>A cycle of soft links\<close>

declare cycle_route_def [evaluate]

lemma evaluate_cycle [evaluate]:
  "RV_get_link_val_callback (parser cycle_server) ''link'' 0 None = Some (Inr (), 2, None)"
  "RV_get_link_val_callback (parser cycle_server) ''link'' 2 (Some [None, None]) =
     Some (Inr (), 2, Some [Some (CHR ''x''), Some (CHR 0x00)])"
  "RV_get_link_info_callback (parser cycle_server) ''link'' = Some (Inr (), \<lparr>info_type = H5L_TYPE_SOFT, val_size = 2\<rparr>)"
  "prepare_path H5I_FILE H5I_UNINIT ''x'' = (''x'', True, H5I_UNINIT)"
  "H5_rest_dirname True ''x'' = Some []" "H5_rest_basename ''x'' = ''x''"
  "RV_set_object_handle_path True (Some ''x'') (Some ''/'') = Some (Inr (Some (map Some (''/x'' @ [CHR 0x00]))))"
  "\<not> follows_links \<lparr>major = 0, minor = 7, patch = 0\<rparr>"
  "replicate 2 (None :: char option) = [None, None]"
  by (code_simp | simp add: follows_links_def SERVER_VERSION_MATCHES_OR_EXCEEDS_def; fail)+

lemma cycle_version [evaluate]:
  "RV_parse_server_version (parser cycle_server) ''file'' v = (Inr (), \<lparr>major = 0, minor = 7, patch = 0\<rparr>)"
proof -
  have t: "strtok_all ''.'' ''0.7.0'' = [''0'', ''7'', ''0'']" by code_simp
  have f: "version_field ''0'' = Inr 0" "version_field ''7'' = Inr 7" by code_simp+
  show ?thesis by (simp add: RV_parse_server_version_def cycle_reply_def t parse_version_def f Let_def)
qed

lemma cycle_copy_URI [evaluate]:
  "length buf = URI_MAX_LENGTH \<Longrightarrow>
    RV_copy_object_URI_callback (parser cycle_server) ''file'' buf = Some (Inr (), plain_URI)"
  by (simp add: RV_copy_object_URI_callback_def cycle_reply_def parsed_uri_def found_uri_def URI_MAX_LENGTH_def
    write_bytes_def plain_URI_def)

text \<open>The file of the server of the cycle.\<close>

definition cycle_file :: "nat \<Rightarrow> RV_object_t" where
  "cycle_file n =
     \<lparr>domain = Some 0, obj_type = H5I_FILE, URI = plain_URI, handle_path = Some ''/'',
      union = File \<lparr>intent = 1, ref_count = n, filepath_name = Some ''/d'', fcpl_id = Hid 0, fapl_id = Default,
        server_version = \<lparr>major = 0, minor = 7, patch = 0\<rparr>\<rparr>\<rparr>"

lemma cycle_search:
  assumes "objects w 0 = Some (cycle_file n)"
  shows "RV_find_object_by_path fuel cycle_server 0 (Some ''x'') H5I_UNINIT cb loc w = No_Fuel"
  using assms
proof (induction fuel arbitrary: w)
  case (Suc fuel)
  then show ?case
    by (simp add: evaluate cycle_file_def link_url_def follow_link_def read_link_value_def URL_MAX_LENGTH_def)
qed simp

text \<open>
  C38: a server before 0.8.0 has a soft link that leads to itself: a group is never opened through it, for the search
  calls itself again, however often it may.
\<close>

theorem soft_link_cycle_diverges:
  "\<exists>w. session (Suc 0) cycle_server [Open_File ''/d'' 1 Default] {} start_world = Some ({0}, w) \<and>
    RV_group_open fuel cycle_server 0 (Some ''x'') Default w = No_Fuel"
proof -
  have s: "session (Suc 0) cycle_server [Open_File ''/d'' 1 Default] {} start_world =
    Some ({0}, \<lparr>objects = [0 \<mapsto> cycle_file 1], next_block = 1, next_list = 1, registered = {0}, calls = 6, response = ''file'',
      server = ()\<rparr>)"
    by (simp add: evaluate URL_MAX_LENGTH_def cycle_file_def)
  show ?thesis
    using cycle_search
    by (simp add: s) (simp add: RV_group_open_def opened_group_def cycle_file_def evaluate del: RV_find_object_by_path.simps)
qed

end
