(* ===== verification/Spec2Isabelle.thy ===== *)
theory Spec2Isabelle
  imports Hash_Table Thread_Pool Read_Cache Mem_Buffer Base64 Paths Responses Dataspace Selection Node_Split Transfers Object_References Link_Visits Datatype_Roundtrip Creation_Roundtrip Handle_Life
begin

text \<open>
  Verification of the REST VOL connector: a plugin of HDF5, in \<open>src/vol-rest/src\<close>, that turns the calls of the
  HDF5 API into HTTP requests to one or several HSDS servers, with a read that is divided among the servers, a pool
  of threads for post-processing and a read cache.

  Parts and theories (files are those of \<open>src/vol-rest/src\<close>):

  \<^item> \<open>Prelude\<close>: widths of integers, pieces of the C library on strings (\<open>strtok\<close>, \<open>atoi\<close>, \<open>%d\<close>), lemmas.
  \<^item> \<open>Hash_Table\<close>: \<open>util/rest_vol_hash_table.c\<close>, chains in prime-sized arrays; insertion and removal against a map,
    keys freed once, iteration.  Its contract is the locale \<open>key_ops\<close>.
  \<^item> \<open>Thread_Pool\<close>: \<open>thread_pool.c\<close> as a step relation of all interleavings, with the queue (locale
    \<open>bounded_queue\<close>) and the barrier on which \<open>RV_dataset_read\<close> waits.
  \<^item> \<open>Read_Cache\<close>: \<open>h5read_cache.c\<close>, a doubly linked list in a heap, refined to a list (locale \<open>refined_store\<close>).
  \<^item> \<open>Mem_Buffer\<close>: \<open>util/rest_vol_mem.c\<close> and the cURL callbacks of \<open>rest_vol.c\<close> (locale \<open>receiver\<close>).
  \<^item> \<open>Base64\<close>, \<open>Paths\<close>: encoder, decoder, names and URL encoding of \<open>rest_vol.c\<close>.
  \<^item> \<open>Responses\<close>: response codes, the response buffer and the callbacks that read a response; the JSON parser yajl is
    an argument with its tree as a datatype.
  \<^item> \<open>Text_Buffer\<close>, \<open>Dataspace\<close>, \<open>Selection\<close>: growing character buffers, dataspaces and selections as JSON,
    the contiguity test (\<open>rest_vol.c\<close>, \<open>rest_vol_dataset.c\<close>).
  \<^item> \<open>Node_Split\<close>, \<open>Transfers\<close>: how \<open>RV_dataset_read\<close> divides a selection among servers, the loop over the
    transfers with its retries, and the merge of the parts.
  \<^item> \<open>Links\<close>, \<open>Link_Visits\<close>: responses about links, tables of links, and the traversals of \<open>H5Lvisit\<close> and
    \<open>H5Ovisit\<close> (\<open>rest_vol_link.c\<close>, \<open>rest_vol_object.c\<close>; locale \<open>visited_set\<close>).
  \<^item> \<open>Datatypes\<close>, \<open>Datatype_JSON\<close>, \<open>Datatype_Parse\<close>, \<open>Datatype_Roundtrip\<close>: \<open>rest_vol_datatype.c\<close>: the need for
    conversions and their buffers, datatypes printed as JSON and read back.
  \<^item> \<open>Creation_Print\<close>, \<open>Creation_Text\<close>, \<open>Creation_Parse\<close>, \<open>Creation_Roundtrip\<close>: the creation properties of a
    dataset (\<open>rest_vol_dataset.c\<close>): printed into a growing buffer, exactly when its blocks are overrun, and read back
    as the settings they were.
  \<^item> \<open>Object_References\<close>: references to objects as slots of 48 bytes (\<open>rest_vol_dataset.c\<close>).
  \<^item> \<open>Objects\<close>, \<open>Object_Search\<close>, \<open>Group_Objects\<close>: files (\<open>rest_vol_file.c\<close>), the search by a path (\<open>rest_vol.c\<close>) and
    groups (\<open>rest_vol_group.c\<close>) as functions on a state with the blocks of the objects, the table of registered
    objects, the last response and the server.
  \<^item> \<open>Object_Logic\<close>, \<open>Object_Life\<close>, \<open>Group_Life\<close>: weakest preconditions for these functions, the invariant on
    references (\<open>owned\<close>), and what every operation does to it.
  \<^item> \<open>Handles\<close>, \<open>Handle_Life\<close>: programs as sequences of calls: no use of a freed object, exact reference counts, no
    leaks; and what goes wrong outside of what is allowed.

  How the model stands to the code.  A C string is the list of its characters before the NUL; a buffer is a list of
  characters of which some may be unwritten (\<open>None\<close>).  A result \<open>None\<close> (\<open>Undef\<close> for objects) is a write outside of
  a block, a read of unwritten memory or a use of a freed block; \<open>Inl\<close> (\<open>Err\<close>) is an error return with its minor
  error number, \<open>Inr\<close> (\<open>Val\<close>) a value.  Whether an allocation succeeds is an argument.  Of HDF5, cURL and yajl only
  what the code relies on is used: their calls are arguments of the definitions that make them, and what is
  documented of them are named hypotheses (\<open>looks_up\<close>, \<open>gets\<close>, \<open>yajl_strings\<close>, \<open>well_behaved\<close>).

  Bounds and fuel.  Machine integers keep their width where a wrap-around can matter; lengths are bounded by the
  hypotheses of the properties (\<open>2 ^ 31\<close> for what \<open>snprintf\<close> returns, \<open>2 ^ 62\<close> for a buffer).  The recursions with
  fuel are the table of links of a group, for which the number of ids in the responses is enough, and the search for
  an object, for which one step is enough with a server that follows links; with an older server no fuel is enough
  for a cycle of soft links, which is a property of its own.  The loop over the transfers has fuel for its turns.

  Not modelled: the set-up of the connector and the authentication, the entry points for attributes, datasets,
  committed datatypes, links and objects beyond the parts named above, which wrap one request each, the debug output,
  the server plugin in \<open>src/H5Plugin_Xrd\<close> (C++), tests, examples and build files.
\<close>

end
